(* ===== verification/Prelude.thy ===== *)
theory Prelude
  imports Main "HOL-Library.Word"
begin

text \<open>
  Shared vocabulary of the development: bytes and byte strings, the parts of the Rust
  standard library that the modelled code calls on strings and slices, panics as values,
  reachable states of a step relation, and the contracts (locales) under which every
  component lifts a one-step invariant to whole runs.
\<close>

section \<open>Types\<close>

text \<open>
  A byte is a \<open>char\<close> (8 bits), so a Rust \<open>&[u8]\<close> and the UTF-8 bytes of a Rust \<open>&str\<close>
  are both lists of \<open>char\<close>, and a literal \<open>''abc''\<close> is the byte string of that text.
\<close>

type_synonym bytes = "char list"
type_synonym u64 = "64 word"
type_synonym headers = "(bytes \<times> bytes) list"

text \<open>A computation that may panic: slicing a \<open>&str\<close> off a character boundary, or an
  \<open>unwrap\<close> of \<open>None\<close>.\<close>

datatype 'a rust = Panic | Ret 'a

fun rust_bind :: "'a rust \<Rightarrow> ('a \<Rightarrow> 'b rust) \<Rightarrow> 'b rust" where
  "rust_bind Panic f = Panic"
| "rust_bind (Ret x) f = f x"

fun rust_map :: "('a \<Rightarrow> 'b) \<Rightarrow> 'a rust \<Rightarrow> 'b rust" where
  "rust_map f Panic = Panic"
| "rust_map f (Ret x) = Ret (f x)"

named_theorems model_defs \<open>definitions unfolded when an operation is executed symbolically\<close>
named_theorems pres \<open>one-step preservation lemmas\<close>

section \<open>Bytes and strings\<close>

abbreviation byte_val :: "char \<Rightarrow> nat" where
  "byte_val c \<equiv> (of_char c :: nat)"

definition to_ascii_lower :: "char \<Rightarrow> char" where
  "to_ascii_lower c =
     (if 65 \<le> byte_val c \<and> byte_val c \<le> 90 then char_of (byte_val c + 32) else c)"

definition to_ascii_upper :: "char \<Rightarrow> char" where
  "to_ascii_upper c =
     (if 97 \<le> byte_val c \<and> byte_val c \<le> 122 then char_of (byte_val c - 32) else c)"

lemma to_ascii_lower_table [simp]:
  "to_ascii_lower CHR ''A'' = CHR ''a''"
  "to_ascii_lower CHR ''B'' = CHR ''b''"
  "to_ascii_lower CHR ''C'' = CHR ''c''"
  "to_ascii_lower CHR ''D'' = CHR ''d''"
  "to_ascii_lower CHR ''E'' = CHR ''e''"
  "to_ascii_lower CHR ''F'' = CHR ''f''"
  "to_ascii_lower CHR ''G'' = CHR ''g''"
  "to_ascii_lower CHR ''H'' = CHR ''h''"
  "to_ascii_lower CHR ''I'' = CHR ''i''"
  "to_ascii_lower CHR ''J'' = CHR ''j''"
  "to_ascii_lower CHR ''K'' = CHR ''k''"
  "to_ascii_lower CHR ''L'' = CHR ''l''"
  "to_ascii_lower CHR ''M'' = CHR ''m''"
  "to_ascii_lower CHR ''N'' = CHR ''n''"
  "to_ascii_lower CHR ''O'' = CHR ''o''"
  "to_ascii_lower CHR ''P'' = CHR ''p''"
  "to_ascii_lower CHR ''Q'' = CHR ''q''"
  "to_ascii_lower CHR ''R'' = CHR ''r''"
  "to_ascii_lower CHR ''S'' = CHR ''s''"
  "to_ascii_lower CHR ''T'' = CHR ''t''"
  "to_ascii_lower CHR ''U'' = CHR ''u''"
  "to_ascii_lower CHR ''V'' = CHR ''v''"
  "to_ascii_lower CHR ''W'' = CHR ''w''"
  "to_ascii_lower CHR ''X'' = CHR ''x''"
  "to_ascii_lower CHR ''Y'' = CHR ''y''"
  "to_ascii_lower CHR ''Z'' = CHR ''z''"
  by (simp_all add: to_ascii_lower_def char_of_def bit_Suc_0_iff)

lemma to_ascii_upper_table [simp]:
  "to_ascii_upper CHR ''a'' = CHR ''A''"
  "to_ascii_upper CHR ''b'' = CHR ''B''"
  "to_ascii_upper CHR ''c'' = CHR ''C''"
  "to_ascii_upper CHR ''d'' = CHR ''D''"
  "to_ascii_upper CHR ''e'' = CHR ''E''"
  "to_ascii_upper CHR ''f'' = CHR ''F''"
  "to_ascii_upper CHR ''g'' = CHR ''G''"
  "to_ascii_upper CHR ''h'' = CHR ''H''"
  "to_ascii_upper CHR ''i'' = CHR ''I''"
  "to_ascii_upper CHR ''j'' = CHR ''J''"
  "to_ascii_upper CHR ''k'' = CHR ''K''"
  "to_ascii_upper CHR ''l'' = CHR ''L''"
  "to_ascii_upper CHR ''m'' = CHR ''M''"
  "to_ascii_upper CHR ''n'' = CHR ''N''"
  "to_ascii_upper CHR ''o'' = CHR ''O''"
  "to_ascii_upper CHR ''p'' = CHR ''P''"
  "to_ascii_upper CHR ''q'' = CHR ''Q''"
  "to_ascii_upper CHR ''r'' = CHR ''R''"
  "to_ascii_upper CHR ''s'' = CHR ''S''"
  "to_ascii_upper CHR ''t'' = CHR ''T''"
  "to_ascii_upper CHR ''u'' = CHR ''U''"
  "to_ascii_upper CHR ''v'' = CHR ''V''"
  "to_ascii_upper CHR ''w'' = CHR ''W''"
  "to_ascii_upper CHR ''x'' = CHR ''X''"
  "to_ascii_upper CHR ''y'' = CHR ''Y''"
  "to_ascii_upper CHR ''z'' = CHR ''Z''"
  by (simp_all add: to_ascii_upper_def char_of_def bit_Suc_0_iff)

lemma to_ascii_case_hyphen [simp]:
  "to_ascii_upper CHR ''-'' = CHR ''-''"
  "to_ascii_upper CHR ''_'' = CHR ''_''"
  "to_ascii_lower CHR ''-'' = CHR ''-''"
  "to_ascii_lower CHR ''_'' = CHR ''_''"
  by (simp_all add: to_ascii_upper_def to_ascii_lower_def)

definition eq_ignore_ascii_case :: "bytes \<Rightarrow> bytes \<Rightarrow> bool" where
  "eq_ignore_ascii_case xs ys \<longleftrightarrow> map to_ascii_lower xs = map to_ascii_lower ys"

lemma eq_ignore_ascii_case_refl [simp]: "eq_ignore_ascii_case xs xs"
  by (simp add: eq_ignore_ascii_case_def)

text \<open>\<open>slice.split(|b| b == sep)\<close>: always at least one part.\<close>

fun split_on :: "'a \<Rightarrow> 'a list \<Rightarrow> 'a list list" where
  "split_on c [] = [[]]"
| "split_on c (x # xs) =
     (if x = c then [] # split_on c xs
      else (case split_on c xs of [] \<Rightarrow> [[x]] | p # ps \<Rightarrow> (x # p) # ps))"

lemma split_on_ne [simp]: "split_on c xs \<noteq> []"
  by (induction xs) (auto split: list.splits)

lemma split_on_no_sep: "c \<notin> set xs \<Longrightarrow> split_on c xs = [xs]"
  by (induction xs) auto

lemma split_on_append_sep:
  "c \<notin> set xs \<Longrightarrow> split_on c (xs @ c # ys) = xs # split_on c ys"
  by (induction xs) auto

lemma split_on_parts_no_sep: "p \<in> set (split_on c xs) \<Longrightarrow> c \<notin> set p"
  by (induction xs arbitrary: p) (force split: if_splits list.splits)+

text \<open>\<open>str.split_once(sep)\<close> and \<open>str.rsplit_once(sep)\<close>.\<close>

fun split_once :: "'a \<Rightarrow> 'a list \<Rightarrow> ('a list \<times> 'a list) option" where
  "split_once c [] = None"
| "split_once c (x # xs) =
     (if x = c then Some ([], xs) else map_option (\<lambda>(a, b). (x # a, b)) (split_once c xs))"

definition rsplit_once :: "'a \<Rightarrow> 'a list \<Rightarrow> ('a list \<times> 'a list) option" where
  "rsplit_once c xs = map_option (\<lambda>(a, b). (rev b, rev a)) (split_once c (rev xs))"

lemma split_once_None: "split_once c xs = None \<longleftrightarrow> c \<notin> set xs"
  by (induction xs) auto

lemma split_once_Some:
  "split_once c xs = Some (a, b) \<longleftrightarrow> xs = a @ c # b \<and> c \<notin> set a"
proof (induction xs arbitrary: a)
  case Nil
  then show ?case by simp
next
  case (Cons x xs)
  show ?case by (cases a) (auto simp: Cons.IH)
qed

lemma rsplit_once_None: "rsplit_once c xs = None \<longleftrightarrow> c \<notin> set xs"
  by (simp add: rsplit_once_def split_once_None)

lemma rsplit_once_Some:
  "rsplit_once c xs = Some (a, b) \<longleftrightarrow> xs = a @ c # b \<and> c \<notin> set b"
proof -
  have "rsplit_once c xs = Some (a, b) \<longleftrightarrow> split_once c (rev xs) = Some (rev b, rev a)"
    by (auto simp: rsplit_once_def)
  also have "\<dots> \<longleftrightarrow> rev xs = rev b @ c # rev a \<and> c \<notin> set b"
    by (simp add: split_once_Some)
  also have "\<dots> \<longleftrightarrow> xs = a @ c # b \<and> c \<notin> set b"
    by (metis append.assoc append_Cons append_Nil rev.simps(2) rev_append rev_rev_ident)
  finally show ?thesis .
qed

text \<open>\<open>iter().position(p)\<close>.\<close>

fun position :: "('a \<Rightarrow> bool) \<Rightarrow> 'a list \<Rightarrow> nat option" where
  "position p [] = None"
| "position p (x # xs) = (if p x then Some 0 else map_option Suc (position p xs))"

lemma position_None: "position p xs = None \<longleftrightarrow> (\<forall>x \<in> set xs. \<not> p x)"
  by (induction xs) auto

lemma position_Some:
  "position p xs = Some i \<Longrightarrow> i < length xs \<and> p (xs ! i) \<and> (\<forall>x \<in> set (take i xs). \<not> p x)"
proof (induction xs arbitrary: i)
  case Nil
  then show ?case by simp
next
  case (Cons x xs)
  then show ?case by (cases "p x") auto
qed

text \<open>\<open>slice.split_inclusive(p)\<close>: every part but possibly the last ends with the separator,
  and a separator at the very end opens no empty part.\<close>

fun split_inclusive :: "'a \<Rightarrow> 'a list \<Rightarrow> 'a list list" where
  "split_inclusive c [] = []"
| "split_inclusive c (x # xs) =
     (if x = c then [x] # split_inclusive c xs
      else (case split_inclusive c xs of [] \<Rightarrow> [[x]] | p # ps \<Rightarrow> (x # p) # ps))"

lemma concat_split_inclusive [simp]: "concat (split_inclusive c xs) = xs"
  by (induction xs) (auto split: list.splits)


lemma split_inclusive_ends:
  "p \<in> set (butlast (split_inclusive c xs)) \<Longrightarrow> p \<noteq> [] \<and> last p = c \<and> c \<notin> set (butlast p)"
proof (induction xs arbitrary: p)
  case Nil
  then show ?case by simp
next
  case (Cons x xs)
  then show ?case by (fastforce split: if_splits list.splits)
qed

section \<open>Numbers in text\<close>

text \<open>
  \<open>u8::from_str_radix(s, 16)\<close>: an optional leading \<open>+\<close>, at least one digit, and a value
  that fits a byte; \<open>None\<close> stands for the error.
\<close>

definition hex_digit :: "char \<Rightarrow> nat option" where
  "hex_digit c = (let n = byte_val c in
     if 48 \<le> n \<and> n \<le> 57 then Some (n - 48)
     else if 97 \<le> n \<and> n \<le> 102 then Some (n - 87)
     else if 65 \<le> n \<and> n \<le> 70 then Some (n - 55)
     else None)"

fun hex_value :: "nat \<Rightarrow> bytes \<Rightarrow> nat option" where
  "hex_value acc [] = Some acc"
| "hex_value acc (c # cs) =
     (case hex_digit c of
        None \<Rightarrow> None
      | Some d \<Rightarrow> if 16 * acc + d < 256 then hex_value (16 * acc + d) cs else None)"

definition u8_from_str_radix16 :: "bytes \<Rightarrow> nat option" where
  "u8_from_str_radix16 s =
     (case s of
        [] \<Rightarrow> None
      | c # cs \<Rightarrow> if c = CHR ''+'' then (if cs = [] then None else hex_value 0 cs) else hex_value 0 s)"

lemma hex_digit_less: "hex_digit c = Some d \<Longrightarrow> d < 16"
  by (auto simp: hex_digit_def Let_def split: if_splits)

lemma hex_value_less: "hex_value acc cs = Some n \<Longrightarrow> acc < 256 \<Longrightarrow> n < 256"
  by (induction acc cs rule: hex_value.induct) (auto split: option.splits if_splits)

lemma u8_from_str_radix16_less: "u8_from_str_radix16 s = Some n \<Longrightarrow> n < 256"
  by (auto simp: u8_from_str_radix16_def simp del: hex_value.simps
      split: list.splits if_splits dest: hex_value_less)

section \<open>UTF-8\<close>

text \<open>
  \<open>str::from_utf8\<close> accepts exactly the byte strings below; a character boundary is the end
  of the string or a byte that is not a continuation byte.
\<close>

definition is_cont :: "char \<Rightarrow> bool" where
  "is_cont c \<longleftrightarrow> 128 \<le> byte_val c \<and> byte_val c < 192"

definition in_range :: "nat \<Rightarrow> nat \<Rightarrow> char \<Rightarrow> bool" where
  "in_range lo hi c \<longleftrightarrow> lo \<le> byte_val c \<and> byte_val c \<le> hi"

fun utf8_valid :: "bytes \<Rightarrow> bool" where
  "utf8_valid [] = True"
| "utf8_valid (a # r) =
     (if in_range 0 127 a then utf8_valid r
      else if in_range 194 223 a then
        (case r of b # r' \<Rightarrow> is_cont b \<and> utf8_valid r' | _ \<Rightarrow> False)
      else if in_range 224 239 a then
        (case r of
           b # c # r' \<Rightarrow>
             (if byte_val a = 224 then in_range 160 191 b
              else if byte_val a = 237 then in_range 128 159 b else is_cont b)
             \<and> is_cont c \<and> utf8_valid r'
         | _ \<Rightarrow> False)
      else if in_range 240 244 a then
        (case r of
           b # c # d # r' \<Rightarrow>
             (if byte_val a = 240 then in_range 144 191 b
              else if byte_val a = 244 then in_range 128 143 b else is_cont b)
             \<and> is_cont c \<and> is_cont d \<and> utf8_valid r'
         | _ \<Rightarrow> False)
      else False)"

definition str_from_utf8 :: "bytes \<Rightarrow> bytes option" where
  "str_from_utf8 s = (if utf8_valid s then Some s else None)"

definition is_char_boundary :: "bytes \<Rightarrow> nat \<Rightarrow> bool" where
  "is_char_boundary s i \<longleftrightarrow>
     i = length s \<or> i = 0 \<or> (i < length s \<and> \<not> is_cont (s ! i))"

definition is_ascii :: "bytes \<Rightarrow> bool" where
  "is_ascii s \<longleftrightarrow> (\<forall>c \<in> set s. byte_val c < 128)"

lemma utf8_valid_ascii: "is_ascii s \<Longrightarrow> utf8_valid s"
  by (induction s) (auto simp: is_ascii_def in_range_def)

lemma is_char_boundary_ascii: "is_ascii s \<Longrightarrow> i \<le> length s \<Longrightarrow> is_char_boundary s i"
  unfolding is_char_boundary_def is_ascii_def is_cont_def
  by (metis le_neq_implies_less linorder_not_less nth_mem)

text \<open>Numbers in decimal: \<open>to_string\<close> and \<open>itoa\<close>.\<close>

fun decimal :: "nat \<Rightarrow> bytes" where
  "decimal n = (if n < 10 then [char_of (48 + n)] else decimal (n div 10) @ [char_of (48 + n mod 10)])"

declare decimal.simps [simp del]

definition decimal_int :: "int \<Rightarrow> bytes" where
  "decimal_int i = (if i < 0 then CHR ''-'' # decimal (nat (- i)) else decimal (nat i))"

text \<open>\<open>str.parse::<usize>()\<close>: decimal digits after an optional plus sign, below 2^64.\<close>

definition is_digit :: "char \<Rightarrow> bool" where
  "is_digit c \<longleftrightarrow> 48 \<le> byte_val c \<and> byte_val c \<le> 57"

definition digits_value :: "bytes \<Rightarrow> nat" where
  "digits_value s = foldl (\<lambda>n c. 10 * n + (byte_val c - 48)) 0 s"

definition parse_usize :: "bytes \<Rightarrow> nat option" where
  "parse_usize s =
     (let ds = (case s of c # rest \<Rightarrow> if c = CHR ''+'' then rest else s | [] \<Rightarrow> []) in
      if ds \<noteq> [] \<and> list_all is_digit ds \<and> digits_value ds < 2 ^ 64 then Some (digits_value ds)
      else None)"

lemma parse_usize_less: "parse_usize s = Some n \<Longrightarrow> n < 2 ^ 64"
  by (auto simp: parse_usize_def Let_def split: if_splits)

section \<open>Reachable states and invariants\<close>

inductive reach :: "('s \<Rightarrow> bool) \<Rightarrow> ('s \<Rightarrow> 's \<Rightarrow> bool) \<Rightarrow> 's \<Rightarrow> bool"
  for init step where
  reach_init: "init s \<Longrightarrow> reach init step s"
| reach_step: "reach init step s \<Longrightarrow> step s t \<Longrightarrow> reach init step t"

text \<open>The contract of an invariant of a step relation, and of a deterministic machine that
  is driven by a list of inputs.\<close>

locale invariant_contract =
  fixes init :: "'s \<Rightarrow> bool"
    and step :: "'s \<Rightarrow> 's \<Rightarrow> bool"
    and inv :: "'s \<Rightarrow> bool"
  assumes init_inv: "init s \<Longrightarrow> inv s"
    and step_inv: "inv s \<Longrightarrow> step s t \<Longrightarrow> inv t"
begin

lemma reach_inv: "reach init step s \<Longrightarrow> inv s"
  by (induction rule: reach.induct) (auto intro: init_inv step_inv)

end

locale machine_contract =
  fixes exec :: "'e \<Rightarrow> 's \<Rightarrow> 's"
    and ok :: "'e \<Rightarrow> bool"
    and inv :: "'s \<Rightarrow> bool"
  assumes exec_inv: "ok e \<Longrightarrow> inv s \<Longrightarrow> inv (exec e s)"
begin

lemma fold_inv: "list_all ok es \<Longrightarrow> inv s \<Longrightarrow> inv (fold exec es s)"
  by (induction es arbitrary: s) (auto intro: exec_inv)

end

end
