(* ===== verification/Event_Bridge.thy ===== *)
theory Event_Bridge
  imports Prelude
begin

text \<open>
  \<open>src/src/eventbridge.rs\<close>: the queue through which Python hands events to an Envoy filter.
  A value of type \<open>'a bridge\<close> is the content of the mutex; each operation is one critical
  section. Dropped events are returned to the caller, because dropping an event has effects
  in the components that use the bridge (a dropped future is completed).
\<close>

section \<open>The bridge\<close>

datatype 'a bridge = Closed | Empty | Single 'a | Multiple "'a list"

definition bridge_new :: "'a bridge" where
  "bridge_new = Empty"

text \<open>\<open>send\<close> returns \<open>Err(event)\<close>, the event handed back, on a closed bridge.\<close>

fun bridge_send :: "'a bridge \<Rightarrow> 'a \<Rightarrow> ('a + unit) \<times> 'a bridge" where
  "bridge_send Closed event = (Inl event, Closed)"
| "bridge_send Empty event = (Inr (), Single event)"
| "bridge_send (Single first) event = (Inr (), Multiple [first, event])"
| "bridge_send (Multiple events) event = (Inr (), Multiple (events @ [event]))"

fun bridge_is_empty :: "'a bridge \<Rightarrow> bool" where
  "bridge_is_empty Empty = True"
| "bridge_is_empty Closed = True"
| "bridge_is_empty (Single e) = False"
| "bridge_is_empty (Multiple es) = False"

text \<open>
  The critical section of \<open>process\<close>: the events handed to the callback, in order, and the
  bridge as it is when the lock is released. The callback then runs without the lock, so a
  callback may send to the bridge or close it.
\<close>

fun bridge_process :: "'a bridge \<Rightarrow> 'a list \<times> 'a bridge" where
  "bridge_process Closed = ([], Closed)"
| "bridge_process Empty = ([], Empty)"
| "bridge_process (Single event) = ([event], Empty)"
| "bridge_process (Multiple events) = (events, Empty)"

text \<open>\<open>get\<close>: \<open>remove(0)\<close> of an empty vector panics.\<close>

fun bridge_get :: "'a bridge \<Rightarrow> ('a option \<times> 'a bridge) rust" where
  "bridge_get Closed = Ret (None, Closed)"
| "bridge_get Empty = Ret (None, Empty)"
| "bridge_get (Single event) = Ret (Some event, Empty)"
| "bridge_get (Multiple events) =
     (case events of
        [] \<Rightarrow> Panic
      | event # rest \<Rightarrow> Ret (Some event, if rest \<noteq> [] then Multiple rest else Empty))"

text \<open>\<open>close\<close>: the events dropped by the assignment, and the closed bridge.\<close>

fun bridge_content :: "'a bridge \<Rightarrow> 'a list" where
  "bridge_content Closed = []"
| "bridge_content Empty = []"
| "bridge_content (Single e) = [e]"
| "bridge_content (Multiple es) = es"

definition bridge_close :: "'a bridge \<Rightarrow> 'a list \<times> 'a bridge" where
  "bridge_close b = (bridge_content b, Closed)"

text \<open>
  The pattern by which every Python callable reaches the filter: send, and commit the
  scheduler's event only if the send succeeded. The flag is \<open>send(..).is_ok()\<close>.
\<close>

definition bridge_offer :: "'a bridge \<Rightarrow> 'a \<Rightarrow> bool \<times> 'a bridge" where
  "bridge_offer b e = (case bridge_send b e of (Inr _, b') \<Rightarrow> (True, b') | (Inl _, b') \<Rightarrow> (False, b'))"

section \<open>The contract\<close>

text \<open>
  What the clients of the bridge rely on, over an abstract view of the queue: \<open>None\<close> once
  closed, \<open>Some xs\<close> with the pending events in the order they were sent otherwise.
\<close>

locale event_queue =
  fixes send :: "'q \<Rightarrow> 'a \<Rightarrow> ('a + unit) \<times> 'q"
    and process :: "'q \<Rightarrow> 'a list \<times> 'q"
    and get :: "'q \<Rightarrow> ('a option \<times> 'q) rust"
    and close :: "'q \<Rightarrow> 'a list \<times> 'q"
    and view :: "'q \<Rightarrow> 'a list option"
    and wf :: "'q \<Rightarrow> bool"
  assumes send_closed: "view q = None \<Longrightarrow> send q x = (Inl x, q)"
    and send_open: "wf q \<Longrightarrow> view q = Some xs \<Longrightarrow>
          fst (send q x) = Inr () \<and> view (snd (send q x)) = Some (xs @ [x]) \<and> wf (snd (send q x))"
    and process_closed: "view q = None \<Longrightarrow> process q = ([], q)"
    and process_open: "view q = Some xs \<Longrightarrow>
          fst (process q) = xs \<and> view (snd (process q)) = Some [] \<and> wf (snd (process q))"
    and get_closed: "view q = None \<Longrightarrow> get q = Ret (None, q)"
    and get_nil: "wf q \<Longrightarrow> view q = Some [] \<Longrightarrow> get q = Ret (None, q)"
    and get_cons: "wf q \<Longrightarrow> view q = Some (x # xs) \<Longrightarrow>
          \<exists>q'. get q = Ret (Some x, q') \<and> view q' = Some xs \<and> wf q'"
    and close_view: "view (snd (close q)) = None \<and> wf (snd (close q))"
    and close_drops: "fst (close q) = (case view q of None \<Rightarrow> [] | Some xs \<Rightarrow> xs)"
begin

lemma sends_view:
  "wf q \<Longrightarrow> view q = Some xs \<Longrightarrow>
     view (fold (\<lambda>x q. snd (send q x)) ys q) = Some (xs @ ys)
     \<and> wf (fold (\<lambda>x q. snd (send q x)) ys q)"
proof (induction ys arbitrary: q xs)
  case Nil
  then show ?case by simp
next
  case (Cons y ys)
  from send_open [OF Cons.prems, of y] Cons.IH [of "snd (send q y)" "xs @ [y]"]
  show ?case by simp
qed

text \<open>Events sent to an open queue are handed to the next \<open>process\<close> in order, exactly once.\<close>

lemma process_after_sends:
  assumes "wf q" and "view q = Some xs"
  shows "fst (process (fold (\<lambda>x q. snd (send q x)) ys q)) = xs @ ys"
  using sends_view [OF assms, of ys] process_open by blast

lemma sends_closed: "view q = None \<Longrightarrow> fold (\<lambda>x q. snd (send q x)) ys q = q"
  by (induction ys) (simp_all add: send_closed)

lemma get_no_panic: "wf q \<Longrightarrow> get q \<noteq> Panic"
proof (cases "view q")
  case None
  then show ?thesis by (simp add: get_closed)
next
  case (Some xs)
  assume "wf q"
  with Some show ?thesis
    by (cases xs) (auto simp: get_nil dest: get_cons)
qed

end

section \<open>The bridge keeps the contract\<close>

fun bridge_view :: "'a bridge \<Rightarrow> 'a list option" where
  "bridge_view Closed = None"
| "bridge_view b = Some (bridge_content b)"

definition bridge_wf :: "'a bridge \<Rightarrow> bool" where
  "bridge_wf b \<longleftrightarrow> b \<noteq> Multiple []"

lemma bridge_view_None [simp]: "bridge_view b = None \<longleftrightarrow> b = Closed"
  by (cases b) auto

lemma bridge_view_content: "bridge_view b = Some xs \<Longrightarrow> bridge_content b = xs"
  by (cases b) auto

interpretation eb: event_queue bridge_send bridge_process bridge_get bridge_close
  bridge_view bridge_wf
proof (unfold_locales, goal_cases)
  case (1 q x)
  then show ?case by simp
next
  case (2 q xs x)
  then show ?case by (cases q) (auto simp: bridge_wf_def)
next
  case (3 q)
  then show ?case by simp
next
  case (4 q xs)
  then show ?case by (cases q) (auto simp: bridge_wf_def)
next
  case (5 q)
  then show ?case by simp
next
  case (6 q)
  then show ?case by (cases q) (auto simp: bridge_wf_def)
next
  case (7 q x xs)
  then show ?case by (cases q) (auto simp: bridge_wf_def)
next
  case (8 q)
  then show ?case by (simp add: bridge_close_def bridge_wf_def)
next
  case (9 q)
  then show ?case by (cases q) (auto simp: bridge_close_def)
qed

lemma bridge_wf_new [simp, intro]: "bridge_wf bridge_new"
  by (simp add: bridge_new_def bridge_wf_def)

lemma bridge_view_new [simp]: "bridge_view bridge_new = Some []"
  by (simp add: bridge_new_def)

lemma bridge_offer_open:
  "bridge_wf b \<Longrightarrow> bridge_view b = Some xs \<Longrightarrow>
     fst (bridge_offer b e) \<and> bridge_view (snd (bridge_offer b e)) = Some (xs @ [e])
     \<and> bridge_wf (snd (bridge_offer b e))"
  using eb.send_open [of b xs e] by (auto simp: bridge_offer_def split: prod.splits sum.splits)

lemma bridge_offer_closed [simp]: "bridge_offer Closed e = (False, Closed)"
  by (simp add: bridge_offer_def)

lemma bridge_offer_iff: "bridge_wf b \<Longrightarrow> fst (bridge_offer b e) \<longleftrightarrow> b \<noteq> Closed"
  by (cases b) (auto simp: bridge_offer_def)

lemma bridge_offer_content:
  "b \<noteq> Closed \<Longrightarrow> bridge_content (snd (bridge_offer b e)) = bridge_content b @ [e]"
  by (cases b) (auto simp: bridge_offer_def)

lemma bridge_offer_wf [intro]: "bridge_wf b \<Longrightarrow> bridge_wf (snd (bridge_offer b e))"
  by (cases b) (auto simp: bridge_offer_def bridge_wf_def)

lemma bridge_offer_Closed_iff [simp]: "snd (bridge_offer b e) = Closed \<longleftrightarrow> b = Closed"
  by (cases b) (auto simp: bridge_offer_def)

lemma bridge_process_content: "fst (bridge_process b) = bridge_content b"
  by (cases b) auto

lemma bridge_process_snd: "snd (bridge_process b) = (if b = Closed then Closed else Empty)"
  by (cases b) auto

section \<open>Histories of a bridge\<close>

datatype 'a bridge_op = Send 'a | Process | Get | Close

text \<open>
  A bridge together with its history: the events that \<open>send\<close> accepted and rejected, the
  events handed to callbacks or returned by \<open>get\<close>, and the events dropped by \<open>close\<close>.
\<close>

record 'a bridge_run =
  run_bridge :: "'a bridge"
  run_accepted :: "'a list"
  run_rejected :: "'a list"
  run_delivered :: "'a list"
  run_dropped :: "'a list"
  run_panicked :: bool

definition bridge_run_new :: "'a bridge_run" where
  "bridge_run_new = \<lparr>run_bridge = bridge_new, run_accepted = [], run_rejected = [],
     run_delivered = [], run_dropped = [], run_panicked = False\<rparr>"

fun bridge_exec :: "'a bridge_op \<Rightarrow> 'a bridge_run \<Rightarrow> 'a bridge_run" where
  "bridge_exec (Send x) r =
     (case bridge_send (run_bridge r) x of
        (Inl y, b) \<Rightarrow> r\<lparr>run_bridge := b, run_rejected := run_rejected r @ [y]\<rparr>
      | (Inr _, b) \<Rightarrow> r\<lparr>run_bridge := b, run_accepted := run_accepted r @ [x]\<rparr>)"
| "bridge_exec Process r =
     (case bridge_process (run_bridge r) of
        (xs, b) \<Rightarrow> r\<lparr>run_bridge := b, run_delivered := run_delivered r @ xs\<rparr>)"
| "bridge_exec Get r =
     (case bridge_get (run_bridge r) of
        Panic \<Rightarrow> r\<lparr>run_panicked := True\<rparr>
      | Ret (None, b) \<Rightarrow> r\<lparr>run_bridge := b\<rparr>
      | Ret (Some x, b) \<Rightarrow> r\<lparr>run_bridge := b, run_delivered := run_delivered r @ [x]\<rparr>)"
| "bridge_exec Close r =
     (case bridge_close (run_bridge r) of
        (xs, b) \<Rightarrow> r\<lparr>run_bridge := b, run_dropped := run_dropped r @ xs\<rparr>)"

definition bridge_run_inv :: "'a bridge_run \<Rightarrow> bool" where
  "bridge_run_inv r \<longleftrightarrow>
     bridge_wf (run_bridge r) \<and> \<not> run_panicked r
     \<and> run_accepted r = run_delivered r @ bridge_content (run_bridge r) @ run_dropped r
     \<and> (run_bridge r \<noteq> Closed \<longrightarrow> run_dropped r = [])"

lemma bridge_exec_inv [pres]: "bridge_run_inv r \<Longrightarrow> bridge_run_inv (bridge_exec op r)"
  by (cases op; cases "run_bridge r")
    (auto simp: bridge_run_inv_def bridge_wf_def bridge_close_def split: list.splits)

lemma bridge_run_new_inv: "bridge_run_inv bridge_run_new"
  by (simp add: bridge_run_inv_def bridge_run_new_def bridge_new_def bridge_wf_def)

interpretation bridge_machine: machine_contract bridge_exec "\<lambda>_. True" bridge_run_inv
  by unfold_locales (rule bridge_exec_inv)

lemma bridge_fold_inv: "bridge_run_inv (fold bridge_exec ops bridge_run_new)"
  by (rule bridge_machine.fold_inv) (simp_all add: list_all_iff bridge_run_new_inv)

fun sent :: "'a bridge_op list \<Rightarrow> 'a list" where
  "sent [] = []"
| "sent (Send x # ops) = x # sent ops"
| "sent (_ # ops) = sent ops"

lemma closed_run:
  "run_bridge r = Closed \<Longrightarrow>
     fold bridge_exec ops r = r\<lparr>run_rejected := run_rejected r @ sent ops\<rparr>"
proof (induction ops arbitrary: r)
  case Nil
  then show ?case by simp
next
  case (Cons op ops)
  then show ?case by (cases op) (simp_all add: bridge_close_def)
qed

section \<open>Properties\<close>

text \<open>
  C24. First in, first out, without loss or duplication: after any sequence of sends, drains,
  gets and closes on a new bridge, the events that \<open>send\<close> accepted are exactly the events
  handed over so far, followed by the pending ones, followed by those a close dropped, in the
  order they were sent; no operation panics, and nothing is dropped while the bridge is open.
\<close>

theorem bridge_fifo:
  "let r = fold bridge_exec ops bridge_run_new in
     run_accepted r = run_delivered r @ bridge_content (run_bridge r) @ run_dropped r
     \<and> \<not> run_panicked r \<and> (run_bridge r = Closed \<or> run_dropped r = [])"
  using bridge_fold_inv [of ops] by (auto simp: Let_def bridge_run_inv_def)

text \<open>
  Closing is final: whatever is done after a close, no event is accepted or handed over
  any more, every later send gets its event back, and the bridge stays closed (in particular
  a drain does not reopen it).
\<close>

theorem bridge_close_final:
  "let r = fold bridge_exec ops bridge_run_new; t = fold bridge_exec ops' (bridge_exec Close r) in
     run_bridge t = Closed \<and> run_accepted t = run_accepted r
     \<and> run_delivered t = run_delivered r \<and> run_rejected t = run_rejected r @ sent ops'"
proof -
  let ?r = "fold bridge_exec ops bridge_run_new"
  have "run_bridge (bridge_exec Close ?r) = Closed"
    by (simp add: bridge_close_def)
  from closed_run [OF this, of ops'] show ?thesis
    by (simp add: Let_def bridge_close_def)
qed

end
