(* ===== verification/Trace_Context.thy ===== *)
theory Trace_Context
  imports Prelude
begin

text \<open>
  \<open>src/src/tracecontext.rs\<close>: the recomputed sampling decision and the \<open>traceparent\<close> header
  that hands Envoy's active span to the application. Envoy is a parameter: what it reports
  (the active span, the value of a request header) is an argument, and what the code asks of
  it is the list of calls returned.
\<close>

section \<open>The sampler\<close>

definition RATIO_DENOMINATOR :: u64 where
  "RATIO_DENOMINATOR = 1000000"

record trace_sampler =
  parent_based :: bool
  ratio :: "u64 option"

text \<open>\<open>u64::from_ne_bytes\<close>, whose byte order is the platform's.\<close>

definition u64_from_ne_bytes :: "bool \<Rightarrow> nat list \<Rightarrow> u64" where
  "u64_from_ne_bytes big_endian bs =
     of_nat (horner_sum id 256 (if big_endian then rev bs else bs))"

text \<open>
  \<open>trace_id.get(..16)\<close> is \<open>None\<close> when the string is shorter or byte 16 is inside a
  character; \<open>&hex[i * 2..i * 2 + 2]\<close> panics off a character boundary; an unparsable pair
  counts as 0.
\<close>

definition str_slice :: "bytes \<Rightarrow> nat \<Rightarrow> nat \<Rightarrow> bytes rust" where
  "str_slice s i j =
     (if i \<le> j \<and> j \<le> length s \<and> is_char_boundary s i \<and> is_char_boundary s j
      then Ret (take (j - i) (drop i s)) else Panic)"

fun hex_bytes :: "bytes \<Rightarrow> nat list \<Rightarrow> nat list rust" where
  "hex_bytes hex [] = Ret []"
| "hex_bytes hex (i # is) =
     rust_bind (str_slice hex (i * 2) (i * 2 + 2)) (\<lambda>pair.
       rust_map ((#) (case u8_from_str_radix16 pair of Some n \<Rightarrow> n | None \<Rightarrow> 0))
         (hex_bytes hex is))"

definition trace_id_to_u64 :: "bool \<Rightarrow> bytes \<Rightarrow> u64 rust" where
  "trace_id_to_u64 big_endian trace_id =
     (if 16 \<le> length trace_id \<and> is_char_boundary trace_id 16
      then rust_map (u64_from_ne_bytes big_endian) (hex_bytes (take 16 trace_id) [0..<8])
      else Ret 0)"

definition sampled :: "bool \<Rightarrow> trace_sampler \<Rightarrow> bytes \<Rightarrow> bool option \<Rightarrow> bool rust" where
  "sampled big_endian self trace_id parent_sampled =
     (case (parent_based self, parent_sampled) of
        (True, Some b) \<Rightarrow> Ret b
      | _ \<Rightarrow> (case ratio self of
           None \<Rightarrow> Ret True
         | Some numerator \<Rightarrow>
             rust_map (\<lambda>n. n mod RATIO_DENOMINATOR < numerator)
               (trace_id_to_u64 big_endian trace_id)))"

section \<open>Reading and writing traceparent\<close>

definition parent_sampled :: "bytes \<Rightarrow> bytes \<Rightarrow> bool option" where
  "parent_sampled traceparent trace_id =
     (case split_on CHR ''-'' traceparent of
        version # parent_trace_id # parent_id # flags # rest \<Rightarrow>
          (if \<not> eq_ignore_ascii_case parent_trace_id trace_id then None
           else Option.bind (str_from_utf8 flags) (\<lambda>s.
             map_option (\<lambda>n. n mod 2 = 1) (u8_from_str_radix16 s)))
      | _ \<Rightarrow> None)"

datatype header_call = RemoveRequestHeader bytes | SetRequestHeader bytes bytes

record envoy_span =
  span_trace_id :: "bytes option"
  span_span_id :: "bytes option"

definition format_traceparent :: "bytes \<Rightarrow> bytes \<Rightarrow> bool \<Rightarrow> bytes" where
  "format_traceparent trace_id span_id flag =
     ''00-'' @ trace_id @ ''-'' @ span_id @ ''-'' @ (if flag then ''01'' else ''00'')"

definition propagate_active_span ::
  "bool \<Rightarrow> envoy_span option \<Rightarrow> (bytes \<Rightarrow> bytes option) \<Rightarrow> trace_sampler \<Rightarrow> header_call list rust" where
  "propagate_active_span big_endian active_span request_header sampler =
     (case active_span of
        None \<Rightarrow> Ret []
      | Some span \<Rightarrow>
          (case (span_trace_id span, span_span_id span) of
             (Some trace_id, Some span_id) \<Rightarrow>
               (let parent = Option.bind (request_header ''traceparent'')
                               (\<lambda>v. parent_sampled v trace_id) in
                rust_map (\<lambda>flag.
                  (if parent = None then [RemoveRequestHeader ''tracestate''] else [])
                  @ [SetRequestHeader ''traceparent'' (format_traceparent trace_id span_id flag)])
                  (sampled big_endian sampler trace_id parent))
           | _ \<Rightarrow> Ret []))"

section \<open>Lemmas\<close>

lemma is_ascii_take: "is_ascii s \<Longrightarrow> is_ascii (take n s)"
  by (auto simp: is_ascii_def dest: in_set_takeD)

lemma hex_bytes_ascii:
  "is_ascii hex \<Longrightarrow> \<forall>i \<in> set is. i * 2 + 2 \<le> length hex \<Longrightarrow>
     \<exists>bs. hex_bytes hex is = Ret bs \<and> length bs = length is"
proof (induction "is")
  case Nil
  then show ?case by simp
next
  case (Cons i "is")
  then obtain bs where "hex_bytes hex is = Ret bs" "length bs = length is"
    by auto
  with Cons.prems show ?case
    by (simp add: str_slice_def is_char_boundary_ascii)
qed

lemma trace_id_to_u64_ascii: "is_ascii trace_id \<Longrightarrow> \<exists>n. trace_id_to_u64 be trace_id = Ret n"
  using hex_bytes_ascii [OF is_ascii_take, of trace_id "[0..<8]" 16]
  by (fastforce simp: trace_id_to_u64_def)

lemma mod_denominator_less: "(n :: u64) mod RATIO_DENOMINATOR < RATIO_DENOMINATOR"
  by (simp add: RATIO_DENOMINATOR_def word_less_nat_alt unat_mod)

lemma parent_sampled_format:
  assumes "CHR ''-'' \<notin> set trace_id" and "CHR ''-'' \<notin> set span_id"
  shows "parent_sampled (format_traceparent trace_id span_id flag) trace_id = Some flag"
proof -
  have "split_on CHR ''-'' (format_traceparent trace_id span_id flag)
        = [''00'', trace_id, span_id, if flag then ''01'' else ''00'']"
    using assms split_on_append_sep [of "CHR ''-''" trace_id]
      split_on_append_sep [of "CHR ''-''" span_id]
    by (simp add: format_traceparent_def split_on_no_sep)
  then show ?thesis
    by (simp add: parent_sampled_def str_from_utf8_def in_range_def
        u8_from_str_radix16_def hex_digit_def)
qed

section \<open>Properties\<close>

text \<open>
  C35. Propagation round trip: when Envoy reports a span with an ASCII trace ID free of dashes
  and a span ID free of dashes, the call always succeeds, and reading back the
  \<open>traceparent\<close> it sets, with the same trace ID, yields exactly the sampler's decision on
  the flag found in the incoming header; \<open>tracestate\<close> is removed exactly when no such flag
  was found.
\<close>

theorem propagate_roundtrip:
  assumes "is_ascii trace_id" and "CHR ''-'' \<notin> set trace_id" and "CHR ''-'' \<notin> set span_id"
  shows "\<exists>flag tp.
    sampled be sampler trace_id
      (Option.bind (hdr ''traceparent'') (\<lambda>v. parent_sampled v trace_id)) = Ret flag
    \<and> propagate_active_span be
        (Some \<lparr>span_trace_id = Some trace_id, span_span_id = Some span_id\<rparr>) hdr sampler
      = Ret ((if Option.bind (hdr ''traceparent'') (\<lambda>v. parent_sampled v trace_id) = None
              then [RemoveRequestHeader ''tracestate''] else [])
             @ [SetRequestHeader ''traceparent'' tp])
    \<and> parent_sampled tp trace_id = Some flag"
proof -
  let ?p = "Option.bind (hdr ''traceparent'') (\<lambda>v. parent_sampled v trace_id)"
  obtain n where "trace_id_to_u64 be trace_id = Ret n"
    using trace_id_to_u64_ascii [OF assms(1)] by blast
  then obtain flag where flag: "sampled be sampler trace_id ?p = Ret flag"
    by (cases ?p; cases "parent_based sampler"; cases "ratio sampler") (auto simp: sampled_def)
  have "parent_sampled (format_traceparent trace_id span_id flag) trace_id = Some flag"
    using assms(2,3) by (rule parent_sampled_format)
  with flag show ?thesis
    by (intro exI [of _ flag] exI [of _ "format_traceparent trace_id span_id flag"])
      (simp add: propagate_active_span_def Let_def)
qed

theorem propagate_roundtrip_witness:
  "\<exists>flag tp.
    sampled False \<lparr>parent_based = True, ratio = Some 5\<rparr> ''4bf92f3577b34da6''
      (Option.bind (Some ''00-4bf92f3577b34da6-11-01'')
        (\<lambda>v. parent_sampled v ''4bf92f3577b34da6'')) = Ret flag
    \<and> propagate_active_span False
        (Some \<lparr>span_trace_id = Some ''4bf92f3577b34da6'', span_span_id = Some ''00f067aa''\<rparr>)
        (\<lambda>_. Some ''00-4bf92f3577b34da6-11-01'') \<lparr>parent_based = True, ratio = Some 5\<rparr>
      = Ret ((if Option.bind (Some ''00-4bf92f3577b34da6-11-01'')
                  (\<lambda>v. parent_sampled v ''4bf92f3577b34da6'') = None
              then [RemoveRequestHeader ''tracestate''] else [])
             @ [SetRequestHeader ''traceparent'' tp])
    \<and> parent_sampled tp ''4bf92f3577b34da6'' = Some flag"
  by (rule propagate_roundtrip [where hdr = "\<lambda>_. Some ''00-4bf92f3577b34da6-11-01''"])
    (simp_all add: is_ascii_def)

text \<open>
  The ratio sampler: without a propagated parent decision, a ratio of 0 samples no trace
  and a ratio of the full denominator (or none configured) samples every trace; and raising
  the ratio never drops a trace that a lower ratio samples.
\<close>

theorem sampled_ratio_bounds:
  assumes "is_ascii trace_id" and "\<not> parent_based s \<or> parent = None"
  shows "sampled be (s\<lparr>ratio := Some 0\<rparr>) trace_id parent = Ret False
    \<and> sampled be (s\<lparr>ratio := Some RATIO_DENOMINATOR\<rparr>) trace_id parent = Ret True
    \<and> sampled be (s\<lparr>ratio := None\<rparr>) trace_id parent = Ret True
    \<and> (\<forall>lo hi. lo \<le> hi \<longrightarrow> sampled be (s\<lparr>ratio := Some lo\<rparr>) trace_id parent = Ret True \<longrightarrow>
         sampled be (s\<lparr>ratio := Some hi\<rparr>) trace_id parent = Ret True)"
proof -
  obtain n where n: "trace_id_to_u64 be trace_id = Ret n"
    using trace_id_to_u64_ascii [OF assms(1)] by blast
  have "sampled be (s\<lparr>ratio := Some r\<rparr>) trace_id parent = Ret (n mod RATIO_DENOMINATOR < r)" for r
    using assms(2) n by (auto simp: sampled_def split: bool.splits option.splits)
  moreover have "sampled be (s\<lparr>ratio := None\<rparr>) trace_id parent = Ret True"
    using assms(2) by (auto simp: sampled_def split: bool.splits option.splits)
  ultimately show ?thesis
    by (auto simp: mod_denominator_less)
qed

theorem sampled_ratio_bounds_witness:
  "sampled True (\<lparr>parent_based = True, ratio = None\<rparr>\<lparr>ratio := Some 0\<rparr>) ''4bf92f3577b34da6'' None
     = Ret False"
  using sampled_ratio_bounds [of "''4bf92f3577b34da6''" "\<lparr>parent_based = True, ratio = None\<rparr>" None True]
  by (simp add: is_ascii_def)

end
