(* ===== verification/Py_Values.thy ===== *)
theory Py_Values
  imports Prelude "HOL-Library.AList"
begin

text \<open>
  The Python values, exceptions and dictionaries that the Rust code builds and inspects
  through PyO3. A \<open>str\<close> is its UTF-8 bytes; a dictionary with string keys is an association
  list in insertion order. \<open>PyObj n\<close> is any object of another class.
\<close>

datatype pyval =
    PyNone
  | PyBool bool
  | PyInt int
  | PyStr bytes
  | PyBytes bytes
  | PyTuple "pyval list"
  | PyList "pyval list"
  | PyDict "(bytes \<times> pyval) list"
  | PyObj nat

type_synonym pydict = "(bytes \<times> pyval) list"

datatype pyerr =
    RuntimeError bytes
  | ValueError bytes
  | TypeError
  | OverflowError
  | IndexError
  | KeyError
  | InvalidStateError
  | UnicodeDecodeError
  | ClientDisconnectedError
  | StopIteration
  | StopAsyncIteration
  | ConnectionError bytes
  | TimeoutError bytes
  | ReadError bytes
  | AppError nat \<comment> \<open>an exception object of the application\<close>

fun pbind :: "pyerr + 'a \<Rightarrow> ('a \<Rightarrow> pyerr + 'b) \<Rightarrow> pyerr + 'b" where
  "pbind (Inl e) f = Inl e"
| "pbind (Inr x) f = f x"

lemma pbind_Inr_conv: "pbind m f = Inr y \<longleftrightarrow> (\<exists>x. m = Inr x \<and> f x = Inr y)"
  by (cases m) auto

lemma pbind_Inl_conv: "pbind m f = Inl e \<longleftrightarrow> m = Inl e \<or> (\<exists>x. m = Inr x \<and> f x = Inl e)"
  by (cases m) auto

section \<open>Dictionaries\<close>

definition dict_set :: "bytes \<Rightarrow> pyval \<Rightarrow> pydict \<Rightarrow> pydict" where
  "dict_set k v d = AList.update k v d"

definition dict_get :: "pydict \<Rightarrow> bytes \<Rightarrow> pyval option" where
  "dict_get d k = map_of d k"

lemma dict_get_set [simp]:
  "dict_get (dict_set k v d) k' = (if k' = k then Some v else dict_get d k')"
  by (simp add: dict_get_def dict_set_def update_conv)

text \<open>An entry that is only written when there is a value.\<close>

definition dict_set_opt :: "bytes \<Rightarrow> pyval option \<Rightarrow> pydict \<Rightarrow> pydict" where
  "dict_set_opt k v d = (case v of Some x \<Rightarrow> dict_set k x d | None \<Rightarrow> d)"

lemma dict_get_set_opt [simp]:
  "dict_get (dict_set_opt k v d) k' = (if k' = k \<and> v \<noteq> None then v else dict_get d k')"
  by (simp add: dict_set_opt_def split: option.split)

lemma dict_get_empty [simp]: "dict_get [] k = None"
  by (simp add: dict_get_def)

section \<open>Casts and extractions\<close>

text \<open>\<open>cast::<PyString>\<close> and \<open>cast::<PyBytes>\<close> fail with a TypeError; \<open>extract::<bool>\<close> wants
  a \<open>bool\<close>; \<open>extract::<u16>\<close> takes an \<open>int\<close> (\<open>bool\<close> is a subclass) in range.\<close>

fun cast_str :: "pyval \<Rightarrow> pyerr + bytes" where
  "cast_str (PyStr s) = Inr s"
| "cast_str _ = Inl TypeError"

fun cast_bytes :: "pyval \<Rightarrow> pyerr + bytes" where
  "cast_bytes (PyBytes b) = Inr b"
| "cast_bytes _ = Inl TypeError"

fun extract_bool :: "pyval \<Rightarrow> pyerr + bool" where
  "extract_bool (PyBool b) = Inr b"
| "extract_bool _ = Inl TypeError"

fun extract_u16 :: "pyval \<Rightarrow> pyerr + nat" where
  "extract_u16 (PyInt i) = (if 0 \<le> i \<and> i < 65536 then Inr (nat i) else Inl OverflowError)"
| "extract_u16 (PyBool b) = Inr (if b then 1 else 0)"
| "extract_u16 _ = Inl TypeError"

lemma extract_u16_less: "extract_u16 v = Inr n \<Longrightarrow> n < 65536"
  by (cases v) (auto split: if_splits)

text \<open>\<open>PyString::from_bytes\<close> decodes UTF-8.\<close>

definition py_string_from_bytes :: "bytes \<Rightarrow> pyerr + pyval" where
  "py_string_from_bytes s = (if utf8_valid s then Inr (PyStr s) else Inl UnicodeDecodeError)"

text \<open>The characters of a \<open>str\<close>: a lead byte with the continuation bytes that follow it.\<close>

function utf8_chars :: "bytes \<Rightarrow> bytes list" where
  "utf8_chars [] = []"
| "utf8_chars (c # cs) = (c # takeWhile is_cont cs) # utf8_chars (dropWhile is_cont cs)"
  by pat_completeness auto
termination
  by (relation "measure length") (auto simp: le_imp_less_Suc length_dropWhile_le)

lemma concat_utf8_chars: "concat (utf8_chars s) = s"
  by (induction s rule: utf8_chars.induct) auto

text \<open>\<open>get_item(i)\<close> on a sequence, a string or a dictionary with string keys, and \<open>try_iter\<close>.\<close>

fun seq_items :: "pyval \<Rightarrow> pyerr + pyval list" where
  "seq_items (PyTuple xs) = Inr xs"
| "seq_items (PyList xs) = Inr xs"
| "seq_items (PyStr s) = Inr (map PyStr (utf8_chars s))"
| "seq_items (PyBytes s) = Inr (map (\<lambda>c. PyInt (int (byte_val c))) s)"
| "seq_items _ = Inl TypeError"

fun seq_item :: "pyval \<Rightarrow> nat \<Rightarrow> pyerr + pyval" where
  "seq_item (PyDict d) i = Inl KeyError"
| "seq_item v i = pbind (seq_items v) (\<lambda>xs. if i < length xs then Inr (xs ! i) else Inl IndexError)"

fun py_iter :: "pyval \<Rightarrow> pyerr + pyval list" where
  "py_iter (PyDict d) = Inr (map (\<lambda>(k, v). PyStr k) d)"
| "py_iter v = seq_items v"

text \<open>Stops at the first error, as \<open>?\<close> in a loop body does.\<close>

fun pmap :: "('a \<Rightarrow> pyerr + 'b) \<Rightarrow> 'a list \<Rightarrow> pyerr + 'b list" where
  "pmap f [] = Inr []"
| "pmap f (x # xs) = pbind (f x) (\<lambda>y. pbind (pmap f xs) (\<lambda>ys. Inr (y # ys)))"

lemma pmap_Inr: "pmap f xs = Inr ys \<Longrightarrow> list_all2 (\<lambda>x y. f x = Inr y) xs ys"
  by (induction xs arbitrary: ys) (auto simp: pbind_Inr_conv)

lemma pmap_all: "\<forall>x \<in> set xs. f x = Inr (g x) \<Longrightarrow> pmap f xs = Inr (map g xs)"
  by (induction xs) auto

end
