(* ===== verification/Header_Names.thy ===== *)
theory Header_Names
  imports Prelude
begin

text \<open>
  \<open>src/src/headernames.rs\<close>: the memoised Python constants for well-known header names and
  the conversions \<open>to_asgi_bytes\<close> and \<open>to_wsgi_string\<close> that pick a constant by matching a
  \<open>HeaderName\<close>. A \<open>HeaderName\<close> of the \<open>http\<close> crate is its (ASCII, lower-case) text; the text
  of the crate's constant \<open>header::X\<close> is the parameter \<open>hc ''X''\<close>.
\<close>

section \<open>The constants\<close>

text \<open>The fields of the two structs, and the values \<open>new\<close> gives them.\<close>

definition ASGIHeaderNameConstants :: "string list" where
  "ASGIHeaderNameConstants =
   [''accept'', ''accept_charset'', ''accept_encoding'', ''accept_language'', ''accept_ranges'',
    ''access_control_allow_credentials'', ''access_control_allow_headers'',
    ''access_control_allow_methods'', ''access_control_allow_origin'',
    ''access_control_expose_headers'', ''access_control_max_age'',
    ''access_control_request_headers'', ''access_control_request_method'', ''age'', ''allow'',
    ''alt_svc'', ''authorization'', ''cache_control'', ''cache_status'', ''cdn_cache_control'',
    ''content_disposition'', ''content_encoding'', ''content_language'', ''content_length'',
    ''content_location'', ''content_range'', ''content_security_policy'',
    ''content_security_policy_report_only'', ''content_type'', ''cookie'', ''dnt'', ''date'',
    ''etag'', ''expect'', ''expires'', ''forwarded'', ''from'', ''host'', ''if_match'',
    ''if_modified_since'', ''if_none_match'', ''if_range'', ''if_unmodified_since'',
    ''last_modified'', ''link'', ''location'', ''max_forwards'', ''origin'', ''pragma'',
    ''proxy_authenticate'', ''proxy_authorization'', ''public_key_pins'',
    ''public_key_pins_report_only'', ''range'', ''referer'', ''referrer_policy'', ''refresh'',
    ''retry_after'', ''sec_websocket_accept'', ''sec_websocket_extensions'', ''sec_websocket_key'',
    ''sec_websocket_protocol'', ''sec_websocket_version'', ''server'', ''set_cookie'',
    ''strict_transport_security'', ''te'', ''trailer'', ''user_agent'',
    ''upgrade_insecure_requests'', ''vary'', ''via'', ''warning'', ''www_authenticate'',
    ''x_content_type_options'', ''x_dns_prefetch_control'', ''x_frame_options'',
    ''x_xss_protection'']"

definition ASGIHeaderNameConstants_new :: "(string \<times> bytes) list" where
  "ASGIHeaderNameConstants_new =
   [(''accept'', ''accept''), (''accept_charset'', ''accept-charset''),
    (''accept_encoding'', ''accept-encoding''), (''accept_language'', ''accept-language''),
    (''accept_ranges'', ''accept-ranges''),
    (''access_control_allow_credentials'', ''access-control-allow-credentials''),
    (''access_control_allow_headers'', ''access-control-allow-headers''),
    (''access_control_allow_methods'', ''access-control-allow-methods''),
    (''access_control_allow_origin'', ''access-control-allow-origin''),
    (''access_control_expose_headers'', ''access-control-expose-headers''),
    (''access_control_max_age'', ''access-control-max-age''),
    (''access_control_request_headers'', ''access-control-request-headers''),
    (''access_control_request_method'', ''access-control-request-method''), (''age'', ''age''),
    (''allow'', ''allow''), (''alt_svc'', ''alt-svc''), (''authorization'', ''authorization''),
    (''cache_control'', ''cache-control''), (''cache_status'', ''cache-status''),
    (''cdn_cache_control'', ''cdn-cache-control''),
    (''content_disposition'', ''content-disposition''),
    (''content_encoding'', ''content-encoding''), (''content_language'', ''content-language''),
    (''content_length'', ''content-length''), (''content_location'', ''content-location''),
    (''content_range'', ''content-range''),
    (''content_security_policy'', ''content-security-policy''),
    (''content_security_policy_report_only'', ''content-security-policy-report-only''),
    (''content_type'', ''content-type''), (''cookie'', ''cookie''), (''dnt'', ''dnt''),
    (''date'', ''date''), (''etag'', ''etag''), (''expect'', ''expect''),
    (''expires'', ''expires''), (''forwarded'', ''forwarded''), (''from'', ''from''),
    (''host'', ''host''), (''if_match'', ''if-match''),
    (''if_modified_since'', ''if-modified-since''), (''if_none_match'', ''if-none-match''),
    (''if_range'', ''if-range''), (''if_unmodified_since'', ''if-unmodified-since''),
    (''last_modified'', ''last-modified''), (''link'', ''link''), (''location'', ''location''),
    (''max_forwards'', ''max-forwards''), (''origin'', ''origin''), (''pragma'', ''pragma''),
    (''proxy_authenticate'', ''proxy-authenticate''),
    (''proxy_authorization'', ''proxy-authorization''), (''public_key_pins'', ''public-key-pins''),
    (''public_key_pins_report_only'', ''public-key-pins-report-only''), (''range'', ''range''),
    (''referer'', ''referer''), (''referrer_policy'', ''referrer-policy''),
    (''refresh'', ''refresh''), (''retry_after'', ''retry-after''),
    (''sec_websocket_accept'', ''sec-websocket-accept''),
    (''sec_websocket_extensions'', ''sec-websocket-extensions''),
    (''sec_websocket_key'', ''sec-websocket-key''),
    (''sec_websocket_protocol'', ''sec-websocket-protocol''),
    (''sec_websocket_version'', ''sec-websocket-version''), (''server'', ''server''),
    (''set_cookie'', ''set-cookie''),
    (''strict_transport_security'', ''strict-transport-security''), (''te'', ''te''),
    (''trailer'', ''trailer''), (''user_agent'', ''user-agent''),
    (''upgrade_insecure_requests'', ''upgrade-insecure-requests''), (''vary'', ''vary''),
    (''via'', ''via''), (''warning'', ''warning''), (''www_authenticate'', ''www-authenticate''),
    (''x_content_type_options'', ''x-content-type-options''),
    (''x_dns_prefetch_control'', ''x-dns-prefetch-control''),
    (''x_frame_options'', ''x-frame-options''), (''x_xss_protection'', ''x-xss-protection'')]"

definition WSGIHeaderNameConstants :: "string list" where
  "WSGIHeaderNameConstants =
   [''http_accept'', ''http_accept_charset'', ''http_accept_encoding'', ''http_accept_language'',
    ''http_accept_ranges'', ''http_access_control_allow_credentials'',
    ''http_access_control_allow_headers'', ''http_access_control_allow_methods'',
    ''http_access_control_allow_origin'', ''http_access_control_expose_headers'',
    ''http_access_control_max_age'', ''http_access_control_request_headers'',
    ''http_access_control_request_method'', ''http_age'', ''http_allow'', ''http_alt_svc'',
    ''http_authorization'', ''http_cache_control'', ''http_cache_status'',
    ''http_cdn_cache_control'', ''http_content_disposition'', ''http_content_encoding'',
    ''http_content_language'', ''http_content_location'', ''http_content_range'',
    ''http_content_security_policy'', ''http_content_security_policy_report_only'',
    ''http_cookie'', ''http_dnt'', ''http_date'', ''http_etag'', ''http_expect'', ''http_expires'',
    ''http_forwarded'', ''http_from'', ''http_host'', ''http_if_match'',
    ''http_if_modified_since'', ''http_if_none_match'', ''http_if_range'',
    ''http_if_unmodified_since'', ''http_last_modified'', ''http_link'', ''http_location'',
    ''http_max_forwards'', ''http_origin'', ''http_pragma'', ''http_proxy_authenticate'',
    ''http_proxy_authorization'', ''http_public_key_pins'', ''http_public_key_pins_report_only'',
    ''http_range'', ''http_referer'', ''http_referrer_policy'', ''http_refresh'',
    ''http_retry_after'', ''http_sec_websocket_accept'', ''http_sec_websocket_extensions'',
    ''http_sec_websocket_key'', ''http_sec_websocket_protocol'', ''http_sec_websocket_version'',
    ''http_server'', ''http_set_cookie'', ''http_strict_transport_security'', ''http_te'',
    ''http_trailer'', ''http_user_agent'', ''http_upgrade_insecure_requests'', ''http_vary'',
    ''http_via'', ''http_warning'', ''http_www_authenticate'', ''http_x_content_type_options'',
    ''http_x_dns_prefetch_control'', ''http_x_frame_options'', ''http_x_xss_protection'']"

definition WSGIHeaderNameConstants_new :: "(string \<times> bytes) list" where
  "WSGIHeaderNameConstants_new =
   [(''http_accept'', ''HTTP_ACCEPT''), (''http_accept_charset'', ''HTTP_ACCEPT_CHARSET''),
    (''http_accept_encoding'', ''HTTP_ACCEPT_ENCODING''),
    (''http_accept_language'', ''HTTP_ACCEPT_LANGUAGE''),
    (''http_accept_ranges'', ''HTTP_ACCEPT_RANGES''),
    (''http_access_control_allow_credentials'', ''HTTP_ACCESS_CONTROL_ALLOW_CREDENTIALS''),
    (''http_access_control_allow_headers'', ''HTTP_ACCESS_CONTROL_ALLOW_HEADERS''),
    (''http_access_control_allow_methods'', ''HTTP_ACCESS_CONTROL_ALLOW_METHODS''),
    (''http_access_control_allow_origin'', ''HTTP_ACCESS_CONTROL_ALLOW_ORIGIN''),
    (''http_access_control_expose_headers'', ''HTTP_ACCESS_CONTROL_EXPOSE_HEADERS''),
    (''http_access_control_max_age'', ''HTTP_ACCESS_CONTROL_MAX_AGE''),
    (''http_access_control_request_headers'', ''HTTP_ACCESS_CONTROL_REQUEST_HEADERS''),
    (''http_access_control_request_method'', ''HTTP_ACCESS_CONTROL_REQUEST_METHOD''),
    (''http_age'', ''HTTP_AGE''), (''http_allow'', ''HTTP_ALLOW''),
    (''http_alt_svc'', ''HTTP_ALT_SVC''), (''http_authorization'', ''HTTP_AUTHORIZATION''),
    (''http_cache_control'', ''HTTP_CACHE_CONTROL''),
    (''http_cache_status'', ''HTTP_CACHE_STATUS''),
    (''http_cdn_cache_control'', ''HTTP_CDN_CACHE_CONTROL''),
    (''http_content_disposition'', ''HTTP_CONTENT_DISPOSITION''),
    (''http_content_encoding'', ''HTTP_CONTENT_ENCODING''),
    (''http_content_language'', ''HTTP_CONTENT_LANGUAGE''),
    (''http_content_location'', ''HTTP_CONTENT_LOCATION''),
    (''http_content_range'', ''HTTP_CONTENT_RANGE''),
    (''http_content_security_policy'', ''HTTP_CONTENT_SECURITY_POLICY''),
    (''http_content_security_policy_report_only'', ''HTTP_CONTENT_SECURITY_POLICY_REPORT_ONLY''),
    (''http_cookie'', ''HTTP_COOKIE''), (''http_dnt'', ''HTTP_DNT''),
    (''http_date'', ''HTTP_DATE''), (''http_etag'', ''HTTP_ETAG''),
    (''http_expect'', ''HTTP_EXPECT''), (''http_expires'', ''HTTP_EXPIRES''),
    (''http_forwarded'', ''HTTP_FORWARDED''), (''http_from'', ''HTTP_FROM''),
    (''http_host'', ''HTTP_HOST''), (''http_if_match'', ''HTTP_IF_MATCH''),
    (''http_if_modified_since'', ''HTTP_IF_MODIFIED_SINCE''),
    (''http_if_none_match'', ''HTTP_IF_NONE_MATCH''), (''http_if_range'', ''HTTP_IF_RANGE''),
    (''http_if_unmodified_since'', ''HTTP_IF_UNMODIFIED_SINCE''),
    (''http_last_modified'', ''HTTP_LAST_MODIFIED''), (''http_link'', ''HTTP_LINK''),
    (''http_location'', ''HTTP_LOCATION''), (''http_max_forwards'', ''HTTP_MAX_FORWARDS''),
    (''http_origin'', ''HTTP_ORIGIN''), (''http_pragma'', ''HTTP_PRAGMA''),
    (''http_proxy_authenticate'', ''HTTP_PROXY_AUTHENTICATE''),
    (''http_proxy_authorization'', ''HTTP_PROXY_AUTHORIZATION''),
    (''http_public_key_pins'', ''HTTP_PUBLIC_KEY_PINS''),
    (''http_public_key_pins_report_only'', ''HTTP_PUBLIC_KEY_PINS_REPORT_ONLY''),
    (''http_range'', ''HTTP_RANGE''), (''http_referer'', ''HTTP_REFERER''),
    (''http_referrer_policy'', ''HTTP_REFERRER_POLICY''), (''http_refresh'', ''HTTP_REFRESH''),
    (''http_retry_after'', ''HTTP_RETRY_AFTER''),
    (''http_sec_websocket_accept'', ''HTTP_SEC_WEBSOCKET_ACCEPT''),
    (''http_sec_websocket_extensions'', ''HTTP_SEC_WEBSOCKET_EXTENSIONS''),
    (''http_sec_websocket_key'', ''HTTP_SEC_WEBSOCKET_KEY''),
    (''http_sec_websocket_protocol'', ''HTTP_SEC_WEBSOCKET_PROTOCOL''),
    (''http_sec_websocket_version'', ''HTTP_SEC_WEBSOCKET_VERSION''),
    (''http_server'', ''HTTP_SERVER''), (''http_set_cookie'', ''HTTP_SET_COOKIE''),
    (''http_strict_transport_security'', ''HTTP_STRICT_TRANSPORT_SECURITY''),
    (''http_te'', ''HTTP_TE''), (''http_trailer'', ''HTTP_TRAILER''),
    (''http_user_agent'', ''HTTP_USER_AGENT''),
    (''http_upgrade_insecure_requests'', ''HTTP_UPGRADE_INSECURE_REQUESTS''),
    (''http_vary'', ''HTTP_VARY''), (''http_via'', ''HTTP_VIA''),
    (''http_warning'', ''HTTP_WARNING''), (''http_www_authenticate'', ''HTTP_WWW_AUTHENTICATE''),
    (''http_x_content_type_options'', ''HTTP_X_CONTENT_TYPE_OPTIONS''),
    (''http_x_dns_prefetch_control'', ''HTTP_X_DNS_PREFETCH_CONTROL''),
    (''http_x_frame_options'', ''HTTP_X_FRAME_OPTIONS''),
    (''http_x_xss_protection'', ''HTTP_X_XSS_PROTECTION'')]"

text \<open>The arms of the two matches, in order: the \<open>http\<close> constant and the field it selects.\<close>

definition asgi_arms_1 :: "(string \<times> string) list" where
  "asgi_arms_1 =
   [(''ACCEPT'', ''accept''), (''ACCEPT_CHARSET'', ''accept_charset''),
    (''ACCEPT_ENCODING'', ''accept_encoding''), (''ACCEPT_LANGUAGE'', ''accept_language''),
    (''ACCEPT_RANGES'', ''accept_ranges''),
    (''ACCESS_CONTROL_ALLOW_CREDENTIALS'', ''access_control_allow_credentials''),
    (''ACCESS_CONTROL_ALLOW_HEADERS'', ''access_control_allow_headers''),
    (''ACCESS_CONTROL_ALLOW_METHODS'', ''access_control_allow_methods''),
    (''ACCESS_CONTROL_ALLOW_ORIGIN'', ''access_control_allow_origin''),
    (''ACCESS_CONTROL_EXPOSE_HEADERS'', ''access_control_expose_headers''),
    (''ACCESS_CONTROL_MAX_AGE'', ''access_control_max_age''),
    (''ACCESS_CONTROL_REQUEST_HEADERS'', ''access_control_request_headers''),
    (''ACCESS_CONTROL_REQUEST_METHOD'', ''access_control_request_method''), (''AGE'', ''age''),
    (''ALLOW'', ''allow''), (''ALT_SVC'', ''alt_svc''), (''AUTHORIZATION'', ''authorization''),
    (''CACHE_CONTROL'', ''cache_control''), (''CACHE_STATUS'', ''cache_status''),
    (''CDN_CACHE_CONTROL'', ''cdn_cache_control''),
    (''CONTENT_DISPOSITION'', ''content_disposition''),
    (''CONTENT_ENCODING'', ''content_encoding''), (''CONTENT_LANGUAGE'', ''content_language''),
    (''CONTENT_LENGTH'', ''content_length''), (''CONTENT_LOCATION'', ''content_location''),
    (''CONTENT_RANGE'', ''content_range''),
    (''CONTENT_SECURITY_POLICY'', ''content_security_policy''),
    (''CONTENT_SECURITY_POLICY_REPORT_ONLY'', ''content_security_policy_report_only''),
    (''CONTENT_TYPE'', ''content_type''), (''COOKIE'', ''cookie''), (''DNT'', ''dnt''),
    (''DATE'', ''date''), (''ETAG'', ''etag''), (''EXPECT'', ''expect''),
    (''EXPIRES'', ''expires''), (''FORWARDED'', ''forwarded''), (''FROM'', ''from''),
    (''HOST'', ''host''), (''IF_MATCH'', ''if_match'')]"

definition asgi_arms_2 :: "(string \<times> string) list" where
  "asgi_arms_2 =
   [(''IF_MODIFIED_SINCE'', ''if_modified_since''), (''IF_NONE_MATCH'', ''if_none_match''),
    (''IF_RANGE'', ''if_range''), (''IF_UNMODIFIED_SINCE'', ''if_unmodified_since''),
    (''LAST_MODIFIED'', ''last_modified''), (''LINK'', ''link''), (''LOCATION'', ''location''),
    (''MAX_FORWARDS'', ''max_forwards''), (''ORIGIN'', ''origin''), (''PRAGMA'', ''pragma''),
    (''PROXY_AUTHENTICATE'', ''proxy_authenticate''),
    (''PROXY_AUTHORIZATION'', ''proxy_authorization''), (''PUBLIC_KEY_PINS'', ''public_key_pins''),
    (''PUBLIC_KEY_PINS_REPORT_ONLY'', ''public_key_pins_report_only''), (''RANGE'', ''range''),
    (''REFERER'', ''referer''), (''REFERRER_POLICY'', ''referrer_policy''),
    (''REFRESH'', ''refresh''), (''RETRY_AFTER'', ''retry_after''),
    (''SEC_WEBSOCKET_ACCEPT'', ''sec_websocket_accept''),
    (''SEC_WEBSOCKET_EXTENSIONS'', ''sec_websocket_extensions''),
    (''SEC_WEBSOCKET_KEY'', ''sec_websocket_key''),
    (''SEC_WEBSOCKET_PROTOCOL'', ''sec_websocket_protocol''),
    (''SEC_WEBSOCKET_VERSION'', ''sec_websocket_version''), (''SERVER'', ''server''),
    (''SET_COOKIE'', ''set_cookie''),
    (''STRICT_TRANSPORT_SECURITY'', ''strict_transport_security''), (''TE'', ''te''),
    (''TRAILER'', ''trailer''), (''USER_AGENT'', ''user_agent''),
    (''UPGRADE_INSECURE_REQUESTS'', ''upgrade_insecure_requests''), (''VARY'', ''vary''),
    (''VIA'', ''via''), (''WARNING'', ''warning''), (''WWW_AUTHENTICATE'', ''www_authenticate''),
    (''X_CONTENT_TYPE_OPTIONS'', ''x_content_type_options''),
    (''X_DNS_PREFETCH_CONTROL'', ''x_dns_prefetch_control''),
    (''X_FRAME_OPTIONS'', ''x_frame_options''), (''X_XSS_PROTECTION'', ''x_xss_protection'')]"

definition wsgi_arms_1 :: "(string \<times> string) list" where
  "wsgi_arms_1 =
   [(''ACCEPT'', ''http_accept''), (''ACCEPT_CHARSET'', ''http_accept_charset''),
    (''ACCEPT_ENCODING'', ''http_accept_encoding''),
    (''ACCEPT_LANGUAGE'', ''http_accept_language''), (''ACCEPT_RANGES'', ''http_accept_ranges''),
    (''ACCESS_CONTROL_ALLOW_CREDENTIALS'', ''http_access_control_allow_credentials''),
    (''ACCESS_CONTROL_ALLOW_HEADERS'', ''http_access_control_allow_headers''),
    (''ACCESS_CONTROL_ALLOW_METHODS'', ''http_access_control_allow_methods''),
    (''ACCESS_CONTROL_ALLOW_ORIGIN'', ''http_access_control_allow_origin''),
    (''ACCESS_CONTROL_EXPOSE_HEADERS'', ''http_access_control_expose_headers''),
    (''ACCESS_CONTROL_MAX_AGE'', ''http_access_control_max_age''),
    (''ACCESS_CONTROL_REQUEST_HEADERS'', ''http_access_control_request_headers''),
    (''ACCESS_CONTROL_REQUEST_METHOD'', ''http_access_control_request_method''),
    (''AGE'', ''http_age''), (''ALLOW'', ''http_allow''), (''ALT_SVC'', ''http_alt_svc''),
    (''AUTHORIZATION'', ''http_authorization''), (''CACHE_CONTROL'', ''http_cache_control''),
    (''CACHE_STATUS'', ''http_cache_status''), (''CDN_CACHE_CONTROL'', ''http_cdn_cache_control''),
    (''CONTENT_DISPOSITION'', ''http_content_disposition''),
    (''CONTENT_ENCODING'', ''http_content_encoding''),
    (''CONTENT_LANGUAGE'', ''http_content_language''),
    (''CONTENT_LOCATION'', ''http_content_location''), (''CONTENT_RANGE'', ''http_content_range''),
    (''CONTENT_SECURITY_POLICY'', ''http_content_security_policy''),
    (''CONTENT_SECURITY_POLICY_REPORT_ONLY'', ''http_content_security_policy_report_only''),
    (''COOKIE'', ''http_cookie''), (''DNT'', ''http_dnt''), (''DATE'', ''http_date''),
    (''ETAG'', ''http_etag''), (''EXPECT'', ''http_expect''), (''EXPIRES'', ''http_expires''),
    (''FORWARDED'', ''http_forwarded''), (''FROM'', ''http_from''), (''HOST'', ''http_host'')]"

definition wsgi_arms_2 :: "(string \<times> string) list" where
  "wsgi_arms_2 =
   [(''IF_MATCH'', ''http_if_match''), (''IF_MODIFIED_SINCE'', ''http_if_modified_since''),
    (''IF_NONE_MATCH'', ''http_if_none_match''), (''IF_RANGE'', ''http_if_range''),
    (''IF_UNMODIFIED_SINCE'', ''http_if_unmodified_since''),
    (''LAST_MODIFIED'', ''http_last_modified''), (''LINK'', ''http_link''),
    (''LOCATION'', ''http_location''), (''MAX_FORWARDS'', ''http_max_forwards''),
    (''ORIGIN'', ''http_origin''), (''PRAGMA'', ''http_pragma''),
    (''PROXY_AUTHENTICATE'', ''http_proxy_authenticate''),
    (''PROXY_AUTHORIZATION'', ''http_proxy_authorization''),
    (''PUBLIC_KEY_PINS'', ''http_public_key_pins''),
    (''PUBLIC_KEY_PINS_REPORT_ONLY'', ''http_public_key_pins_report_only''),
    (''RANGE'', ''http_range''), (''REFERER'', ''http_referer''),
    (''REFERRER_POLICY'', ''http_referrer_policy''), (''REFRESH'', ''http_refresh''),
    (''RETRY_AFTER'', ''http_retry_after''),
    (''SEC_WEBSOCKET_ACCEPT'', ''http_sec_websocket_accept''),
    (''SEC_WEBSOCKET_EXTENSIONS'', ''http_sec_websocket_extensions''),
    (''SEC_WEBSOCKET_KEY'', ''http_sec_websocket_key''),
    (''SEC_WEBSOCKET_PROTOCOL'', ''http_sec_websocket_protocol''),
    (''SEC_WEBSOCKET_VERSION'', ''http_sec_websocket_version''), (''SERVER'', ''http_server''),
    (''SET_COOKIE'', ''http_set_cookie''),
    (''STRICT_TRANSPORT_SECURITY'', ''http_strict_transport_security''), (''TE'', ''http_te''),
    (''TRAILER'', ''http_trailer''), (''USER_AGENT'', ''http_user_agent''),
    (''UPGRADE_INSECURE_REQUESTS'', ''http_upgrade_insecure_requests''), (''VARY'', ''http_vary''),
    (''VIA'', ''http_via''), (''WARNING'', ''http_warning''),
    (''WWW_AUTHENTICATE'', ''http_www_authenticate''),
    (''X_CONTENT_TYPE_OPTIONS'', ''http_x_content_type_options''),
    (''X_DNS_PREFETCH_CONTROL'', ''http_x_dns_prefetch_control''),
    (''X_FRAME_OPTIONS'', ''http_x_frame_options''),
    (''X_XSS_PROTECTION'', ''http_x_xss_protection'')]"

definition asgi_arms :: "(string \<times> string) list" where
  "asgi_arms = asgi_arms_1 @ asgi_arms_2"

definition wsgi_arms :: "(string \<times> string) list" where
  "wsgi_arms = wsgi_arms_1 @ wsgi_arms_2"

section \<open>The conversions\<close>

fun first_arm :: "(string \<Rightarrow> bytes) \<Rightarrow> (string \<times> string) list \<Rightarrow> bytes \<Rightarrow> string option" where
  "first_arm hc [] name = None"
| "first_arm hc ((const, field) # arms) name =
     (if name = hc const then Some field else first_arm hc arms name)"

definition to_asgi_bytes :: "(string \<Rightarrow> bytes) \<Rightarrow> bytes \<Rightarrow> bytes option" where
  "to_asgi_bytes hc name =
     (case first_arm hc asgi_arms name of
        Some field \<Rightarrow> map_of ASGIHeaderNameConstants_new field
      | None \<Rightarrow> Some name)"

definition wsgi_fallback :: "bytes \<Rightarrow> bytes" where
  "wsgi_fallback name =
     ''HTTP_'' @ map (\<lambda>c. if c = CHR ''-'' then CHR ''_'' else c) (map to_ascii_upper name)"

definition to_wsgi_string :: "(string \<Rightarrow> bytes) \<Rightarrow> bytes \<Rightarrow> bytes option" where
  "to_wsgi_string hc name =
     (case first_arm hc wsgi_arms name of
        Some field \<Rightarrow> map_of WSGIHeaderNameConstants_new field
      | None \<Rightarrow> Some (wsgi_fallback name))"

text \<open>
  The documented naming of the \<open>http\<close> crate's constants: the text of \<open>header::CONTENT_TYPE\<close>
  is \<open>content-type\<close>, and so on.
\<close>

definition kebab :: "string \<Rightarrow> bytes" where
  "kebab ident = map (\<lambda>c. if c = CHR ''_'' then CHR ''-'' else to_ascii_lower c) ident"

definition http_constants :: "(string \<Rightarrow> bytes) \<Rightarrow> bool" where
  "http_constants hc \<longleftrightarrow> (\<forall>(c, f) \<in> set asgi_arms \<union> set wsgi_arms. hc c = kebab c)"

section \<open>Lemmas\<close>

lemma first_arm_Some:
  "first_arm hc arms name = Some f \<Longrightarrow> \<exists>c. (c, f) \<in> set arms \<and> name = hc c"
  by (induction arms) (auto split: if_splits)

lemma asgi_table:
  "map (\<lambda>(c, f). (f, kebab c)) asgi_arms = ASGIHeaderNameConstants_new"
  by (simp add: asgi_arms_def asgi_arms_1_def asgi_arms_2_def ASGIHeaderNameConstants_new_def
      kebab_def)

lemma wsgi_table:
  "map (\<lambda>(c, f). (f, wsgi_fallback (kebab c))) wsgi_arms = WSGIHeaderNameConstants_new"
  by (simp add: wsgi_arms_def wsgi_arms_1_def wsgi_arms_2_def WSGIHeaderNameConstants_new_def
      kebab_def wsgi_fallback_def)

lemma fields_initialised:
  "map fst ASGIHeaderNameConstants_new = ASGIHeaderNameConstants"
  "map fst WSGIHeaderNameConstants_new = WSGIHeaderNameConstants"
  by (simp_all add: ASGIHeaderNameConstants_new_def ASGIHeaderNameConstants_def
      WSGIHeaderNameConstants_new_def WSGIHeaderNameConstants_def)

lemma fields_distinct: "distinct ASGIHeaderNameConstants" "distinct WSGIHeaderNameConstants"
  by (simp_all add: ASGIHeaderNameConstants_def WSGIHeaderNameConstants_def)

text \<open>A table built from the arms returns, for the field an arm selects, that arm's value.\<close>

lemma table_lookup:
  assumes "map (\<lambda>(c, f). (f, v c)) arms = table" and "distinct (map fst table)"
    and "(c, f) \<in> set arms"
  shows "map_of table f = Some (v c)"
proof -
  have "(f, v c) \<in> set table"
    using assms(1,3) by force
  with assms(2) show ?thesis by simp
qed

lemma first_arm_lookup:
  assumes "first_arm hc arms name = Some f" and "\<forall>(c, f) \<in> set arms. hc c = kebab c"
    and "map (\<lambda>(c, f). (f, v (kebab c))) arms = table" and "distinct (map fst table)"
  shows "map_of table f = Some (v name)"
proof -
  from first_arm_Some [OF assms(1)] obtain c where c: "(c, f) \<in> set arms" "name = hc c"
    by blast
  with assms(2) have "name = kebab c" by auto
  with table_lookup [OF assms(3,4) c(1)] show ?thesis by simp
qed

lemma to_asgi_bytes_eq: "http_constants hc \<Longrightarrow> to_asgi_bytes hc name = Some name"
  using first_arm_lookup [of hc asgi_arms name _ "\<lambda>x. x", OF _ _ asgi_table]
  by (auto simp: to_asgi_bytes_def http_constants_def fields_initialised fields_distinct
      split: option.splits)

lemma to_wsgi_string_eq: "http_constants hc \<Longrightarrow> to_wsgi_string hc name = Some (wsgi_fallback name)"
  using first_arm_lookup [of hc wsgi_arms name _ wsgi_fallback, OF _ _ wsgi_table]
  by (auto simp: to_wsgi_string_def http_constants_def fields_initialised fields_distinct
      split: option.splits)

definition wsgi_char :: "char \<Rightarrow> char" where
  "wsgi_char c = (if to_ascii_upper c = CHR ''-'' then CHR ''_'' else to_ascii_upper c)"

lemma wsgi_fallback_chars: "wsgi_fallback name = ''HTTP_'' @ map wsgi_char name"
  by (simp add: wsgi_fallback_def wsgi_char_def)

lemma to_ascii_upper_inv: "to_ascii_lower c = c \<Longrightarrow> to_ascii_lower (to_ascii_upper c) = c"
  by (auto simp: to_ascii_upper_def to_ascii_lower_def split: if_splits)

lemma wsgi_char_inj: "inj_on wsgi_char {c. to_ascii_lower c = c \<and> c \<noteq> CHR ''_''}"
proof (rule inj_onI, clarify)
  fix a b
  assume ab: "to_ascii_lower a = a" "a \<noteq> CHR ''_''" "to_ascii_lower b = b" "b \<noteq> CHR ''_''"
    and eq: "wsgi_char a = wsgi_char b"
  have us: "c = CHR ''-''" if "to_ascii_upper c = CHR ''-''" "to_ascii_lower c = c" for c
    using to_ascii_upper_inv [OF that(2)] unfolding that(1) by simp
  have un: "c = CHR ''_''" if "to_ascii_upper c = CHR ''_''" "to_ascii_lower c = c" for c
    using to_ascii_upper_inv [OF that(2)] unfolding that(1) by simp
  have inj: "a = b" if "to_ascii_upper a = to_ascii_upper b"
    using to_ascii_upper_inv [OF ab(1)] to_ascii_upper_inv [OF ab(3)] unfolding that by simp
  show "a = b"
    using eq us [of a] us [of b] un [of a] un [of b] inj ab
    by (cases "to_ascii_upper a = CHR ''-''"; cases "to_ascii_upper b = CHR ''-''")
      (simp_all add: wsgi_char_def)
qed

lemma wsgi_fallback_inj:
  "inj_on wsgi_fallback {name. map to_ascii_lower name = name \<and> CHR ''_'' \<notin> set name}"
proof (rule inj_onI, clarify)
  fix xs ys
  assume xs: "map to_ascii_lower xs = xs" "CHR ''_'' \<notin> set xs"
    and ys: "map to_ascii_lower ys = ys" "CHR ''_'' \<notin> set ys"
    and eq: "wsgi_fallback xs = wsgi_fallback ys"
  have "set xs \<union> set ys \<subseteq> {c. to_ascii_lower c = c \<and> c \<noteq> CHR ''_''}"
    using xs ys map_eq_conv [of to_ascii_lower xs "\<lambda>c. c"] map_eq_conv [of to_ascii_lower ys "\<lambda>c. c"]
    by auto
  then have "inj_on wsgi_char (set xs \<union> set ys)"
    by (rule inj_on_subset [OF wsgi_char_inj])
  with eq show "xs = ys"
    by (simp add: wsgi_fallback_chars inj_on_map_eq_map)
qed

section \<open>Properties\<close>

text \<open>
  The memoised constants are invisible: given the \<open>http\<close> crate's documented names, for
  every header name \<open>to_asgi_bytes\<close> is the name itself and \<open>to_wsgi_string\<close> is
  \<open>HTTP_\<close> followed by the name in upper case with underscores, whether or not the name is
  one of the tabulated ones.
\<close>

theorem header_constants_equiv:
  assumes "http_constants hc"
  shows "to_asgi_bytes hc name = Some name \<and> to_wsgi_string hc name = Some (wsgi_fallback name)"
  using assms by (simp add: to_asgi_bytes_eq to_wsgi_string_eq)

theorem header_constants_equiv_witness:
  "to_asgi_bytes kebab ''x-custom'' = Some ''x-custom''
   \<and> to_wsgi_string kebab ''x-custom'' = Some (wsgi_fallback ''x-custom'')"
  by (rule header_constants_equiv) (auto simp: http_constants_def)

text \<open>
  Distinct headers keep distinct environ keys: on lower-case names without underscores,
  \<open>to_wsgi_string\<close> is injective (with an underscore it is not: \<open>a_b\<close> and \<open>a-b\<close> share a key).
\<close>

theorem to_wsgi_string_inj:
  assumes "http_constants hc"
  shows "inj_on (to_wsgi_string hc) {name. map to_ascii_lower name = name \<and> CHR ''_'' \<notin> set name}
    \<and> to_wsgi_string hc ''a_b'' = to_wsgi_string hc ''a-b''"
  using wsgi_fallback_inj
  by (simp add: inj_on_def to_wsgi_string_eq [OF assms] wsgi_fallback_chars wsgi_char_def)

theorem to_wsgi_string_inj_witness:
  "inj_on (to_wsgi_string kebab) {name. map to_ascii_lower name = name \<and> CHR ''_'' \<notin> set name}
   \<and> to_wsgi_string kebab ''a_b'' = to_wsgi_string kebab ''a-b''"
  by (rule to_wsgi_string_inj) (auto simp: http_constants_def)

end
