(* ===== verification/Request_Scope.thy ===== *)
theory Request_Scope
  imports Py_Values Header_Names
begin

text \<open>
  What the HTTP filters read from Envoy when a request arrives, and the scope they build from
  it: \<open>src/src/envoy.rs\<close>, the \<open>Scope\<close> part of \<open>src/src/types.rs\<close> and
  \<open>src/src/asgi/shared/scope.rs\<close>. The \<open>http\<close> crate's parsers and Envoy's attributes are
  parameters.
\<close>

section \<open>Request headers (envoy.rs)\<close>

type_synonym header = "bytes \<times> bytes"

text \<open>The \<open>http\<close> crate: each parser returns the text of the parsed value.\<close>

record http_api =
  header_name_from_bytes :: "bytes \<Rightarrow> bytes option"
  header_value_from_bytes :: "bytes \<Rightarrow> bytes option"
  method_from_bytes :: "bytes \<Rightarrow> bytes option"
  scheme_try_from :: "bytes \<Rightarrow> bytes option"
  status_from_bytes :: "bytes \<Rightarrow> nat option"

record headers_info =
  hi_headers :: "header list"
  hi_method :: bytes
  hi_raw_path :: bytes
  hi_scheme :: bytes

definition parse_header :: "http_api \<Rightarrow> header \<Rightarrow> header option" where
  "parse_header api h =
     (case (header_name_from_bytes api (fst h), header_value_from_bytes api (snd h)) of
        (Some name, Some value) \<Rightarrow> Some (name, value)
      | _ \<Rightarrow> None)"

definition read_header :: "http_api \<Rightarrow> header \<Rightarrow> headers_info \<Rightarrow> headers_info" where
  "read_header api h hi =
     (if fst h = '':method'' then
        (case method_from_bytes api (snd h) of Some m \<Rightarrow> hi\<lparr>hi_method := m\<rparr> | None \<Rightarrow> hi)
      else if fst h = '':scheme'' then
        (case scheme_try_from api (snd h) of Some s \<Rightarrow> hi\<lparr>hi_scheme := s\<rparr> | None \<Rightarrow> hi)
      else if fst h = '':path'' then hi\<lparr>hi_raw_path := snd h\<rparr>
      else if fst h = '':authority'' then hi
      else if fst h = ''x-forwarded-proto'' then hi
      else (case parse_header api h of
              Some nv \<Rightarrow> hi\<lparr>hi_headers := hi_headers hi @ [nv]\<rparr>
            | None \<Rightarrow> hi))"

definition read_request_headers ::
  "http_api \<Rightarrow> header list \<Rightarrow> bytes option \<Rightarrow> headers_info" where
  "read_request_headers api envoy_headers authority =
     (let host = (case authority of
                    None \<Rightarrow> []
                  | Some a \<Rightarrow> [(''host'', case header_value_from_bytes api a of
                                          Some v \<Rightarrow> v | None \<Rightarrow> ''unknown'')])
      in fold (read_header api) envoy_headers
           \<lparr>hi_headers = host, hi_method = ''GET'', hi_raw_path = [], hi_scheme = ''http''\<rparr>)"

section \<open>Request body buffers (envoy.rs)\<close>

text \<open>
  Envoy's two body buffers, each absent or a list of chunks. Draining is Envoy's: the
  parameter \<open>drain n\<close> removes the first \<open>n\<close> bytes of a buffer.
\<close>

record envoy_body =
  buffered_body :: "bytes list option"
  received_body :: "bytes list option"

type_synonym drain = "nat \<Rightarrow> bytes list option \<Rightarrow> bytes list option"

definition chunks :: "bytes list option \<Rightarrow> bytes list" where
  "chunks b = (case b of None \<Rightarrow> [] | Some cs \<Rightarrow> cs)"

definition has_nonempty_buffer :: "bytes list option \<Rightarrow> bool" where
  "has_nonempty_buffer body =
     (case body of Some buffers \<Rightarrow> list_ex (\<lambda>b. b \<noteq> []) buffers | None \<Rightarrow> False)"

definition has_request_body :: "envoy_body \<Rightarrow> bool" where
  "has_request_body b =
     (if has_nonempty_buffer (buffered_body b) then True
      else if has_nonempty_buffer (received_body b) then True
      else False)"

definition buffers_len :: "bytes list option \<Rightarrow> nat" where
  "buffers_len buffers =
     (case buffers of Some bs \<Rightarrow> sum_list (map length bs) | None \<Rightarrow> 0)"

definition extend_from_buffers :: "bytes list option \<Rightarrow> bytes \<Rightarrow> bytes \<times> nat" where
  "extend_from_buffers buffers vec =
     (case buffers of
        Some bs \<Rightarrow> fold (\<lambda>b (v, read). (v @ b, read + length b)) bs (vec, 0)
      | None \<Rightarrow> (vec, 0))"

definition drain_buffered :: "drain \<Rightarrow> nat \<Rightarrow> envoy_body \<Rightarrow> envoy_body" where
  "drain_buffered drain n b = b\<lparr>buffered_body := drain n (buffered_body b)\<rparr>"

definition drain_received :: "drain \<Rightarrow> nat \<Rightarrow> envoy_body \<Rightarrow> envoy_body" where
  "drain_received drain n b = b\<lparr>received_body := drain n (received_body b)\<rparr>"

text \<open>The slow path, shared with the filters that read everything that is buffered.\<close>

definition read_all_buffers :: "drain \<Rightarrow> bytes \<Rightarrow> envoy_body \<Rightarrow> bytes \<times> envoy_body" where
  "read_all_buffers drain vec b =
     (let (body, buffered_read) = extend_from_buffers (buffered_body b) vec;
          b = (if buffered_read > 0 then drain_buffered drain buffered_read b else b);
          (body, received_read) = extend_from_buffers (received_body b) body;
          b = (if received_read > 0 then drain_received drain received_read b else b)
      in (body, b))"

definition read_request_body :: "drain \<Rightarrow> envoy_body \<Rightarrow> bytes \<times> envoy_body" where
  "read_request_body drain b =
     (let buffered_len = length (chunks (buffered_body b));
          received_len = length (chunks (received_body b)) in
      if buffered_len = 0 \<and> received_len = 0 then ([], b)
      else if buffered_len = 1 \<and> received_len = 0 then
        (let body = chunks (buffered_body b) ! 0 in (body, drain_buffered drain (length body) b))
      else if buffered_len = 0 \<and> received_len = 1 then
        (let body = chunks (received_body b) ! 0 in (body, drain_received drain (length body) b))
      else read_all_buffers drain [] b)"

section \<open>The scope (types.rs)\<close>

datatype http_version = HTTP_09 | HTTP_10 | HTTP_11 | HTTP_2 | HTTP_3

datatype attribute_id =
    RequestProtocol
  | SourceAddress | SourcePort
  | DestinationAddress | DestinationPort
  | ConnectionTlsVersion | ConnectionSubjectPeerCertificate

record tls_info =
  tls_version :: "nat option"
  client_cert_name :: "bytes option"

record scope =
  sc_http_version :: http_version
  sc_method :: bytes
  sc_scheme :: bytes
  sc_raw_path :: bytes
  sc_headers :: "header list"
  sc_client :: "(bytes \<times> int) option"
  sc_server :: "(bytes \<times> int option) option"
  sc_tls_info :: "tls_info option"

text \<open>The parts of a request that Envoy reports when the filter asks.\<close>

record envoy_request =
  rq_headers :: "header list"
  rq_header_value :: "bytes \<Rightarrow> bytes option"
  rq_attribute_string :: "attribute_id \<Rightarrow> bytes option"
  rq_attribute_int :: "attribute_id \<Rightarrow> int option"

fun strip_prefix :: "char \<Rightarrow> bytes \<Rightarrow> bytes option" where
  "strip_prefix c [] = None"
| "strip_prefix c (x # xs) = (if x = c then Some xs else None)"

text \<open>The part after the bracket test, and \<open>strip_port\<close> itself.\<close>

definition strip_port_tail :: "bytes \<Rightarrow> bytes" where
  "strip_port_tail s =
     (case rsplit_once CHR '':'' s of
        Some (host, _) \<Rightarrow> if CHR '':'' \<in> set host then s else host
      | None \<Rightarrow> s)"

definition strip_port :: "bytes \<Rightarrow> bytes" where
  "strip_port s =
     (case strip_prefix CHR ''['' s of
        Some rest \<Rightarrow>
          (case position (\<lambda>c. c = CHR '']'') rest of
             Some end \<Rightarrow> take end rest
           | None \<Rightarrow> strip_port_tail s)
      | None \<Rightarrow> strip_port_tail s)"

definition get_address ::
  "envoy_request \<Rightarrow> attribute_id \<Rightarrow> attribute_id \<Rightarrow> (bytes \<times> int option) option" where
  "get_address rq address_attr_id port_attr_id =
     (case rq_attribute_string rq address_attr_id of
        None \<Rightarrow> None
      | Some host \<Rightarrow>
          (let host_str = (case str_from_utf8 host of Some s \<Rightarrow> s | None \<Rightarrow> []) in
           case rq_attribute_int rq port_attr_id of
             Some port \<Rightarrow> Some (strip_port host_str, Some port)
           | None \<Rightarrow> Some (host_str, None)))"

definition parse_protocol :: "bytes option \<Rightarrow> http_version" where
  "parse_protocol v =
     (case v of
        Some p \<Rightarrow> if p = ''HTTP/1.0'' then HTTP_10 else if p = ''HTTP/1.1'' then HTTP_11
                  else if p = ''HTTP/2'' then HTTP_2 else if p = ''HTTP/3'' then HTTP_3
                  else HTTP_11
      | None \<Rightarrow> HTTP_11)"

definition parse_tls_version :: "bytes \<Rightarrow> nat" where
  "parse_tls_version v =
     (if v = ''TLSv1.0'' then 0x0301 else if v = ''TLSv1.1'' then 0x0302
      else if v = ''TLSv1.2'' then 0x0303 else if v = ''TLSv1.3'' then 0x0304 else 0)"

definition new_scope :: "http_api \<Rightarrow> envoy_request \<Rightarrow> scope" where
  "new_scope api rq =
     (let hi = read_request_headers api (rq_headers rq) (rq_header_value rq '':authority'');
          client = Option.bind (get_address rq SourceAddress SourcePort)
                     (\<lambda>(host, port). map_option (\<lambda>p. (host, p)) port);
          server = get_address rq DestinationAddress DestinationPort;
          tls = map_option (\<lambda>v. \<lparr>tls_version = Some (parse_tls_version v),
                  client_cert_name = map_option
                    (\<lambda>s. case str_from_utf8 s of Some t \<Rightarrow> t | None \<Rightarrow> [])
                    (rq_attribute_string rq ConnectionSubjectPeerCertificate)\<rparr>)
                  (rq_attribute_string rq ConnectionTlsVersion)
      in \<lparr>sc_http_version = parse_protocol (rq_attribute_string rq RequestProtocol),
          sc_method = hi_method hi, sc_scheme = hi_scheme hi, sc_raw_path = hi_raw_path hi,
          sc_headers = hi_headers hi, sc_client = client, sc_server = server,
          sc_tls_info = tls\<rparr>)"

section \<open>Dictionary entries shared by ASGI and WSGI (types.rs)\<close>

text \<open>
  The memoised method strings are the method's own text; only the version needs a table, for
  ASGI's \<open>http_version\<close> and for WSGI's \<open>SERVER_PROTOCOL\<close>.
\<close>

definition set_http_method :: "bytes \<Rightarrow> bytes \<Rightarrow> pydict \<Rightarrow> pydict" where
  "set_http_method key method d =
     (if method = ''OPTIONS'' then dict_set key (PyStr ''OPTIONS'') d
      else if method = ''GET'' then dict_set key (PyStr ''GET'') d
      else if method = ''POST'' then dict_set key (PyStr ''POST'') d
      else if method = ''PUT'' then dict_set key (PyStr ''PUT'') d
      else if method = ''DELETE'' then dict_set key (PyStr ''DELETE'') d
      else if method = ''HEAD'' then dict_set key (PyStr ''HEAD'') d
      else if method = ''TRACE'' then dict_set key (PyStr ''TRACE'') d
      else if method = ''PATCH'' then dict_set key (PyStr ''PATCH'') d
      else dict_set key (PyStr method) d)"

definition set_http_scheme :: "bytes \<Rightarrow> bytes \<Rightarrow> pydict \<Rightarrow> pydict" where
  "set_http_scheme key scheme d =
     (if scheme = ''http'' then dict_set key (PyStr ''http'') d
      else if scheme = ''https'' then dict_set key (PyStr ''https'') d
      else dict_set key (PyStr scheme) d)"

definition set_http_version :: "http_version \<Rightarrow> pydict \<Rightarrow> pydict" where
  "set_http_version v d =
     dict_set ''http_version''
       (PyStr (case v of HTTP_10 \<Rightarrow> ''1.0'' | HTTP_11 \<Rightarrow> ''1.1'' | HTTP_2 \<Rightarrow> ''2''
                       | HTTP_3 \<Rightarrow> ''3'' | _ \<Rightarrow> ''1.1'')) d"

definition set_http_version_wsgi :: "http_version \<Rightarrow> pydict \<Rightarrow> pydict" where
  "set_http_version_wsgi v d =
     dict_set ''SERVER_PROTOCOL''
       (PyStr (case v of HTTP_10 \<Rightarrow> ''HTTP/1.0'' | HTTP_11 \<Rightarrow> ''HTTP/1.1'' | HTTP_2 \<Rightarrow> ''HTTP/2''
                       | HTTP_3 \<Rightarrow> ''HTTP/3'' | _ \<Rightarrow> ''HTTP/1.1'')) d"

section \<open>The ASGI scope dictionary (asgi/shared/scope.rs)\<close>

text \<open>\<open>?\<close> and everything after it, split off the raw path.\<close>

definition split_query :: "bytes \<Rightarrow> bytes \<times> bytes" where
  "split_query raw =
     (case position (\<lambda>b. b = CHR ''?'') raw of
        Some query_idx \<Rightarrow> (take query_idx raw, drop (query_idx + 1) raw)
      | None \<Rightarrow> (raw, []))"

definition tls_dict :: "tls_info \<Rightarrow> pydict" where
  "tls_dict info =
     dict_set ''client_cert_name''
       (case client_cert_name info of Some n \<Rightarrow> PyStr n | None \<Rightarrow> PyNone)
       (dict_set ''tls_version''
         (case tls_version info of Some v \<Rightarrow> PyInt (int v) | None \<Rightarrow> PyNone) [])"

definition py_address :: "(bytes \<times> pyval) option \<Rightarrow> pyval" where
  "py_address a = (case a of None \<Rightarrow> PyNone | Some (h, p) \<Rightarrow> PyTuple [PyStr h, p])"

text \<open>
  The parameter \<open>decode_binary\<close> is \<open>urlencoding::decode_binary\<close>; \<open>hc\<close> gives the text of the
  \<open>http\<close> crate's header constants.
\<close>

definition asgi_name :: "(string \<Rightarrow> bytes) \<Rightarrow> bytes \<Rightarrow> bytes" where
  "asgi_name hc k = (case to_asgi_bytes hc k of Some n \<Rightarrow> n | None \<Rightarrow> [])"

text \<open>The entries written before the path is decoded, and those written after it.\<close>

definition scope_head ::
  "scope \<Rightarrow> bytes \<Rightarrow> pydict \<Rightarrow> pydict \<Rightarrow> pydict option \<Rightarrow> bytes \<Rightarrow> pydict" where
  "scope_head sc ty asgi extensions state query =
     (let d = dict_set ''asgi'' (PyDict asgi) (dict_set ''type'' (PyStr ty) []);
          extensions = (case sc_tls_info sc of
                          Some info \<Rightarrow> dict_set ''tls'' (PyDict (tls_dict info)) extensions
                        | None \<Rightarrow> extensions);
          d = dict_set ''extensions'' (PyDict extensions) d;
          d = dict_set_opt ''state'' (map_option PyDict state) d;
          d = set_http_version (sc_http_version sc) d;
          d = set_http_method ''method'' (sc_method sc) d;
          d = set_http_scheme ''scheme'' (sc_scheme sc) d
      in dict_set ''query_string'' (PyBytes query) d)"

definition scope_tail ::
  "(string \<Rightarrow> bytes) \<Rightarrow> scope \<Rightarrow> bytes \<Rightarrow> bytes option \<Rightarrow> pydict \<Rightarrow> pydict" where
  "scope_tail hc sc raw_path root_path d =
     (let d = dict_set ''raw_path'' (PyBytes raw_path) d;
          d = dict_set_opt ''root_path'' (map_option PyStr root_path) d;
          d = dict_set ''headers''
                (PyList (map (\<lambda>(k, v). PyTuple [PyBytes (asgi_name hc k), PyBytes v])
                   (sc_headers sc))) d;
          d = dict_set ''client''
                (py_address (map_option (\<lambda>(a, p). (a, PyInt p)) (sc_client sc))) d
      in dict_set ''server''
           (py_address (map_option (\<lambda>(a, p). (a, case p of Some i \<Rightarrow> PyInt i | None \<Rightarrow> PyNone))
              (sc_server sc))) d)"

definition new_scope_dict ::
  "(bytes \<Rightarrow> bytes) \<Rightarrow> (string \<Rightarrow> bytes) \<Rightarrow> scope \<Rightarrow> bytes \<Rightarrow> pydict \<Rightarrow> pydict \<Rightarrow> bytes option
   \<Rightarrow> pydict option \<Rightarrow> pyerr + pydict" where
  "new_scope_dict decode_binary hc sc ty asgi extensions root_path state =
     (let (raw_path, query) = split_query (sc_raw_path sc);
          d = scope_head sc ty asgi extensions state query
      in pbind (py_string_from_bytes (decode_binary raw_path)) (\<lambda>path.
           Inr (scope_tail hc sc raw_path root_path (dict_set ''path'' path d))))"

section \<open>Lemmas\<close>

definition skipped_header :: "header \<Rightarrow> bool" where
  "skipped_header h \<longleftrightarrow>
     fst h \<in> {'':method'', '':scheme'', '':path'', '':authority'', ''x-forwarded-proto''}"

definition path_values :: "header list \<Rightarrow> bytes list" where
  "path_values hs = map snd (filter (\<lambda>h. fst h = '':path'') hs)"

definition last_or :: "'a \<Rightarrow> 'a list \<Rightarrow> 'a" where
  "last_or d xs = (if xs = [] then d else last xs)"

lemma last_or_Cons: "last_or d (x # xs) = last_or x xs"
  by (simp add: last_or_def)

lemma read_header_headers:
  "hi_headers (read_header api h hi) =
     hi_headers hi @ List.map_filter (parse_header api) (if skipped_header h then [] else [h])"
  by (cases "method_from_bytes api (snd h)"; cases "scheme_try_from api (snd h)";
      cases "parse_header api h")
    (simp_all add: read_header_def skipped_header_def List.map_filter_def)

lemma read_header_path:
  "hi_raw_path (read_header api h hi) = (if fst h = '':path'' then snd h else hi_raw_path hi)"
  by (cases "method_from_bytes api (snd h)"; cases "scheme_try_from api (snd h)";
      cases "parse_header api h") (simp_all add: read_header_def)

lemma fold_read_header_headers:
  "hi_headers (fold (read_header api) hs hi) =
     hi_headers hi @ List.map_filter (parse_header api) (filter (\<lambda>h. \<not> skipped_header h) hs)"
  by (induction hs arbitrary: hi) (simp_all add: read_header_headers List.map_filter_def)

lemma fold_read_header_path:
  "hi_raw_path (fold (read_header api) hs hi) = last_or (hi_raw_path hi) (path_values hs)"
proof (induction hs arbitrary: hi)
  case Nil
  then show ?case by (simp add: path_values_def last_or_def)
next
  case (Cons h hs)
  show ?case
    unfolding fold_Cons o_apply Cons.IH
    by (simp add: read_header_path path_values_def last_or_Cons)
qed

text \<open>The content of a buffer, and Envoy's law for draining it.\<close>

definition content :: "bytes list option \<Rightarrow> bytes" where
  "content b = concat (chunks b)"

definition drain_law :: "drain \<Rightarrow> bool" where
  "drain_law drain \<longleftrightarrow> (\<forall>n b. content (drain n b) = drop n (content b))"

lemma content_None [simp]: "content None = []"
  by (simp add: content_def chunks_def)

lemma content_Some [simp]: "content (Some bs) = concat bs"
  by (simp add: content_def chunks_def)

lemma has_nonempty_buffer_content: "has_nonempty_buffer b \<longleftrightarrow> content b \<noteq> []"
  by (auto simp: has_nonempty_buffer_def list_ex_iff split: option.splits)

lemma has_request_body_content:
  "has_request_body b \<longleftrightarrow> content (buffered_body b) @ content (received_body b) \<noteq> []"
  by (simp add: has_request_body_def has_nonempty_buffer_content)

lemma buffers_len_content: "buffers_len b = length (content b)"
  by (simp add: buffers_len_def length_concat split: option.splits)

lemma fold_extend:
  "fold (\<lambda>b (v, read). (v @ b, read + length b)) bs (vec, n)
     = (vec @ concat bs, n + length (concat bs))"
  by (induction bs arbitrary: vec n) auto

lemma extend_from_buffers_content:
  "extend_from_buffers buffers vec = (vec @ content buffers, length (content buffers))"
  by (auto simp: extend_from_buffers_def fold_extend split: option.splits)

lemma content_drain:
  "drain_law drain \<Longrightarrow> content (drain n b) = drop n (content b)"
  by (simp add: drain_law_def)

lemma read_all_buffers_spec:
  assumes "drain_law drain"
  shows "fst (read_all_buffers drain vec b)
           = vec @ content (buffered_body b) @ content (received_body b)"
    and "content (buffered_body (snd (read_all_buffers drain vec b))) = []"
    and "content (received_body (snd (read_all_buffers drain vec b))) = []"
  using assms
  by (simp_all add: read_all_buffers_def extend_from_buffers_content Let_def content_drain
      drain_buffered_def drain_received_def)

lemma chunks_single: "length (chunks b) = 1 \<Longrightarrow> content b = chunks b ! 0"
  by (auto simp: content_def length_Suc_conv)

lemma chunks_none: "length (chunks b) = 0 \<Longrightarrow> content b = []"
  by (simp add: content_def)

lemma read_request_body_spec:
  assumes "drain_law drain"
  shows "fst (read_request_body drain b) = content (buffered_body b) @ content (received_body b)
     \<and> \<not> has_request_body (snd (read_request_body drain b))"
proof -
  consider (none) "length (chunks (buffered_body b)) = 0" "length (chunks (received_body b)) = 0"
    | (buffered) "length (chunks (buffered_body b)) = 1" "length (chunks (received_body b)) = 0"
    | (received) "length (chunks (buffered_body b)) = 0" "length (chunks (received_body b)) = 1"
    | (general) "\<not> (length (chunks (buffered_body b)) = 0 \<and> length (chunks (received_body b)) = 0)"
        "\<not> (length (chunks (buffered_body b)) = 1 \<and> length (chunks (received_body b)) = 0)"
        "\<not> (length (chunks (buffered_body b)) = 0 \<and> length (chunks (received_body b)) = 1)"
    by blast
  then show ?thesis
  proof cases
    case none
    then show ?thesis
      by (simp add: read_request_body_def has_request_body_content chunks_none)
  next
    case buffered
    with chunks_single [OF buffered(1)] assms show ?thesis
      by (simp add: read_request_body_def Let_def has_request_body_content chunks_none
          drain_buffered_def content_drain)
  next
    case received
    with chunks_single [OF received(2)] assms show ?thesis
      by (simp add: read_request_body_def Let_def has_request_body_content chunks_none
          drain_received_def content_drain)
  next
    case general
    then have "read_request_body drain b = read_all_buffers drain [] b"
      by (simp only: read_request_body_def Let_def if_False)
    with read_all_buffers_spec [OF assms, of "[]" b] show ?thesis
      by (simp add: has_request_body_content)
  qed
qed

lemma split_query_cases:
  "split_query raw = (path, query) \<Longrightarrow>
     CHR ''?'' \<notin> set path \<and> (raw = path @ CHR ''?'' # query \<or> raw = path \<and> query = [])"
proof (cases "position (\<lambda>b. b = CHR ''?'') raw")
  case None
  assume "split_query raw = (path, query)"
  with None have "path = raw" "query = []" by (simp_all add: split_query_def)
  moreover have "CHR ''?'' \<notin> set raw"
    using None unfolding position_None by blast
  ultimately show ?thesis by simp
next
  case (Some i)
  assume sq: "split_query raw = (path, query)"
  from position_Some [OF Some] have "i < length raw" "raw ! i = CHR ''?''"
    "CHR ''?'' \<notin> set (take i raw)"
    by blast+
  moreover have "path = take i raw" "query = drop (Suc i) raw"
    using sq Some by (simp_all add: split_query_def)
  ultimately show ?thesis
    using id_take_nth_drop [of i raw] by simp
qed

lemma position_prefix:
  "c \<notin> set xs \<Longrightarrow> position (\<lambda>x. x = c) (xs @ c # ys) = Some (length xs)"
  by (induction xs) auto

lemma strip_port_tail_no_colon: "CHR '':'' \<notin> set s \<Longrightarrow> strip_port_tail s = s"
  using rsplit_once_None [of "CHR '':''" s] by (simp add: strip_port_tail_def)

lemma strip_port_tail_host_port:
  "CHR '':'' \<notin> set port \<Longrightarrow> strip_port_tail (host @ CHR '':'' # port)
     = (if CHR '':'' \<in> set host then host @ CHR '':'' # port else host)"
  using rsplit_once_Some [of "CHR '':''" "host @ CHR '':'' # port" host port]
  by (simp add: strip_port_tail_def)

lemma strip_port_plain:
  "s = [] \<or> hd s \<noteq> CHR ''['' \<Longrightarrow> strip_port s = strip_port_tail s"
  by (cases s) (auto simp: strip_port_def)

lemma scope_head_query:
  "dict_get (scope_head sc ty asgi ext state query) ''query_string'' = Some (PyBytes query)"
  by (simp add: scope_head_def Let_def)

lemma scope_tail_entries:
  "dict_get (scope_tail hc sc raw root d) ''raw_path'' = Some (PyBytes raw)"
  "dict_get (scope_tail hc sc raw root d) ''headers''
     = Some (PyList (map (\<lambda>(k, v). PyTuple [PyBytes (asgi_name hc k), PyBytes v]) (sc_headers sc)))"
  "dict_get (scope_tail hc sc raw root d) ''path'' = dict_get d ''path''"
  "dict_get (scope_tail hc sc raw root d) ''query_string'' = dict_get d ''query_string''"
  by (simp_all add: scope_tail_def Let_def)

lemma new_scope_dict_entries:
  assumes "new_scope_dict decode hc sc ty asgi ext root_path state = Inr d"
    and "split_query (sc_raw_path sc) = (path, query)"
  shows "dict_get d ''raw_path'' = Some (PyBytes path)
    \<and> dict_get d ''query_string'' = Some (PyBytes query)
    \<and> dict_get d ''path'' = Some (PyStr (decode path))
    \<and> dict_get d ''headers''
        = Some (PyList (map (\<lambda>(k, v). PyTuple [PyBytes (asgi_name hc k), PyBytes v]) (sc_headers sc)))
    \<and> utf8_valid (decode path)"
proof (cases "utf8_valid (decode path)")
  case True
  with assms have "d = scope_tail hc sc path root_path
      (dict_set ''path'' (PyStr (decode path)) (scope_head sc ty asgi ext state query))"
    by (simp add: new_scope_dict_def py_string_from_bytes_def)
  with True show ?thesis
    by (simp only: scope_tail_entries) (simp add: scope_head_query)
next
  case False
  with assms show ?thesis
    by (simp add: new_scope_dict_def py_string_from_bytes_def)
qed

lemma new_scope_dict_error:
  assumes "split_query (sc_raw_path sc) = (path, query)"
  shows "new_scope_dict decode hc sc ty asgi ext root_path state = Inl e \<longleftrightarrow>
           e = UnicodeDecodeError \<and> \<not> utf8_valid (decode path)"
  using assms by (auto simp: new_scope_dict_def py_string_from_bytes_def Let_def)

section \<open>Properties\<close>

text \<open>
  Request headers reach the application in Envoy's order: the result is the
  \<open>:authority\<close> as \<open>host\<close> first (when there is one), then every other header that parses,
  with the pseudo-headers and Envoy's \<open>x-forwarded-proto\<close> left out, nothing reordered,
  merged or invented; the raw path is the last \<open>:path\<close>.
\<close>

theorem read_request_headers_spec:
  "hi_headers (read_request_headers api hs authority) =
     (case authority of None \<Rightarrow> []
      | Some a \<Rightarrow> [(''host'', case header_value_from_bytes api a of Some v \<Rightarrow> v | None \<Rightarrow> ''unknown'')])
     @ List.map_filter (parse_header api) (filter (\<lambda>h. \<not> skipped_header h) hs)
   \<and> hi_raw_path (read_request_headers api hs authority) = last_or [] (path_values hs)"
  by (simp add: read_request_headers_def Let_def fold_read_header_headers fold_read_header_path)

text \<open>
  Reading the request body takes everything: whichever of the four paths (no chunk, one
  buffered chunk, one received chunk, the general case) runs, the bytes returned are the
  buffered ones followed by the received ones, and afterwards no body is left to read.
\<close>

theorem read_request_body_all:
  assumes "drain_law drain"
  shows "fst (read_request_body drain b) = content (buffered_body b) @ content (received_body b)
     \<and> \<not> has_request_body (snd (read_request_body drain b))"
  using read_request_body_spec [OF assms] .

theorem read_request_body_all_witness:
  "fst (read_request_body (\<lambda>n b. Some [drop n (content b)])
         \<lparr>buffered_body = Some [''ab'', ''c''], received_body = Some [''de'']\<rparr>) = ''abcde''
   \<and> \<not> has_request_body (snd (read_request_body (\<lambda>n b. Some [drop n (content b)])
         \<lparr>buffered_body = Some [''ab'', ''c''], received_body = Some [''de'']\<rparr>))"
  using read_request_body_all [of "\<lambda>n b. Some [drop n (content b)]"
      "\<lparr>buffered_body = Some [''ab'', ''c''], received_body = Some [''de'']\<rparr>"]
  by (simp add: drain_law_def)

text \<open>
  Stripping a port from an address: \<open>host:port\<close> gives the host, a bracketed IPv6 address
  loses its brackets and whatever follows them, and a bare IPv6 address (at least two colons)
  or a host without a colon is returned as it is.
\<close>

theorem strip_port_spec:
  "(\<forall>host port. CHR '':'' \<notin> set host \<and> CHR '':'' \<notin> set port \<and> (host = [] \<or> hd host \<noteq> CHR ''['') \<longrightarrow>
      strip_port (host @ CHR '':'' # port) = host)
   \<and> (\<forall>addr rest. CHR '']'' \<notin> set addr \<longrightarrow>
      strip_port (CHR ''['' # addr @ CHR '']'' # rest) = addr)
   \<and> (\<forall>a b c. hd (a @ '':'') \<noteq> CHR ''['' \<longrightarrow>
      strip_port (a @ CHR '':'' # b @ CHR '':'' # c) = a @ CHR '':'' # b @ CHR '':'' # c)
   \<and> (\<forall>s. CHR '':'' \<notin> set s \<and> (s = [] \<or> hd s \<noteq> CHR ''['') \<longrightarrow> strip_port s = s)"
proof (intro conjI allI impI, goal_cases)
  case (1 host port)
  then have "hd (host @ CHR '':'' # port) \<noteq> CHR ''[''"
    by (cases host) auto
  with 1 show ?case
    using strip_port_plain [of "host @ CHR '':'' # port"] strip_port_tail_host_port [of port host]
    by simp
next
  case (2 addr rest)
  then show ?case
    by (simp add: strip_port_def position_prefix)
next
  case (3 a b c)
  then have "hd (a @ CHR '':'' # b @ CHR '':'' # c) \<noteq> CHR ''[''"
    by (cases a) auto
  then have plain: "strip_port (a @ CHR '':'' # b @ CHR '':'' # c)
      = strip_port_tail (a @ CHR '':'' # b @ CHR '':'' # c)"
    by (intro strip_port_plain) simp
  obtain h p where hp: "a @ CHR '':'' # b @ CHR '':'' # c = h @ CHR '':'' # p" "CHR '':'' \<notin> set p"
    using split_list_last [of "CHR '':''" "a @ CHR '':'' # b @ CHR '':'' # c"] by auto
  have "count_list (a @ CHR '':'' # b @ CHR '':'' # c) CHR '':'' \<ge> 2"
    by simp
  then have "CHR '':'' \<in> set h"
    unfolding hp(1) using hp(2) by (cases "CHR '':'' \<in> set h") (auto simp: count_list_0_iff)
  then show ?case
    using strip_port_tail_host_port [OF hp(2), of h] plain unfolding hp(1) by simp
next
  case (4 s)
  then show ?case
    using strip_port_plain [of s] strip_port_tail_no_colon [of s] by simp
qed

theorem strip_port_spec_witness:
  "strip_port ''127.0.0.1:8000'' = ''127.0.0.1'' \<and> strip_port ''[::1]:80'' = ''::1''
   \<and> strip_port ''fe80::1'' = ''fe80::1'' \<and> strip_port ''localhost'' = ''localhost''"
  using strip_port_spec [THEN conjunct1, rule_format, of "''127.0.0.1''" "''8000''"]
    strip_port_spec [THEN conjunct2, THEN conjunct1, rule_format, of "''::1''" "'':80''"]
    strip_port_spec [THEN conjunct2, THEN conjunct2, THEN conjunct1, rule_format,
      of "''fe80''" "[]" "''1''"]
    strip_port_spec [THEN conjunct2, THEN conjunct2, THEN conjunct2, rule_format, of "''localhost''"]
  by simp

text \<open>
  C36. The ASGI scope keeps the request intact: building it fails exactly when the decoded
  path is not UTF-8, and otherwise its raw path and query string put together again are the
  request's raw path, \<open>path\<close> is the decoded raw path, and \<open>headers\<close> lists every header in
  order under its own name.
\<close>

theorem new_scope_dict_spec:
  assumes "http_constants hc"
  shows "case new_scope_dict decode hc sc ty asgi ext root_path state of
      Inl e \<Rightarrow> e = UnicodeDecodeError \<and> \<not> utf8_valid (decode (fst (split_query (sc_raw_path sc))))
    | Inr d \<Rightarrow> \<exists>path query.
        dict_get d ''raw_path'' = Some (PyBytes path)
        \<and> dict_get d ''query_string'' = Some (PyBytes query)
        \<and> CHR ''?'' \<notin> set path
        \<and> (sc_raw_path sc = path @ CHR ''?'' # query \<or> sc_raw_path sc = path \<and> query = [])
        \<and> utf8_valid (decode path) \<and> dict_get d ''path'' = Some (PyStr (decode path))
        \<and> dict_get d ''headers''
            = Some (PyList (map (\<lambda>(k, v). PyTuple [PyBytes k, PyBytes v]) (sc_headers sc)))"
proof -
  obtain path query where sq: "split_query (sc_raw_path sc) = (path, query)"
    by fastforce
  have name: "asgi_name hc = (\<lambda>k. k)"
    by (simp add: asgi_name_def to_asgi_bytes_eq [OF assms] fun_eq_iff)
  show ?thesis
  proof (cases "new_scope_dict decode hc sc ty asgi ext root_path state")
    case (Inl e)
    with new_scope_dict_error [OF sq, of decode hc ty asgi ext root_path state e] sq
    show ?thesis by simp
  next
    case (Inr d)
    from new_scope_dict_entries [OF Inr sq] split_query_cases [OF sq] show ?thesis
      unfolding Inr sum.case name by blast
  qed
qed

text \<open>The witness: the crate's documented names.\<close>

theorem new_scope_dict_spec_witness:
  "case new_scope_dict (\<lambda>p. p) kebab
      \<lparr>sc_http_version = HTTP_2, sc_method = ''GET'', sc_scheme = ''https'', sc_raw_path = ''/a?b=1'',
       sc_headers = [(''host'', ''x'')], sc_client = None, sc_server = None, sc_tls_info = None\<rparr>
      ''http'' [] [] (Some []) None of
      Inl e \<Rightarrow> e = UnicodeDecodeError \<and> \<not> utf8_valid (fst (split_query ''/a?b=1''))
    | Inr d \<Rightarrow> \<exists>path query.
        dict_get d ''raw_path'' = Some (PyBytes path)
        \<and> dict_get d ''query_string'' = Some (PyBytes query)
        \<and> CHR ''?'' \<notin> set path
        \<and> (''/a?b=1'' = path @ CHR ''?'' # query \<or> ''/a?b=1'' = path \<and> query = [])
        \<and> utf8_valid path \<and> dict_get d ''path'' = Some (PyStr path)
        \<and> dict_get d ''headers''
            = Some (PyList (map (\<lambda>(k, v). PyTuple [PyBytes k, PyBytes v]) [(''host'', ''x'')]))"
  using new_scope_dict_spec [of kebab "\<lambda>p. p"
      "\<lparr>sc_http_version = HTTP_2, sc_method = ''GET'', sc_scheme = ''https'', sc_raw_path = ''/a?b=1'',
       sc_headers = [(''host'', ''x'')], sc_client = None, sc_server = None, sc_tls_info = None\<rparr>"
      "''http''" "[]" "[]" "Some []" None]
  by (simp only: http_constants_def scope.simps) simp

end
