(* ===== verification/Work_Queue.thy ===== *)
theory Work_Queue
  imports Prelude
begin

text \<open>
  \<open>src/src/wsgi/queue.rs\<close>: the queue of requests for the WSGI worker threads, with the threads
  that wait for an item. Threads are numbers. Each critical section of the mutex and each
  access to a thread's \<open>Parker\<close> outside it is one step, so that pushes, pops, wake-ups and
  the close interleave freely.
\<close>

section \<open>State\<close>

text \<open>
  Where a worker is: running its job (or about to call \<open>pop\<close>), parked in the wait loop, out
  of the wait loop and about to lock again, or done because \<open>pop\<close> returned \<open>None\<close>. A
  spurious return of \<open>park\<close> leaves the thread in the wait loop, so it is no step.
\<close>

datatype worker_pc = Running | Parked | Woken | Finished

record 'a work_queue =
  wq_items :: "'a list"
  wq_idle :: "nat list" \<comment> \<open>most recently idle last\<close>
  wq_closed :: bool
  wq_notified :: "nat \<Rightarrow> bool"
  wq_notifying :: "nat list" \<comment> \<open>taken off the idle list, \<open>notify\<close> not called yet\<close>
  wq_pc :: "nat \<Rightarrow> worker_pc"
  wq_pushed :: "'a list"
  wq_popped :: "(nat \<times> 'a) list"
  wq_at_close :: "nat option" \<comment> \<open>how many items had been pushed at the first close\<close>

definition work_queue_new :: "'a work_queue" where
  "work_queue_new =
     \<lparr>wq_items = [], wq_idle = [], wq_closed = False, wq_notified = (\<lambda>_. False),
      wq_notifying = [], wq_pc = (\<lambda>_. Running), wq_pushed = [], wq_popped = [],
      wq_at_close = None\<rparr>"

section \<open>Operations\<close>

text \<open>\<open>push\<close> up to the end of its critical section; the popped parker is notified later.\<close>

definition wq_push :: "'a \<Rightarrow> 'a work_queue \<Rightarrow> 'a work_queue" where
  "wq_push item s =
     (let s = s\<lparr>wq_items := wq_items s @ [item], wq_pushed := wq_pushed s @ [item]\<rparr> in
      if wq_idle s = [] then s
      else s\<lparr>wq_idle := butlast (wq_idle s),
             wq_notifying := wq_notifying s @ [last (wq_idle s)]\<rparr>)"

text \<open>\<open>Parker::notify\<close>: the flag and the unpark.\<close>

definition wq_notify :: "nat \<Rightarrow> 'a work_queue \<Rightarrow> 'a work_queue" where
  "wq_notify t s =
     s\<lparr>wq_notified := (wq_notified s)(t := True), wq_notifying := remove1 t (wq_notifying s)\<rparr>"

text \<open>The critical section of \<open>pop\<close> in thread \<open>t\<close>.\<close>

definition wq_pop :: "nat \<Rightarrow> 'a work_queue \<Rightarrow> 'a work_queue" where
  "wq_pop t s =
     (case wq_items s of
        item # rest \<Rightarrow>
          s\<lparr>wq_items := rest, wq_pc := (wq_pc s)(t := Running),
            wq_popped := wq_popped s @ [(t, item)]\<rparr>
      | [] \<Rightarrow>
          if wq_closed s then s\<lparr>wq_pc := (wq_pc s)(t := Finished)\<rparr>
          else s\<lparr>wq_notified := (wq_notified s)(t := False), wq_idle := wq_idle s @ [t],
                 wq_pc := (wq_pc s)(t := Parked)\<rparr>)"

text \<open>The wait loop of thread \<open>t\<close> sees its flag and goes back to the lock.\<close>

definition wq_wake :: "nat \<Rightarrow> 'a work_queue \<Rightarrow> 'a work_queue" where
  "wq_wake t s = s\<lparr>wq_pc := (wq_pc s)(t := Woken)\<rparr>"

definition wq_close :: "'a work_queue \<Rightarrow> 'a work_queue" where
  "wq_close s =
     s\<lparr>wq_closed := True, wq_idle := [], wq_notifying := wq_notifying s @ wq_idle s,
       wq_at_close := (case wq_at_close s of None \<Rightarrow> Some (length (wq_pushed s)) | Some n \<Rightarrow> Some n)\<rparr>"

inductive wq_step :: "'a work_queue \<Rightarrow> 'a work_queue \<Rightarrow> bool" where
  push: "wq_step s (wq_push item s)"
| notify: "t \<in> set (wq_notifying s) \<Longrightarrow> wq_step s (wq_notify t s)"
| pop: "wq_pc s t = Running \<or> wq_pc s t = Woken \<Longrightarrow> wq_step s (wq_pop t s)"
| wake: "wq_pc s t = Parked \<Longrightarrow> wq_notified s t \<Longrightarrow> wq_step s (wq_wake t s)"
| close: "wq_step s (wq_close s)"

abbreviation wq_reach :: "'a work_queue \<Rightarrow> bool" where
  "wq_reach \<equiv> reach (\<lambda>s. s = work_queue_new) wq_step"

section \<open>Invariant\<close>

text \<open>
  The threads on their way to the lock after being taken off the idle list: still parked with
  a notification under way or delivered, or woken.
\<close>

definition wq_woken :: "'a work_queue \<Rightarrow> nat set" where
  "wq_woken s = {t. wq_pc s t = Woken \<or> wq_pc s t = Parked \<and> t \<notin> set (wq_idle s)}"

definition wq_inv :: "'a work_queue \<Rightarrow> bool" where
  "wq_inv s \<longleftrightarrow>
     distinct (wq_idle s @ wq_notifying s)
     \<and> (\<forall>t. t \<in> set (wq_idle s) \<union> set (wq_notifying s) \<longleftrightarrow> wq_pc s t = Parked \<and> \<not> wq_notified s t)
     \<and> finite {t. wq_pc s t \<noteq> Running}
     \<and> (wq_idle s \<noteq> [] \<longrightarrow> length (wq_items s) \<le> card (wq_woken s))
     \<and> (wq_closed s \<longrightarrow> wq_idle s = [])
     \<and> wq_pushed s = map snd (wq_popped s) @ wq_items s
     \<and> (wq_closed s \<longleftrightarrow> wq_at_close s \<noteq> None)
     \<and> (\<forall>n. wq_at_close s = Some n \<longrightarrow> n \<le> length (wq_pushed s))
     \<and> (\<forall>t. wq_pc s t = Finished \<longrightarrow> (\<exists>n. wq_at_close s = Some n \<and> n \<le> length (wq_popped s)))"

lemma wq_woken_finite: "wq_inv s \<Longrightarrow> finite (wq_woken s)"
  unfolding wq_inv_def wq_woken_def by (elim conjE) (auto elim: rev_finite_subset)

lemma wq_inv_listed:
  "wq_inv s \<Longrightarrow>
     t \<in> set (wq_idle s) \<union> set (wq_notifying s) \<longleftrightarrow> wq_pc s t = Parked \<and> \<not> wq_notified s t"
  by (simp add: wq_inv_def)

lemma wq_inv_new: "wq_inv work_queue_new"
  by (simp add: wq_inv_def work_queue_new_def)

lemma wq_push_eq:
  "wq_idle s = xs @ [t] \<Longrightarrow> wq_push item s =
     s\<lparr>wq_items := wq_items s @ [item], wq_pushed := wq_pushed s @ [item], wq_idle := xs,
       wq_notifying := wq_notifying s @ [t]\<rparr>"
  by (simp add: wq_push_def)

lemma wq_push_inv [pres]:
  assumes inv: "wq_inv s"
  shows "wq_inv (wq_push item s)"
proof (cases "wq_idle s" rule: rev_cases)
  case Nil
  with inv show ?thesis by (auto simp: wq_inv_def wq_push_def)
next
  case (snoc xs t)
  let ?s = "wq_push item s"
  have parked: "wq_pc s t = Parked" "t \<notin> set xs"
    using inv snoc by (auto simp: wq_inv_def)
  then have "wq_woken ?s = insert t (wq_woken s)" and "t \<notin> wq_woken s"
    using snoc by (auto simp: wq_woken_def wq_push_eq)
  then have "card (wq_woken ?s) = Suc (card (wq_woken s))"
    using wq_woken_finite [OF inv] by simp
  then show ?thesis
    using inv snoc by (simp add: wq_inv_def wq_push_eq) auto
qed

lemma wq_notify_inv [pres]:
  assumes "wq_inv s" and "t \<in> set (wq_notifying s)"
  shows "wq_inv (wq_notify t s)"
proof -
  have "wq_woken (wq_notify t s) = wq_woken s"
    by (simp add: wq_woken_def wq_notify_def)
  moreover have "t \<notin> set (wq_idle s)" and "distinct (wq_notifying s)"
    using assms by (auto simp: wq_inv_def)
  ultimately show ?thesis
    using assms by (simp add: wq_inv_def wq_notify_def) auto
qed

lemma wq_wake_inv [pres]:
  assumes "wq_inv s" and "wq_pc s t = Parked" and "wq_notified s t"
  shows "wq_inv (wq_wake t s)"
proof -
  have t: "t \<notin> set (wq_idle s)" "t \<notin> set (wq_notifying s)"
    using assms by (auto simp: wq_inv_def)
  then have "wq_woken (wq_wake t s) = wq_woken s"
    using assms(2) by (auto simp: wq_woken_def wq_wake_def)
  moreover have "{u. wq_pc (wq_wake t s) u \<noteq> Running} = {u. wq_pc s u \<noteq> Running}"
    using assms(2) by (auto simp: wq_wake_def)
  ultimately show ?thesis
    using assms t by (simp add: wq_inv_def wq_wake_def) auto
qed

lemma wq_pc_finite:
  "finite {u. wq_pc s u \<noteq> Running} \<Longrightarrow> finite {u. ((wq_pc s)(t := p)) u \<noteq> Running}"
  by (rule finite_subset [of _ "insert t {u. wq_pc s u \<noteq> Running}"]) auto

lemma wq_pop_inv [pres]:
  assumes inv: "wq_inv s" and pc: "wq_pc s t = Running \<or> wq_pc s t = Woken"
  shows "wq_inv (wq_pop t s)"
proof (cases "wq_items s")
  case (Cons item rest)
  have "wq_woken (wq_pop t s) = wq_woken s - {t}"
    using Cons by (auto simp: wq_woken_def wq_pop_def)
  then have "card (wq_woken s) \<le> Suc (card (wq_woken (wq_pop t s)))"
    by (cases "t \<in> wq_woken s") (simp_all add: card_Diff_singleton)
  with inv pc Cons show ?thesis
    using wq_pc_finite [of s t Running]
    by (simp add: wq_inv_def wq_pop_def) force
next
  case Nil
  have t: "t \<notin> set (wq_idle s)" "t \<notin> set (wq_notifying s)"
    using wq_inv_listed [OF inv, of t] pc by auto
  show ?thesis
  proof (cases "wq_closed s")
    case True
    with inv pc Nil t show ?thesis
      using wq_pc_finite [of s t Finished]
      by (simp add: wq_inv_def wq_pop_def) force
  next
    case False
    with inv pc Nil t show ?thesis
      using wq_pc_finite [of s t Parked]
      by (simp add: wq_inv_def wq_pop_def) force
  qed
qed

lemma wq_close_inv [pres]: "wq_inv s \<Longrightarrow> wq_inv (wq_close s)"
  by (simp add: wq_inv_def wq_close_def split: option.split) auto

lemma wq_step_inv: "wq_inv s \<Longrightarrow> wq_step s t \<Longrightarrow> wq_inv t"
  by (erule wq_step.cases) (simp_all add: pres)

interpretation wq: invariant_contract "\<lambda>s. s = work_queue_new" wq_step wq_inv
  by unfold_locales (auto simp: wq_inv_new intro: wq_step_inv)

lemma wq_reach_intros:
  "wq_reach work_queue_new"
  "wq_reach s \<Longrightarrow> wq_reach (wq_push item s)"
  "wq_reach s \<Longrightarrow> wq_pc s t = Running \<or> wq_pc s t = Woken \<Longrightarrow> wq_reach (wq_pop t s)"
  "wq_reach s \<Longrightarrow> wq_reach (wq_close s)"
  by (auto intro: reach_init reach_step wq_step.intros)

section \<open>Properties\<close>

text \<open>
  Items are handed out in the order they were pushed, each to exactly one worker: in every
  reachable state the pushed items are the popped ones followed by the queued ones.
\<close>

theorem wq_fifo:
  assumes "wq_reach s"
  shows "wq_pushed s = map snd (wq_popped s) @ wq_items s"
  using wq.reach_inv [OF assms] by (simp add: wq_inv_def)

theorem wq_fifo_witness:
  "wq_pushed (wq_pop 0 (wq_push CHR ''a'' work_queue_new))
     = map snd (wq_popped (wq_pop 0 (wq_push CHR ''a'' work_queue_new)))
       @ wq_items (wq_pop 0 (wq_push CHR ''a'' work_queue_new))"
  by (rule wq_fifo, intro wq_reach_intros) (simp add: wq_push_def work_queue_new_def)

text \<open>
  C21. No wake-up is lost: whenever items are queued while some thread is still listed as
  idle, at least as many threads are on their way to take them (woken, or parked with their
  notification delivered or about to be), so no item waits for a thread that nobody wakes.
\<close>

theorem wq_no_lost_wakeup:
  assumes "wq_reach s" and "wq_idle s \<noteq> []"
  shows "length (wq_items s) \<le> card (wq_woken s) \<and> finite (wq_woken s)
    \<and> (\<forall>t \<in> wq_woken s. wq_pc s t = Woken
         \<or> wq_pc s t = Parked \<and> (wq_notified s t \<or> t \<in> set (wq_notifying s)))"
proof -
  have inv: "wq_inv s" by (rule wq.reach_inv [OF assms(1)])
  then show ?thesis
    using assms(2) wq_woken_finite [OF inv] by (auto simp: wq_inv_def wq_woken_def)
qed

lemma wq_example_reach:
  "wq_reach (wq_push CHR ''a'' (wq_pop 1 (wq_pop 0 work_queue_new)))"
  by (intro wq_reach_intros) (simp_all add: wq_pop_def work_queue_new_def)

theorem wq_no_lost_wakeup_witness:
  "let s = wq_push CHR ''a'' (wq_pop 1 (wq_pop 0 work_queue_new)) in
     wq_idle s \<noteq> [] \<and> wq_items s \<noteq> [] \<and> length (wq_items s) \<le> card (wq_woken s)"
proof -
  have "wq_idle (wq_push CHR ''a'' (wq_pop 1 (wq_pop 0 work_queue_new))) \<noteq> []"
    by (simp add: wq_pop_def wq_push_def work_queue_new_def)
  from wq_no_lost_wakeup [OF wq_example_reach this] this show ?thesis
    by (simp add: Let_def) (simp add: wq_pop_def wq_push_def work_queue_new_def)
qed

text \<open>
  Closing drains: a worker whose \<open>pop\<close> returned \<open>None\<close> (so that it exits) does so only
  after the close and only once every item pushed before the close has been taken; and after
  the close no thread stays parked without a notification.
\<close>

theorem wq_close_drains:
  assumes "wq_reach s" and "wq_closed s"
  shows "(\<forall>t. wq_pc s t = Finished \<longrightarrow> (\<exists>n. wq_at_close s = Some n \<and>
             take n (wq_pushed s) = take n (map snd (wq_popped s))))
    \<and> (\<forall>t. wq_pc s t = Parked \<longrightarrow> wq_notified s t \<or> t \<in> set (wq_notifying s))"
  using wq.reach_inv [OF assms(1)] assms(2) by (auto simp: wq_inv_def)

lemma wq_close_example_reach:
  "wq_reach (wq_pop 0 (wq_close (wq_pop 1 work_queue_new)))"
  by (intro wq_reach_intros) (simp_all add: wq_pop_def wq_close_def work_queue_new_def)

theorem wq_close_drains_witness:
  "let s = wq_pop 0 (wq_close (wq_pop 1 work_queue_new)) in
     wq_pc s 0 = Finished \<and> wq_pc s 1 = Parked \<and> (wq_notified s 1 \<or> 1 \<in> set (wq_notifying s))"
proof -
  have "wq_closed (wq_pop 0 (wq_close (wq_pop 1 work_queue_new)))"
    by (simp add: wq_pop_def wq_close_def work_queue_new_def)
  from wq_close_drains [OF wq_close_example_reach this] show ?thesis
    by (simp add: Let_def wq_pop_def wq_close_def work_queue_new_def)
qed

end
