(* ===== verification/Blocking_Pool.thy ===== *)
theory Blocking_Pool
  imports Prelude "HOL-Library.Multiset"
begin

text \<open>
  \<open>src/src/wsgi/pool.rs\<close>: the elastic pool of threads that iterate streaming request bodies.
  Every atomic access (the shutdown flag, the rendezvous channel, the worker counter) is one
  step. Workers are anonymous: the state counts them by where they are.
\<close>

section \<open>State\<close>

datatype shutdown_pc = NotCalled | FlagStored | TxDropped | Returned

record 'j pool =
  pl_shutdown :: bool
  pl_tx_dropped :: bool
  pl_workers :: nat \<comment> \<open>the counter behind the mutex\<close>
  pl_checked :: "'j list" \<comment> \<open>\<open>execute\<close> passed the flag check, \<open>try_send\<close> not called yet\<close>
  pl_full :: "'j list" \<comment> \<open>\<open>try_send\<close> returned \<open>Full\<close>, the counter not incremented yet\<close>
  pl_starting :: "'j list" \<comment> \<open>counted, the thread has not called its initial job yet\<close>
  pl_running :: "'j list"
  pl_idle :: nat \<comment> \<open>workers blocked in \<open>select!\<close>\<close>
  pl_exiting :: nat \<comment> \<open>workers out of the loop whose guard has not been dropped\<close>
  pl_caller :: shutdown_pc
  pl_submitted :: "'j list"
  pl_started :: "'j list"
  pl_rejected :: "'j list"

definition pool_new :: "'j pool" where
  "pool_new = \<lparr>pl_shutdown = False, pl_tx_dropped = False, pl_workers = 0, pl_checked = [],
     pl_full = [], pl_starting = [], pl_running = [], pl_idle = 0, pl_exiting = 0,
     pl_caller = NotCalled, pl_submitted = [], pl_started = [], pl_rejected = []\<rparr>"

section \<open>Submitting (PoolHandle::execute)\<close>

definition pool_execute :: "'j \<Rightarrow> 'j pool \<Rightarrow> 'j pool" where
  "pool_execute job s =
     (let s = s\<lparr>pl_submitted := job # pl_submitted s\<rparr> in
      if pl_shutdown s then s\<lparr>pl_rejected := job # pl_rejected s\<rparr>
      else s\<lparr>pl_checked := job # pl_checked s\<rparr>)"

text \<open>\<open>try_send\<close> on a channel of capacity 0 succeeds exactly when a worker waits in \<open>select!\<close>.\<close>

definition pool_try_send :: "'j \<Rightarrow> 'j pool \<Rightarrow> 'j pool" where
  "pool_try_send job s =
     (let s = s\<lparr>pl_checked := remove1 job (pl_checked s)\<rparr> in
      if pl_idle s > 0 then
        s\<lparr>pl_idle := pl_idle s - 1, pl_running := job # pl_running s,
          pl_started := job # pl_started s\<rparr>
      else s\<lparr>pl_full := job # pl_full s\<rparr>)"

definition pool_spawn :: "'j \<Rightarrow> 'j pool \<Rightarrow> 'j pool" where
  "pool_spawn job s =
     s\<lparr>pl_full := remove1 job (pl_full s), pl_workers := pl_workers s + 1,
       pl_starting := job # pl_starting s\<rparr>"

section \<open>A worker (run_worker, WorkerCountGuard)\<close>

definition worker_initial :: "'j \<Rightarrow> 'j pool \<Rightarrow> 'j pool" where
  "worker_initial job s =
     s\<lparr>pl_starting := remove1 job (pl_starting s), pl_running := job # pl_running s,
       pl_started := job # pl_started s\<rparr>"

definition worker_job_done :: "'j \<Rightarrow> 'j pool \<Rightarrow> 'j pool" where
  "worker_job_done job s =
     s\<lparr>pl_running := remove1 job (pl_running s), pl_idle := pl_idle s + 1\<rparr>"

text \<open>A panicking job unwinds the thread, which still drops the guard.\<close>

definition worker_job_panic :: "'j \<Rightarrow> 'j pool \<Rightarrow> 'j pool" where
  "worker_job_panic job s =
     s\<lparr>pl_running := remove1 job (pl_running s), pl_exiting := pl_exiting s + 1\<rparr>"

text \<open>\<open>select!\<close> breaks out of the loop: the keep-alive passed, or the shutdown sender is gone.\<close>

definition worker_leave :: "'j pool \<Rightarrow> 'j pool" where
  "worker_leave s = s\<lparr>pl_idle := pl_idle s - 1, pl_exiting := pl_exiting s + 1\<rparr>"

definition worker_guard_drop :: "'j pool \<Rightarrow> 'j pool" where
  "worker_guard_drop s = s\<lparr>pl_exiting := pl_exiting s - 1, pl_workers := pl_workers s - 1\<rparr>"

section \<open>Shutting down (BlockingPool::shutdown)\<close>

definition shutdown_store :: "'j pool \<Rightarrow> 'j pool" where
  "shutdown_store s = s\<lparr>pl_shutdown := True, pl_caller := FlagStored\<rparr>"

definition shutdown_drop_tx :: "'j pool \<Rightarrow> 'j pool" where
  "shutdown_drop_tx s = s\<lparr>pl_tx_dropped := True, pl_caller := TxDropped\<rparr>"

definition shutdown_return :: "'j pool \<Rightarrow> 'j pool" where
  "shutdown_return s = s\<lparr>pl_caller := Returned\<rparr>"

text \<open>
  With \<open>quiet\<close>, the shutdown starts only while no submission is under way, as
  \<open>Executor::shutdown\<close> makes sure by joining the application workers first.
\<close>

inductive pool_step :: "bool \<Rightarrow> 'j pool \<Rightarrow> 'j pool \<Rightarrow> bool" for quiet where
  execute: "pool_step quiet s (pool_execute job s)"
| try_send: "job \<in> set (pl_checked s) \<Longrightarrow> pool_step quiet s (pool_try_send job s)"
| spawn: "job \<in> set (pl_full s) \<Longrightarrow> pool_step quiet s (pool_spawn job s)"
| initial: "job \<in> set (pl_starting s) \<Longrightarrow> pool_step quiet s (worker_initial job s)"
| job_done: "job \<in> set (pl_running s) \<Longrightarrow> pool_step quiet s (worker_job_done job s)"
| job_panic: "job \<in> set (pl_running s) \<Longrightarrow> pool_step quiet s (worker_job_panic job s)"
| leave: "pl_idle s > 0 \<Longrightarrow> pool_step quiet s (worker_leave s)"
| guard_drop: "pl_exiting s > 0 \<Longrightarrow> pool_step quiet s (worker_guard_drop s)"
| store: "pl_caller s = NotCalled \<Longrightarrow> quiet \<longrightarrow> pl_checked s = [] \<and> pl_full s = [] \<Longrightarrow>
    pool_step quiet s (shutdown_store s)"
| drop_tx: "pl_caller s = FlagStored \<Longrightarrow> pool_step quiet s (shutdown_drop_tx s)"
| return: "pl_caller s = TxDropped \<Longrightarrow> pl_workers s = 0 \<Longrightarrow>
    pool_step quiet s (shutdown_return s)"

abbreviation pool_reach :: "bool \<Rightarrow> 'j pool \<Rightarrow> bool" where
  "pool_reach quiet \<equiv> reach (\<lambda>s. s = pool_new) (pool_step quiet)"

lemmas pool_defs =
  pool_new_def pool_execute_def pool_try_send_def pool_spawn_def worker_initial_def
  worker_job_done_def worker_job_panic_def worker_leave_def worker_guard_drop_def
  shutdown_store_def shutdown_drop_tx_def shutdown_return_def

section \<open>Invariant\<close>

definition pool_inv :: "bool \<Rightarrow> 'j pool \<Rightarrow> bool" where
  "pool_inv quiet s \<longleftrightarrow>
     pl_workers s = length (pl_starting s) + length (pl_running s) + pl_idle s + pl_exiting s
     \<and> mset (pl_submitted s) = mset (pl_checked s) + mset (pl_full s) + mset (pl_starting s)
         + mset (pl_started s) + mset (pl_rejected s)
     \<and> (pl_shutdown s \<longleftrightarrow> pl_caller s \<noteq> NotCalled)
     \<and> (\<not> pl_shutdown s \<longrightarrow> pl_rejected s = [])
     \<and> (quiet \<and> pl_shutdown s \<longrightarrow> pl_checked s = [] \<and> pl_full s = [])
     \<and> (quiet \<and> pl_caller s = Returned \<longrightarrow> pl_workers s = 0)"

lemma length_remove1_Suc: "x \<in> set xs \<Longrightarrow> Suc (length (remove1 x xs)) = length xs"
  using length_pos_if_in_set [of x xs] by (simp add: length_remove1)

lemma mset_remove1_add: "x \<in> set xs \<Longrightarrow> add_mset x (mset (remove1 x xs)) = mset xs"
  by simp

lemma pool_step_inv: "pool_inv quiet s \<Longrightarrow> pool_step quiet s t \<Longrightarrow> pool_inv quiet t"
proof (erule pool_step.cases, goal_cases)
  case (1 s job)
  then show ?case by (auto simp: pool_inv_def pool_execute_def Let_def)
next
  case (2 job s)
  then show ?case
    using mset_remove1_add [of job "pl_checked s"]
    by (auto simp: pool_inv_def pool_try_send_def Let_def)
next
  case (3 job s)
  then show ?case
    using mset_remove1_add [of job "pl_full s"]
    by (auto simp: pool_inv_def pool_spawn_def)
next
  case (4 job s)
  then show ?case
    using length_remove1_Suc [of job "pl_starting s"] mset_remove1_add [of job "pl_starting s"]
    by (auto simp: pool_inv_def worker_initial_def)
next
  case (5 job s)
  then show ?case
    using length_remove1_Suc [of job "pl_running s"]
    by (auto simp: pool_inv_def worker_job_done_def)
next
  case (6 job s)
  then show ?case
    using length_remove1_Suc [of job "pl_running s"]
    by (auto simp: pool_inv_def worker_job_panic_def)
qed (auto simp: pool_inv_def worker_leave_def worker_guard_drop_def shutdown_store_def
    shutdown_drop_tx_def shutdown_return_def)

lemma pool_new_inv: "pool_inv quiet pool_new"
  by (simp add: pool_inv_def pool_new_def)

interpretation pool: invariant_contract "\<lambda>s. s = pool_new" "pool_step quiet" "pool_inv quiet"
  for quiet
  by unfold_locales (auto simp: pool_new_inv intro: pool_step_inv)

lemma pool_reach_intros:
  "pool_reach quiet pool_new"
  "pool_reach quiet s \<Longrightarrow> pool_reach quiet (pool_execute job s)"
  "pool_reach quiet s \<Longrightarrow> job \<in> set (pl_checked s) \<Longrightarrow> pool_reach quiet (pool_try_send job s)"
  "pool_reach quiet s \<Longrightarrow> job \<in> set (pl_full s) \<Longrightarrow> pool_reach quiet (pool_spawn job s)"
  "pool_reach quiet s \<Longrightarrow> job \<in> set (pl_starting s) \<Longrightarrow> pool_reach quiet (worker_initial job s)"
  "pool_reach quiet s \<Longrightarrow> job \<in> set (pl_running s) \<Longrightarrow> pool_reach quiet (worker_job_done job s)"
  "pool_reach quiet s \<Longrightarrow> pl_idle s > 0 \<Longrightarrow> pool_reach quiet (worker_leave s)"
  "pool_reach quiet s \<Longrightarrow> pl_exiting s > 0 \<Longrightarrow> pool_reach quiet (worker_guard_drop s)"
  "pool_reach quiet s \<Longrightarrow> pl_caller s = NotCalled \<Longrightarrow>
     quiet \<longrightarrow> pl_checked s = [] \<and> pl_full s = [] \<Longrightarrow> pool_reach quiet (shutdown_store s)"
  "pool_reach quiet s \<Longrightarrow> pl_caller s = FlagStored \<Longrightarrow> pool_reach quiet (shutdown_drop_tx s)"
  "pool_reach quiet s \<Longrightarrow> pl_caller s = TxDropped \<Longrightarrow> pl_workers s = 0 \<Longrightarrow>
     pool_reach quiet (shutdown_return s)"
  by (auto intro: reach_init reach_step pool_step.intros)

section \<open>Progress of a shutdown\<close>

text \<open>How many steps the threads that are left can still take.\<close>

definition pool_work :: "'j pool \<Rightarrow> nat" where
  "pool_work s =
     4 * length (pl_starting s) + 3 * length (pl_running s) + 2 * pl_idle s + pl_exiting s
     + (case pl_caller s of NotCalled \<Rightarrow> 3 | FlagStored \<Rightarrow> 2 | TxDropped \<Rightarrow> 1 | Returned \<Rightarrow> 0)"

definition is_rejection :: "'j pool \<Rightarrow> 'j pool \<Rightarrow> bool" where
  "is_rejection s t \<longleftrightarrow> (\<exists>job. t = pool_execute job s) \<and> pool_work t = pool_work s
     \<and> pl_running t = pl_running s \<and> pl_starting t = pl_starting s"

lemma pool_work_decreases:
  assumes inv: "pool_inv True s" and down: "pl_shutdown s" and step: "pool_step True s t"
  shows "is_rejection s t \<or> pool_work t < pool_work s"
  using step
proof cases
  case (execute job)
  with down show ?thesis
    by (auto simp: is_rejection_def pool_execute_def pool_work_def Let_def)
next
  case (initial job)
  then show ?thesis
    using length_remove1_Suc [of job "pl_starting s"]
    by (auto simp: worker_initial_def pool_work_def)
next
  case (job_done job)
  then show ?thesis
    using length_remove1_Suc [of job "pl_running s"]
    by (auto simp: worker_job_done_def pool_work_def)
next
  case (job_panic job)
  then show ?thesis
    using length_remove1_Suc [of job "pl_running s"]
    by (auto simp: worker_job_panic_def pool_work_def)
qed (use inv down in \<open>auto simp: pool_inv_def worker_leave_def worker_guard_drop_def
    shutdown_store_def shutdown_drop_tx_def shutdown_return_def pool_work_def\<close>)

section \<open>Properties\<close>

text \<open>
  The counter is exact and no job is lost: in every reachable state the worker counter is
  the number of threads that exist, and every job handed to \<open>execute\<close> is accounted for once
  (under submission, about to start, started or rejected), rejection happening only after
  the shutdown began.
\<close>

theorem pool_accounting:
  assumes "pool_reach quiet s"
  shows "pl_workers s = length (pl_starting s) + length (pl_running s) + pl_idle s + pl_exiting s
    \<and> mset (pl_submitted s) = mset (pl_checked s) + mset (pl_full s) + mset (pl_starting s)
        + mset (pl_started s) + mset (pl_rejected s)
    \<and> (pl_rejected s = [] \<or> pl_shutdown s)"
  using pool.reach_inv [OF assms] by (auto simp: pool_inv_def)

text \<open>One job, run by a new worker that then goes idle.\<close>

definition pool_one_job :: "nat pool" where
  "pool_one_job =
     worker_job_done 7 (worker_initial 7 (pool_spawn 7 (pool_try_send 7 (pool_execute 7 pool_new))))"

lemma pool_one_job_reach: "pool_reach quiet pool_one_job"
  unfolding pool_one_job_def by (intro pool_reach_intros) (simp_all add: pool_defs)

theorem pool_accounting_witness:
  "pl_workers pool_one_job = 1 \<and> pl_idle pool_one_job = 1
   \<and> pl_workers pool_one_job = length (pl_starting pool_one_job) + length (pl_running pool_one_job)
       + pl_idle pool_one_job + pl_exiting pool_one_job"
  using pool_accounting [OF pool_one_job_reach] by (simp add: pool_one_job_def pool_defs)


definition pool_stopped :: "nat pool" where
  "pool_stopped = shutdown_return (worker_guard_drop (worker_leave (shutdown_drop_tx
     (shutdown_store pool_one_job))))"

lemma pool_stopped_reach: "pool_reach True pool_stopped"
  unfolding pool_stopped_def
  by (intro pool_reach_intros pool_one_job_reach) (simp_all add: pool_one_job_def pool_defs)


text \<open>
  A quiet shutdown ends: while it has not returned some step other than a rejected
  submission is always possible, and every such step uses up a bounded amount of remaining
  work, so that only jobs that never finish can keep it waiting.
\<close>

theorem pool_shutdown_progress:
  assumes "pool_reach True s" and "pl_shutdown s"
  shows "(pl_caller s \<noteq> Returned \<longrightarrow> (\<exists>t. pool_step True s t \<and> pool_work t < pool_work s))
    \<and> (\<forall>t. pool_step True s t \<longrightarrow> is_rejection s t \<or> pool_work t < pool_work s)"
proof -
  have inv: "pool_inv True s" by (rule pool.reach_inv [OF assms(1)])
  have "\<exists>t. pool_step True s t \<and> pool_work t < pool_work s" if "pl_caller s \<noteq> Returned"
  proof (cases "pl_caller s")
    case NotCalled
    with inv assms(2) show ?thesis by (simp add: pool_inv_def)
  next
    case FlagStored
    then show ?thesis
      by (intro exI [of _ "shutdown_drop_tx s"] conjI pool_step.drop_tx)
          (simp_all add: shutdown_drop_tx_def pool_work_def)
  next
    case TxDropped
    consider "pl_workers s = 0" | job where "job \<in> set (pl_starting s)"
      | job where "job \<in> set (pl_running s)" | "pl_idle s > 0" | "pl_exiting s > 0"
      using inv by (cases "pl_starting s"; cases "pl_running s") (auto simp: pool_inv_def)
    then show ?thesis
    proof cases
      case 1
      with TxDropped show ?thesis
        by (intro exI [of _ "shutdown_return s"] conjI pool_step.return)
          (simp_all add: shutdown_return_def pool_work_def)
    next
      case (2 job)
      then show ?thesis
        using length_remove1_Suc [OF 2]
        by (intro exI [of _ "worker_initial job s"] conjI pool_step.initial)
          (simp_all add: worker_initial_def pool_work_def)
    next
      case (3 job)
      then show ?thesis
        using length_remove1_Suc [OF 3]
        by (intro exI [of _ "worker_job_done job s"] conjI pool_step.job_done)
          (simp_all add: worker_job_done_def pool_work_def)
    next
      case 4
      then show ?thesis
        by (intro exI [of _ "worker_leave s"] conjI pool_step.leave)
          (simp_all add: worker_leave_def pool_work_def)
    next
      case 5
      then show ?thesis
        by (intro exI [of _ "worker_guard_drop s"] conjI pool_step.guard_drop)
          (simp_all add: worker_guard_drop_def pool_work_def)
    qed
  next
    case Returned
    with that show ?thesis by simp
  qed
  with pool_work_decreases [OF inv assms(2)] show ?thesis by blast
qed

theorem pool_shutdown_progress_witness:
  "\<exists>t. pool_step True (shutdown_store pool_one_job) t
     \<and> pool_work t < pool_work (shutdown_store pool_one_job)"
proof -
  have "pool_reach True (shutdown_store pool_one_job)"
    by (intro pool_reach_intros pool_one_job_reach) (simp_all add: pool_one_job_def pool_defs)
  from pool_shutdown_progress [OF this] show ?thesis
    by (simp add: shutdown_store_def)
qed

end
