(* ===== verification/Wsgi_Read.thy ===== *)
theory Wsgi_Read
  imports Event_Bridge Request_Scope
begin

text \<open>
  How a WSGI application reads the request body: the read events of \<open>src/src/wsgi/types.rs\<close>
  and the reading half of the filter in \<open>src/src/wsgi/filter.rs\<close> (\<open>process_read\<close> and
  \<open>read_request_until_line_or_size\<close>), which takes from Envoy only what was asked for and
  answers over the channel \<open>request_body_tx\<close>.
\<close>

section \<open>Events and state\<close>

definition EVENT_ID_REQUEST :: nat where "EVENT_ID_REQUEST = 1"
definition EVENT_ID_RESPONSE :: nat where "EVENT_ID_RESPONSE = 2"
definition EVENT_ID_OUTGOING_REQUEST :: nat where "EVENT_ID_OUTGOING_REQUEST = 3"

datatype read_event = Wait | Raw int | Line int

record request_body =
  rb_body :: bytes
  rb_closed :: bool

text \<open>The fields of \<open>Filter\<close> that reading uses; \<open>rd_tx\<close> is what was sent on the channel.\<close>

record reader =
  rd_request_closed :: bool
  rd_bridge :: "read_event bridge"
  rd_pending :: read_event
  rd_buffer :: bytes
  rd_tx :: "request_body list"

definition reader_new :: reader where
  "reader_new = \<lparr>rd_request_closed = False, rd_bridge = bridge_new, rd_pending = Wait,
     rd_buffer = [], rd_tx = []\<rparr>"

section \<open>Copying out of Envoy's chunks\<close>

text \<open>The loop of a sized raw read: the body so far, what is still wanted, what was read.\<close>

fun read_up_to :: "bytes list \<Rightarrow> bytes \<Rightarrow> nat \<Rightarrow> nat \<Rightarrow> bytes \<times> nat \<times> nat" where
  "read_up_to [] body remaining read = (body, remaining, read)"
| "read_up_to (buffer # buffers) body remaining read =
     (let to_read = min remaining (length buffer);
          body = body @ take to_read buffer;
          remaining = remaining - to_read;
          read = read + to_read
      in if remaining = 0 then (body, remaining, read)
         else read_up_to buffers body remaining read)"

text \<open>\<open>read_request_until_line_or_size\<close>: one chunk, then the chunks in turn.\<close>

fun line_bytes :: "int \<Rightarrow> bytes \<Rightarrow> bytes \<Rightarrow> nat \<Rightarrow> bytes \<times> bool \<times> nat" where
  "line_bytes n [] buf read = (buf, False, read)"
| "line_bytes n (b # bs) buf read =
     (let buf = buf @ [b]; read = read + 1 in
      if b = CHR 0x0A \<or> (0 < n \<and> n \<le> int (length buf)) then (buf, True, read)
      else line_bytes n bs buf read)"

fun line_buffers :: "int \<Rightarrow> bytes list \<Rightarrow> bytes \<Rightarrow> nat \<Rightarrow> bytes \<times> bool \<times> nat" where
  "line_buffers n [] buf read = (buf, False, read)"
| "line_buffers n (buffer # buffers) buf read =
     (case line_bytes n buffer buf read of
        (buf, True, read) \<Rightarrow> (buf, True, read)
      | (buf, False, read) \<Rightarrow> line_buffers n buffers buf read)"

definition read_line :: "int \<Rightarrow> bytes list \<Rightarrow> reader \<Rightarrow> reader \<times> bool \<times> nat" where
  "read_line n buffers s =
     (case line_buffers n buffers (rd_buffer s) 0 of
        (buf, found, read) \<Rightarrow> (s\<lparr>rd_buffer := buf\<rparr>, found, read))"

section \<open>process_read\<close>

definition rd_send :: "bytes \<Rightarrow> bool \<Rightarrow> reader \<Rightarrow> reader" where
  "rd_send body closed s =
     s\<lparr>rd_pending := Wait, rd_tx := rd_tx s @ [\<lparr>rb_body = body, rb_closed = closed\<rparr>]\<rparr>"

definition read_raw_sized :: "drain \<Rightarrow> nat \<Rightarrow> reader \<Rightarrow> envoy_body \<Rightarrow> reader \<times> envoy_body" where
  "read_raw_sized drain n s env =
     (let (body, remaining, env) =
            (case buffered_body env of
               Some buffers \<Rightarrow>
                 (case read_up_to buffers [] n 0 of
                    (body, remaining, read) \<Rightarrow> (body, remaining, drain_buffered drain read env))
             | None \<Rightarrow> ([], n, env));
          (body, env) =
            (if remaining > 0 then
               (case received_body env of
                  Some buffers \<Rightarrow>
                    (case read_up_to buffers body remaining 0 of
                       (body, _, read) \<Rightarrow> (body, drain_received drain read env))
                | None \<Rightarrow> (body, env))
             else (body, env))
      in (rd_send body (\<not> has_request_body env \<and> rd_request_closed s) s, env))"

definition read_raw_all :: "drain \<Rightarrow> reader \<Rightarrow> envoy_body \<Rightarrow> reader \<times> envoy_body" where
  "read_raw_all drain s env =
     (case read_all_buffers drain (rd_buffer s) env of
        (buf, env) \<Rightarrow>
          if rd_request_closed s then (rd_send buf True (s\<lparr>rd_buffer := []\<rparr>), env)
          else (s\<lparr>rd_buffer := buf\<rparr>, env))"

definition read_line_event :: "drain \<Rightarrow> int \<Rightarrow> reader \<Rightarrow> envoy_body \<Rightarrow> reader \<times> envoy_body" where
  "read_line_event drain n s env =
     (let (s, send, env) =
            (case buffered_body env of
               Some buffers \<Rightarrow>
                 (case read_line n buffers s of
                    (s, found, read) \<Rightarrow> (s, found, drain_buffered drain read env))
             | None \<Rightarrow> (s, False, env));
          (s, send, env) =
            (if send then (s, send, env)
             else (case received_body env of
                     Some buffers \<Rightarrow>
                       (case read_line n buffers s of
                          (s, found, read) \<Rightarrow> (s, found, drain_received drain read env))
                   | None \<Rightarrow> (s, send, env)))
      in if send \<or> rd_request_closed s then
           (rd_send (rd_buffer s) (\<not> has_request_body env \<and> rd_request_closed s)
              (s\<lparr>rd_buffer := []\<rparr>), env)
         else (s, env))"

definition process_read :: "drain \<Rightarrow> reader \<Rightarrow> envoy_body \<Rightarrow> reader \<times> envoy_body" where
  "process_read drain s env =
     (let (events, b) = bridge_process (rd_bridge s);
          s = s\<lparr>rd_bridge := b, rd_pending := fold (\<lambda>e _. e) events (rd_pending s)\<rparr>
      in if \<not> has_request_body env \<and> \<not> rd_request_closed s then (s, env)
         else (case rd_pending s of
                 Raw n \<Rightarrow> if n > 0 then read_raw_sized drain (nat n) s env
                          else read_raw_all drain s env
               | Line n \<Rightarrow> read_line_event drain n s env
               | Wait \<Rightarrow> (s, env)))"

section \<open>Handlers and the application's side\<close>

text \<open>
  A step of the system formed by the application's thread, the filter and Envoy. The
  application blocks in a read until its answer arrives, so it sends the next read only when
  every earlier one has been answered. Envoy shows a chunk as received during
  \<open>on_request_body\<close> and keeps what the filter left in its own buffer afterwards
  (\<open>StopIterationAndWatermark\<close>), and no body follows the end of the stream. \<open>rs_arrived\<close> is
  every byte of the request so far, \<open>rs_asked\<close> every read the application made.
\<close>

record read_sys =
  rs_reader :: reader
  rs_env :: envoy_body
  rs_arrived :: bytes
  rs_asked :: "read_event list"

definition read_sys_new :: read_sys where
  "read_sys_new = \<lparr>rs_reader = reader_new, rs_env = \<lparr>buffered_body = None, received_body = None\<rparr>,
     rs_arrived = [], rs_asked = []\<rparr>"

datatype read_input =
    AppRead read_event
  | RequestBody "bytes list" bool
  | RequestTrailers
  | ScheduledRead

definition run_process :: "drain \<Rightarrow> read_sys \<Rightarrow> read_sys" where
  "run_process drain s =
     (case process_read drain (rs_reader s) (rs_env s) of
        (r, env) \<Rightarrow> s\<lparr>rs_reader := r, rs_env := env\<rparr>)"

definition rd_close :: "read_sys \<Rightarrow> read_sys" where
  "rd_close s = s\<lparr>rs_reader := (rs_reader s)\<lparr>rd_request_closed := True\<rparr>\<rparr>"

definition envoy_receive :: "bytes list \<Rightarrow> read_sys \<Rightarrow> read_sys" where
  "envoy_receive cs s =
     s\<lparr>rs_env := (rs_env s)\<lparr>received_body := Some cs\<rparr>, rs_arrived := rs_arrived s @ concat cs\<rparr>"

definition envoy_keep :: "read_sys \<Rightarrow> read_sys" where
  "envoy_keep s =
     s\<lparr>rs_env := \<lparr>buffered_body =
         Some (chunks (buffered_body (rs_env s)) @ chunks (received_body (rs_env s))),
       received_body = None\<rparr>\<rparr>"

fun read_exec :: "drain \<Rightarrow> read_input \<Rightarrow> read_sys \<Rightarrow> read_sys" where
  "read_exec drain (AppRead e) s =
     (if length (rs_asked s) = length (rd_tx (rs_reader s)) \<and> e \<noteq> Wait then
        s\<lparr>rs_reader := (rs_reader s)\<lparr>rd_bridge := snd (bridge_offer (rd_bridge (rs_reader s)) e)\<rparr>,
          rs_asked := rs_asked s @ [e]\<rparr>
      else s)"
| "read_exec drain (RequestBody cs end_of_stream) s =
     (if rd_request_closed (rs_reader s) then s
      else envoy_keep (run_process drain
             ((if end_of_stream then rd_close else id) (envoy_receive cs s))))"
| "read_exec drain RequestTrailers s = envoy_keep (run_process drain (rd_close s))"
| "read_exec drain ScheduledRead s = envoy_keep (run_process drain s)"

section \<open>What the copying loops compute\<close>

lemma drop_min_length [simp]: "drop (min n (length xs)) xs = drop n xs"
  by (simp add: min_def)

lemma read_up_to_spec:
  "read_up_to bs body remaining read =
     (body @ take remaining (concat bs), remaining - length (concat bs),
      read + min remaining (length (concat bs)))"
proof (induction bs arbitrary: body remaining read)
  case Nil
  then show ?case by simp
next
  case (Cons b bs)
  then show ?case by (cases "remaining \<le> length b") (auto simp: Let_def min_def)
qed

lemma line_bytes_append:
  "line_bytes n (xs @ ys) buf read =
     (case line_bytes n xs buf read of
        (buf, True, read) \<Rightarrow> (buf, True, read)
      | (buf, False, read) \<Rightarrow> line_bytes n ys buf read)"
  by (induction xs arbitrary: buf read) (auto simp: Let_def)

lemma line_buffers_concat: "line_buffers n bs buf read = line_bytes n (concat bs) buf read"
  by (induction bs arbitrary: buf read)
    (auto simp: line_bytes_append split: prod.splits bool.splits)

text \<open>A prefix is copied; it ends the line (or fills the size) exactly when the flag is set.\<close>

definition line_open :: "int \<Rightarrow> bytes \<Rightarrow> bool" where
  "line_open n buf \<longleftrightarrow> CHR 0x0A \<notin> set buf \<and> (0 < n \<longrightarrow> int (length buf) < n)"

definition line_done :: "int \<Rightarrow> bytes \<Rightarrow> bool" where
  "line_done n buf \<longleftrightarrow>
     buf \<noteq> [] \<and> CHR 0x0A \<notin> set (butlast buf) \<and> (0 < n \<longrightarrow> int (length buf) \<le> n)
     \<and> (last buf = CHR 0x0A \<or> (0 < n \<and> int (length buf) = n))"

lemma line_bytes_spec:
  assumes "line_bytes n bs buf read = (buf', found, read')" and "line_open n buf"
  shows "\<exists>k \<le> length bs. buf' = buf @ take k bs \<and> read' = read + k
     \<and> (if found then line_done n buf' else k = length bs \<and> line_open n buf')"
  using assms
proof (induction bs arbitrary: buf read)
  case Nil
  then show ?case by simp
next
  case (Cons b bs)
  show ?case
  proof (cases "b = CHR 0x0A \<or> (0 < n \<and> n \<le> int (length buf) + 1)")
    case True
    with Cons.prems have "buf' = buf @ [b]" "found" "read' = Suc read"
      by (auto simp: Let_def)
    moreover have "line_done n (buf @ [b])"
      using True Cons.prems(2) by (auto simp: line_done_def line_open_def)
    ultimately show ?thesis by (intro exI [of _ 1]) simp
  next
    case False
    then have "line_open n (buf @ [b])"
      using Cons.prems(2) by (auto simp: line_open_def)
    moreover have "line_bytes n bs (buf @ [b]) (Suc read) = (buf', found, read')"
      using False Cons.prems(1) by (auto simp: Let_def)
    ultimately obtain k where "k \<le> length bs" "buf' = (buf @ [b]) @ take k bs"
      "read' = Suc read + k" "if found then line_done n buf' else k = length bs \<and> line_open n buf'"
      using Cons.IH by blast
    then show ?thesis by (intro exI [of _ "Suc k"]) (cases found; simp)
  qed
qed

section \<open>Conservation by each kind of read\<close>

definition delivered :: "reader \<Rightarrow> bytes" where
  "delivered s = concat (map rb_body (rd_tx s))"

definition remaining_body :: "envoy_body \<Rightarrow> bytes" where
  "remaining_body env = content (buffered_body env) @ content (received_body env)"

lemma remaining_body_iff: "has_request_body env \<longleftrightarrow> remaining_body env \<noteq> []"
  by (simp add: has_request_body_content remaining_body_def)

text \<open>What an answer to a read satisfies.\<close>

fun answers :: "read_event \<Rightarrow> request_body \<Rightarrow> bool" where
  "answers Wait r = False"
| "answers (Raw n) r =
     (if n > 0 then int (length (rb_body r)) \<le> n \<and> (rb_body r = [] \<longrightarrow> rb_closed r)
      else rb_closed r)"
| "answers (Line n) r = (line_done n (rb_body r) \<or> (rb_closed r \<and> line_open n (rb_body r)))"

text \<open>The result of \<open>process_read\<close> on a pending read \<open>e\<close>, as the rest of the proof needs it.\<close>

definition read_result :: "read_event \<Rightarrow> reader \<Rightarrow> envoy_body \<Rightarrow> reader \<Rightarrow> envoy_body \<Rightarrow> bool" where
  "read_result e s env s' env' \<longleftrightarrow>
     rd_request_closed s' = rd_request_closed s \<and> rd_bridge s' = rd_bridge s
     \<and> (\<exists>body closed.
          rd_tx s' = rd_tx s @ [\<lparr>rb_body = body, rb_closed = closed\<rparr>] \<and> rd_pending s' = Wait
          \<and> rd_buffer s' = []
          \<and> rd_buffer s @ remaining_body env = body @ remaining_body env'
          \<and> answers e \<lparr>rb_body = body, rb_closed = closed\<rparr>
          \<and> (closed \<longrightarrow> rd_request_closed s \<and> remaining_body env' = [])
        \<or> \<not> rd_request_closed s \<and> rd_tx s' = rd_tx s \<and> rd_pending s' = rd_pending s
          \<and> rd_buffer s @ remaining_body env = rd_buffer s' @ remaining_body env'
          \<and> (\<forall>n. e \<noteq> Raw n \<or> n \<le> 0) \<and> (\<forall>n. e = Line n \<longrightarrow> line_open n (rd_buffer s')))"

lemma take_drop_twice:
  "take k xs @ take (k - length xs) ys @ drop k xs @ drop (k - length xs) ys = xs @ ys"
  by (cases "k \<le> length xs") simp_all

lemma read_raw_sized_result:
  assumes "drain_law drain" and "n > 0" and "rd_buffer s = []"
    and "has_request_body env \<or> rd_request_closed s"
    and "read_raw_sized drain (nat n) s env = (s', env')"
  shows "read_result (Raw n) s env s' env'"
proof -
  let ?b = "content (buffered_body env)" and ?r = "content (received_body env)"
  have eq: "s' = rd_send (take (nat n) (?b @ ?r)) (\<not> has_request_body env' \<and> rd_request_closed s) s"
    and env': "content (buffered_body env') = drop (nat n) ?b"
      "content (received_body env') = drop (nat n - length ?b) ?r"
    using assms(5)
    by (auto simp: read_raw_sized_def read_up_to_spec Let_def drain_buffered_def drain_received_def
        content_drain [OF assms(1)] split: option.splits if_splits prod.splits)
  have "take (nat n) (?b @ ?r) = [] \<Longrightarrow> remaining_body env = []"
    using assms(2) by (auto simp: remaining_body_def)
  then have "take (nat n) (?b @ ?r) = [] \<Longrightarrow> \<not> has_request_body env' \<and> rd_request_closed s"
    using assms(4) env' by (auto simp: remaining_body_iff remaining_body_def)
  moreover have "remaining_body env = take (nat n) (?b @ ?r) @ remaining_body env'"
    by (simp add: remaining_body_def env' take_drop_twice)
  ultimately show ?thesis
    using assms(2,3)
    by (auto simp: read_result_def eq rd_send_def remaining_body_iff)
qed

lemma read_raw_all_result:
  assumes "drain_law drain" and "n \<le> 0" and "read_raw_all drain s env = (s', env')"
  shows "read_result (Raw n) s env s' env'"
  using assms read_all_buffers_spec [OF assms(1), of "rd_buffer s" env]
  by (auto simp: read_raw_all_def read_result_def rd_send_def remaining_body_def
      split: prod.splits if_splits)

text \<open>What one half of a line read (one of the two buffers) does.\<close>

definition same_but_buffer :: "reader \<Rightarrow> reader \<Rightarrow> bool" where
  "same_but_buffer s s' \<longleftrightarrow> rd_request_closed s' = rd_request_closed s \<and> rd_bridge s' = rd_bridge s
     \<and> rd_pending s' = rd_pending s \<and> rd_tx s' = rd_tx s"

definition line_half :: "int \<Rightarrow> bytes \<Rightarrow> bytes \<Rightarrow> bytes \<Rightarrow> bytes \<Rightarrow> bool \<Rightarrow> bool" where
  "line_half n buf xs buf' xs' found \<longleftrightarrow>
     buf @ xs = buf' @ xs' \<and> (if found then line_done n buf' else xs' = [] \<and> line_open n buf')"

lemma read_line_half:
  assumes "read_line n bs s = (s', found, read)" and "line_open n (rd_buffer s)"
  shows "same_but_buffer s s' \<and> read \<le> length (concat bs)
     \<and> line_half n (rd_buffer s) (concat bs) (rd_buffer s') (drop read (concat bs)) found"
proof -
  obtain buf where eq: "line_bytes n (concat bs) (rd_buffer s) 0 = (buf, found, read)"
    and s': "s' = s\<lparr>rd_buffer := buf\<rparr>"
    using assms(1) by (auto simp: read_line_def line_buffers_concat split: prod.splits)
  from line_bytes_spec [OF eq assms(2)] show ?thesis
    by (cases found) (auto simp: s' line_half_def same_but_buffer_def)
qed

lemma read_line_event_result:
  assumes d: "drain_law drain" and o: "line_open n (rd_buffer s)"
    and "read_line_event drain n s env = (s', env')"
  shows "read_result (Line n) s env s' env'"
proof -
  let ?s1 = "\<lambda>s1 send env1. same_but_buffer s s1 \<and> received_body env1 = received_body env
    \<and> line_half n (rd_buffer s) (content (buffered_body env)) (rd_buffer s1)
        (content (buffered_body env1)) send"
  obtain s1 send env1 where one: "(case buffered_body env of
               Some buffers \<Rightarrow>
                 (case read_line n buffers s of
                    (s, found, read) \<Rightarrow> (s, found, drain_buffered drain read env))
             | None \<Rightarrow> (s, False, env)) = (s1, send, env1)"
    by (metis prod_cases3)
  have h1: "?s1 s1 send env1"
  proof (cases "buffered_body env")
    case None
    with one o show ?thesis by (simp add: line_half_def same_but_buffer_def)
  next
    case (Some bs)
    obtain found read s2 where r: "read_line n bs s = (s2, found, read)" by (metis prod_cases3)
    from read_line_half [OF r o] one Some r show ?thesis
      by (auto simp: drain_buffered_def content_drain [OF d])
  qed
  obtain s2 send2 env2 where two: "(if send then (s1, send, env1)
             else (case received_body env1 of
                     Some buffers \<Rightarrow>
                       (case read_line n buffers s1 of
                          (s, found, read) \<Rightarrow> (s, found, drain_received drain read env1))
                   | None \<Rightarrow> (s1, send, env1))) = (s2, send2, env2)"
    by (metis prod_cases3)
  have h2: "same_but_buffer s s2
    \<and> rd_buffer s @ remaining_body env = rd_buffer s2 @ remaining_body env2
    \<and> (if send2 then line_done n (rd_buffer s2) else remaining_body env2 = [] \<and> line_open n (rd_buffer s2))"
  proof (cases "send \<or> received_body env1 = None")
    case True
    with h1 two show ?thesis
      by (auto simp: line_half_def remaining_body_def split: if_splits)
  next
    case False
    then obtain bs where b: "\<not> send" "received_body env1 = Some bs" by auto
    with h1 have o1: "line_open n (rd_buffer s1)" by (simp add: line_half_def)
    obtain found read s3 where r: "read_line n bs s1 = (s3, found, read)" by (metis prod_cases3)
    have e: "rd_buffer s @ content (buffered_body env) = rd_buffer s1" "content (buffered_body env1) = []"
      "received_body env = Some bs"
      using h1 b by (auto simp: line_half_def)
    have "rd_buffer s @ remaining_body env = rd_buffer s1 @ concat bs"
      using e by (simp add: remaining_body_def flip: append_assoc)
    with read_line_half [OF r o1] two b r h1 e show ?thesis
      by (auto simp: line_half_def same_but_buffer_def remaining_body_def drain_received_def
          content_drain [OF d] split: if_splits)
  qed
  have "(s', env') = (if send2 \<or> rd_request_closed s2 then
           (rd_send (rd_buffer s2) (\<not> has_request_body env2 \<and> rd_request_closed s2)
              (s2\<lparr>rd_buffer := []\<rparr>), env2) else (s2, env2))"
    using assms(3) by (simp add: read_line_event_def one two)
  then have c: "env' = env2 \<and> (if send2 \<or> rd_request_closed s2 then s' = rd_send (rd_buffer s2)
      (remaining_body env2 = [] \<and> rd_request_closed s2) (s2\<lparr>rd_buffer := []\<rparr>) else s' = s2)"
    by (cases send2; cases "rd_request_closed s2") (simp_all add: remaining_body_iff)
  show ?thesis
  proof (cases "send2 \<or> rd_request_closed s2")
    case True
    with c h2 show ?thesis
      by (cases send2) (auto simp: read_result_def rd_send_def same_but_buffer_def)
  next
    case False
    with c h2 show ?thesis by (simp add: read_result_def same_but_buffer_def)
  qed
qed

text \<open>The reader after the bridge has been drained, the first thing \<open>process_read\<close> does.\<close>

definition polled :: "reader \<Rightarrow> reader" where
  "polled s = s\<lparr>rd_bridge := snd (bridge_process (rd_bridge s)),
     rd_pending := fold (\<lambda>e _. e) (bridge_content (rd_bridge s)) (rd_pending s)\<rparr>"

fun ready :: "reader \<Rightarrow> read_event \<Rightarrow> bool" where
  "ready s Wait \<longleftrightarrow> False"
| "ready s (Raw n) \<longleftrightarrow> (n > 0 \<longrightarrow> rd_buffer s = [])"
| "ready s (Line n) \<longleftrightarrow> line_open n (rd_buffer s)"

lemma process_read_polled:
  "process_read drain s env =
     (if \<not> has_request_body env \<and> \<not> rd_request_closed s then (polled s, env)
      else (case rd_pending (polled s) of
              Raw n \<Rightarrow> if n > 0 then read_raw_sized drain (nat n) (polled s) env
                       else read_raw_all drain (polled s) env
            | Line n \<Rightarrow> read_line_event drain n (polled s) env
            | Wait \<Rightarrow> (polled s, env)))"
proof -
  obtain events b where b: "bridge_process (rd_bridge s) = (events, b)" by (cases "bridge_process (rd_bridge s)")
  then have p: "polled s = s\<lparr>rd_bridge := b, rd_pending := fold (\<lambda>e _. e) events (rd_pending s)\<rparr>"
    by (simp add: polled_def flip: bridge_process_content)
  have "rd_request_closed (polled s) = rd_request_closed s" by (simp add: polled_def)
  then show ?thesis
    unfolding process_read_def b Let_def prod.case p [symmetric] by simp
qed

lemma process_read_result:
  assumes d: "drain_law drain" and e: "rd_pending (polled s) = e" and r: "ready (polled s) e"
    and go: "has_request_body env \<or> rd_request_closed s"
  shows "read_result e (polled s) env (fst (process_read drain s env)) (snd (process_read drain s env))"
proof (cases e)
  case Wait
  with r show ?thesis by simp
next
  case (Raw n)
  have c: "rd_request_closed (polled s) = rd_request_closed s" by (simp add: polled_def)
  have "process_read drain s env = (if n > 0 then read_raw_sized drain (nat n) (polled s) env
      else read_raw_all drain (polled s) env)"
    using Raw e go by (auto simp: process_read_polled)
  with Raw r go c show ?thesis
    using read_raw_sized_result [OF d, of n "polled s" env, OF _ _ _ prod.collapse [symmetric]]
      read_raw_all_result [OF d, of n "polled s" env, OF _ prod.collapse [symmetric]]
    by auto
next
  case (Line n)
  then have "process_read drain s env = read_line_event drain n (polled s) env"
    using e go by (auto simp: process_read_polled)
  with Line r show ?thesis
    using read_line_event_result [OF d, of n "polled s" env, OF _ prod.collapse [symmetric]] by simp
qed

lemma process_read_idle:
  "\<not> has_request_body env \<and> \<not> rd_request_closed s \<or> rd_pending (polled s) = Wait
   \<Longrightarrow> process_read drain s env = (polled s, env)"
  by (auto simp: process_read_polled)

section \<open>The invariant\<close>

definition read_inv :: "read_sys \<Rightarrow> bool" where
  "read_inv s \<longleftrightarrow>
     (let r = rs_reader s; tx = rd_tx r; asked = rs_asked s in
      rd_bridge r \<noteq> Closed
      \<and> rs_arrived s = delivered r @ rd_buffer r @ remaining_body (rs_env s)
      \<and> (\<forall>e \<in> set asked. e \<noteq> Wait)
      \<and> list_all2 answers (take (length tx) asked) tx
      \<and> (if length asked = length tx
         then bridge_content (rd_bridge r) = [] \<and> rd_pending r = Wait \<and> rd_buffer r = []
         else length asked = Suc (length tx) \<and> rd_pending (polled r) = last asked
              \<and> length (bridge_content (rd_bridge r)) \<le> 1 \<and> ready r (last asked))
      \<and> ((\<exists>b \<in> set tx. rb_closed b) \<longrightarrow>
           rd_request_closed r \<and> remaining_body (rs_env s) = [] \<and> rd_buffer r = []))"

lemma polled_simps [simp]:
  "rd_tx (polled s) = rd_tx s" "rd_buffer (polled s) = rd_buffer s"
  "rd_request_closed (polled s) = rd_request_closed s"
  "bridge_content (rd_bridge (polled s)) = []"
  "rd_bridge (polled s) = Closed \<longleftrightarrow> rd_bridge s = Closed"
  "ready (polled s) e = ready s e" "delivered (polled s) = delivered s"
  by (simp_all add: polled_def bridge_process_snd delivered_def) (cases e; simp)

lemma polled_pending_polled [simp]: "rd_pending (polled (polled s)) = rd_pending (polled s)"
  by (subst (1) polled_def) simp

lemma read_inv_idle:
  "read_inv s \<Longrightarrow> read_inv (s\<lparr>rs_reader := polled (rs_reader s)\<rparr>)"
  by (auto simp: read_inv_def Let_def) (auto simp: polled_def)

lemma list_all2_answered:
  assumes "list_all2 P (take (length ys) xs) ys" and "length xs = Suc (length ys)" and "P (last xs) y"
  shows "list_all2 P xs (ys @ [y])"
proof -
  have "xs = take (length ys) xs @ [last xs]"
    using assms(2) by (metis append_butlast_last_id butlast_conv_take diff_Suc_1 list.size(3) nat.simps(3))
  with assms(1,3) show ?thesis
    by (metis list_all2_appendI list_all2_Cons list_all2_Nil)
qed

lemma read_inv_result:
  assumes inv: "read_inv s" and out: "length (rs_asked s) \<noteq> length (rd_tx (rs_reader s))"
    and res: "read_result (last (rs_asked s)) (polled (rs_reader s)) (rs_env s) r env"
  shows "read_inv (s\<lparr>rs_reader := r, rs_env := env\<rparr>)"
    and "rd_request_closed (rs_reader s) \<Longrightarrow> length (rd_tx r) = length (rs_asked s)"
proof -
  let ?r = "rs_reader s" and ?asked = "rs_asked s"
  let ?tx = "rd_tx ?r"
  have I: "rd_bridge ?r \<noteq> Closed" "rs_arrived s = delivered ?r @ rd_buffer ?r @ remaining_body (rs_env s)"
    "\<forall>e \<in> set ?asked. e \<noteq> Wait" "list_all2 answers (take (length ?tx) ?asked) ?tx"
    "(\<exists>b \<in> set ?tx. rb_closed b) \<longrightarrow>
       rd_request_closed ?r \<and> remaining_body (rs_env s) = [] \<and> rd_buffer ?r = []"
    "length ?asked = Suc (length ?tx)" "rd_pending (polled ?r) = last ?asked" "ready ?r (last ?asked)"
    using inv out by (simp_all add: read_inv_def Let_def)
  from res consider
    (sent) body closed where "rd_tx r = ?tx @ [\<lparr>rb_body = body, rb_closed = closed\<rparr>]"
      "rd_pending r = Wait" "rd_buffer r = []"
      "rd_buffer ?r @ remaining_body (rs_env s) = body @ remaining_body env"
      "answers (last ?asked) \<lparr>rb_body = body, rb_closed = closed\<rparr>"
      "closed \<longrightarrow> rd_request_closed ?r \<and> remaining_body env = []"
      "rd_request_closed r = rd_request_closed ?r" "rd_bridge r = rd_bridge (polled ?r)"
  | (kept) "\<not> rd_request_closed ?r" "rd_tx r = ?tx" "rd_pending r = last ?asked"
      "rd_buffer ?r @ remaining_body (rs_env s) = rd_buffer r @ remaining_body env"
      "ready r (last ?asked)"
      "rd_request_closed r = rd_request_closed ?r" "rd_bridge r = rd_bridge (polled ?r)"
    using I(7,8) unfolding read_result_def by (cases "last ?asked") auto
  then have "read_inv (s\<lparr>rs_reader := r, rs_env := env\<rparr>)
    \<and> (rd_request_closed ?r \<longrightarrow> length (rd_tx r) = length ?asked)"
  proof cases
    case sent
    from list_all2_answered [OF I(4,6) sent(5)] I sent show ?thesis
      by (auto simp: read_inv_def Let_def delivered_def)
  next
    case kept
    have "polled r = r" using kept by (cases r) (auto simp: polled_def bridge_process_snd)
    with I kept show ?thesis
      by (auto simp: read_inv_def Let_def delivered_def)
  qed
  then show "read_inv (s\<lparr>rs_reader := r, rs_env := env\<rparr>)"
    and "rd_request_closed (rs_reader s) \<Longrightarrow> length (rd_tx r) = length (rs_asked s)"
    by auto
qed

lemma read_inv_process:
  assumes d: "drain_law drain" and inv: "read_inv s"
  shows "read_inv (run_process drain s)"
    and "rd_request_closed (rs_reader s) \<Longrightarrow>
      length (rd_tx (rs_reader (run_process drain s))) = length (rs_asked s)"
proof -
  let ?r = "rs_reader s" and ?env = "rs_env s" and ?asked = "rs_asked s"
  have "read_inv (run_process drain s) \<and> (rd_request_closed ?r \<longrightarrow>
      length (rd_tx (rs_reader (run_process drain s))) = length ?asked)"
  proof (cases "length ?asked = length (rd_tx ?r)")
    case True
    with inv have "rd_pending (polled ?r) = Wait" by (simp add: read_inv_def Let_def polled_def)
    with True inv read_inv_idle [OF inv] show ?thesis
      by (simp add: run_process_def process_read_idle)
  next
    case out: False
    show ?thesis
    proof (cases "has_request_body ?env \<or> rd_request_closed ?r")
      case True
      from inv out have "rd_pending (polled ?r) = last ?asked" "ready (polled ?r) (last ?asked)"
        by (simp_all add: read_inv_def Let_def)
      from process_read_result [OF d this True]
      show ?thesis
        using read_inv_result [OF inv out]
        by (cases "process_read drain ?r ?env") (simp add: run_process_def)
    next
      case False
      with inv read_inv_idle [OF inv] show ?thesis
        by (simp add: run_process_def process_read_idle)
    qed
  qed
  then show "read_inv (run_process drain s)"
    and "rd_request_closed (rs_reader s) \<Longrightarrow>
      length (rd_tx (rs_reader (run_process drain s))) = length (rs_asked s)"
    by auto
qed

lemma remaining_body_keep: "remaining_body (rs_env (envoy_keep s)) = remaining_body (rs_env s)"
  by (simp add: envoy_keep_def remaining_body_def content_def chunks_def)

lemma envoy_keep_simps [simp]:
  "rs_reader (envoy_keep s) = rs_reader s" "rs_arrived (envoy_keep s) = rs_arrived s"
  "rs_asked (envoy_keep s) = rs_asked s" "content (received_body (rs_env (envoy_keep s))) = []"
  by (simp_all add: envoy_keep_def content_def chunks_def)

lemma read_inv_keep: "read_inv s \<Longrightarrow> read_inv (envoy_keep s)"
  by (simp only: read_inv_def remaining_body_keep envoy_keep_simps)

lemma read_inv_receive:
  assumes "read_inv s" and "\<not> rd_request_closed (rs_reader s)" and "content (received_body (rs_env s)) = []"
  shows "read_inv (envoy_receive cs s)"
proof -
  have "remaining_body (rs_env (envoy_receive cs s)) = remaining_body (rs_env s) @ concat cs"
    using assms(3) by (simp add: envoy_receive_def remaining_body_def content_def chunks_def)
  with assms(1,2) show ?thesis
    by (auto simp: read_inv_def Let_def) (auto simp: envoy_receive_def)
qed

lemma rd_close_simps [simp]:
  "rd_tx (rs_reader (rd_close s)) = rd_tx (rs_reader s)" "rd_request_closed (rs_reader (rd_close s))"
  "rd_buffer (rs_reader (rd_close s)) = rd_buffer (rs_reader s)"
  "rd_bridge (rs_reader (rd_close s)) = rd_bridge (rs_reader s)"
  "rd_pending (rs_reader (rd_close s)) = rd_pending (rs_reader s)"
  "rd_pending (polled (rs_reader (rd_close s))) = rd_pending (polled (rs_reader s))"
  "ready (rs_reader (rd_close s)) e = ready (rs_reader s) e"
  "delivered (rs_reader (rd_close s)) = delivered (rs_reader s)"
  "rs_arrived (rd_close s) = rs_arrived s" "rs_asked (rd_close s) = rs_asked s" "rs_env (rd_close s) = rs_env s"
  by (simp_all add: rd_close_def polled_def delivered_def) (cases e; simp)

lemma read_inv_close: "read_inv s \<Longrightarrow> read_inv (rd_close s)"
  by (auto simp: read_inv_def Let_def)

text \<open>Between handlers Envoy shows no received chunk.\<close>

definition read_sys_inv :: "read_sys \<Rightarrow> bool" where
  "read_sys_inv s \<longleftrightarrow> read_inv s \<and> content (received_body (rs_env s)) = []"

lemma read_inv_ask:
  assumes "read_inv s" and "length (rs_asked s) = length (rd_tx (rs_reader s))" and "e \<noteq> Wait"
  shows "read_inv (s\<lparr>rs_reader := (rs_reader s)\<lparr>rd_bridge := snd (bridge_offer (rd_bridge (rs_reader s)) e)\<rparr>,
          rs_asked := rs_asked s @ [e]\<rparr>)"
proof -
  let ?r = "rs_reader s"
  have c: "bridge_content (snd (bridge_offer (rd_bridge ?r) e)) = [e]"
    and I: "rd_bridge ?r \<noteq> Closed" "rd_buffer ?r = []"
    using assms(1,2) by (simp_all add: read_inv_def Let_def bridge_offer_content)
  have "ready (?r\<lparr>rd_bridge := snd (bridge_offer (rd_bridge ?r) e)\<rparr>) e"
    using assms(3) I by (cases e) (simp_all add: line_open_def)
  moreover have "rd_pending (polled (?r\<lparr>rd_bridge := snd (bridge_offer (rd_bridge ?r) e)\<rparr>)) = e"
    by (simp add: polled_def c)
  ultimately show ?thesis
    using assms c I by (auto simp: read_inv_def Let_def delivered_def)
qed

lemma read_exec_inv [pres]:
  assumes d: "drain_law drain" and inv: "read_sys_inv s"
  shows "read_sys_inv (read_exec drain i s)"
proof -
  have keep: "read_inv t \<Longrightarrow> read_sys_inv (envoy_keep (run_process drain t))" for t
    using read_inv_keep read_inv_process(1) [OF d] by (simp add: read_sys_inv_def)
  from inv have inv': "read_inv s" "content (received_body (rs_env s)) = []"
    by (simp_all add: read_sys_inv_def)
  show ?thesis
  proof (cases i)
    case (AppRead e)
    with inv read_inv_ask [OF inv'(1), of e] show ?thesis by (simp add: read_sys_inv_def)
  next
    case (RequestBody cs eos)
    with inv inv' show ?thesis
      by (auto intro!: keep read_inv_close read_inv_receive)
  next
    case RequestTrailers
    with inv' show ?thesis by (auto intro!: keep read_inv_close)
  next
    case ScheduledRead
    with inv' show ?thesis by (auto intro!: keep)
  qed
qed

lemma read_machine: "drain_law drain \<Longrightarrow> machine_contract (read_exec drain) (\<lambda>_. True) read_sys_inv"
  by unfold_locales (rule read_exec_inv)

lemma read_run_inv: "drain_law drain \<Longrightarrow> read_sys_inv (fold (read_exec drain) is read_sys_new)"
  by (rule machine_contract.fold_inv [OF read_machine])
    (auto simp: list_all_iff read_sys_inv_def read_inv_def Let_def read_sys_new_def reader_new_def
      bridge_new_def delivered_def remaining_body_def content_def chunks_def)

section \<open>Properties\<close>

text \<open>
  C13. No byte of a request body is lost, duplicated or reordered on its way to a WSGI
  application: whatever reads it makes and however the body arrives, the bytes in the answers,
  followed by the bytes collected for the pending read, followed by what is left with Envoy,
  are the bytes that arrived; and an answer flagged closed is given only when the request has
  ended and nothing is left.
\<close>

theorem wsgi_body_conserved:
  assumes "drain_law drain"
  shows "let s = fold (read_exec drain) is read_sys_new; r = rs_reader s in
     rs_arrived s = concat (map rb_body (rd_tx r)) @ rd_buffer r
       @ content (buffered_body (rs_env s)) @ content (received_body (rs_env s))
     \<and> ((\<exists>b \<in> set (rd_tx r). rb_closed b) \<longrightarrow> rd_request_closed r
          \<and> rs_arrived s = concat (map rb_body (rd_tx r)))"
  using read_run_inv [OF assms, of "is"]
  by (auto simp: Let_def read_sys_inv_def read_inv_def delivered_def remaining_body_def)

text \<open>
  C38. Every answer is what its read asked for, the answers coming in the order of the reads: a
  sized read gets at most its size, and nothing only at the end of the request; a read of
  everything is answered only at the end; a line read gets bytes up to and including the first
  newline or exactly its size, or at the end of the request the rest without a newline. And
  once the request has ended, one scheduled event leaves no read waiting.
\<close>

theorem wsgi_read_answers:
  assumes "drain_law drain"
  shows "let s = fold (read_exec drain) is read_sys_new; t = read_exec drain ScheduledRead s in
     list_all2 answers (take (length (rd_tx (rs_reader s))) (rs_asked s)) (rd_tx (rs_reader s))
     \<and> (rd_request_closed (rs_reader s) \<longrightarrow> length (rd_tx (rs_reader t)) = length (rs_asked t))"
proof -
  let ?s = "fold (read_exec drain) is read_sys_new"
  from read_run_inv [OF assms, of "is"] have inv: "read_inv ?s" by (simp add: read_sys_inv_def)
  have "rs_asked (run_process drain ?s) = rs_asked ?s"
    by (simp add: run_process_def split: prod.split)
  with inv read_inv_process(2) [OF assms inv] show ?thesis
    by (simp add: Let_def) (simp add: read_inv_def Let_def)
qed

definition read_demo :: "read_input list" where
  "read_demo = [AppRead (Line (-1)), RequestBody [''a'', ''b''] False, RequestBody [[CHR 0x0A, CHR ''c'']] True]"

theorem wsgi_body_conserved_witness:
  "let s = fold (read_exec (\<lambda>n b. Some [drop n (content b)])) read_demo read_sys_new; r = rs_reader s in
     rs_arrived s = ''ab'' @ [CHR 0x0A, CHR ''c''] \<and> map rb_body (rd_tx r) = [''ab'' @ [CHR 0x0A]]
     \<and> rs_arrived s = concat (map rb_body (rd_tx r)) @ rd_buffer r
       @ content (buffered_body (rs_env s)) @ content (received_body (rs_env s))"
proof -
  have d: "drain_law (\<lambda>n b. Some [drop n (content b)])" by (simp add: drain_law_def)
  have "rs_arrived (fold (read_exec (\<lambda>n b. Some [drop n (content b)])) read_demo read_sys_new)
      = ''ab'' @ [CHR 0x0A, CHR ''c'']"
    and "map rb_body (rd_tx (rs_reader (fold (read_exec (\<lambda>n b. Some [drop n (content b)])) read_demo
      read_sys_new))) = [''ab'' @ [CHR 0x0A]]"
    by code_simp+
  with wsgi_body_conserved [OF d, of read_demo] show ?thesis by (simp add: Let_def)
qed

theorem wsgi_read_answers_witness:
  "list_all2 answers [Line (-1)]
     (rd_tx (rs_reader (fold (read_exec (\<lambda>n b. Some [drop n (content b)])) read_demo read_sys_new)))"
proof -
  have d: "drain_law (\<lambda>n b. Some [drop n (content b)])" by (simp add: drain_law_def)
  have "take (length (rd_tx (rs_reader (fold (read_exec (\<lambda>n b. Some [drop n (content b)])) read_demo
      read_sys_new)))) (rs_asked (fold (read_exec (\<lambda>n b. Some [drop n (content b)])) read_demo
      read_sys_new)) = [Line (-1)]"
    by code_simp
  with wsgi_read_answers [OF d, of read_demo] show ?thesis by (simp add: Let_def)
qed

end
