(* ===== verification/Envoy_Api.thy ===== *)
theory Envoy_Api
  imports Prelude
begin

text \<open>
  Envoy as its filters see it: the calls a filter makes, Envoy's answers, and the rule that the
  calls writing a response must follow. Shared by the WSGI and the ASGI filters.
\<close>

section \<open>Calls and answers\<close>

datatype envoy_call =
    SendResponseHeaders headers bool
  | SendResponseData bytes bool
  | SendResponseTrailers headers
  | SendResponse nat headers bytes
  | StartHttpStream bytes headers "bytes option" bool nat
  | SendHttpStreamData u64 bytes bool
  | ResetHttpStream u64

datatype stream_reset_reason =
    ConnectionFailure | ConnectionTermination | LocalReset | LocalRefusedStreamReset
  | OverflowReset | RemoteReset | RemoteRefusedStreamReset | ProtocolError

text \<open>
  Envoy's answers, as functions of the calls made so far (the current one included): whether
  \<open>start_http_stream\<close> succeeds and its handle, and whether \<open>reset_http_stream\<close> re-enters
  \<open>on_http_stream_reset\<close>, with which reason. The parsers are the \<open>http\<close> crate's.
\<close>

record envoy_api =
  start_result :: "envoy_call list \<Rightarrow> bool \<times> u64"
  reset_reenters :: "envoy_call list \<Rightarrow> stream_reset_reason option"
  status_from_bytes :: "bytes \<Rightarrow> bytes option"
  name_from_bytes :: "bytes \<Rightarrow> bytes option"
  value_from_bytes :: "bytes \<Rightarrow> bytes option"

text \<open>Why a stream of the HTTP client ended, as both transports declare it.\<close>

datatype reset_reason =
  Local | Remote | Protocol | Connection | Overflow | ServerRequestDone | InvalidUpstream

text \<open>What the code reads of a \<open>Url\<close>.\<close>

record url =
  url_scheme :: bytes
  url_authority :: bytes \<comment> \<open>\<open>BeforeHost..AfterPort\<close>\<close>
  url_path :: bytes \<comment> \<open>\<open>BeforePath..AfterQuery\<close>\<close>

section \<open>The calls that write a response\<close>

datatype phase = Waiting | Streaming | Ended

text \<open>Envoy's rule for the calls that write a response.\<close>

fun call_step :: "phase \<Rightarrow> envoy_call \<Rightarrow> phase option" where
  "call_step Waiting (SendResponseHeaders hs end_stream) = Some (if end_stream then Ended else Streaming)"
| "call_step Streaming (SendResponseData d end_stream) = Some (if end_stream then Ended else Streaming)"
| "call_step Streaming (SendResponseTrailers ts) = Some Ended"
| "call_step _ _ = None"

fun call_run :: "phase \<Rightarrow> envoy_call list \<Rightarrow> phase option" where
  "call_run p [] = Some p"
| "call_run p (c # cs) = (case call_step p c of Some q \<Rightarrow> call_run q cs | None \<Rightarrow> None)"

lemma call_run_append:
  "call_run p (xs @ ys) = (case call_run p xs of Some q \<Rightarrow> call_run q ys | None \<Rightarrow> None)"
  by (induction xs arbitrary: p) (auto split: option.splits)

fun call_data :: "envoy_call \<Rightarrow> bytes" where
  "call_data (SendResponseData d e) = d"
| "call_data _ = []"

fun is_local_reply :: "envoy_call \<Rightarrow> bool" where
  "is_local_reply (SendResponse st hs b) = True"
| "is_local_reply _ = False"

definition response_calls :: "envoy_call list \<Rightarrow> envoy_call list" where
  "response_calls cs = filter (\<lambda>c. \<not> is_local_reply c) cs"

end
