(* ===== verification/Wsgi_Response.thy ===== *)
theory Wsgi_Response
  imports Event_Bridge Py_Values Envoy_Api
begin

text \<open>
  \<open>src/src/wsgi/response.rs\<close> and the response events of \<open>src/src/wsgi/types.rs\<close>: the sender
  shared by \<open>start_response\<close>, \<open>write\<close>, \<open>send_trailers\<close> and the loop over the application's
  iterable. A status code is its three-digit text, a header a pair of byte strings.
\<close>

section \<open>Events\<close>


record response_start =
  rs_status :: bytes
  rs_headers :: headers

record response_body =
  bd_body :: bytes
  bd_more :: bool

datatype response_event =
    ResponseStart response_start response_body
  | ResponseBody response_body
  | ResponseTrailers "response_start option" headers
  | ResponseException

datatype sender_event =
    SenderStart response_start
  | SenderBody response_body
  | SenderTrailers headers

section \<open>The sender\<close>

text \<open>\<open>sn_bridge\<close> is the content of the shared bridge; \<open>sn_commits\<close> counts the commits of
  \<open>EVENT_ID_RESPONSE\<close>.\<close>

record response_sender =
  sn_bridge :: "response_event bridge"
  sn_commits :: nat
  sn_start :: "response_start option"
  sn_headers_sent :: bool
  sn_closed :: bool

definition response_sender_new :: "response_event bridge \<Rightarrow> response_sender" where
  "response_sender_new b = \<lparr>sn_bridge = b, sn_commits = 0, sn_start = None,
     sn_headers_sent = False, sn_closed = False\<rparr>"

definition sn_emit :: "response_event \<Rightarrow> response_sender \<Rightarrow> response_sender" where
  "sn_emit e s =
     (case bridge_offer (sn_bridge s) e of
        (ok, b) \<Rightarrow> s\<lparr>sn_bridge := b, sn_commits := sn_commits s + (if ok then 1 else 0)\<rparr>)"

text \<open>
  \<open>exc_info\<close> is the items of the tuple. \<open>with_traceback e tb\<close> is the application's: the error
  that calling \<open>with_traceback\<close> on the exception object raises, or \<open>None\<close>; the object itself
  is then raised by \<open>PyErr::from_value\<close>, which gives \<open>as_err e\<close>.
\<close>

record exc_api =
  with_traceback :: "pyval \<Rightarrow> pyval \<Rightarrow> pyerr option"
  as_err :: "pyval \<Rightarrow> pyerr"

definition reraise :: "exc_api \<Rightarrow> pyval list \<Rightarrow> pyerr" where
  "reraise api info =
     (if length info \<le> 1 then IndexError
      else if length info \<le> 2 then IndexError
      else (case with_traceback api (info ! 1) (info ! 2) of
              Some err \<Rightarrow> err
            | None \<Rightarrow> as_err api (info ! 1)))"

fun sender_send :: "exc_api \<Rightarrow> sender_event \<Rightarrow> pyval list option \<Rightarrow> response_sender
    \<Rightarrow> (pyerr + unit) \<times> response_sender" where
  "sender_send api event exc_info s =
     (if sn_closed s then (Inr (), s)
      else (case event of
        SenderStart start \<Rightarrow>
          (case exc_info of
             Some info \<Rightarrow>
               if sn_headers_sent s then (Inl (reraise api info), s)
               else (Inr (), s\<lparr>sn_start := Some start\<rparr>)
           | None \<Rightarrow>
               if sn_start s \<noteq> None \<or> sn_headers_sent s
               then (Inl (RuntimeError ''start_response called twice without exc_info''), s)
               else (Inr (), s\<lparr>sn_start := Some start\<rparr>))
      | SenderBody body \<Rightarrow>
          (let s = (if \<not> bd_more body then s\<lparr>sn_closed := True\<rparr> else s) in
           case sn_start s of
             Some start \<Rightarrow>
               (Inr (), sn_emit (ResponseStart start body)
                  (s\<lparr>sn_start := None, sn_headers_sent := True\<rparr>))
           | None \<Rightarrow>
               if \<not> sn_headers_sent s
               then (Inl (RuntimeError ''start_response not called from WSGI application''), s)
               else (Inr (), sn_emit (ResponseBody body) s))
      | SenderTrailers trailers \<Rightarrow>
          (let start = sn_start s;
               s = s\<lparr>sn_closed := True, sn_start := None,
                     sn_headers_sent := sn_headers_sent s \<or> start \<noteq> None\<rparr>
           in (Inr (), sn_emit (ResponseTrailers start trailers) s))))"

section \<open>The grammar of a response\<close>

text \<open>
  What the filter is promised: headers come first and once (with the first body chunk or with
  the trailers), then body chunks, and nothing after the last chunk or the trailers.
\<close>

fun resp_step :: "phase \<Rightarrow> response_event \<Rightarrow> phase option" where
  "resp_step Waiting (ResponseStart st bd) = Some (if bd_more bd then Streaming else Ended)"
| "resp_step Waiting (ResponseTrailers (Some st) ts) = Some Ended"
| "resp_step Streaming (ResponseBody bd) = Some (if bd_more bd then Streaming else Ended)"
| "resp_step Streaming (ResponseTrailers None ts) = Some Ended"
| "resp_step _ _ = None"

fun resp_run :: "phase \<Rightarrow> response_event list \<Rightarrow> phase option" where
  "resp_run p [] = Some p"
| "resp_run p (e # es) = (case resp_step p e of Some q \<Rightarrow> resp_run q es | None \<Rightarrow> None)"

definition well_formed_response :: "response_event list \<Rightarrow> bool" where
  "well_formed_response es \<longleftrightarrow> resp_run Waiting es \<noteq> None"

lemma resp_run_append:
  "resp_run p (xs @ ys) = (case resp_run p xs of Some q \<Rightarrow> resp_run q ys | None \<Rightarrow> None)"
  by (induction xs arbitrary: p) (auto split: option.splits)

section \<open>Runs\<close>

text \<open>
  A sender, the filter draining its bridge or closing it, and the events handed to the filter
  so far. \<open>sr_errors\<close> are the errors raised to the application.
\<close>

datatype sender_op = OpSend sender_event "pyval list option" | OpDrain | OpClose

record sender_run =
  sr_sender :: response_sender
  sr_handed :: "response_event list"
  sr_errors :: "pyerr list"

definition sender_run_new :: sender_run where
  "sender_run_new = \<lparr>sr_sender = response_sender_new bridge_new, sr_handed = [], sr_errors = []\<rparr>"

fun sender_exec :: "exc_api \<Rightarrow> sender_op \<Rightarrow> sender_run \<Rightarrow> sender_run" where
  "sender_exec api (OpSend e info) r =
     (case sender_send api e info (sr_sender r) of
        (Inl err, s) \<Rightarrow> r\<lparr>sr_sender := s, sr_errors := sr_errors r @ [err]\<rparr>
      | (Inr _, s) \<Rightarrow> r\<lparr>sr_sender := s\<rparr>)"
| "sender_exec api OpDrain r =
     (case bridge_process (sn_bridge (sr_sender r)) of
        (es, b) \<Rightarrow> r\<lparr>sr_sender := (sr_sender r)\<lparr>sn_bridge := b\<rparr>, sr_handed := sr_handed r @ es\<rparr>)"
| "sender_exec api OpClose r =
     r\<lparr>sr_sender := (sr_sender r)\<lparr>sn_bridge := snd (bridge_close (sn_bridge (sr_sender r)))\<rparr>\<rparr>"

definition emitted :: "sender_run \<Rightarrow> response_event list" where
  "emitted r = sr_handed r @ bridge_content (sn_bridge (sr_sender r))"

text \<open>The phase in which the sender's own flags say it is.\<close>

definition sender_phase :: "response_sender \<Rightarrow> phase" where
  "sender_phase s =
     (if sn_closed s then Ended else if sn_headers_sent s then Streaming else Waiting)"

text \<open>
  Trailers while no start is pending and no headers were sent: the sender lets them through
  although the response has no headers.
\<close>

definition bare_trailers :: "response_event list \<Rightarrow> bool" where
  "bare_trailers es \<longleftrightarrow> (\<exists>ts. es = [ResponseTrailers None ts])"

definition sender_ok :: "response_sender \<Rightarrow> response_event list \<Rightarrow> bool" where
  "sender_ok s es \<longleftrightarrow>
     bridge_wf (sn_bridge s) \<and> (sn_headers_sent s \<longrightarrow> sn_start s = None)
     \<and> (resp_run Waiting es = Some (sender_phase s)
        \<or> (es = [] \<or> bare_trailers es) \<and> sn_closed s
        \<or> sn_bridge s = Closed \<and> (well_formed_response es \<or> bare_trailers es))"

definition sender_inv :: "sender_run \<Rightarrow> bool" where
  "sender_inv r \<longleftrightarrow> sender_ok (sr_sender r) (emitted r)"

lemma sn_emit_simps [simp]:
  "sn_start (sn_emit e s) = sn_start s" "sn_headers_sent (sn_emit e s) = sn_headers_sent s"
  "sn_closed (sn_emit e s) = sn_closed s"
  "sn_bridge (sn_emit e s) = snd (bridge_offer (sn_bridge s) e)"
  by (simp_all add: sn_emit_def split: prod.split)

lemma sender_send_closed_bridge:
  "sn_bridge s = Closed \<Longrightarrow> sn_bridge (snd (sender_send api e info s)) = Closed"
  by (auto simp: Let_def split: sender_event.split option.split)

text \<open>The events a send adds on an open bridge.\<close>

definition sender_adds :: "sender_event \<Rightarrow> response_sender \<Rightarrow> response_event list" where
  "sender_adds e s =
     (if sn_closed s then []
      else (case e of
        SenderStart _ \<Rightarrow> []
      | SenderBody bd \<Rightarrow> (case sn_start s of
            Some st \<Rightarrow> [ResponseStart st bd]
          | None \<Rightarrow> if sn_headers_sent s then [ResponseBody bd] else [])
      | SenderTrailers ts \<Rightarrow> [ResponseTrailers (sn_start s) ts]))"

lemma sender_send_content:
  "sn_bridge s \<noteq> Closed \<Longrightarrow>
     bridge_content (sn_bridge (snd (sender_send api e info s)))
       = bridge_content (sn_bridge s) @ sender_adds e s
     \<and> sn_bridge (snd (sender_send api e info s)) \<noteq> Closed"
  by (auto simp: Let_def sender_adds_def bridge_offer_content split: sender_event.split option.split)

lemma sender_send_wf:
  "bridge_wf (sn_bridge s) \<Longrightarrow> bridge_wf (sn_bridge (snd (sender_send api e info s)))"
  by (auto simp: Let_def split: sender_event.split option.split)

lemma sender_send_flags:
  "sn_headers_sent s \<longrightarrow> sn_start s = None \<Longrightarrow>
     sn_headers_sent (snd (sender_send api e info s)) \<longrightarrow>
     sn_start (snd (sender_send api e info s)) = None"
  by (auto simp: Let_def split: sender_event.split option.split)

lemma sender_send_phase:
  assumes "sn_headers_sent s \<longrightarrow> sn_start s = None" and "resp_run Waiting es = Some (sender_phase s)"
  shows "let s' = snd (sender_send api e info s); es' = es @ sender_adds e s in
     resp_run Waiting es' = Some (sender_phase s') \<or> (es' = [] \<or> bare_trailers es') \<and> sn_closed s'"
proof (cases "sn_closed s")
  case True
  with assms show ?thesis by (simp add: Let_def sender_adds_def)
next
  case open_: False
  have empty: "sender_phase s = Waiting \<Longrightarrow> es = []"
    using assms(2) by (induction es rule: rev_induct)
      (auto simp: resp_run_append split: option.splits if_splits elim!: resp_step.elims)
  show ?thesis
  proof (cases e)
    case (SenderStart st)
    with assms open_ show ?thesis
      by (auto simp: Let_def sender_adds_def sender_phase_def split: option.split)
  next
    case (SenderBody bd)
    with assms open_ empty show ?thesis
      by (auto simp: Let_def sender_adds_def sender_phase_def resp_run_append split: option.split)
  next
    case (SenderTrailers ts)
    with assms open_ empty show ?thesis
      by (cases "sn_start s")
        (auto simp: Let_def sender_adds_def sender_phase_def resp_run_append bare_trailers_def
          split: option.split)
  qed
qed

lemma sender_send_ok:
  assumes "sender_ok s es"
  shows "sender_ok (snd (sender_send api e info s))
    (es @ (if sn_bridge s = Closed then [] else sender_adds e s))"
proof (cases "sn_bridge s = Closed")
  case True
  with assms sender_send_closed_bridge [OF True, of api e info] show ?thesis
    using sender_send_flags [of s api e info] sender_send_wf [of s api e info]
    by (auto simp: sender_ok_def well_formed_response_def bridge_wf_def bare_trailers_def)
next
  case False
  then show ?thesis
  proof (cases "resp_run Waiting es = Some (sender_phase s)")
    case True
    with assms False show ?thesis
      using sender_send_phase [of s es api e info] sender_send_flags [of s api e info]
        sender_send_wf [of s api e info]
      by (auto simp: sender_ok_def Let_def)
  next
    case ended: False
    with assms False have "sn_closed s" by (auto simp: sender_ok_def)
    with assms False show ?thesis by (simp add: sender_adds_def)
  qed
qed

lemma well_formed_prefix: "well_formed_response (xs @ ys) \<Longrightarrow> well_formed_response xs"
  by (auto simp: well_formed_response_def resp_run_append split: option.splits)

lemma sender_exec_inv [pres]:
  assumes "sender_inv r" shows "sender_inv (sender_exec api op r)"
proof (cases op)
  case (OpSend e info)
  obtain res s' where s: "sender_send api e info (sr_sender r) = (res, s')"
    by (cases "sender_send api e info (sr_sender r)")
  then have "sr_sender (sender_exec api op r) = s'" "sr_handed (sender_exec api op r) = sr_handed r"
    by (auto simp: OpSend split: sum.splits)
  then have "emitted (sender_exec api op r) = emitted r @
      (if sn_bridge (sr_sender r) = Closed then [] else sender_adds e (sr_sender r))"
    using sender_send_content [of "sr_sender r" api e info]
      sender_send_closed_bridge [of "sr_sender r" api e info] s
    by (auto simp: emitted_def)
  with sender_send_ok [of "sr_sender r" "emitted r" api e info] assms s
    \<open>sr_sender (sender_exec api op r) = s'\<close>
  show ?thesis by (simp add: sender_inv_def)
next
  case OpDrain
  obtain es b where b: "bridge_process (sn_bridge (sr_sender r)) = (es, b)"
    by (cases "bridge_process (sn_bridge (sr_sender r))")
  then have "emitted (sender_exec api op r) = emitted r" "b = Closed \<longleftrightarrow> sn_bridge (sr_sender r) = Closed"
    "bridge_wf b"
    by (cases "sn_bridge (sr_sender r)"; auto simp: OpDrain emitted_def bridge_wf_def)+
  with assms b show ?thesis
    by (auto simp: sender_inv_def sender_ok_def sender_phase_def OpDrain)
next
  case OpClose
  have "sr_handed r @ bridge_content (sn_bridge (sr_sender r)) = emitted r"
    by (simp add: emitted_def)
  then have "well_formed_response (sr_handed r) \<or> bare_trailers (sr_handed r)"
    using assms well_formed_prefix [of "sr_handed r" "bridge_content (sn_bridge (sr_sender r))"]
    by (cases "sr_handed r")
      (auto simp: sender_inv_def sender_ok_def well_formed_response_def bare_trailers_def)
  with assms show ?thesis
    by (auto simp: OpClose sender_inv_def sender_ok_def emitted_def bridge_close_def bridge_wf_def)
qed

interpretation sender_machine: machine_contract "sender_exec api" "\<lambda>_. True" sender_inv for api
  by unfold_locales (rule sender_exec_inv)

lemma sender_run_inv: "sender_inv (fold (sender_exec api) ops sender_run_new)"
  by (rule sender_machine.fold_inv)
    (auto simp: list_all_iff sender_inv_def sender_ok_def sender_run_new_def response_sender_new_def
      emitted_def bridge_new_def bridge_wf_def sender_phase_def)

text \<open>Once a start has been accepted, bare trailers are impossible.\<close>

definition started_ok :: "sender_run \<Rightarrow> bool" where
  "started_ok r \<longleftrightarrow>
     sender_inv r \<and> (sn_start (sr_sender r) \<noteq> None \<or> sn_headers_sent (sr_sender r))
     \<and> (resp_run Waiting (emitted r) = Some (sender_phase (sr_sender r))
        \<or> sn_bridge (sr_sender r) = Closed \<and> well_formed_response (emitted r))"

lemma sender_phase_started:
  assumes "sn_start s \<noteq> None \<or> sn_headers_sent s" and "sn_headers_sent s \<longrightarrow> sn_start s = None"
    and "resp_run Waiting es = Some (sender_phase s)"
  shows "resp_run Waiting (es @ sender_adds e s) = Some (sender_phase (snd (sender_send api e info s)))"
proof (cases "sn_closed s")
  case True
  with assms show ?thesis by (simp add: sender_adds_def)
next
  case False
  with assms show ?thesis
    by (cases e) (auto simp: Let_def sender_adds_def sender_phase_def resp_run_append split: option.split)
qed

lemma started_send_flags:
  "sn_start s \<noteq> None \<or> sn_headers_sent s \<Longrightarrow>
     sn_start (snd (sender_send api e info s)) \<noteq> None \<or> sn_headers_sent (snd (sender_send api e info s))"
  by (auto simp: Let_def split: sender_event.split option.split)

lemma started_exec [pres]:
  assumes "started_ok r" shows "started_ok (sender_exec api op r)"
proof -
  have inv: "sender_inv (sender_exec api op r)"
    using assms sender_exec_inv by (auto simp: started_ok_def)
  show ?thesis
  proof (cases op)
    case (OpSend e info)
    obtain res s' where s: "sender_send api e info (sr_sender r) = (res, s')"
      by (cases "sender_send api e info (sr_sender r)")
    then have run: "sr_sender (sender_exec api op r) = s'" "sr_handed (sender_exec api op r) = sr_handed r"
      by (auto simp: OpSend split: sum.splits)
    then have "emitted (sender_exec api op r) = emitted r @
        (if sn_bridge (sr_sender r) = Closed then [] else sender_adds e (sr_sender r))"
      using sender_send_content [of "sr_sender r" api e info]
        sender_send_closed_bridge [of "sr_sender r" api e info] s
      by (auto simp: emitted_def)
    note em = this
    have flags: "sn_start s' \<noteq> None \<or> sn_headers_sent s'"
      using started_send_flags [of "sr_sender r" api e info] assms s by (simp add: started_ok_def)
    show ?thesis
    proof (cases "sn_bridge (sr_sender r) = Closed")
      case True
      with sender_send_closed_bridge [of "sr_sender r" api e info] s have "sn_bridge s' = Closed" by simp
      moreover have "well_formed_response (emitted (sender_exec api op r))"
        using True em assms by (auto simp: started_ok_def well_formed_response_def)
      ultimately show ?thesis using inv flags run by (simp add: started_ok_def)
    next
      case False
      have "sn_headers_sent (sr_sender r) \<longrightarrow> sn_start (sr_sender r) = None"
        using assms by (simp add: started_ok_def sender_inv_def sender_ok_def)
      then have "resp_run Waiting (emitted (sender_exec api op r)) = Some (sender_phase s')"
        using sender_phase_started [of "sr_sender r" "emitted r" e api info] False assms em s
        by (simp add: started_ok_def)
      with inv flags run show ?thesis by (simp add: started_ok_def)
    qed
  next
    case OpDrain
    obtain es b where b: "bridge_process (sn_bridge (sr_sender r)) = (es, b)"
      by (cases "bridge_process (sn_bridge (sr_sender r))")
    then have "emitted (sender_exec api op r) = emitted r" "b = Closed \<longleftrightarrow> sn_bridge (sr_sender r) = Closed"
      by (cases "sn_bridge (sr_sender r)"; auto simp: OpDrain emitted_def)+
    with assms b inv show ?thesis
      by (auto simp: started_ok_def sender_phase_def OpDrain)
  next
    case OpClose
    have "sr_handed r @ bridge_content (sn_bridge (sr_sender r)) = emitted r"
      by (simp add: emitted_def)
    then have "well_formed_response (sr_handed r)"
      using assms well_formed_prefix [of "sr_handed r" "bridge_content (sn_bridge (sr_sender r))"]
      by (auto simp: started_ok_def well_formed_response_def)
    with assms inv show ?thesis
      by (auto simp: OpClose started_ok_def emitted_def bridge_close_def)
  qed
qed

interpretation started_machine: machine_contract "sender_exec api" "\<lambda>_. True" started_ok for api
  by unfold_locales (rule started_exec)

definition not_sent :: "sender_run \<Rightarrow> bool" where
  "not_sent r \<longleftrightarrow> sender_inv r \<and> emitted r = [] \<and> \<not> sn_closed (sr_sender r)
     \<and> sn_start (sr_sender r) = None \<and> \<not> sn_headers_sent (sr_sender r)"

text \<open>The first call of the application is \<open>start_response\<close>, as the specification asks.\<close>

fun starts_first :: "sender_op list \<Rightarrow> bool" where
  "starts_first [] = True"
| "starts_first (OpSend (SenderStart st) info # ops) = True"
| "starts_first (OpSend e info # ops) = False"
| "starts_first (op # ops) = starts_first ops"

lemma starts_first_well_formed:
  "not_sent r \<Longrightarrow> starts_first ops \<Longrightarrow> well_formed_response (emitted (fold (sender_exec api) ops r))"
proof (induction ops arbitrary: r rule: starts_first.induct [case_names none start body trailers drain close])
  case none
  then show ?case by (simp add: not_sent_def well_formed_response_def)
next
  case (start st info ops)
  let ?r = "sender_exec api (OpSend (SenderStart st) info) r"
  have "sender_inv r" using start by (simp add: not_sent_def)
  then have "sender_inv ?r" by (rule sender_exec_inv)
  moreover have "sr_sender ?r = (sr_sender r)\<lparr>sn_start := Some st\<rparr>" "sr_handed ?r = sr_handed r"
    using start by (auto simp: not_sent_def split: option.split)
  ultimately have "started_ok ?r"
    using start by (auto simp: started_ok_def not_sent_def emitted_def sender_phase_def)
  then have "started_ok (fold (sender_exec api) ops ?r)"
    by (rule started_machine.fold_inv [rotated]) (simp add: list_all_iff)
  then show ?case
    by (auto simp: started_ok_def well_formed_response_def simp del: sender_exec.simps)
next
  case (drain ops)
  have "sender_inv r" using drain by (simp add: not_sent_def)
  then have "sender_inv (sender_exec api OpDrain r)" by (rule sender_exec_inv)
  with drain have "not_sent (sender_exec api OpDrain r)"
    by (cases "sn_bridge (sr_sender r)") (auto simp: not_sent_def emitted_def)
  with drain show ?case by simp
next
  case (close ops)
  have "sender_inv r" using close by (simp add: not_sent_def)
  then have "sender_inv (sender_exec api OpClose r)" by (rule sender_exec_inv)
  with close have "not_sent (sender_exec api OpClose r)"
    by (simp add: not_sent_def emitted_def bridge_close_def)
  with close show ?case by simp
qed simp_all

section \<open>Properties\<close>

text \<open>
  Whatever a WSGI application does with \<open>start_response\<close>, \<open>write\<close>, its iterable and
  \<open>send_trailers\<close>, and however the filter drains or closes the bridge in between, the events
  that reach the filter form one response: one start, with its first chunk or with the trailers,
  then chunks, then nothing after the last chunk or the trailers. The single exception is an
  application that sends trailers before any start, for which the only event is the trailers;
  an application whose first call is \<open>start_response\<close> never meets it.
\<close>

theorem response_events_well_formed:
  "let es = emitted (fold (sender_exec api) ops sender_run_new) in
     (well_formed_response es \<or> bare_trailers es) \<and> (starts_first ops \<longrightarrow> well_formed_response es)"
proof -
  have "not_sent sender_run_new"
    using sender_run_inv [of api "[]"]
    by (simp add: not_sent_def sender_run_new_def emitted_def response_sender_new_def bridge_new_def)
  with starts_first_well_formed [of sender_run_new ops api] sender_run_inv [of api ops] show ?thesis
    by (auto simp: Let_def sender_inv_def sender_ok_def well_formed_response_def)
qed

definition demo_api :: exc_api where
  "demo_api = \<lparr>with_traceback = (\<lambda>e tb. None), as_err = (\<lambda>e. AppError 0)\<rparr>"

theorem response_events_well_formed_witness:
  "starts_first [OpSend (SenderStart \<lparr>rs_status = ''200'', rs_headers = []\<rparr>) None,
       OpSend (SenderBody \<lparr>bd_body = ''x'', bd_more = False\<rparr>) None]
   \<and> well_formed_response (emitted (fold (sender_exec demo_api)
       [OpSend (SenderStart \<lparr>rs_status = ''200'', rs_headers = []\<rparr>) None,
        OpSend (SenderBody \<lparr>bd_body = ''x'', bd_more = False\<rparr>) None] sender_run_new))"
  using response_events_well_formed [of demo_api "[OpSend (SenderStart \<lparr>rs_status = ''200'', rs_headers = []\<rparr>) None,
        OpSend (SenderBody \<lparr>bd_body = ''x'', bd_more = False\<rparr>) None]"]
  unfolding Let_def by simp

text \<open>The head that is sent is the first one, or the last that came with \<open>exc_info\<close>.\<close>

fun effective_head :: "response_start option \<Rightarrow> (response_start \<times> pyval list option) list
    \<Rightarrow> response_start option" where
  "effective_head head [] = head"
| "effective_head head ((st, info) # calls) =
     effective_head (if head = None \<or> info \<noteq> None then Some st else head) calls"

definition start_ops :: "(response_start \<times> pyval list option) list \<Rightarrow> sender_op list" where
  "start_ops calls = map (\<lambda>(st, info). OpSend (SenderStart st) info) calls"

text \<open>
  The \<open>exc_info\<close> rule of PEP 3333. Before any output, each \<open>start_response\<close> with
  \<open>exc_info\<close> replaces the pending head and one without it is refused once a head is pending;
  the first chunk then sends exactly the head in force. After that, every further
  \<open>start_response\<close> raises: the exception of its \<open>exc_info\<close>, or a RuntimeError without one,
  unless that chunk was the last, after which it does nothing.
\<close>

theorem start_response_exc_info:
  "let r = fold (sender_exec api) (start_ops calls) sender_run_new;
       (res, s) = sender_send api (SenderBody bd) None (sr_sender r) in
     sr_errors r = replicate (length (filter (\<lambda>(st, info). info = None) (tl calls)))
       (RuntimeError ''start_response called twice without exc_info'')
     \<and> (case effective_head None calls of
          None \<Rightarrow> res = Inl (RuntimeError ''start_response not called from WSGI application'')
            \<and> sn_bridge s = Empty
        | Some st \<Rightarrow> res = Inr () \<and> sn_bridge s = Single (ResponseStart st bd) \<and> sn_commits s = 1
            \<and> sender_send api (SenderStart st') info s =
                 (if bd_more bd
                  then Inl (case info of Some i \<Rightarrow> reraise api i
                         | None \<Rightarrow> RuntimeError ''start_response called twice without exc_info'')
                  else Inr (), s))"
proof -
  have gen: "sr_sender (fold (sender_exec api) (start_ops calls) r)
        = (sr_sender r)\<lparr>sn_start := effective_head (sn_start (sr_sender r)) calls\<rparr>
      \<and> sr_errors (fold (sender_exec api) (start_ops calls) r) = sr_errors r @
          replicate (length (filter (\<lambda>(st, info). info = None)
            (if sn_start (sr_sender r) = None then tl calls else calls)))
          (RuntimeError ''start_response called twice without exc_info'')"
    if "\<not> sn_closed (sr_sender r)" "\<not> sn_headers_sent (sr_sender r)" for r
    using that
  proof (induction calls arbitrary: r)
    case Nil
    then show ?case by (simp add: start_ops_def)
  next
    case (Cons c calls)
    obtain st info where c: "c = (st, info)" by (cases c)
    let ?r = "sender_exec api (OpSend (SenderStart st) info) r"
    have r': "?r = (if sn_start (sr_sender r) \<noteq> None \<and> info = None
        then r\<lparr>sr_errors := sr_errors r @ [RuntimeError ''start_response called twice without exc_info'']\<rparr>
        else r\<lparr>sr_sender := (sr_sender r)\<lparr>sn_start := Some st\<rparr>\<rparr>)"
      using Cons.prems by (auto split: option.split)
    have fold_Cons: "fold (sender_exec api) (start_ops (c # calls)) r
        = fold (sender_exec api) (start_ops calls) ?r"
      by (simp add: start_ops_def c del: sender_exec.simps)
    show ?case
    proof (cases "sn_start (sr_sender r) \<noteq> None \<and> info = None")
      case True
      with Cons.IH [of ?r] Cons.prems show ?thesis
        unfolding fold_Cons r' by (auto simp: c)
    next
      case False
      with Cons.IH [of ?r] Cons.prems show ?thesis
        unfolding fold_Cons r' by (auto simp: c)
    qed
  qed
  from gen [of sender_run_new] show ?thesis
    by (auto simp: Let_def sender_run_new_def response_sender_new_def sn_emit_def bridge_offer_def
        bridge_new_def split: option.split)
qed

end
