(* ===== verification/Wsgi_Transport.thy ===== *)
theory Wsgi_Transport
  imports Event_Bridge Py_Values Envoy_Api
begin

text \<open>
  \<open>src/src/wsgi/transport.rs\<close>: the HTTP client of a WSGI application. The calling thread
  blocks on a channel; the filter starts, feeds and resets the upstream stream. Receives are
  a script of outcomes, one per call, so a timeout or a hang-up may happen at any of them.
\<close>

section \<open>Events\<close>

type_synonym chan = nat

record start_stream =
  st_method :: bytes
  st_url :: url
  st_headers :: headers
  st_buffered_body :: "bytes option"
  st_cluster :: bytes
  st_timeout_ms :: nat
  st_response_tx :: chan

datatype transport_event =
    TransportStart start_stream
  | TransportSendData u64 bytes bool
  | TransportReset u64 "pyval option"

datatype transport_response =
    Started u64
  | RespHeaders bytes headers bool
  | RespBody bytes
  | RespTrailers headers
  | RespEnd
  | RespReset reset_reason "pyval option"

record transport_state =
  ts_response_tx :: chan
  ts_exception :: "pyval option"

datatype received = Value transport_response | TimedOut | Hangup

section \<open>Code outside the repository\<close>

text \<open>
  The \<open>http\<close> and \<open>url\<close> crates, the interpreter and pyqwest: parsing, iteration of objects
  of the application, attributes, and the construction of pyqwest's errors and responses.
  \<open>headers_add\<close> is the error that adding a pair to a pyqwest \<open>Headers\<close> raises, if any.
\<close>

record http_client_api =
  parse_method :: "bytes \<Rightarrow> bytes option"
  parse_url :: "bytes \<Rightarrow> url option"
  parse_name :: "bytes \<Rightarrow> bytes option"
  parse_value :: "bytes \<Rightarrow> bytes option"
  value_to_str :: "bytes \<Rightarrow> bytes option"
  headers_len :: "pyval \<Rightarrow> pyerr + nat"
  headers_items :: "pyval \<Rightarrow> pyerr + pyval list"
  headers_add :: "bytes \<Rightarrow> bytes \<Rightarrow> pyerr option"
  is_truthy :: "pyval \<Rightarrow> pyerr + bool"
  extract_bytes :: "pyval \<Rightarrow> pyerr + bytes"
  read_error_new :: "bytes \<Rightarrow> pyerr + pyerr"
  write_error_new :: "bytes \<Rightarrow> pyval option"
  err_value :: "pyerr \<Rightarrow> pyval"
  err_str :: "pyerr \<Rightarrow> bytes"
  as_error :: "pyval \<Rightarrow> pyerr"
  response_new :: "bytes \<Rightarrow> headers \<Rightarrow> bool \<Rightarrow> pyerr option"

section \<open>Effects on the rest of the process\<close>

text \<open>
  The bridge shared with the filter, the number of commits of \<open>EVENT_ID_OUTGOING_REQUEST\<close>, the
  jobs given to the pool, and the request iterators that were closed.
\<close>

record forward_request =
  fw_iter :: pyval
  fw_stream_handle :: u64

record client =
  cl_bridge :: "transport_event bridge"
  cl_commits :: nat
  cl_jobs :: "forward_request list"
  cl_closed_iters :: "pyval list"

definition offer :: "transport_event \<Rightarrow> client \<Rightarrow> client" where
  "offer e c =
     (case bridge_offer (cl_bridge c) e of
        (ok, b) \<Rightarrow> c\<lparr>cl_bridge := b, cl_commits := cl_commits c + (if ok then 1 else 0)\<rparr>)"

definition reset_stream :: "u64 \<Rightarrow> client \<Rightarrow> client" where
  "reset_stream h c = offer (TransportReset h None) c"

definition close_request_iter :: "pyval option \<Rightarrow> client \<Rightarrow> client" where
  "close_request_iter iter c =
     (case iter of Some i \<Rightarrow> c\<lparr>cl_closed_iters := cl_closed_iters c @ [i]\<rparr> | None \<Rightarrow> c)"

text \<open>\<open>recv_deadline\<close>: the next outcome; a script that has run out is a thread still blocked.\<close>

section \<open>Errors\<close>

definition write_error :: "http_client_api \<Rightarrow> pyerr \<Rightarrow> pyval" where
  "write_error api cause =
     (case write_error_new api (err_str api cause) of
        Some err \<Rightarrow> err
      | None \<Rightarrow> err_value api cause)"

fun map_reset_reason :: "http_client_api \<Rightarrow> reset_reason \<Rightarrow> pyerr + pyerr" where
  "map_reset_reason api Local = read_error_new api ''local stream reset''"
| "map_reset_reason api Remote = read_error_new api ''remote stream reset''"
| "map_reset_reason api Protocol = read_error_new api ''protocol error''"
| "map_reset_reason api Connection = Inr (ConnectionError ''connection error'')"
| "map_reset_reason api Overflow = read_error_new api ''stream overflow''"
| "map_reset_reason api ServerRequestDone =
     read_error_new api ''server request completed before client response''"
| "map_reset_reason api InvalidUpstream = read_error_new api ''invalid upstream config''"

text \<open>\<open>Err(x?)\<close>: both results of \<open>x\<close> are raised.\<close>

fun raised :: "pyerr + pyerr \<Rightarrow> pyerr" where
  "raised (Inl e) = e"
| "raised (Inr e) = e"

definition reset_error :: "http_client_api \<Rightarrow> reset_reason \<Rightarrow> pyval option \<Rightarrow> pyerr + pyerr" where
  "reset_error api reason exception =
     (case exception of
        Some e \<Rightarrow> Inr (as_error api e)
      | None \<Rightarrow> map_reset_reason api reason)"

section \<open>Forwarding a streaming request body\<close>

text \<open>
  \<open>ForwardRequest::run\<close> on a pool thread: iterating the object gives the items it yields and
  how it ends, \<open>Inl\<close> an error (of \<open>iter()\<close> or of a \<open>next()\<close>) or \<open>Inr ()\<close>.
\<close>

fun forward_items :: "http_client_api \<Rightarrow> u64 \<Rightarrow> pyval list \<Rightarrow> pyerr + unit \<Rightarrow> client
    \<Rightarrow> (pyerr + unit) \<times> client" where
  "forward_items api h [] fin c = (fin, c)"
| "forward_items api h (item # items) fin c =
     (case extract_bytes api item of
        Inl e \<Rightarrow> (Inl e, c)
      | Inr data \<Rightarrow> forward_items api h items fin (offer (TransportSendData h data False) c))"

definition forward_run :: "http_client_api \<Rightarrow> u64 \<Rightarrow> pyval list \<Rightarrow> pyerr + unit \<Rightarrow> client \<Rightarrow> client" where
  "forward_run api h items fin c =
     (case forward_items api h items fin c of
        (Inr _, c) \<Rightarrow> offer (TransportSendData h [] True) c
      | (Inl e, c) \<Rightarrow> offer (TransportReset h (Some (write_error api e))) c)"

section \<open>The response iterator\<close>

record response_content =
  rc_stream_handle :: u64
  rc_trailers :: headers
  rc_request_iter :: "pyval option"
  rc_ended :: bool
  rc_read_pending :: bool

definition rc_reset :: "response_content \<Rightarrow> client \<Rightarrow> response_content \<times> client" where
  "rc_reset r c =
     (r\<lparr>rc_ended := True\<rparr>, if rc_ended r then c else reset_stream (rc_stream_handle r) c)"

definition rc_close :: "response_content \<Rightarrow> client \<Rightarrow> response_content \<times> client" where
  "rc_close r c =
     (case rc_reset r c of
        (r, c) \<Rightarrow> (r\<lparr>rc_request_iter := None\<rparr>, close_request_iter (rc_request_iter r) c))"

text \<open>\<open>Drop\<close> has the same effect as \<open>close\<close>; the object is gone afterwards.\<close>

definition rc_drop :: "response_content \<Rightarrow> client \<Rightarrow> client" where
  "rc_drop r c =
     (case rc_reset r c of (r, c) \<Rightarrow> close_request_iter (rc_request_iter r) c)"

fun add_trailers :: "http_client_api \<Rightarrow> headers \<Rightarrow> headers \<Rightarrow> pyerr option \<times> headers" where
  "add_trailers api [] acc = (None, acc)"
| "add_trailers api ((name, v) # ts) acc =
     (let s = (case value_to_str api v of Some s \<Rightarrow> s | None \<Rightarrow> []) in
      case headers_add api name s of
        Some e \<Rightarrow> (Some e, acc)
      | None \<Rightarrow> add_trailers api ts (acc @ [(name, s)]))"

text \<open>
  \<open>next_chunk\<close> after its first test: the result (\<open>None\<close>: still blocked), the iterator, the
  effects, and the receives left.
\<close>

fun next_loop :: "http_client_api \<Rightarrow> received list \<Rightarrow> response_content \<Rightarrow> client
    \<Rightarrow> (pyerr + bytes) option \<times> response_content \<times> client \<times> received list" where
  "next_loop api [] r c = (None, r, c, [])"
| "next_loop api (Value (RespBody chunk) # rx) r c = (Some (Inr chunk), r, c, rx)"
| "next_loop api (Value (RespTrailers ts) # rx) r c =
     (case add_trailers api ts (rc_trailers r) of
        (Some e, trailers) \<Rightarrow> (Some (Inl e), r\<lparr>rc_trailers := trailers\<rparr>, c, rx)
      | (None, trailers) \<Rightarrow>
          (Some (Inl StopIteration), r\<lparr>rc_trailers := trailers, rc_ended := True\<rparr>, c, rx))"
| "next_loop api (Value RespEnd # rx) r c =
     (Some (Inl StopIteration), r\<lparr>rc_ended := True\<rparr>, c, rx)"
| "next_loop api (Value (RespReset reason exception) # rx) r c =
     (Some (Inl (raised (reset_error api reason exception))), r\<lparr>rc_ended := True\<rparr>, c, rx)"
| "next_loop api (Value (Started h) # rx) r c = next_loop api rx r c"
| "next_loop api (Value (RespHeaders st hs e) # rx) r c = next_loop api rx r c"
| "next_loop api (TimedOut # rx) r c =
     (case rc_close r c of
        (r, c) \<Rightarrow> (Some (Inl (TimeoutError ''response read timed out'')), r, c, rx))"
| "next_loop api (Hangup # rx) r c =
     (Some (Inl (raised (map_reset_reason api Local))), r\<lparr>rc_ended := True\<rparr>, c, rx)"

definition next_chunk :: "http_client_api \<Rightarrow> received list \<Rightarrow> response_content \<Rightarrow> client
    \<Rightarrow> (pyerr + bytes) option \<times> response_content \<times> client \<times> received list" where
  "next_chunk api rx r c =
     (if rc_ended r then (Some (Inl StopIteration), r, c, rx) else next_loop api rx r c)"

definition rc_next :: "http_client_api \<Rightarrow> received list \<Rightarrow> response_content \<Rightarrow> client
    \<Rightarrow> (pyerr + bytes) option \<times> response_content \<times> client \<times> received list" where
  "rc_next api rx r c =
     (case next_chunk api rx (r\<lparr>rc_read_pending := True\<rparr>) c of
        (None, r, c, rx) \<Rightarrow> (None, r, c, rx)
      | (Some res, r, c, rx) \<Rightarrow> (Some res, r\<lparr>rc_read_pending := False\<rparr>, c, rx))"

section \<open>execute_sync\<close>

record py_response =
  rsp_status :: bytes
  rsp_headers :: headers
  rsp_content :: "response_content option"

definition envoy_timeout_ms :: "nat option \<Rightarrow> nat \<Rightarrow> nat" where
  "envoy_timeout_ms timeout default_ms =
     (case timeout of Some d \<Rightarrow> max (d div 1000000 mod 2 ^ 64) 1 | None \<Rightarrow> default_ms)"

text \<open>The loop over \<open>headers.items()\<close>: pairs that the \<open>http\<close> crate rejects are skipped.\<close>

definition request_header :: "http_client_api \<Rightarrow> pyval \<Rightarrow> pyerr + (bytes \<times> bytes) option" where
  "request_header api item =
     pbind (seq_item item 0) (\<lambda>n. pbind (cast_str n) (\<lambda>name.
     pbind (seq_item item 1) (\<lambda>v. pbind (cast_str v) (\<lambda>val.
       Inr (case (parse_name api name, parse_value api val) of
              (Some n, Some v) \<Rightarrow> Some (n, v)
            | _ \<Rightarrow> None)))))"

definition request_headers :: "http_client_api \<Rightarrow> pyval list \<Rightarrow> pyerr + headers" where
  "request_headers api items =
     pbind (pmap (request_header api) items) (\<lambda>hs. Inr (List.map_filter (\<lambda>h. h) hs))"

definition has_content_type :: "headers \<Rightarrow> bool" where
  "has_content_type hs = list_ex (\<lambda>(n, v). n = ''content-type'') hs"

text \<open>
  What \<open>execute_sync\<close> does before it sends: the method, the URL, the headers and the body
  object of the request (\<open>attr\<close> reads an attribute).
\<close>

definition prepare_request :: "http_client_api \<Rightarrow> (bytes \<Rightarrow> pyerr + pyval)
    \<Rightarrow> pyerr + (bytes \<times> url \<times> headers \<times> pyval)" where
  "prepare_request api attr =
     pbind (attr ''headers'') (\<lambda>req_headers.
     pbind (headers_len api req_headers) (\<lambda>_.
     pbind (attr ''method'') (\<lambda>m. pbind (cast_str m) (\<lambda>m.
     pbind (case parse_method api m of Some m \<Rightarrow> Inr m | None \<Rightarrow> Inl (ValueError ''invalid HTTP method''))
       (\<lambda>meth.
     pbind (attr ''url'') (\<lambda>u. pbind (cast_str u) (\<lambda>u.
     pbind (case parse_url api u of Some u \<Rightarrow> Inr u | None \<Rightarrow> Inl (ValueError ''invalid request URL''))
       (\<lambda>url.
     pbind (headers_items api req_headers) (\<lambda>items.
     pbind (request_headers api items) (\<lambda>hs.
     pbind (if has_content_type hs then Inr hs
            else pbind (attr ''_json'') (\<lambda>j. pbind (is_truthy api j) (\<lambda>t.
              Inr (if t then hs @ [(''content-type'', ''application/json'')] else hs))))
       (\<lambda>hs.
     pbind (attr ''content'') (\<lambda>body. Inr (meth, url, hs, body)))))))))))))"

definition build_response :: "http_client_api \<Rightarrow> bytes \<Rightarrow> headers \<Rightarrow> bool \<Rightarrow> u64 \<Rightarrow> pyval option
    \<Rightarrow> client \<Rightarrow> (pyerr + py_response) \<times> client" where
  "build_response api status hs end_stream h iter c =
     (case add_trailers api hs [] of
        (Some e, _) \<Rightarrow> (Inl e, close_request_iter iter c)
      | (None, py_headers) \<Rightarrow>
          if end_stream then
            (case response_new api status py_headers False of
               Some e \<Rightarrow> (Inl e, close_request_iter iter c)
             | None \<Rightarrow> (Inr \<lparr>rsp_status = status, rsp_headers = py_headers, rsp_content = None\<rparr>,
                        close_request_iter iter c))
          else
            (let content = \<lparr>rc_stream_handle = h, rc_trailers = [], rc_request_iter = iter,
                            rc_ended = False, rc_read_pending = False\<rparr> in
             case response_new api status py_headers True of
               Some e \<Rightarrow> (Inl e, rc_drop content c)
             | None \<Rightarrow> (Inr \<lparr>rsp_status = status, rsp_headers = py_headers,
                            rsp_content = Some content\<rparr>, c)))"

text \<open>
  After the request was sent: wait for the handle, start forwarding, wait for the headers.
  The request iterator is closed by its guard on every path that does not hand it over.
\<close>

definition await_headers :: "http_client_api \<Rightarrow> received list \<Rightarrow> u64 \<Rightarrow> pyval option \<Rightarrow> client
    \<Rightarrow> (pyerr + py_response) option \<times> client \<times> received list" where
  "await_headers api rx h iter c =
     (case rx of
        [] \<Rightarrow> (None, c, [])
      | Value (RespHeaders status hs end_stream) # rx \<Rightarrow>
          (case build_response api status hs end_stream h iter c of (res, c) \<Rightarrow> (Some res, c, rx))
      | Value (RespReset reason exception) # rx \<Rightarrow>
          (Some (Inl (raised (reset_error api reason exception))), close_request_iter iter c, rx)
      | TimedOut # rx \<Rightarrow>
          (Some (Inl (TimeoutError ''request timed out'')),
           close_request_iter iter (reset_stream h c), rx)
      | _ # rx \<Rightarrow>
          (Some (Inl (RuntimeError ''transport closed'')), close_request_iter iter c, rx))"

definition await_started :: "http_client_api \<Rightarrow> received list \<Rightarrow> pyval option \<Rightarrow> client
    \<Rightarrow> (pyerr + py_response) option \<times> client \<times> received list" where
  "await_started api rx iter c =
     (case rx of
        [] \<Rightarrow> (None, c, [])
      | Value (Started h) # rx \<Rightarrow>
          await_headers api rx h iter
            (case iter of
               Some i \<Rightarrow> c\<lparr>cl_jobs := cl_jobs c @ [\<lparr>fw_iter = i, fw_stream_handle = h\<rparr>]\<rparr>
             | None \<Rightarrow> c)
      | Value (RespReset reason exception) # rx \<Rightarrow>
          (Some (Inl (raised (reset_error api reason exception))), close_request_iter iter c, rx)
      | TimedOut # rx \<Rightarrow>
          (Some (Inl (TimeoutError ''request timed out'')), close_request_iter iter c, rx)
      | _ # rx \<Rightarrow>
          (Some (Inl (RuntimeError ''transport closed'')), close_request_iter iter c, rx))"

definition execute_sync :: "http_client_api \<Rightarrow> bool \<Rightarrow> bool \<Rightarrow> bytes \<Rightarrow> nat \<Rightarrow> pyerr + nat option
    \<Rightarrow> chan \<Rightarrow> (bytes \<Rightarrow> pyerr + pyval) \<Rightarrow> received list \<Rightarrow> client
    \<Rightarrow> (pyerr + py_response) option \<times> client \<times> received list" where
  "execute_sync api in_request enabled cluster default_ms timeout tx attr rx c =
     (if \<not> in_request then
        (Some (Inl (RuntimeError
           (if \<not> enabled then ''no upstreams configured, HTTP transport cannot be used''
            else ''TransportBridge not found in contextvars. This likely means the HTTP client was used outside of the context of the request.''))), c, rx)
      else (case prepare_request api attr of
        Inl e \<Rightarrow> (Some (Inl e), c, rx)
      | Inr (meth, url, hs, body) \<Rightarrow>
          (case timeout of
             Inl e \<Rightarrow> (Some (Inl e), c, rx)
           | Inr t \<Rightarrow>
               (let buffered = (case extract_bytes api body of Inr b \<Rightarrow> Some b | Inl _ \<Rightarrow> None);
                    iter = (if buffered = None then Some body else None);
                    c = offer (TransportStart
                          \<lparr>st_method = meth, st_url = url, st_headers = hs,
                           st_buffered_body = buffered, st_cluster = cluster,
                           st_timeout_ms = envoy_timeout_ms t default_ms,
                           st_response_tx = tx\<rparr>) c
                in await_started api rx iter c))))"

section \<open>Effects of the operations\<close>

lemma offer_simps [simp]:
  "cl_closed_iters (offer e c) = cl_closed_iters c" "cl_jobs (offer e c) = cl_jobs c"
  "cl_bridge (offer e c) = Closed \<longleftrightarrow> cl_bridge c = Closed"
  by (simp_all add: offer_def split: prod.split) (metis bridge_offer_Closed_iff snd_conv)

lemma offer_content:
  "bridge_content (cl_bridge (offer e c)) =
     bridge_content (cl_bridge c) @ (if cl_bridge c = Closed then [] else [e])"
  by (cases "cl_bridge c") (simp_all add: offer_def bridge_offer_def)

lemma close_request_iter_simps [simp]:
  "cl_bridge (close_request_iter i c) = cl_bridge c" "cl_jobs (close_request_iter i c) = cl_jobs c"
  "cl_closed_iters (close_request_iter i c) = cl_closed_iters c @ (case i of Some x \<Rightarrow> [x] | None \<Rightarrow> [])"
  by (simp_all add: close_request_iter_def split: option.split)

text \<open>The events an operation put on the bridge.\<close>

definition sent_since :: "client \<Rightarrow> client \<Rightarrow> transport_event list \<Rightarrow> bool" where
  "sent_since c c' es \<longleftrightarrow> (cl_bridge c' = Closed \<longleftrightarrow> cl_bridge c = Closed)
     \<and> bridge_content (cl_bridge c') = bridge_content (cl_bridge c) @ (if cl_bridge c = Closed then [] else es)"

lemma sent_since_refl [simp, intro]: "sent_since c c []"
  by (simp add: sent_since_def)

lemma sent_since_trans: "sent_since a b es \<Longrightarrow> sent_since b c fs \<Longrightarrow> sent_since a c (es @ fs)"
  by (auto simp: sent_since_def)

lemma sent_since_offer: "sent_since c (offer e c) [e]"
  by (auto simp: sent_since_def offer_content)

lemma sent_since_iter: "sent_since c (close_request_iter i d) es \<longleftrightarrow> sent_since c d es"
  by (simp add: sent_since_def)

section \<open>Executing a request\<close>

definition iters :: "pyval option \<Rightarrow> pyval list" where
  "iters i = (case i of Some x \<Rightarrow> [x] | None \<Rightarrow> [])"

text \<open>The request iterator that an outcome keeps alive: the caller's, while it is blocked, or
  the one of the returned content.\<close>

fun held :: "pyval option \<Rightarrow> (pyerr + py_response) option \<Rightarrow> pyval list" where
  "held iter None = iters iter"
| "held iter (Some (Inl e)) = []"
| "held iter (Some (Inr resp)) =
     (case rsp_content resp of Some r \<Rightarrow> iters (rc_request_iter r) | None \<Rightarrow> [])"

definition resets :: "u64 \<Rightarrow> transport_event list \<Rightarrow> bool" where
  "resets h es \<longleftrightarrow> es = [] \<or> es = [TransportReset h None]"

lemma resets_simps [simp]: "resets h []" "resets h [TransportReset h None]"
  by (simp_all add: resets_def)

lemma resets_none: "sent_since c c' [] \<Longrightarrow> \<exists>es. resets h es \<and> sent_since c c' es"
  by (intro exI [of _ "[]"]) simp

lemma resets_one: "\<exists>es. resets h es \<and> sent_since c (reset_stream h c) es \<and> (P \<longrightarrow> es \<noteq> [])"
  by (intro exI [of _ "[TransportReset h None]"]) (simp add: reset_stream_def sent_since_offer)

lemma rc_drop_fresh:
  "\<not> rc_ended r \<Longrightarrow> rc_drop r c = close_request_iter (rc_request_iter r) (reset_stream (rc_stream_handle r) c)"
  by (simp add: rc_drop_def rc_reset_def)

lemma reset_stream_simps [simp]:
  "cl_closed_iters (reset_stream h c) = cl_closed_iters c" "cl_jobs (reset_stream h c) = cl_jobs c"
  by (simp_all add: reset_stream_def)

lemma build_response_effects:
  assumes "build_response api status hs eos h iter c = (res, c')"
  shows "cl_closed_iters c' @ held iter (Some res) = cl_closed_iters c @ iters iter"
    and "cl_jobs c' = cl_jobs c" and "\<exists>es. resets h es \<and> sent_since c c' es"
  using assms resets_one [of h c False]
  by (simp_all add: build_response_def iters_def rc_drop_fresh Let_def sent_since_iter
      split: prod.splits option.splits if_splits)
    (auto simp: sent_since_iter iters_def intro: resets_none)

lemma await_headers_effects:
  assumes "await_headers api rx h iter c = (res, c', rx')"
  shows "cl_closed_iters c' @ held iter res = cl_closed_iters c @ iters iter"
    and "cl_jobs c' = cl_jobs c"
    and "\<exists>es. resets h es \<and> sent_since c c' es \<and> (take 1 rx = [TimedOut] \<longrightarrow> es \<noteq> [])"
proof -
  have "cl_closed_iters c' @ held iter res = cl_closed_iters c @ iters iter \<and> cl_jobs c' = cl_jobs c
    \<and> (\<exists>es. resets h es \<and> sent_since c c' es \<and> (take 1 rx = [TimedOut] \<longrightarrow> es \<noteq> []))"
  proof (cases "\<exists>st hs eos rest. rx = Value (RespHeaders st hs eos) # rest")
    case True
    then obtain st hs eos rest where rx: "rx = Value (RespHeaders st hs eos) # rest" by blast
    with assms obtain r where "build_response api st hs eos h iter c = (r, c')" "res = Some r"
      by (auto simp: await_headers_def split: prod.splits)
    with build_response_effects [OF this(1)] rx show ?thesis by auto
  next
    case False
    then show ?thesis
    proof (cases "take 1 rx = [TimedOut]")
      case True
      with assms resets_one [of h c True] show ?thesis
        by (cases rx) (auto simp: await_headers_def iters_def sent_since_iter)
    next
      case other: False
      with False assms show ?thesis
        by (auto simp: await_headers_def iters_def sent_since_iter
            split: list.splits received.splits transport_response.splits intro!: resets_none)
    qed
  qed
  then show "cl_closed_iters c' @ held iter res = cl_closed_iters c @ iters iter"
    and "cl_jobs c' = cl_jobs c"
    and "\<exists>es. resets h es \<and> sent_since c c' es \<and> (take 1 rx = [TimedOut] \<longrightarrow> es \<noteq> [])" by auto
qed

fun started_handle :: "received list \<Rightarrow> u64 option" where
  "started_handle (Value (Started h) # _) = Some h"
| "started_handle _ = None"

lemma await_started_effects:
  assumes "await_started api rx iter c = (res, c', rx')"
  shows "cl_closed_iters c' @ held iter res = cl_closed_iters c @ iters iter
    \<and> (case started_handle rx of
         None \<Rightarrow> sent_since c c' [] \<and> cl_jobs c' = cl_jobs c
       | Some h \<Rightarrow> cl_jobs c' = cl_jobs c @ map (\<lambda>i. \<lparr>fw_iter = i, fw_stream_handle = h\<rparr>) (iters iter)
           \<and> (\<exists>es. resets h es \<and> sent_since c c' es \<and> (take 1 (tl rx) = [TimedOut] \<longrightarrow> es \<noteq> [])))"
proof (cases "started_handle rx")
  case (Some h)
  then obtain rest where rx: "rx = Value (Started h) # rest"
    by (cases rx rule: started_handle.cases) auto
  let ?c = "case iter of Some i \<Rightarrow> c\<lparr>cl_jobs := cl_jobs c @ [\<lparr>fw_iter = i, fw_stream_handle = h\<rparr>]\<rparr> | None \<Rightarrow> c"
  from assms have "await_headers api rest h iter ?c = (res, c', rx')"
    by (simp add: await_started_def rx)
  from await_headers_effects [OF this] show ?thesis
    by (cases iter) (auto simp: rx iters_def sent_since_def)
next
  case None
  with assms show ?thesis
    by (auto simp: await_started_def iters_def sent_since_iter
        split: list.splits received.splits transport_response.splits)
qed

lemma forward_items_sent:
  assumes "forward_items api h items fin c = (res, c')"
  shows "\<exists>ds. list_all2 (\<lambda>i d. extract_bytes api i = Inr d) (take (length ds) items) ds
     \<and> sent_since c c' (map (\<lambda>d. TransportSendData h d False) ds)
     \<and> (if length ds = length items then res = fin
        else \<exists>e. extract_bytes api (items ! length ds) = Inl e \<and> res = Inl e)
     \<and> length ds \<le> length items"
  using assms
proof (induction items arbitrary: c)
  case Nil
  then show ?case by (intro exI [of _ "[]"]) simp
next
  case (Cons i items)
  show ?case
  proof (cases "extract_bytes api i")
    case (Inl e)
    with Cons.prems show ?thesis by (intro exI [of _ "[]"]) auto
  next
    case (Inr d)
    let ?c = "offer (TransportSendData h d False) c"
    from Inr Cons.prems have "forward_items api h items fin ?c = (res, c')" by simp
    from Cons.IH [OF this] obtain ds where ds:
      "list_all2 (\<lambda>i d. extract_bytes api i = Inr d) (take (length ds) items) ds"
      "sent_since ?c c' (map (\<lambda>d. TransportSendData h d False) ds)"
      "if length ds = length items then res = fin
        else \<exists>e. extract_bytes api (items ! length ds) = Inl e \<and> res = Inl e"
      "length ds \<le> length items" by blast
    from ds Inr sent_since_trans [OF sent_since_offer ds(2)] show ?thesis
      by (intro exI [of _ "d # ds"]) auto
  qed
qed

section \<open>The iterator over its life\<close>

text \<open>
  What is true of a response iterator with request iterator \<open>i\<close> created at effects \<open>c0\<close>:
  \<open>r\<close> and \<open>c\<close> are its current state and effects. The flag says whether a reset was sent.
\<close>

definition content_inv :: "pyval option \<Rightarrow> client \<Rightarrow> bool \<Rightarrow> response_content \<Rightarrow> client \<Rightarrow> bool" where
  "content_inv i c0 was_reset r c \<longleftrightarrow>
     (was_reset \<longrightarrow> rc_ended r)
     \<and> sent_since c0 c (if was_reset then [TransportReset (rc_stream_handle r) None] else [])
     \<and> cl_closed_iters c @ (case rc_request_iter r of Some x \<Rightarrow> [x] | None \<Rightarrow> [])
       = cl_closed_iters c0 @ (case i of Some x \<Rightarrow> [x] | None \<Rightarrow> [])
     \<and> cl_jobs c = cl_jobs c0"

lemma content_inv_close:
  assumes "content_inv i c0 w r c"
  shows "content_inv i c0 (w \<or> \<not> rc_ended r) (fst (rc_close r c)) (snd (rc_close r c))"
    and "rc_ended (fst (rc_close r c))" and "rc_stream_handle (fst (rc_close r c)) = rc_stream_handle r"
proof -
  have "\<not> rc_ended r \<Longrightarrow> sent_since c0 (offer (TransportReset (rc_stream_handle r) None) c)
      [TransportReset (rc_stream_handle r) None]"
    using assms sent_since_trans [OF _ sent_since_offer, of c0 c "[]"]
    by (auto simp: content_inv_def)
  with assms show "content_inv i c0 (w \<or> \<not> rc_ended r) (fst (rc_close r c)) (snd (rc_close r c))"
    by (auto simp: content_inv_def rc_close_def rc_reset_def reset_stream_def sent_since_iter)
qed (simp_all add: rc_close_def rc_reset_def)

lemma rc_drop_eq: "rc_drop r c = snd (rc_close r c)"
  by (simp add: rc_drop_def rc_close_def rc_reset_def)

text \<open>How the stream ended, if it did, in the receives an iterator consumes.\<close>

fun terminal :: "received \<Rightarrow> bool" where
  "terminal (Value (RespTrailers ts)) = True"
| "terminal (Value RespEnd) = True"
| "terminal (Value (RespReset reason e)) = True"
| "terminal Hangup = True"
| "terminal _ = False"

lemma next_loop_inv:
  assumes "next_loop api rx r c = (res, r', c', rx')" and "content_inv i c0 False r c" and "\<not> rc_ended r"
  shows "\<exists>w. content_inv i c0 w r' c' \<and> rc_stream_handle r' = rc_stream_handle r
     \<and> (rc_ended r' \<and> \<not> w \<longrightarrow> (\<exists>x \<in> set rx. terminal x))"
  using assms
proof (induction api rx r c rule: next_loop.induct)
  case (8 api rx r c)
  then show ?case
    using content_inv_close [of i c0 False r c] by (intro exI [of _ True]) (auto split: prod.splits)
qed (auto simp: content_inv_def intro!: exI [of _ False] split: prod.splits option.splits)

lemma next_loop_pending [simp]:
  "next_loop api rx (r\<lparr>rc_read_pending := p\<rparr>) c =
     (case next_loop api rx r c of (res, r', c', rx') \<Rightarrow> (res, r'\<lparr>rc_read_pending := p\<rparr>, c', rx'))"
  by (induction api rx r c rule: next_loop.induct)
    (auto simp: rc_close_def rc_reset_def split: prod.splits option.splits)

lemma content_inv_pending [simp]: "content_inv i c0 w (r\<lparr>rc_read_pending := p\<rparr>) c = content_inv i c0 w r c"
  by (simp add: content_inv_def)

datatype content_op = NextOp | CloseOp

text \<open>The iterator, the effects, the receives left, and the results of the calls to \<open>next\<close>.\<close>

fun content_exec :: "http_client_api \<Rightarrow> content_op list \<Rightarrow> received list \<Rightarrow> response_content \<Rightarrow> client
    \<Rightarrow> (pyerr + bytes) option list \<times> response_content \<times> client \<times> received list" where
  "content_exec api [] rx r c = ([], r, c, rx)"
| "content_exec api (NextOp # ops) rx r c =
     (case rc_next api rx r c of
        (res, r, c, rx) \<Rightarrow>
          (case content_exec api ops rx r c of (results, final) \<Rightarrow> (res # results, final)))"
| "content_exec api (CloseOp # ops) rx r c =
     (case rc_close r c of (r, c) \<Rightarrow> content_exec api ops rx r c)"

lemma rc_next_ended: "rc_ended r \<Longrightarrow> rc_next api rx r c = (Some (Inl StopIteration), r\<lparr>rc_read_pending := False\<rparr>, c, rx)"
  by (simp add: rc_next_def next_chunk_def)

text \<open>The receives between two points of the script, and what a run keeps.\<close>

definition content_run_ok :: "pyval option \<Rightarrow> client \<Rightarrow> received list \<Rightarrow> response_content \<Rightarrow> client
    \<Rightarrow> bool \<Rightarrow> bool" where
  "content_run_ok i c0 rx r c w \<longleftrightarrow>
     content_inv i c0 w r c \<and> (rc_ended r \<and> \<not> w \<longrightarrow> (\<exists>x \<in> set rx. terminal x))"

lemma rc_next_ok:
  assumes "rc_next api rx r c = (res, r', c', rx')" and "content_run_ok i c0 all r c w" and "set rx \<subseteq> set all"
  shows "\<exists>w'. content_run_ok i c0 all r' c' w' \<and> rc_stream_handle r' = rc_stream_handle r"
proof (cases "rc_ended r")
  case True
  with assms(1,2) show ?thesis by (auto simp: rc_next_ended content_run_ok_def)
next
  case False
  obtain res1 r1 c1 rx1 where n: "next_loop api rx r c = (res1, r1, c1, rx1)" by (metis prod_cases4)
  from False assms(2) have "\<not> w" by (auto simp: content_run_ok_def content_inv_def)
  with assms(2) have "content_inv i c0 False r c" by (simp add: content_run_ok_def)
  from next_loop_inv [OF n this False] obtain w' where w':
    "content_inv i c0 w' r1 c1" "rc_stream_handle r1 = rc_stream_handle r"
    "rc_ended r1 \<and> \<not> w' \<longrightarrow> (\<exists>x \<in> set all. terminal x)"
    using assms(3) by blast
  obtain p where "r' = r1\<lparr>rc_read_pending := p\<rparr>" "c' = c1"
    using assms(1) by (auto simp: rc_next_def next_chunk_def False n split: option.splits)
  with w' show ?thesis by (intro exI [of _ w']) (simp add: content_run_ok_def)
qed

lemma next_loop_left: "next_loop api rx r c = (res, r', c', rx') \<Longrightarrow> set rx' \<subseteq> set rx"
  by (induction api rx r c rule: next_loop.induct) (auto split: prod.splits option.splits)

lemma rc_next_left: "rc_next api rx r c = (res, r', c', rx') \<Longrightarrow> set rx' \<subseteq> set rx"
  by (auto simp: rc_next_def next_chunk_def split: prod.splits option.splits if_splits dest!: next_loop_left)

lemma content_exec_ok:
  assumes "content_exec api ops rx r c = (results, r', c', rx')" and "content_run_ok i c0 all r c w"
    and "set rx \<subseteq> set all"
  shows "\<exists>w'. content_run_ok i c0 all r' c' w' \<and> rc_stream_handle r' = rc_stream_handle r"
  using assms
proof (induction ops arbitrary: rx r c results w)
  case Nil
  then show ?case by auto
next
  case (Cons op ops)
  show ?case
  proof (cases op)
    case NextOp
    obtain res r1 c1 rx1 where n: "rc_next api rx r c = (res, r1, c1, rx1)" by (metis prod_cases4)
    with Cons.prems(1) obtain rest where "content_exec api ops rx1 r1 c1 = (rest, r', c', rx')"
      by (auto simp: NextOp split: prod.splits)
    moreover obtain w1 where "content_run_ok i c0 all r1 c1 w1" "rc_stream_handle r1 = rc_stream_handle r"
      using rc_next_ok [OF n Cons.prems(2,3)] by blast
    ultimately show ?thesis
      using Cons.IH [of rx1 r1 c1 rest w1] rc_next_left [OF n] Cons.prems(3) by auto
  next
    case CloseOp
    let ?rc = "rc_close r c"
    have "content_exec api ops rx (fst ?rc) (snd ?rc) = (results, r', c', rx')"
      using Cons.prems(1) by (simp add: CloseOp split: prod.splits)
    moreover have "content_run_ok i c0 all (fst ?rc) (snd ?rc) (w \<or> \<not> rc_ended r)"
      using content_inv_close(1) [of i c0 w r c] Cons.prems(2) by (auto simp: content_run_ok_def)
    ultimately show ?thesis
      using Cons.IH [of rx "fst ?rc" "snd ?rc" results "w \<or> \<not> rc_ended r"] Cons.prems(2,3)
        content_inv_close(3) [of i c0 w r c] by (auto simp: content_run_ok_def)
  qed
qed

section \<open>Properties\<close>

text \<open>
  A response iterator releases what it holds exactly once. Whatever its user calls and
  whatever the channel delivers (chunks, trailers, a reset, a timeout, a hang-up), by the time
  the iterator is dropped the request iterator has been closed exactly once, and at most one
  reset of the upstream stream was sent; if none was, the end of the stream had been received.
\<close>

theorem response_content_released:
  "let r = \<lparr>rc_stream_handle = h, rc_trailers = [], rc_request_iter = i, rc_ended = False,
            rc_read_pending = False\<rparr>;
       (results, r', c', rx') = content_exec api ops rx r c;
       c'' = rc_drop r' c'
   in cl_closed_iters c'' = cl_closed_iters c @ iters i
      \<and> (sent_since c c'' [TransportReset h None]
         \<or> sent_since c c'' [] \<and> (\<exists>x \<in> set rx. terminal x))"
proof -
  let ?r = "\<lparr>rc_stream_handle = h, rc_trailers = [], rc_request_iter = i, rc_ended = False,
            rc_read_pending = False\<rparr>"
  obtain results r' c' rx' where e: "content_exec api ops rx ?r c = (results, r', c', rx')"
    by (metis prod_cases4)
  have "content_run_ok i c rx ?r c False"
    by (simp add: content_run_ok_def content_inv_def)
  from content_exec_ok [OF e this] obtain w where
    w: "content_run_ok i c rx r' c' w" "rc_stream_handle r' = h" by auto
  then have "content_inv i c (w \<or> \<not> rc_ended r') (fst (rc_close r' c')) (snd (rc_close r' c'))"
    using content_inv_close(1) by (auto simp: content_run_ok_def)
  moreover have "rc_request_iter (fst (rc_close r' c')) = None"
    by (simp add: rc_close_def split: prod.split)
  ultimately show ?thesis
    using w content_inv_close(3) [of i c w r' c']
    by (auto simp: e rc_drop_eq content_inv_def content_run_ok_def iters_def split: if_splits)
qed

fun end_error :: "http_client_api \<Rightarrow> received \<Rightarrow> pyerr" where
  "end_error api (Value (RespReset reason e)) = raised (reset_error api reason e)"
| "end_error api Hangup = raised (map_reset_reason api Local)"
| "end_error api _ = StopIteration"

lemma add_trailers_ok:
  "\<forall>n v. headers_add api n v = None \<Longrightarrow>
     add_trailers api ts acc = (None, acc @ map (\<lambda>(n, v). (n, case value_to_str api v of Some s \<Rightarrow> s | None \<Rightarrow> [])) ts)"
  by (induction ts arbitrary: acc) (auto simp: Let_def)

text \<open>
  Reading a response to its end gives its body unchanged: with the chunks the filter sent
  followed by the end of the stream on the channel, the iterator yields exactly these chunks in
  order, then raises once what the end stands for (nothing more, the mapped reset reason, or
  the exception that came with it), and from then on only StopIteration, without touching the
  upstream stream.
\<close>

theorem response_content_stream:
  assumes "terminal t" and "\<forall>n v. headers_add api n v = None" and "\<not> rc_ended r"
  shows "case content_exec api (replicate (length bs + 1 + k) NextOp)
           (map (Value \<circ> RespBody) bs @ t # rx) r c of
         (results, r', c', rx') \<Rightarrow>
           results = map (Some \<circ> Inr) bs @ Some (Inl (end_error api t)) # replicate k (Some (Inl StopIteration))
           \<and> c' = c \<and> rx' = rx \<and> rc_ended r'"
  using assms(3)
proof (induction bs arbitrary: r)
  case Nil
  have stop: "content_exec api (replicate k NextOp) rx s c
      = (replicate k (Some (Inl StopIteration)), if k = 0 then s else s\<lparr>rc_read_pending := False\<rparr>, c, rx)"
    if "rc_ended s" for s
    using that by (induction k arbitrary: s) (auto simp: rc_next_ended)
  from assms(1) have "\<exists>s. rc_ended s \<and> rc_next api (t # rx) r c = (Some (Inl (end_error api t)), s, c, rx)"
    using Nil by (cases "(api, t)" rule: end_error.cases)
      (auto simp: rc_next_def next_chunk_def add_trailers_ok [OF assms(2)])
  then obtain s where s: "rc_ended s" "rc_next api (t # rx) r c = (Some (Inl (end_error api t)), s, c, rx)"
    by blast
  then show ?case by (simp add: stop)
next
  case (Cons b bs)
  have "rc_next api (Value (RespBody b) # rest) r c = (Some (Inr b), r\<lparr>rc_read_pending := False\<rparr>, c, rest)"
    for rest
    using Cons.prems by (simp add: rc_next_def next_chunk_def)
  with Cons.IH [of "r\<lparr>rc_read_pending := False\<rparr>"] Cons.prems show ?case
    by (auto split: prod.splits)
qed

definition demo_client_api :: http_client_api where
  "demo_client_api = \<lparr>parse_method = Some, parse_url = (\<lambda>u. Some \<lparr>url_scheme = ''http'', url_authority = ''h'',
       url_path = u\<rparr>), parse_name = Some, parse_value = Some, value_to_str = Some,
     headers_len = (\<lambda>_. Inr 0), headers_items = seq_items, headers_add = (\<lambda>_ _. None),
     is_truthy = extract_bool, extract_bytes = cast_bytes, read_error_new = Inr \<circ> ReadError,
     write_error_new = (\<lambda>_. Some (PyObj 1)), err_value = (\<lambda>_. PyObj 2), err_str = (\<lambda>_. []),
     as_error = (\<lambda>_. AppError 1), response_new = (\<lambda>_ _ _. None)\<rparr>"

definition demo_content :: response_content where
  "demo_content = \<lparr>rc_stream_handle = 7, rc_trailers = [], rc_request_iter = None, rc_ended = False,
     rc_read_pending = False\<rparr>"

definition demo_client :: client where
  "demo_client = \<lparr>cl_bridge = Empty, cl_commits = 0, cl_jobs = [], cl_closed_iters = []\<rparr>"

theorem response_content_stream_witness:
  "case content_exec demo_client_api (replicate 4 NextOp)
      (map (Value \<circ> RespBody) [''ab'', ''c''] @ Value (RespReset Remote None) # []) demo_content demo_client of
    (results, r', c', rx') \<Rightarrow>
      results = [Some (Inr ''ab''), Some (Inr ''c''), Some (Inl (ReadError ''remote stream reset'')),
                 Some (Inl StopIteration)]
      \<and> c' = demo_client \<and> rx' = [] \<and> rc_ended r'"
  using response_content_stream [of "Value (RespReset Remote None)" demo_client_api demo_content
      "[''ab'', ''c'']" 1 demo_client "[]"]
  by (simp add: demo_client_api_def demo_content_def reset_error_def numeral_eq_Suc split: prod.splits)

text \<open>
  One call of the synchronous client either fails before anything is sent, leaving
  everything as it was, or sends exactly one start event carrying the request. In the latter
  case a streaming request body is, when the call returns, either closed (once) or owned by the
  returned response, never both and never neither; it is handed to the pool exactly when the
  stream was started; at most one reset follows, always one when the wait for the headers
  timed out, and it names the started stream.
\<close>

theorem execute_sync_accounting:
  "case execute_sync api in_request enabled cluster default_ms timeout tx attr rx c of
     (res, c', rx') \<Rightarrow>
       (\<exists>e. res = Some (Inl e)) \<and> c' = c
       \<or> (\<exists>meth url hs body t iter ev.
          in_request \<and> prepare_request api attr = Inr (meth, url, hs, body) \<and> timeout = Inr t
          \<and> ev = \<lparr>st_method = meth, st_url = url, st_headers = hs,
                  st_buffered_body = (case extract_bytes api body of Inr b \<Rightarrow> Some b | Inl _ \<Rightarrow> None),
                  st_cluster = cluster, st_timeout_ms = envoy_timeout_ms t default_ms,
                  st_response_tx = tx\<rparr>
          \<and> iter = (if st_buffered_body ev = None then Some body else None)
          \<and> cl_closed_iters c' @ held iter res = cl_closed_iters c @ iters iter
          \<and> (case started_handle rx of
               None \<Rightarrow> sent_since c c' [TransportStart ev] \<and> cl_jobs c' = cl_jobs c
             | Some h \<Rightarrow>
                 cl_jobs c' = cl_jobs c @ map (\<lambda>i. \<lparr>fw_iter = i, fw_stream_handle = h\<rparr>) (iters iter)
                 \<and> (\<exists>es. resets h es \<and> sent_since c c' (TransportStart ev # es)
                        \<and> (take 1 (tl rx) = [TimedOut] \<longrightarrow> es \<noteq> []))))"
proof (cases "in_request \<and> (\<exists>x. prepare_request api attr = Inr x) \<and> (\<exists>t. timeout = Inr t)")
  case False
  then show ?thesis
    by (cases "prepare_request api attr"; cases timeout) (auto simp: execute_sync_def)
next
  case True
  then obtain meth url hs body t where p: "in_request"
    "prepare_request api attr = Inr (meth, url, hs, body)" "timeout = Inr t" by auto
  define ev where "ev = \<lparr>st_method = meth, st_url = url, st_headers = hs,
      st_buffered_body = (case extract_bytes api body of Inr b \<Rightarrow> Some b | Inl _ \<Rightarrow> None),
      st_cluster = cluster, st_timeout_ms = envoy_timeout_ms t default_ms, st_response_tx = tx\<rparr>"
  define iter where "iter = (if st_buffered_body ev = None then Some body else None)"
  let ?c = "offer (TransportStart ev) c"
  obtain res c' rx' where a: "await_started api rx iter ?c = (res, c', rx')" by (metis prod_cases3)
  have e: "execute_sync api in_request enabled cluster default_ms timeout tx attr rx c = (res, c', rx')"
    using p a by (simp add: execute_sync_def ev_def iter_def Let_def)
  have one: "sent_since ?c c' es \<Longrightarrow> sent_since c c' (TransportStart ev # es)" for es
    using sent_since_trans [OF sent_since_offer, of "TransportStart ev" c c' es] by simp
  have "cl_closed_iters c' @ held iter res = cl_closed_iters c @ iters iter
    \<and> (case started_handle rx of
         None \<Rightarrow> sent_since c c' [TransportStart ev] \<and> cl_jobs c' = cl_jobs c
       | Some h \<Rightarrow> cl_jobs c' = cl_jobs c @ map (\<lambda>i. \<lparr>fw_iter = i, fw_stream_handle = h\<rparr>) (iters iter)
           \<and> (\<exists>es. resets h es \<and> sent_since c c' (TransportStart ev # es)
                  \<and> (take 1 (tl rx) = [TimedOut] \<longrightarrow> es \<noteq> [])))"
    using await_started_effects [OF a] one by (auto split: option.splits)
  with p show ?thesis
    unfolding e prod.case by (intro disjI2 exI conjI) (assumption | rule ev_def iter_def | blast)+
qed

definition demo_attr :: "bytes \<Rightarrow> pyerr + pyval" where
  "demo_attr name =
     (if name = ''method'' then Inr (PyStr ''POST'')
      else if name = ''url'' then Inr (PyStr ''/'')
      else if name = ''headers'' then Inr (PyList [])
      else if name = ''content'' then Inr (PyObj 9)
      else Inr (PyBool False))"

definition demo_execute :: "(pyerr + py_response) option \<times> client \<times> received list" where
  "demo_execute = execute_sync demo_client_api True True ''up'' 60000 (Inr None) 0 demo_attr
     [Value (Started 7), TimedOut] demo_client"

theorem execute_sync_accounting_witness:
  "case demo_execute of (res, c', rx') \<Rightarrow>
     res = Some (Inl (TimeoutError ''request timed out'')) \<and> cl_closed_iters c' = [PyObj 9]
     \<and> (\<exists>ev. sent_since demo_client c' [TransportStart ev, TransportReset 7 None])"
proof -
  obtain res c' rx' where e: "demo_execute = (res, c', rx')" by (metis prod_cases3)
  have prep: "prepare_request demo_client_api demo_attr
      = Inr (''POST'', \<lparr>url_scheme = ''http'', url_authority = ''h'', url_path = ''/''\<rparr>, [], PyObj 9)"
    by (simp add: prepare_request_def demo_attr_def demo_client_api_def request_headers_def
        has_content_type_def)
  have "fst demo_execute = Some (Inl (TimeoutError ''request timed out''))
    \<and> cl_commits (fst (snd demo_execute)) = 2"
    unfolding demo_execute_def execute_sync_def prep
    by (simp add: await_started_def await_headers_def demo_client_api_def demo_client_def offer_def
        bridge_offer_def reset_stream_def close_request_iter_def Let_def)
  then have ne: "c' \<noteq> demo_client" and res: "res = Some (Inl (TimeoutError ''request timed out''))"
    by (auto simp: e demo_client_def)
  have x: "extract_bytes demo_client_api (PyObj 9) = Inl TypeError"
    by (simp add: demo_client_api_def)
  show ?thesis
    using execute_sync_accounting [where api = demo_client_api and in_request = True and enabled = True
        and cluster = "''up''" and default_ms = 60000 and timeout = "Inr None" and tx = 0
        and attr = demo_attr and rx = "[Value (Started 7), TimedOut]" and c = demo_client]
    unfolding demo_execute_def [symmetric] e prod.case prep
  proof (elim disjE exE conjE, goal_cases)
    case 1
    with ne show ?case by simp
  next
    case (2 meth url hs body t iter ev)
    from 2 x have "iter = Some (PyObj 9)" by simp
    moreover obtain es where "resets 7 es" "sent_since demo_client c' (TransportStart ev # es)" "es \<noteq> []"
      using 2(7) by auto
    ultimately show ?case
      using 2(6) res by (auto simp: resets_def iters_def demo_client_def)
  qed
qed

text \<open>
  Forwarding a streaming request body conserves it: the chunks the iterator yielded are
  sent in order, each as it was, up to the first that is not bytes; they are followed by exactly
  one closing event, an empty last chunk if the iteration ended normally and a reset carrying
  the error otherwise. So the upstream never sees a truncated body as a complete one.
\<close>

theorem forward_request_complete:
  "let c' = forward_run api h items fin c in
   \<exists>ds last. sent_since c c' (map (\<lambda>d. TransportSendData h d False) ds @ [last])
     \<and> list_all2 (\<lambda>i d. extract_bytes api i = Inr d) (take (length ds) items) ds
     \<and> (last = TransportSendData h [] True \<and> length ds = length items \<and> fin = Inr ()
        \<or> (\<exists>e. last = TransportReset h (Some (write_error api e))
              \<and> (length ds = length items \<and> fin = Inl e
                 \<or> length ds < length items \<and> extract_bytes api (items ! length ds) = Inl e)))"
proof -
  obtain res c1 where f: "forward_items api h items fin c = (res, c1)" by (metis prod.exhaust)
  from forward_items_sent [OF f] obtain ds where ds:
    "list_all2 (\<lambda>i d. extract_bytes api i = Inr d) (take (length ds) items) ds"
    "sent_since c c1 (map (\<lambda>d. TransportSendData h d False) ds)"
    "if length ds = length items then res = fin
      else \<exists>e. extract_bytes api (items ! length ds) = Inl e \<and> res = Inl e"
    "length ds \<le> length items" by blast
  define last where "last = (case res of Inr _ \<Rightarrow> TransportSendData h [] True
    | Inl e \<Rightarrow> TransportReset h (Some (write_error api e)))"
  have "forward_run api h items fin c = offer last c1"
    by (simp add: forward_run_def f last_def split: sum.split)
  then have "sent_since c (forward_run api h items fin c) (map (\<lambda>d. TransportSendData h d False) ds @ [last])"
    using sent_since_trans [OF ds(2) sent_since_offer] by simp
  with ds show ?thesis
    unfolding Let_def
    by (intro exI [of _ ds] exI [of _ last] conjI)
      (auto simp: last_def split: if_splits sum.splits)
qed

end
