(* ===== verification/Transport_Timeout.thy ===== *)
theory Transport_Timeout
  imports Py_Values Complex_Main
begin

text \<open>
  The timeouts of the two HTTP clients (\<open>src/src/wsgi/transport.rs\<close> and
  \<open>src/src/asgi/transport.rs\<close>): the constructor's \<open>timeout\<close> argument, a Python float, becomes
  milliseconds; the synchronous client's per-request timeout becomes a duration.
\<close>

section \<open>Floats and conversions\<close>

text \<open>\<open>HTTPTransport::py_new\<close>: a Python float, and the rounding of the product, which is the
  processor's (\<open>rnd\<close>); \<open>as u64\<close> truncates and saturates.\<close>

datatype f64 = Finite rat | PosInf | NegInf | NaN

definition DEFAULT_TIMEOUT_MS :: nat where "DEFAULT_TIMEOUT_MS = 60000"

fun f64_as_u64 :: "f64 \<Rightarrow> nat" where
  "f64_as_u64 (Finite q) = min (nat \<lfloor>q\<rfloor>) (2 ^ 64 - 1)"
| "f64_as_u64 PosInf = 2 ^ 64 - 1"
| "f64_as_u64 NegInf = 0"
| "f64_as_u64 NaN = 0"

definition transport_timeout :: "(rat \<Rightarrow> f64) \<Rightarrow> f64 option \<Rightarrow> pyerr + nat" where
  "transport_timeout rnd timeout =
     (case timeout of
        None \<Rightarrow> Inr DEFAULT_TIMEOUT_MS
      | Some (Finite q) \<Rightarrow>
          if q < 0 then Inl (ValueError ''timeout must be non-negative'')
          else Inr (f64_as_u64 (rnd (q * 1000)))
      | Some _ \<Rightarrow> Inl (ValueError ''timeout must be non-negative''))"

text \<open>The constructor of the asynchronous client has the same body.\<close>

definition asgi_transport_timeout :: "(rat \<Rightarrow> f64) \<Rightarrow> f64 option \<Rightarrow> pyerr + nat" where
  "asgi_transport_timeout rnd timeout =
     (case timeout of
        Some t \<Rightarrow>
          (case t of
             Finite q \<Rightarrow>
               if q < 0 then Inl (ValueError ''timeout must be non-negative'')
               else Inr (f64_as_u64 (rnd (q * 1000)))
           | _ \<Rightarrow> Inl (ValueError ''timeout must be non-negative''))
      | None \<Rightarrow> Inr DEFAULT_TIMEOUT_MS)"

lemma transport_timeouts_agree: "asgi_transport_timeout rnd t = transport_timeout rnd t"
  by (simp add: asgi_transport_timeout_def transport_timeout_def split: option.split f64.split)

text \<open>
  \<open>sync_timeout\<close>, given the seconds the synchronous client set: a \<open>Duration\<close> in nanoseconds,
  whose conversion from a positive float is the standard library's (\<open>to_dur\<close>), and the
  milliseconds passed to Envoy.
\<close>

definition sync_timeout :: "(f64 \<Rightarrow> nat) \<Rightarrow> pyerr + f64 option \<Rightarrow> pyerr + nat option" where
  "sync_timeout to_dur timeout =
     pbind timeout (\<lambda>t. case t of
        None \<Rightarrow> Inr None
      | Some secs \<Rightarrow>
          Inr (Some (case secs of
                       Finite q \<Rightarrow> if q > 0 then to_dur secs else 0
                     | PosInf \<Rightarrow> to_dur secs
                     | _ \<Rightarrow> 0)))"

end
