(* ===== verification/Wsgi_Filter.thy ===== *)
theory Wsgi_Filter
  imports Wsgi_Read Wsgi_Response Wsgi_Transport Trace_Context
begin

text \<open>
  The Envoy filter of a WSGI request, \<open>src/src/wsgi/filter.rs\<close>: what each callback of Envoy
  does to the filter's state and which calls it makes on Envoy. Reading the request body is in
  theory \<open>Wsgi_Read\<close>; here are the response, the downstream watermarks, the upstream streams
  of the HTTP client, and the end of the stream.
\<close>

section \<open>State\<close>

text \<open>
  \<open>fl_reader\<close> is the reading state, \<open>fl_written\<close> the tokens sent on \<open>response_written_tx\<close>,
  \<open>fl_sends\<close> what was sent on the channels of HTTP client requests, \<open>fl_commits\<close> the events the
  filter itself scheduled, \<open>fl_calls\<close> the calls on Envoy. A \<open>HashMap\<close> is an association list.
\<close>

record wsgi_filter =
  fl_reader :: reader
  fl_response_closed :: bool
  fl_response_bridge :: "response_event bridge"
  fl_transport_bridge :: "transport_event bridge option"
  fl_transport_responses :: "(u64 \<times> transport_state) list"
  fl_written :: nat
  fl_watermark :: u64
  fl_calls :: "envoy_call list"
  fl_sends :: "(chan \<times> transport_response) list"
  fl_commits :: "nat list"

definition filter_new :: "bool \<Rightarrow> wsgi_filter" where
  "filter_new enable_http_client =
     \<lparr>fl_reader = reader_new, fl_response_closed = False, fl_response_bridge = bridge_new,
      fl_transport_bridge = (if enable_http_client then Some bridge_new else None),
      fl_transport_responses = [], fl_written = 0, fl_watermark = 0, fl_calls = [],
      fl_sends = [], fl_commits = []\<rparr>"

definition call :: "envoy_call \<Rightarrow> wsgi_filter \<Rightarrow> wsgi_filter" where
  "call c s = s\<lparr>fl_calls := fl_calls s @ [c]\<rparr>"

definition tx_send :: "chan \<Rightarrow> transport_response \<Rightarrow> wsgi_filter \<Rightarrow> wsgi_filter" where
  "tx_send tx r s = s\<lparr>fl_sends := fl_sends s @ [(tx, r)]\<rparr>"

section \<open>The end of the stream\<close>

definition on_stream_complete :: "wsgi_filter \<Rightarrow> wsgi_filter" where
  "on_stream_complete s =
     (let s' = s\<lparr>fl_response_closed := True,
                fl_reader := (fl_reader s)\<lparr>rd_bridge := snd (bridge_close (rd_bridge (fl_reader s)))\<rparr>,
                fl_response_bridge := snd (bridge_close (fl_response_bridge s)),
                fl_transport_bridge := map_option (\<lambda>b. snd (bridge_close b)) (fl_transport_bridge s),
                fl_transport_responses := []\<rparr>
      in fold (\<lambda>(h, state). tx_send (ts_response_tx state) (RespReset ServerRequestDone (ts_exception state)))
           (fl_transport_responses s) s')"

text \<open>
  A call that writes the response may end the stream, and then Envoy re-enters
  \<open>on_stream_complete\<close> before the call returns; \<open>ends\<close> says so, of the calls made so far.
\<close>

definition response_call :: "(envoy_call list \<Rightarrow> bool) \<Rightarrow> envoy_call \<Rightarrow> wsgi_filter \<Rightarrow> wsgi_filter" where
  "response_call ends c s =
     (let s = call c s in if ends (fl_calls s) then on_stream_complete s else s)"

section \<open>The response\<close>

definition response_head :: "response_start \<Rightarrow> headers" where
  "response_head st = ('':status'', rs_status st) # rs_headers st"

definition written :: "response_body \<Rightarrow> wsgi_filter \<Rightarrow> wsgi_filter" where
  "written bd s = (if bd_more bd then s\<lparr>fl_written := fl_written s + 1\<rparr> else s)"

fun send_step :: "(envoy_call list \<Rightarrow> bool) \<Rightarrow> response_event \<Rightarrow> wsgi_filter \<Rightarrow> wsgi_filter" where
  "send_step ends (ResponseStart st bd) s =
     (let headers = response_head st; end_stream = \<not> bd_more bd; s = written bd s in
      if end_stream then
        (if bd_body bd = [] then response_call ends (SendResponseHeaders headers True) s
         else response_call ends (SendResponseData (bd_body bd) True)
                (response_call ends (SendResponseHeaders headers False) s))
      else response_call ends (SendResponseData (bd_body bd) False)
             (response_call ends (SendResponseHeaders headers False) s))"
| "send_step ends (ResponseBody bd) s =
     response_call ends (SendResponseData (bd_body bd) (\<not> bd_more bd)) (written bd s)"
| "send_step ends (ResponseTrailers st trailers) s =
     response_call ends (SendResponseTrailers trailers)
       (case st of Some st \<Rightarrow> response_call ends (SendResponseHeaders (response_head st) False) s
        | None \<Rightarrow> s)"
| "send_step ends ResponseException s =
     (if \<not> fl_response_closed s then
        response_call ends (SendResponse 500
                [(''content-type'', ''text/plain; charset=utf-8''), (''connection'', ''close'')]
                ''Internal Server Error'')
          (s\<lparr>fl_response_closed := True\<rparr>)
      else s)"

definition process_send_events :: "(envoy_call list \<Rightarrow> bool) \<Rightarrow> wsgi_filter \<Rightarrow> wsgi_filter" where
  "process_send_events ends s =
     (case bridge_process (fl_response_bridge s) of
        (events, b) \<Rightarrow> fold (send_step ends) events (s\<lparr>fl_response_bridge := b\<rparr>))"

section \<open>Upstream streams\<close>

definition response_tx_for :: "u64 \<Rightarrow> wsgi_filter \<Rightarrow> chan option" where
  "response_tx_for h s = map_option ts_response_tx (map_of (fl_transport_responses s) h)"

fun reset_reason_of :: "stream_reset_reason \<Rightarrow> reset_reason" where
  "reset_reason_of LocalReset = Local"
| "reset_reason_of LocalRefusedStreamReset = Local"
| "reset_reason_of RemoteReset = Remote"
| "reset_reason_of RemoteRefusedStreamReset = Remote"
| "reset_reason_of ProtocolError = Protocol"
| "reset_reason_of ConnectionFailure = Connection"
| "reset_reason_of ConnectionTermination = Connection"
| "reset_reason_of OverflowReset = Overflow"

definition on_http_stream_reset :: "u64 \<Rightarrow> stream_reset_reason \<Rightarrow> wsgi_filter \<Rightarrow> wsgi_filter" where
  "on_http_stream_reset h reason s =
     (case map_of (fl_transport_responses s) h of
        None \<Rightarrow> s
      | Some state \<Rightarrow>
          tx_send (ts_response_tx state) (RespReset (reset_reason_of reason) (ts_exception state))
            (s\<lparr>fl_transport_responses := AList.delete h (fl_transport_responses s)\<rparr>))"

definition reset_http_stream :: "envoy_api \<Rightarrow> u64 \<Rightarrow> wsgi_filter \<Rightarrow> wsgi_filter" where
  "reset_http_stream api h s =
     (let s = call (ResetHttpStream h) s in
      case reset_reenters api (fl_calls s) of
        Some reason \<Rightarrow> on_http_stream_reset h reason s
      | None \<Rightarrow> s)"

text \<open>The headers of a response: the status (500 if malformed), and the pairs that parse.\<close>

fun stream_headers :: "envoy_api \<Rightarrow> headers \<Rightarrow> bytes \<Rightarrow> headers \<Rightarrow> bytes \<times> headers" where
  "stream_headers api [] status acc = (status, acc)"
| "stream_headers api ((k, v) # hs) status acc =
     (if k = '':status'' then
        stream_headers api hs (case status_from_bytes api v of Some st \<Rightarrow> st | None \<Rightarrow> ''500'') acc
      else (case (name_from_bytes api k, value_from_bytes api v) of
              (Some n, Some v) \<Rightarrow> stream_headers api hs status (acc @ [(n, v)])
            | _ \<Rightarrow> stream_headers api hs status acc))"

definition on_http_stream_headers ::
    "envoy_api \<Rightarrow> u64 \<Rightarrow> headers \<Rightarrow> bool \<Rightarrow> wsgi_filter \<Rightarrow> wsgi_filter" where
  "on_http_stream_headers api h hs end_stream s =
     (case response_tx_for h s of
        None \<Rightarrow> reset_http_stream api h s
      | Some tx \<Rightarrow>
          (case stream_headers api hs ''200'' [] of
             (status, headers) \<Rightarrow> tx_send tx (RespHeaders status headers end_stream) s))"

definition on_http_stream_data :: "u64 \<Rightarrow> bytes list \<Rightarrow> bool \<Rightarrow> wsgi_filter \<Rightarrow> wsgi_filter" where
  "on_http_stream_data h data end_stream s =
     (case response_tx_for h s of
        None \<Rightarrow> s
      | Some tx \<Rightarrow>
          (let body = concat data;
               s = (if body \<noteq> [] then tx_send tx (RespBody body) s else s)
           in if end_stream then tx_send tx RespEnd s else s))"

definition parsed_pairs :: "envoy_api \<Rightarrow> headers \<Rightarrow> headers" where
  "parsed_pairs api ts = List.map_filter
     (\<lambda>(n, v). case (name_from_bytes api n, value_from_bytes api v) of
                 (Some n, Some v) \<Rightarrow> Some (n, v) | _ \<Rightarrow> None) ts"

definition on_http_stream_trailers :: "envoy_api \<Rightarrow> u64 \<Rightarrow> headers \<Rightarrow> wsgi_filter \<Rightarrow> wsgi_filter" where
  "on_http_stream_trailers api h ts s =
     (case response_tx_for h s of
        None \<Rightarrow> s
      | Some tx \<Rightarrow> tx_send tx (RespTrailers (parsed_pairs api ts)) s)"

definition on_http_stream_complete :: "u64 \<Rightarrow> wsgi_filter \<Rightarrow> wsgi_filter" where
  "on_http_stream_complete h s =
     s\<lparr>fl_transport_responses := AList.delete h (fl_transport_responses s)\<rparr>"

definition upstream_headers :: "start_stream \<Rightarrow> headers" where
  "upstream_headers ev =
     st_headers ev
     @ [('':method'', st_method ev), ('':path'', url_path (st_url ev)),
        ('':scheme'', url_scheme (st_url ev)), ('':authority'', url_authority (st_url ev))]
     @ (case st_buffered_body ev of
          Some body \<Rightarrow>
            if list_ex (\<lambda>(k, v). k = ''content-length'') (st_headers ev) then []
            else [(''content-length'', decimal (length body))]
        | None \<Rightarrow> [])"

fun transport_step :: "envoy_api \<Rightarrow> transport_event \<Rightarrow> wsgi_filter \<Rightarrow> wsgi_filter" where
  "transport_step api (TransportStart ev) s =
     (let s = call (StartHttpStream (st_cluster ev) (upstream_headers ev) (st_buffered_body ev)
                 (st_buffered_body ev \<noteq> None) (st_timeout_ms ev)) s in
      case start_result api (fl_calls s) of
        (False, _) \<Rightarrow> tx_send (st_response_tx ev) (RespReset InvalidUpstream None) s
      | (True, h) \<Rightarrow>
          (let s = tx_send (st_response_tx ev) (Started h) s in
           s\<lparr>fl_transport_responses := AList.update h
               \<lparr>ts_response_tx = st_response_tx ev, ts_exception = None\<rparr>
               (fl_transport_responses s)\<rparr>))"
| "transport_step api (TransportSendData h data end_stream) s =
     (if map_of (fl_transport_responses s) h \<noteq> None
      then call (SendHttpStreamData h data end_stream) s else s)"
| "transport_step api (TransportReset h exception) s =
     (case map_of (fl_transport_responses s) h of
        None \<Rightarrow> s
      | Some state \<Rightarrow>
          reset_http_stream api h
            (case exception of
               Some e \<Rightarrow> s\<lparr>fl_transport_responses := AList.update h (state\<lparr>ts_exception := Some e\<rparr>)
                          (fl_transport_responses s)\<rparr>
             | None \<Rightarrow> s))"

definition process_transport_events :: "envoy_api \<Rightarrow> wsgi_filter \<Rightarrow> wsgi_filter" where
  "process_transport_events api s =
     (case fl_transport_bridge s of
        None \<Rightarrow> s
      | Some b \<Rightarrow>
          (case bridge_process b of
             (events, b) \<Rightarrow> fold (transport_step api) events (s\<lparr>fl_transport_bridge := Some b\<rparr>)))"

section \<open>The other callbacks\<close>

text \<open>
  \<open>on_request_headers\<close> propagates the active span, then gives the executor the request scope
  and whether the request is already complete; the span and scope are of theories
  \<open>Trace_Context\<close> and \<open>Request_Scope\<close>.
\<close>

record app_job =
  job_scope :: scope
  job_request_closed :: bool

definition on_request_headers :: "scope \<Rightarrow> bool \<Rightarrow> wsgi_filter \<Rightarrow> app_job \<times> wsgi_filter" where
  "on_request_headers sc end_of_stream s =
     (\<lparr>job_scope = sc, job_request_closed = end_of_stream\<rparr>,
      if end_of_stream then s\<lparr>fl_reader := (fl_reader s)\<lparr>rd_request_closed := True\<rparr>\<rparr> else s)"

definition on_request_body :: "drain \<Rightarrow> bool \<Rightarrow> wsgi_filter \<Rightarrow> envoy_body \<Rightarrow> wsgi_filter \<times> envoy_body" where
  "on_request_body drain end_of_stream s env =
     (let r = (if end_of_stream then (fl_reader s)\<lparr>rd_request_closed := True\<rparr> else fl_reader s) in
      case process_read drain r env of (r, env) \<Rightarrow> (s\<lparr>fl_reader := r\<rparr>, env))"

definition on_request_trailers :: "drain \<Rightarrow> wsgi_filter \<Rightarrow> envoy_body \<Rightarrow> wsgi_filter \<times> envoy_body" where
  "on_request_trailers drain s env =
     (case process_read drain ((fl_reader s)\<lparr>rd_request_closed := True\<rparr>) env of
        (r, env) \<Rightarrow> (s\<lparr>fl_reader := r\<rparr>, env))"

text \<open>\<open>on_scheduled\<close>; an unknown event is \<open>unreachable!\<close>.\<close>

definition on_scheduled :: "(envoy_call list \<Rightarrow> bool) \<Rightarrow> envoy_api \<Rightarrow> drain \<Rightarrow> nat \<Rightarrow> wsgi_filter \<Rightarrow> envoy_body
    \<Rightarrow> (wsgi_filter \<times> envoy_body) rust" where
  "on_scheduled ends api drain event_id s env =
     (if event_id = EVENT_ID_REQUEST then
        (case process_read drain (fl_reader s) env of (r, env) \<Rightarrow> Ret (s\<lparr>fl_reader := r\<rparr>, env))
      else if event_id = EVENT_ID_RESPONSE then
        Ret (if fl_watermark s = 0 then process_send_events ends s else s, env)
      else if event_id = EVENT_ID_OUTGOING_REQUEST then Ret (process_transport_events api s, env)
      else Panic)"

definition on_above_high_watermark :: "wsgi_filter \<Rightarrow> wsgi_filter" where
  "on_above_high_watermark s = s\<lparr>fl_watermark := fl_watermark s + 1\<rparr>"

definition on_below_low_watermark :: "wsgi_filter \<Rightarrow> wsgi_filter" where
  "on_below_low_watermark s =
     (let level = fl_watermark s - 1; s = s\<lparr>fl_watermark := level\<rparr> in
      if level = 0 then s\<lparr>fl_commits := fl_commits s @ [EVENT_ID_RESPONSE]\<rparr> else s)"

section \<open>What the response events become\<close>

fun event_calls :: "response_event \<Rightarrow> envoy_call list" where
  "event_calls (ResponseStart st bd) =
     (if \<not> bd_more bd \<and> bd_body bd = [] then [SendResponseHeaders (response_head st) True]
      else [SendResponseHeaders (response_head st) False, SendResponseData (bd_body bd) (\<not> bd_more bd)])"
| "event_calls (ResponseBody bd) = [SendResponseData (bd_body bd) (\<not> bd_more bd)]"
| "event_calls (ResponseTrailers st ts) =
     (case st of Some st \<Rightarrow> [SendResponseHeaders (response_head st) False] | None \<Rightarrow> [])
     @ [SendResponseTrailers ts]"
| "event_calls ResponseException = []"

fun event_body :: "response_event \<Rightarrow> bytes" where
  "event_body (ResponseStart st bd) = bd_body bd"
| "event_body (ResponseBody bd) = bd_body bd"
| "event_body _ = []"

fun event_more :: "response_event \<Rightarrow> bool" where
  "event_more (ResponseStart st bd) = bd_more bd"
| "event_more (ResponseBody bd) = bd_more bd"
| "event_more _ = False"

definition app_events :: "response_event list \<Rightarrow> response_event list" where
  "app_events es = filter (\<lambda>e. e \<noteq> ResponseException) es"

lemma tx_send_simps [simp]:
  "fl_calls (tx_send tx r s) = fl_calls s" "fl_written (tx_send tx r s) = fl_written s"
  "fl_response_bridge (tx_send tx r s) = fl_response_bridge s"
  "fl_response_closed (tx_send tx r s) = fl_response_closed s"
  "fl_watermark (tx_send tx r s) = fl_watermark s" "fl_commits (tx_send tx r s) = fl_commits s"
  "fl_transport_responses (tx_send tx r s) = fl_transport_responses s"
  "fl_transport_bridge (tx_send tx r s) = fl_transport_bridge s"
  "fl_sends (tx_send tx r s) = fl_sends s @ [(tx, r)]"
  by (simp_all add: tx_send_def)

lemma reset_all_effects:
  "let s' = fold (\<lambda>(h, state). tx_send (ts_response_tx state) (RespReset reason (ts_exception state))) ts s in
   fl_calls s' = fl_calls s \<and> fl_written s' = fl_written s \<and> fl_response_bridge s' = fl_response_bridge s
   \<and> fl_response_closed s' = fl_response_closed s \<and> fl_transport_responses s' = fl_transport_responses s
   \<and> fl_transport_bridge s' = fl_transport_bridge s \<and> fl_watermark s' = fl_watermark s \<and> fl_commits s' = fl_commits s
   \<and> fl_sends s' = fl_sends s @ map (\<lambda>(h, t). (ts_response_tx t, RespReset reason (ts_exception t))) ts"
proof (induction ts arbitrary: s)
  case Nil
  then show ?case by simp
next
  case (Cons t ts)
  obtain h st where "t = (h, st)" by (cases t)
  with Cons.IH [of "tx_send (ts_response_tx st) (RespReset reason (ts_exception st)) s"] show ?case
    by (simp add: Let_def)
qed

lemma on_stream_complete_effects:
  "fl_calls (on_stream_complete s) = fl_calls s" "fl_written (on_stream_complete s) = fl_written s"
  "fl_watermark (on_stream_complete s) = fl_watermark s" "fl_commits (on_stream_complete s) = fl_commits s"
  "fl_response_bridge (on_stream_complete s) = Closed" "fl_response_closed (on_stream_complete s)"
  "fl_transport_responses (on_stream_complete s) = []"
  "fl_transport_bridge (on_stream_complete s) = map_option (\<lambda>_. Closed) (fl_transport_bridge s)"
  "fl_sends (on_stream_complete s) = fl_sends s @
     map (\<lambda>(h, t). (ts_response_tx t, RespReset ServerRequestDone (ts_exception t))) (fl_transport_responses s)"
  using reset_all_effects [of ServerRequestDone "fl_transport_responses s"]
  by (simp_all add: on_stream_complete_def Let_def bridge_close_def)

lemma call_simps [simp]:
  "fl_calls (call c s) = fl_calls s @ [c]" "fl_written (call c s) = fl_written s"
  "fl_response_closed (call c s) = fl_response_closed s" "fl_watermark (call c s) = fl_watermark s"
  "fl_response_bridge (call c s) = fl_response_bridge s" "fl_commits (call c s) = fl_commits s"
  by (simp_all add: call_def)

lemma written_simps [simp]:
  "fl_calls (written bd s) = fl_calls s" "fl_written (written bd s) = fl_written s + (if bd_more bd then 1 else 0)"
  "fl_response_closed (written bd s) = fl_response_closed s" "fl_watermark (written bd s) = fl_watermark s"
  "fl_response_bridge (written bd s) = fl_response_bridge s" "fl_commits (written bd s) = fl_commits s"
  by (simp_all add: written_def)

text \<open>What a call leaves alone, whether or not it ends the stream.\<close>

lemma response_call_simps [simp]:
  "fl_calls (response_call ends c s) = fl_calls s @ [c]" "fl_written (response_call ends c s) = fl_written s"
  "fl_watermark (response_call ends c s) = fl_watermark s" "fl_commits (response_call ends c s) = fl_commits s"
  "fl_response_closed s \<Longrightarrow> fl_response_closed (response_call ends c s)"
  by (simp_all add: response_call_def Let_def on_stream_complete_effects)

definition same_or_closed :: "response_event bridge \<Rightarrow> wsgi_filter \<Rightarrow> bool" where
  "same_or_closed b s \<longleftrightarrow> fl_response_bridge s = b \<or> fl_response_bridge s = Closed"

lemma same_or_closed_call [simp]: "same_or_closed b s \<Longrightarrow> same_or_closed b (response_call ends c s)"
  by (simp add: same_or_closed_def response_call_def Let_def on_stream_complete_effects)

lemma same_or_closed_updates [simp]:
  "same_or_closed b (written bd s) = same_or_closed b s"
  "same_or_closed b (s\<lparr>fl_response_closed := True\<rparr>) = same_or_closed b s"
  by (simp_all add: same_or_closed_def)

lemma send_step_bridge: "same_or_closed b s \<Longrightarrow> same_or_closed b (send_step ends e s)"
  by (cases e) (simp_all add: Let_def split: option.split)

lemma send_step_effects:
  "response_calls (fl_calls (send_step ends e s)) = response_calls (fl_calls s) @ event_calls e
   \<and> fl_written (send_step ends e s) = fl_written s + (if event_more e then 1 else 0)
   \<and> fl_watermark (send_step ends e s) = fl_watermark s \<and> fl_commits (send_step ends e s) = fl_commits s
   \<and> (fl_response_closed s \<longrightarrow> fl_response_closed (send_step ends e s))"
  by (cases e) (auto simp: Let_def response_calls_def split: option.split)

lemma send_steps_effects:
  "response_calls (fl_calls (fold (send_step ends) es s)) = response_calls (fl_calls s) @ concat (map event_calls es)
   \<and> fl_written (fold (send_step ends) es s) = fl_written s + length (filter event_more es)
   \<and> fl_watermark (fold (send_step ends) es s) = fl_watermark s \<and> fl_commits (fold (send_step ends) es s) = fl_commits s
   \<and> (same_or_closed b s \<longrightarrow> same_or_closed b (fold (send_step ends) es s))
   \<and> (fl_response_closed s \<longrightarrow> fl_response_closed (fold (send_step ends) es s))"
proof (induction es arbitrary: s)
  case Nil
  then show ?case by simp
next
  case (Cons e es)
  from Cons.IH [of "send_step ends e s"] send_step_effects [of ends e s] send_step_bridge [of b s ends e]
  show ?case by simp
qed

lemma event_calls_run:
  "resp_step p e = Some q \<Longrightarrow> call_run p (event_calls e) = Some q \<and> concat (map call_data (event_calls e)) = event_body e"
  by (cases "(p, e)" rule: resp_step.cases) auto

lemma events_calls_run:
  "resp_run p es = Some q \<Longrightarrow>
     call_run p (concat (map event_calls es)) = Some q
     \<and> concat (map call_data (concat (map event_calls es))) = concat (map event_body es)"
proof (induction es arbitrary: p)
  case Nil
  then show ?case by simp
next
  case (Cons e es)
  then obtain r where "resp_step p e = Some r" "resp_run r es = Some q"
    by (auto split: option.splits)
  with event_calls_run [of p e r] Cons.IH [of r] show ?case by (simp add: call_run_append)
qed

lemma event_calls_app_events: "concat (map event_calls (app_events es)) = concat (map event_calls es)"
  by (induction es) (auto simp: app_events_def)

section \<open>The application, the sender and the filter together\<close>

text \<open>
  The bridge is shared: a send works on the filter's. \<open>rp_pending\<close> counts the scheduled
  \<open>EVENT_ID_RESPONSE\<close> that Envoy has not delivered yet; \<open>rp_handed\<close> is a history variable.
  Envoy reports a low watermark only after a high one, and does not nest them 2^64 deep.
\<close>

record resp_sys =
  rp_sender :: response_sender
  rp_filter :: wsgi_filter
  rp_pending :: nat
  rp_handed :: "response_event list"

datatype resp_op =
    AppSend sender_event "pyval list option" | AppFails
  | Scheduled | AboveHigh | BelowLow | StreamComplete

definition resp_sys_new :: resp_sys where
  "resp_sys_new = \<lparr>rp_sender = response_sender_new bridge_new, rp_filter = filter_new False,
     rp_pending = 0, rp_handed = []\<rparr>"

text \<open>The executor's handling of an application that raised.\<close>

definition app_fails :: "wsgi_filter \<Rightarrow> bool \<times> wsgi_filter" where
  "app_fails f =
     (case bridge_offer (fl_response_bridge f) ResponseException of
        (ok, b) \<Rightarrow> (ok, f\<lparr>fl_response_bridge := b\<rparr>))"

fun resp_exec :: "(envoy_call list \<Rightarrow> bool) \<Rightarrow> exc_api \<Rightarrow> resp_op \<Rightarrow> resp_sys \<Rightarrow> resp_sys" where
  "resp_exec ends api (AppSend e info) y =
     (let s = snd (sender_send api e info
                ((rp_sender y)\<lparr>sn_bridge := fl_response_bridge (rp_filter y), sn_commits := 0\<rparr>))
      in y\<lparr>rp_sender := s, rp_filter := (rp_filter y)\<lparr>fl_response_bridge := sn_bridge s\<rparr>,
           rp_pending := rp_pending y + sn_commits s\<rparr>)"
| "resp_exec ends api AppFails y =
     (case app_fails (rp_filter y) of
        (ok, f) \<Rightarrow> y\<lparr>rp_filter := f, rp_pending := rp_pending y + (if ok then 1 else 0)\<rparr>)"
| "resp_exec ends api Scheduled y =
     (if rp_pending y = 0 then y
      else (let f = rp_filter y in
        y\<lparr>rp_pending := rp_pending y - 1,
          rp_filter := (if fl_watermark f = 0 then process_send_events ends f else f),
          rp_handed := rp_handed y @
            (if fl_watermark f = 0 then bridge_content (fl_response_bridge f) else [])\<rparr>))"
| "resp_exec ends api AboveHigh y =
     (if fl_watermark (rp_filter y) = -1 then y
      else y\<lparr>rp_filter := on_above_high_watermark (rp_filter y)\<rparr>)"
| "resp_exec ends api BelowLow y =
     (if fl_watermark (rp_filter y) = 0 then y
      else (let f = on_below_low_watermark ((rp_filter y)\<lparr>fl_commits := []\<rparr>) in
        y\<lparr>rp_filter := f, rp_pending := rp_pending y + length (fl_commits f)\<rparr>))"
| "resp_exec ends api StreamComplete y = y\<lparr>rp_filter := on_stream_complete (rp_filter y)\<rparr>"

definition rp_events :: "resp_sys \<Rightarrow> response_event list" where
  "rp_events y = rp_handed y @ bridge_content (fl_response_bridge (rp_filter y))"

definition resp_inv :: "resp_sys \<Rightarrow> bool" where
  "resp_inv y \<longleftrightarrow>
     (let f = rp_filter y; b = fl_response_bridge f in
      sender_ok ((rp_sender y)\<lparr>sn_bridge := b\<rparr>) (app_events (rp_events y))
      \<and> response_calls (fl_calls f) = concat (map event_calls (rp_handed y))
      \<and> fl_written f = length (filter event_more (rp_handed y))
      \<and> length (filter is_local_reply (fl_calls f)) \<le> (if fl_response_closed f then 1 else 0)
      \<and> (bridge_content b \<noteq> [] \<and> fl_watermark f = 0 \<longrightarrow> rp_pending y > 0))"

declare sender_send.simps [simp del]

lemma app_events_Nil [simp]: "app_events [] = []"
  by (simp add: app_events_def)

lemma app_events_append [simp]: "app_events (xs @ ys) = app_events xs @ app_events ys"
  by (simp add: app_events_def)

lemma sender_adds_app [simp]: "app_events (sender_adds e s) = sender_adds e s"
  by (auto simp: sender_adds_def app_events_def split: sender_event.split option.split)

lemma sender_ok_commits [simp]: "sender_ok (s\<lparr>sn_commits := n\<rparr>) es = sender_ok s es"
  by (simp add: sender_ok_def sender_phase_def)

lemma sender_adds_bridge [simp]: "sender_adds e (s\<lparr>sn_bridge := b, sn_commits := n\<rparr>) = sender_adds e s"
  by (simp add: sender_adds_def split: sender_event.split option.split)

lemma sn_emit_commits [simp]:
  "sn_bridge s \<noteq> Closed \<Longrightarrow> sn_commits (sn_emit e s) = Suc (sn_commits s)"
  by (cases "sn_bridge s") (simp_all add: sn_emit_def bridge_offer_def)

lemma sender_send_commits:
  "sn_bridge s \<noteq> Closed \<Longrightarrow>
     sn_commits (snd (sender_send api e info s)) = sn_commits s + length (sender_adds e s)"
  by (auto simp: sender_send.simps Let_def sender_adds_def split: sender_event.split option.split)

lemma local_replies:
  "length (filter is_local_reply (fl_calls s)) \<le> (if fl_response_closed s then 1 else 0) \<Longrightarrow>
   length (filter is_local_reply (fl_calls (send_step ends e s)))
     \<le> (if fl_response_closed (send_step ends e s) then 1 else 0)"
  by (cases e) (auto simp: Let_def split: option.split if_splits)

lemma local_replies_fold:
  "length (filter is_local_reply (fl_calls s)) \<le> (if fl_response_closed s then 1 else 0) \<Longrightarrow>
   length (filter is_local_reply (fl_calls (fold (send_step ends) es s)))
     \<le> (if fl_response_closed (fold (send_step ends) es s) then 1 else 0)"
proof (induction es arbitrary: s)
  case Nil
  then show ?case by simp
next
  case (Cons e es)
  from Cons.IH [OF local_replies [OF Cons.prems, of ends e]] show ?case by simp
qed

lemma sender_ok_prefix:
  assumes "sender_ok (s\<lparr>sn_bridge := b\<rparr>) (xs @ ys)"
  shows "sender_ok (s\<lparr>sn_bridge := Closed\<rparr>) xs"
proof -
  have "well_formed_response (xs @ ys) \<or> bare_trailers (xs @ ys) \<or> xs @ ys = []"
    using assms by (auto simp: sender_ok_def well_formed_response_def)
  then have "well_formed_response xs \<or> bare_trailers xs"
    using well_formed_prefix [of xs ys]
    by (cases xs) (auto simp: bare_trailers_def well_formed_response_def)
  with assms show ?thesis by (auto simp: sender_ok_def bridge_wf_def)
qed

lemma sender_ok_bridge:
  "sender_ok (s\<lparr>sn_bridge := b\<rparr>) es \<Longrightarrow> b' = Closed \<longleftrightarrow> b = Closed \<Longrightarrow> bridge_wf b' \<Longrightarrow>
     sender_ok (s\<lparr>sn_bridge := b'\<rparr>) es"
  by (auto simp: sender_ok_def sender_phase_def split: if_splits)

lemma process_send_effects:
  "process_send_events ends f =
     fold (send_step ends) (bridge_content (fl_response_bridge f))
       (f\<lparr>fl_response_bridge := (if fl_response_bridge f = Closed then Closed else Empty)\<rparr>)"
  by (cases "fl_response_bridge f") (simp_all add: process_send_events_def)

lemma app_send_inv:
  assumes inv: "resp_inv y"
  shows "resp_inv (resp_exec ends api (AppSend e info) y)"
proof -
  let ?f = "rp_filter y"
  let ?b = "fl_response_bridge ?f"
  let ?start = "(rp_sender y)\<lparr>sn_bridge := ?b, sn_commits := 0\<rparr>"
  let ?s = "snd (sender_send api e info ?start)"
  have ok: "sender_ok ?start (app_events (rp_events y))"
    using inv by (simp add: resp_inv_def Let_def)
  have ok': "sender_ok ?s (app_events (rp_events y) @ (if ?b = Closed then [] else sender_adds e (rp_sender y)))"
    using sender_send_ok [OF ok, of api e info] by (simp split: if_splits)
  have b: "if ?b = Closed then sn_bridge ?s = Closed
    else bridge_content (sn_bridge ?s) = bridge_content ?b @ sender_adds e (rp_sender y)
      \<and> sn_commits ?s = length (sender_adds e (rp_sender y))"
    using sender_send_closed_bridge [of ?start api e info] sender_send_content [of ?start api e info]
      sender_send_commits [of ?start api e info] by auto
  have ev: "rp_events (resp_exec ends api (AppSend e info) y)
      = rp_events y @ (if ?b = Closed then [] else sender_adds e (rp_sender y))"
    using b by (auto simp: rp_events_def Let_def)
  show ?thesis
    using inv ok' b
    unfolding resp_inv_def ev Let_def
    by (auto simp: Let_def split: if_splits)
qed

lemma scheduled_inv:
  assumes inv: "resp_inv y" shows "resp_inv (resp_exec ends api Scheduled y)"
proof (cases "rp_pending y = 0 \<or> fl_watermark (rp_filter y) \<noteq> 0")
  case True
  with inv show ?thesis
    by (auto simp: resp_inv_def Let_def rp_events_def)
next
  case False
  let ?f = "rp_filter y"
  let ?b = "fl_response_bridge ?f"
  let ?emptied = "?f\<lparr>fl_response_bridge := (if ?b = Closed then Closed else Empty)\<rparr>"
  let ?f' = "fold (send_step ends) (bridge_content ?b) ?emptied"
  define f' where "f' = ?f'"
  have y': "resp_exec ends api Scheduled y = y\<lparr>rp_pending := rp_pending y - 1, rp_filter := f',
      rp_handed := rp_handed y @ bridge_content ?b\<rparr>"
    using False by (simp add: Let_def process_send_effects f'_def)
  have eff: "response_calls (fl_calls f') = response_calls (fl_calls ?f) @ concat (map event_calls (bridge_content ?b))"
    "fl_written f' = fl_written ?f + length (filter event_more (bridge_content ?b))"
    "same_or_closed (if ?b = Closed then Closed else Empty) f'"
    using send_steps_effects [of ends "bridge_content ?b" ?emptied "if ?b = Closed then Closed else Empty"]
    by (simp_all add: same_or_closed_def f'_def)
  have lr: "length (filter is_local_reply (fl_calls f')) \<le> (if fl_response_closed f' then 1 else 0)"
    using local_replies_fold [of ?emptied ends "bridge_content ?b"] inv by (simp add: resp_inv_def Let_def f'_def)
  have ev: "rp_events (resp_exec ends api Scheduled y) = rp_events y"
    unfolding y' using eff(3) by (auto simp: rp_events_def same_or_closed_def)
  have "sender_ok ((rp_sender y)\<lparr>sn_bridge := (if ?b = Closed then Closed else Empty)\<rparr>) (app_events (rp_events y))"
    using inv by (auto simp: resp_inv_def Let_def bridge_wf_def intro: sender_ok_bridge)
  moreover have "sender_ok ((rp_sender y)\<lparr>sn_bridge := Closed\<rparr>) (app_events (rp_events y))"
    using inv sender_ok_prefix [where b = ?b and ys = "[]"] by (simp add: resp_inv_def Let_def)
  ultimately have "sender_ok ((rp_sender y)\<lparr>sn_bridge := fl_response_bridge f'\<rparr>) (app_events (rp_events y))"
    using eff(3) by (auto simp: same_or_closed_def)
  moreover have "bridge_content (fl_response_bridge f') = []"
    using eff(3) by (auto simp: same_or_closed_def split: if_splits)
  ultimately show ?thesis
    using inv eff(1,2) lr unfolding resp_inv_def ev Let_def unfolding y' by simp
qed

lemma resp_exec_inv [pres]:
  assumes inv: "resp_inv y" shows "resp_inv (resp_exec ends api op y)"
proof (cases op)
  case (AppSend e info)
  with app_send_inv [OF inv] show ?thesis by simp
next
  case AppFails
  let ?b = "fl_response_bridge (rp_filter y)"
  have "app_events (bridge_content (snd (bridge_offer ?b ResponseException))) = app_events (bridge_content ?b)"
    by (cases ?b) (simp_all add: bridge_offer_def app_events_def)
  moreover have "bridge_wf ?b" using inv by (simp add: resp_inv_def Let_def sender_ok_def)
  moreover have "?b \<noteq> Closed \<Longrightarrow> bridge_offer ?b ResponseException = (True, snd (bridge_offer ?b ResponseException))"
    by (cases ?b) (simp_all add: bridge_offer_def)
  ultimately show ?thesis
    using inv sender_ok_bridge [where s = "rp_sender y" and b = ?b and b' = "snd (bridge_offer ?b ResponseException)"]
    by (cases "?b = Closed") (auto simp: AppFails resp_inv_def Let_def app_fails_def rp_events_def
        bridge_offer_wf split: prod.splits)
next
  case Scheduled
  with scheduled_inv [OF inv] show ?thesis by simp
next
  case AboveHigh
  have "w \<noteq> -1 \<Longrightarrow> w + 1 \<noteq> 0" for w :: u64 by (simp add: add_eq_0_iff2)
  with inv show ?thesis
    by (auto simp: AboveHigh resp_inv_def Let_def rp_events_def on_above_high_watermark_def)
next
  case BelowLow
  with inv show ?thesis
    by (auto simp: resp_inv_def Let_def rp_events_def on_below_low_watermark_def)
next
  case StreamComplete
  let ?f = "on_stream_complete (rp_filter y)"
  have f: "fl_calls ?f = fl_calls (rp_filter y)" "fl_written ?f = fl_written (rp_filter y)"
    "fl_response_bridge ?f = Closed" "fl_response_closed ?f"
    by (simp_all add: on_stream_complete_effects)
  have "sender_ok ((rp_sender y)\<lparr>sn_bridge := Closed\<rparr>) (app_events (rp_handed y))"
    using inv sender_ok_prefix by (auto simp: resp_inv_def Let_def rp_events_def)
  with inv f show ?thesis
    by (auto simp: StreamComplete resp_inv_def Let_def rp_events_def split: if_splits)
qed

interpretation resp_machine: machine_contract "resp_exec ends api" "\<lambda>_. True" resp_inv for ends api
  by unfold_locales (rule resp_exec_inv)

lemma resp_run_inv: "resp_inv (fold (resp_exec ends api) ops resp_sys_new)"
  by (rule resp_machine.fold_inv)
    (auto simp: list_all_iff resp_inv_def Let_def sender_ok_def resp_sys_new_def response_sender_new_def
      filter_new_def rp_events_def bridge_new_def bridge_wf_def sender_phase_def app_events_def
      response_calls_def)

section \<open>Properties of the response\<close>



section \<open>Upstream streams: the system\<close>

text \<open>
  Python offers events (every request makes a new channel), Envoy delivers scheduled events and
  the callbacks of upstream streams in any order, for any handle.
\<close>

record stream_sys =
  ss_filter :: wsgi_filter
  ss_next :: chan

datatype stream_op =
    OfferStart start_stream
  | OfferData u64 bytes bool
  | OfferReset u64 "pyval option"
  | RunTransport
  | UpHeaders u64 headers bool
  | UpData u64 "bytes list" bool
  | UpTrailers u64 headers
  | UpReset u64 stream_reset_reason
  | UpComplete u64
  | DownComplete

definition stream_sys_new :: stream_sys where
  "stream_sys_new = \<lparr>ss_filter = filter_new True, ss_next = 0\<rparr>"

definition offer_transport :: "transport_event \<Rightarrow> wsgi_filter \<Rightarrow> wsgi_filter" where
  "offer_transport e f =
     f\<lparr>fl_transport_bridge := map_option (\<lambda>b. snd (bridge_offer b e)) (fl_transport_bridge f)\<rparr>"

fun stream_exec :: "envoy_api \<Rightarrow> stream_op \<Rightarrow> stream_sys \<Rightarrow> stream_sys" where
  "stream_exec api (OfferStart ev) y =
     y\<lparr>ss_filter := offer_transport (TransportStart (ev\<lparr>st_response_tx := ss_next y\<rparr>)) (ss_filter y),
       ss_next := ss_next y + 1\<rparr>"
| "stream_exec api (OfferData h d e) y = y\<lparr>ss_filter := offer_transport (TransportSendData h d e) (ss_filter y)\<rparr>"
| "stream_exec api (OfferReset h e) y = y\<lparr>ss_filter := offer_transport (TransportReset h e) (ss_filter y)\<rparr>"
| "stream_exec api RunTransport y = y\<lparr>ss_filter := process_transport_events api (ss_filter y)\<rparr>"
| "stream_exec api (UpHeaders h hs e) y = y\<lparr>ss_filter := on_http_stream_headers api h hs e (ss_filter y)\<rparr>"
| "stream_exec api (UpData h d e) y = y\<lparr>ss_filter := on_http_stream_data h d e (ss_filter y)\<rparr>"
| "stream_exec api (UpTrailers h ts) y = y\<lparr>ss_filter := on_http_stream_trailers api h ts (ss_filter y)\<rparr>"
| "stream_exec api (UpReset h r) y = y\<lparr>ss_filter := on_http_stream_reset h r (ss_filter y)\<rparr>"
| "stream_exec api (UpComplete h) y = y\<lparr>ss_filter := on_http_stream_complete h (ss_filter y)\<rparr>"
| "stream_exec api DownComplete y = y\<lparr>ss_filter := on_stream_complete (ss_filter y)\<rparr>"

text \<open>What a channel carries: a lone refusal, or the handle and data, with at most one reset,
  at the end.\<close>

definition chan_log :: "wsgi_filter \<Rightarrow> chan \<Rightarrow> transport_response list" where
  "chan_log f ch = map snd (filter (\<lambda>p. fst p = ch) (fl_sends f))"

fun is_data :: "transport_response \<Rightarrow> bool" where
  "is_data (Started h) = False"
| "is_data (RespReset r e) = False"
| "is_data _ = True"

fun live_log :: "transport_response list \<Rightarrow> bool" where
  "live_log (Started h # rs) = list_all is_data rs"
| "live_log _ = False"

definition chan_ok :: "transport_response list \<Rightarrow> bool" where
  "chan_ok rs \<longleftrightarrow> rs = [] \<or> rs = [RespReset InvalidUpstream None] \<or> live_log rs
     \<or> (rs \<noteq> [] \<and> live_log (butlast rs) \<and> (case last rs of RespReset r e \<Rightarrow> True | _ \<Rightarrow> False))"

fun pending_chans :: "transport_event list \<Rightarrow> chan list" where
  "pending_chans [] = []"
| "pending_chans (TransportStart ev # es) = st_response_tx ev # pending_chans es"
| "pending_chans (_ # es) = pending_chans es"

definition stream_inv :: "chan \<Rightarrow> wsgi_filter \<Rightarrow> transport_event list \<Rightarrow> bool" where
  "stream_inv n f es \<longleftrightarrow>
     (let live = map_of (fl_transport_responses f) in
      distinct (map fst (fl_transport_responses f))
      \<and> (\<forall>h st. live h = Some st \<longrightarrow> ts_response_tx st < n \<and> live_log (chan_log f (ts_response_tx st)))
      \<and> (\<forall>h h' st st'. live h = Some st \<and> live h' = Some st' \<and> ts_response_tx st = ts_response_tx st' \<longrightarrow> h = h')
      \<and> (\<forall>ch \<in> set (pending_chans es). ch < n \<and> chan_log f ch = [])
      \<and> distinct (pending_chans es)
      \<and> (\<forall>ch. chan_ok (chan_log f ch)) \<and> (\<forall>ch \<ge> n. chan_log f ch = []))"

lemma chan_log_tx_send: "chan_log (tx_send tx r f) ch = chan_log f ch @ (if ch = tx then [r] else [])"
  by (simp add: chan_log_def)

lemma chan_log_simps [simp]:
  "chan_log (call c f) = chan_log f"
  "chan_log (f\<lparr>fl_transport_responses := t\<rparr>) = chan_log f"
  "chan_log (f\<lparr>fl_transport_bridge := b\<rparr>) = chan_log f"
  by (auto simp: chan_log_def call_def fun_eq_iff)

lemma live_log_data: "live_log rs \<Longrightarrow> is_data r \<Longrightarrow> live_log (rs @ [r])"
  by (cases rs rule: live_log.cases) auto

lemma live_log_ok: "live_log rs \<Longrightarrow> chan_ok rs"
  by (simp add: chan_ok_def)

lemma live_log_reset: "live_log rs \<Longrightarrow> chan_ok (rs @ [RespReset r e])"
  by (simp add: chan_ok_def)

lemma live_log_not_Nil [simp]: "live_log [] = False"
  by simp

lemma stream_inv_call [simp]: "stream_inv n (call c f) es = stream_inv n f es"
  by (simp add: stream_inv_def call_def chan_log_def)

lemma stream_inv_bridge [simp]: "stream_inv n (f\<lparr>fl_transport_bridge := b\<rparr>) es = stream_inv n f es"
  by (simp add: stream_inv_def)

lemma response_tx_for_Some:
  "response_tx_for h f = Some tx \<longleftrightarrow> (\<exists>st. map_of (fl_transport_responses f) h = Some st \<and> ts_response_tx st = tx)"
  by (auto simp: response_tx_for_def)

lemma stream_inv_live:
  assumes "stream_inv n f es" and "map_of (fl_transport_responses f) h = Some st"
  shows "ts_response_tx st < n" and "live_log (chan_log f (ts_response_tx st))"
    and "map_of (fl_transport_responses f) h' = Some st' \<Longrightarrow> ts_response_tx st' = ts_response_tx st \<Longrightarrow> h' = h"
    and "ts_response_tx st \<notin> set (pending_chans es)"
proof -
  show live: "live_log (chan_log f (ts_response_tx st))" and "ts_response_tx st < n"
    and "map_of (fl_transport_responses f) h' = Some st' \<Longrightarrow> ts_response_tx st' = ts_response_tx st \<Longrightarrow> h' = h"
    using assms unfolding stream_inv_def Let_def by blast+
  show "ts_response_tx st \<notin> set (pending_chans es)"
  proof
    assume "ts_response_tx st \<in> set (pending_chans es)"
    with assms(1) have "chan_log f (ts_response_tx st) = []"
      unfolding stream_inv_def Let_def by blast
    with live show False by simp
  qed
qed

lemma stream_inv_not_live:
  assumes "stream_inv n f es" and "chan_log f ch = []" and "map_of (fl_transport_responses f) h = Some st"
  shows "ts_response_tx st \<noteq> ch"
  using stream_inv_live(2) [OF assms(1,3)] assms(2) by auto

lemma stream_inv_data:
  assumes inv: "stream_inv n f es" and tx: "response_tx_for h f = Some tx" and "is_data r"
  shows "stream_inv n (tx_send tx r f) es" and "response_tx_for h (tx_send tx r f) = Some tx"
proof -
  from tx inv have live: "live_log (chan_log f tx)" and n: "tx < n"
    by (auto simp: response_tx_for_Some stream_inv_def Let_def)
  then have "tx \<notin> set (pending_chans es)"
    using inv by (auto simp: stream_inv_def Let_def)
  with inv live n assms(3) show "stream_inv n (tx_send tx r f) es"
    by (auto simp: stream_inv_def Let_def chan_log_tx_send live_log_data live_log_ok)
  from tx show "response_tx_for h (tx_send tx r f) = Some tx"
    by (simp add: response_tx_for_def)
qed

lemma stream_inv_delete:
  "stream_inv n f es \<Longrightarrow>
     stream_inv n (f\<lparr>fl_transport_responses := AList.delete h (fl_transport_responses f)\<rparr>) es"
  by (auto simp: stream_inv_def Let_def delete_conv' distinct_delete split: if_splits)

text \<open>Ending a stream: its entry is removed and its channel gets a last reset.\<close>

definition finish_stream :: "u64 \<Rightarrow> transport_state \<Rightarrow> reset_reason \<Rightarrow> wsgi_filter \<Rightarrow> wsgi_filter" where
  "finish_stream h st reason f =
     tx_send (ts_response_tx st) (RespReset reason (ts_exception st))
       (f\<lparr>fl_transport_responses := AList.delete h (fl_transport_responses f)\<rparr>)"

lemma stream_inv_finish:
  assumes inv: "stream_inv n f es" and h: "map_of (fl_transport_responses f) h = Some st"
  shows "stream_inv n (finish_stream h st reason f) es"
proof -
  let ?tx = "ts_response_tx st" and ?R = "fl_transport_responses f"
  have dist: "distinct (map fst ?R)" using inv by (simp add: stream_inv_def Let_def)
  note live = stream_inv_live [OF inv h]
  have inj: "\<And>h' st'. (h', st') \<in> set ?R \<Longrightarrow> ts_response_tx st' = ?tx \<Longrightarrow> h' = h"
    using live(3) dist by (metis map_of_eq_Some_iff)
  from live(1,2,4) stream_inv_delete [OF inv, of h] show ?thesis
    by (auto simp: finish_stream_def stream_inv_def Let_def chan_log_tx_send live_log_reset
        delete_conv' dist split: if_splits) (use inj in blast)+
qed

lemma stream_inv_reset:
  "stream_inv n f es \<Longrightarrow> stream_inv n (on_http_stream_reset h reason f) es"
  using stream_inv_finish [of n f es h _ "reset_reason_of reason"]
  by (auto simp: on_http_stream_reset_def finish_stream_def split: option.split)

lemma stream_inv_reset_call:
  "stream_inv n f es \<Longrightarrow> stream_inv n (reset_http_stream api h f) es"
  by (auto simp: reset_http_stream_def Let_def stream_inv_reset split: option.split)

lemma stream_inv_exception:
  assumes "stream_inv n f es" and "map_of (fl_transport_responses f) h = Some st"
  shows "stream_inv n (f\<lparr>fl_transport_responses := AList.update h (st\<lparr>ts_exception := e\<rparr>)
    (fl_transport_responses f)\<rparr>) es"
proof -
  have "distinct (map fst (fl_transport_responses f))" using assms(1) by (simp add: stream_inv_def Let_def)
  then have inj: "(h', st') \<in> set (fl_transport_responses f) \<Longrightarrow> ts_response_tx st' = ts_response_tx st \<Longrightarrow> h' = h"
    for h' st'
    using stream_inv_live(3) [OF assms] by (metis map_of_eq_Some_iff)
  show ?thesis
    using assms
    by (auto simp: stream_inv_def Let_def update_conv' distinct_update split: if_splits)
      (use inj in blast)+
qed

lemma stream_inv_start:
  assumes inv: "stream_inv n f es" and ch: "ch < n" "chan_log f ch = []" "ch \<notin> set (pending_chans es)"
  shows "stream_inv n ((tx_send ch (Started h) f)\<lparr>fl_transport_responses :=
    AList.update h \<lparr>ts_response_tx = ch, ts_exception = None\<rparr> (fl_transport_responses f)\<rparr>) es"
proof -
  note stream_inv_not_live [OF inv ch(2)]
  with inv ch show ?thesis
    by (auto simp: stream_inv_def Let_def update_conv' distinct_update chan_log_tx_send
        live_log_ok split: if_splits)
qed

lemma transport_step_inv:
  assumes inv: "stream_inv n f (e # es)"
  shows "stream_inv n (transport_step api e f) es"
proof (cases e)
  case (TransportStart ev)
  let ?ch = "st_response_tx ev"
  from inv have ch: "?ch < n" "chan_log f ?ch = []" "?ch \<notin> set (pending_chans es)"
    and inv': "stream_inv n f es"
    by (auto simp: TransportStart stream_inv_def Let_def)
  have refused: "stream_inv n (tx_send ?ch (RespReset InvalidUpstream None) f) es"
  proof -
    note stream_inv_not_live [OF inv' ch(2)]
    with inv' ch show ?thesis
      by (auto simp: stream_inv_def Let_def chan_log_tx_send chan_ok_def)
  qed
  let ?c = "StartHttpStream (st_cluster ev) (upstream_headers ev) (st_buffered_body ev)
      (st_buffered_body ev \<noteq> None) (st_timeout_ms ev)"
  have com: "tx_send ch r (call c f) = call c (tx_send ch r f)" for ch r c
    by (simp add: tx_send_def call_def)
  have com2: "(call c g)\<lparr>fl_transport_responses := t\<rparr> = call c (g\<lparr>fl_transport_responses := t\<rparr>)" for c g t
    by (simp add: call_def)
  have resp: "fl_transport_responses (call c g) = fl_transport_responses g" for c g
    by (simp add: call_def)
  obtain ok h where r: "start_result api (fl_calls (call ?c f)) = (ok, h)" by (metis prod.exhaust)
  show ?thesis
  proof (cases ok)
    case True
    with r stream_inv_start [OF inv' ch, of h] show ?thesis
      by (simp add: TransportStart Let_def com com2 resp)
  next
    case False
    with r refused show ?thesis by (simp add: TransportStart Let_def com)
  qed
next
  case (TransportSendData h d e)
  from inv have "stream_inv n f es" by (simp add: TransportSendData stream_inv_def)
  then show ?thesis by (simp add: TransportSendData)
next
  case (TransportReset h ex)
  from inv have inv': "stream_inv n f es" by (simp add: TransportReset stream_inv_def)
  then show ?thesis
    using stream_inv_exception [OF inv']
    by (auto simp: TransportReset intro!: stream_inv_reset_call split: option.split)
qed

lemma transport_steps_inv:
  "stream_inv n f (es @ es') \<Longrightarrow> stream_inv n (fold (transport_step api) es f) es'"
proof (induction es arbitrary: f)
  case Nil
  then show ?case by simp
next
  case (Cons e es)
  from Cons.IH [of "transport_step api e f"] transport_step_inv [of n f e "es @ es'" api] Cons.prems
  show ?case by simp
qed

definition stream_sys_inv :: "stream_sys \<Rightarrow> bool" where
  "stream_sys_inv y \<longleftrightarrow>
     (\<exists>b. fl_transport_bridge (ss_filter y) = Some b
        \<and> stream_inv (ss_next y) (ss_filter y) (bridge_content b))"

lemma pending_chans_append [simp]: "pending_chans (xs @ ys) = pending_chans xs @ pending_chans ys"
  by (induction xs rule: pending_chans.induct) auto

lemma stream_inv_no_start:
  "pending_chans es' = pending_chans es \<Longrightarrow> stream_inv n f es' = stream_inv n f es"
  by (simp add: stream_inv_def)

lemma stream_inv_closed:
  assumes "stream_inv n f es" shows "stream_inv n f []"
  using assms by (simp add: stream_inv_def Let_def)

lemma stream_inv_next:
  assumes "stream_inv n f es"
  shows "stream_inv (Suc n) f (es @ [TransportStart (ev\<lparr>st_response_tx := n\<rparr>)])" and "stream_inv (Suc n) f es"
  using assms by (auto simp: stream_inv_def Let_def less_Suc_eq)

lemma offer_transport_inv:
  assumes "fl_transport_bridge f = Some b"
    and "stream_inv n f (bridge_content b)" and "stream_inv n f (bridge_content b @ [e])"
  shows "\<exists>b'. fl_transport_bridge (offer_transport e f) = Some b'
     \<and> stream_inv n (offer_transport e f) (bridge_content b')"
  using assms by (cases "b = Closed") (simp_all add: offer_transport_def bridge_offer_content)

lemma process_transport_eq:
  "fl_transport_bridge f = Some b \<Longrightarrow> process_transport_events api f =
     fold (transport_step api) (bridge_content b)
       (f\<lparr>fl_transport_bridge := Some (if b = Closed then Closed else Empty)\<rparr>)"
  by (cases b) (simp_all add: process_transport_events_def)

lemma reset_call_bridge [simp]: "fl_transport_bridge (reset_http_stream api h f) = fl_transport_bridge f"
  by (auto simp: reset_http_stream_def Let_def on_http_stream_reset_def call_def split: option.split)

lemma transport_step_bridge [simp]: "fl_transport_bridge (transport_step api e f) = fl_transport_bridge f"
proof (cases e)
  case (TransportStart ev)
  then show ?thesis by (auto simp: Let_def call_def split: prod.split bool.split)
qed (auto simp: call_def split: option.split)

lemma transport_steps_bridge [simp]:
  "fl_transport_bridge (fold (transport_step api) es f) = fl_transport_bridge f"
  by (induction es arbitrary: f) (simp_all del: transport_step.simps)

lemma stream_headers_inv:
  "stream_inv n f es \<Longrightarrow> stream_inv n (on_http_stream_headers api h hs e f) es"
  by (auto simp: on_http_stream_headers_def stream_inv_reset_call stream_inv_data
      split: option.split prod.split)

lemma stream_data_inv:
  assumes "stream_inv n f es" shows "stream_inv n (on_http_stream_data h d e f) es"
proof (cases "response_tx_for h f")
  case None
  with assms show ?thesis by (simp add: on_http_stream_data_def)
next
  case (Some tx)
  let ?g = "if concat d \<noteq> [] then tx_send tx (RespBody (concat d)) f else f"
  have "stream_inv n ?g es" "response_tx_for h ?g = Some tx"
    using stream_inv_data [OF assms Some, of "RespBody (concat d)"] assms Some by auto
  then show ?thesis
    using stream_inv_data(1) [of n ?g es h tx RespEnd] by (simp add: on_http_stream_data_def Some Let_def)
qed

lemma tx_send_responses:
  "tx_send tx r (f\<lparr>fl_transport_responses := R\<rparr>) = (tx_send tx r f)\<lparr>fl_transport_responses := R\<rparr>"
  by (cases f) (simp add: tx_send_def)

lemma stream_complete_fold:
  "stream_inv n (f\<lparr>fl_transport_responses := R\<rparr>) es \<Longrightarrow>
     stream_inv n (fold (\<lambda>(h, st). tx_send (ts_response_tx st) (RespReset reason (ts_exception st))) R
       (f\<lparr>fl_transport_responses := []\<rparr>)) es"
proof (induction R arbitrary: f)
  case Nil
  then show ?case by simp
next
  case (Cons e R)
  obtain h st where e: "e = (h, st)" by (cases e)
  let ?f = "f\<lparr>fl_transport_responses := e # R\<rparr>"
  have "h \<notin> set (map fst R)" using Cons.prems by (simp add: stream_inv_def Let_def e)
  then have "AList.delete h (e # R) = R"
    using delete_id [of h R] by (simp add: e)
  moreover have "stream_inv n (finish_stream h st reason ?f) es"
    by (rule stream_inv_finish [OF Cons.prems]) (simp add: e)
  ultimately have "stream_inv n ((tx_send (ts_response_tx st) (RespReset reason (ts_exception st)) f)
      \<lparr>fl_transport_responses := R\<rparr>) es"
    by (simp add: finish_stream_def tx_send_responses)
  from Cons.IH [OF this] show ?case by (simp add: e tx_send_responses)
qed

lemma stream_complete_inv:
  assumes inv: "stream_inv n f es" shows "stream_inv n (on_stream_complete f) []"
proof -
  let ?g = "f\<lparr>fl_response_closed := True,
                fl_reader := (fl_reader f)\<lparr>rd_bridge := snd (bridge_close (rd_bridge (fl_reader f)))\<rparr>,
                fl_response_bridge := snd (bridge_close (fl_response_bridge f)),
                fl_transport_bridge := map_option (\<lambda>b. snd (bridge_close b)) (fl_transport_bridge f)\<rparr>"
  have "stream_inv n (?g\<lparr>fl_transport_responses := fl_transport_responses f\<rparr>) es"
    using inv by (simp add: stream_inv_def chan_log_def)
  from stream_complete_fold [OF this] show ?thesis
    by (intro stream_inv_closed [of n _ es]) (simp add: on_stream_complete_def Let_def)
qed

lemma stream_exec_inv [pres]:
  assumes inv: "stream_sys_inv y" shows "stream_sys_inv (stream_exec api op y)"
proof -
  from inv obtain b where b: "fl_transport_bridge (ss_filter y) = Some b"
    and I: "stream_inv (ss_next y) (ss_filter y) (bridge_content b)"
    by (auto simp: stream_sys_inv_def)
  show ?thesis
  proof (cases op)
    case (OfferStart ev)
    from offer_transport_inv [OF b stream_inv_next(2) [OF I] stream_inv_next(1) [OF I]]
    show ?thesis by (simp add: OfferStart stream_sys_inv_def)
  next
    case (OfferData h d e)
    from offer_transport_inv [OF b I, of "TransportSendData h d e"] I
    show ?thesis
      using stream_inv_no_start [of "bridge_content b @ [TransportSendData h d e]" "bridge_content b"]
      by (simp add: OfferData stream_sys_inv_def)
  next
    case (OfferReset h e)
    from offer_transport_inv [OF b I, of "TransportReset h e"] I
    show ?thesis
      using stream_inv_no_start [of "bridge_content b @ [TransportReset h e]" "bridge_content b"]
      by (simp add: OfferReset stream_sys_inv_def)
  next
    case RunTransport
    let ?b = "if b = Closed then Closed else Empty"
    let ?g = "(ss_filter y)\<lparr>fl_transport_bridge := Some ?b\<rparr>"
    have "stream_inv (ss_next y) (fold (transport_step api) (bridge_content b) ?g) []"
      using transport_steps_inv [of "ss_next y" ?g "bridge_content b" "[]"] I by simp
    moreover have "bridge_content ?b = []" by simp
    ultimately show ?thesis
      by (cases "b = Closed") (auto simp: RunTransport stream_sys_inv_def process_transport_eq [OF b])
  next
    case (UpHeaders h hs e)
    have "fl_transport_bridge (on_http_stream_headers api h hs e (ss_filter y)) = Some b"
      using b by (auto simp: on_http_stream_headers_def split: option.split prod.split)
    with stream_headers_inv [OF I] show ?thesis by (auto simp: UpHeaders stream_sys_inv_def)
  next
    case (UpData h d e)
    have "fl_transport_bridge (on_http_stream_data h d e (ss_filter y)) = Some b"
      using b by (auto simp: on_http_stream_data_def Let_def split: option.split)
    with stream_data_inv [OF I] show ?thesis by (auto simp: UpData stream_sys_inv_def)
  next
    case (UpTrailers h ts)
    with b I stream_inv_data(1) [OF I] show ?thesis
      by (auto simp: stream_sys_inv_def on_http_stream_trailers_def split: option.split)
  next
    case (UpReset h r)
    have "fl_transport_bridge (on_http_stream_reset h r (ss_filter y)) = Some b"
      using b by (auto simp: on_http_stream_reset_def split: option.split)
    with stream_inv_reset [OF I] show ?thesis by (auto simp: UpReset stream_sys_inv_def)
  next
    case (UpComplete h)
    with b stream_inv_delete [OF I] show ?thesis
      by (auto simp: stream_sys_inv_def on_http_stream_complete_def)
  next
    case DownComplete
    with b stream_complete_inv [OF I] show ?thesis
      by (simp add: stream_sys_inv_def on_stream_complete_effects)
  qed
qed

interpretation stream_machine: machine_contract "stream_exec api" "\<lambda>_. True" stream_sys_inv for api
  by unfold_locales (rule stream_exec_inv)

lemma stream_run_inv: "stream_sys_inv (fold (stream_exec api) ops stream_sys_new)"
  by (rule stream_machine.fold_inv)
    (auto simp: list_all_iff stream_sys_inv_def stream_sys_new_def filter_new_def stream_inv_def
      chan_log_def chan_ok_def bridge_new_def)

section \<open>Properties of upstream streams\<close>

text \<open>
  C19. Every channel of an HTTP client request carries a well-formed conversation: nothing, a
  lone refusal, or the stream's handle first, then headers, data and trailers, and at most one
  reset, after which nothing more is sent. This holds for any interleaving of requests, data,
  resets, scheduled events and callbacks of Envoy, including callbacks for unknown handles,
  repeated handles, and resets that re-enter the filter.
\<close>

theorem upstream_channel_protocol:
  "chan_ok (chan_log (ss_filter (fold (stream_exec api) ops stream_sys_new)) ch)"
proof -
  have "stream_sys_inv (fold (stream_exec api) ops stream_sys_new)" by (rule stream_run_inv)
  then show ?thesis by (auto simp: stream_sys_inv_def stream_inv_def Let_def)
qed

lemma closed_stream_exec:
  assumes "fl_transport_bridge (ss_filter y) = Some Closed" and "fl_transport_responses (ss_filter y) = []"
  shows "fl_transport_bridge (ss_filter (stream_exec api op y)) = Some Closed
     \<and> fl_transport_responses (ss_filter (stream_exec api op y)) = []
     \<and> fl_sends (ss_filter (stream_exec api op y)) = fl_sends (ss_filter y)"
  using assms
  by (cases op)
    (auto simp: offer_transport_def process_transport_events_def on_http_stream_headers_def
      response_tx_for_def on_http_stream_data_def on_http_stream_trailers_def on_http_stream_reset_def
      on_http_stream_complete_def on_stream_complete_effects reset_http_stream_def Let_def call_def
      split: option.split)

lemma closed_stream_run:
  assumes "fl_transport_bridge (ss_filter y) = Some Closed" and "fl_transport_responses (ss_filter y) = []"
  shows "fl_sends (ss_filter (fold (stream_exec api) ops y)) = fl_sends (ss_filter y)"
  using assms
proof (induction ops arbitrary: y)
  case (Cons op ops)
  from Cons.IH [of "stream_exec api op y"] closed_stream_exec [OF Cons.prems, of api op] show ?case by simp
qed simp

text \<open>
  No request of the HTTP client outlives the request it was made for: when the downstream
  stream completes, every live channel gets, as its last message, a reset that says so, with the
  exception stored for it; no stream stays live (so every other sender is gone and its receiver
  sees a hang-up), and nothing that happens later, a new request included, sends anything more.
\<close>

theorem upstream_released_on_complete:
  "let y = fold (stream_exec api) ops stream_sys_new; z = stream_exec api DownComplete y in
     fl_sends (ss_filter (fold (stream_exec api) ops' z)) =
       fl_sends (ss_filter y)
       @ map (\<lambda>(h, st). (ts_response_tx st, RespReset ServerRequestDone (ts_exception st)))
           (fl_transport_responses (ss_filter y))
     \<and> fl_transport_responses (ss_filter z) = []
     \<and> fl_transport_bridge (ss_filter z) = Some Closed"
proof -
  let ?y = "fold (stream_exec api) ops stream_sys_new"
  let ?z = "stream_exec api DownComplete ?y"
  have "stream_sys_inv ?y" by (rule stream_run_inv)
  then obtain b where "fl_transport_bridge (ss_filter ?y) = Some b" by (auto simp: stream_sys_inv_def)
  then have z: "fl_transport_bridge (ss_filter ?z) = Some Closed" "fl_transport_responses (ss_filter ?z) = []"
    by (simp_all add: on_stream_complete_effects)
  from closed_stream_run [OF z, of api ops'] z show ?thesis
    by (simp add: Let_def on_stream_complete_effects)
qed

end
