(* ===== verification/Wsgi_App.thy ===== *)
theory Wsgi_App
  imports Wsgi_Filter
begin

text \<open>
  \<open>src/src/wsgi/python.rs\<close>: running a WSGI application on a worker thread. The environ, the
  callables and streams it is given, the loop over the iterable it returns, and the error path.
\<close>

section \<open>Code outside the repository\<close>

text \<open>
  \<open>decode_latin1\<close> of encoding_rs, \<open>decode_binary\<close> of urlencoding, the lossy UTF-8 conversion,
  the parsers of the \<open>http\<close> crate, and the text of its header constants (\<open>hc\<close>, see theory
  \<open>Header_Names\<close>).
\<close>

record wsgi_api =
  decode_latin1 :: "bytes \<Rightarrow> bytes"
  decode_binary :: "bytes \<Rightarrow> bytes"
  from_utf8_lossy :: "bytes \<Rightarrow> bytes"
  authority :: "bytes \<Rightarrow> (bytes \<times> nat option) option"
  header_name :: "bytes \<Rightarrow> bytes option"
  header_value :: "bytes \<Rightarrow> bytes option"
  status_code :: "bytes \<Rightarrow> bytes option"
  hc :: "string \<Rightarrow> bytes"
  exc :: exc_api

section \<open>The environ\<close>

definition wsgi_name :: "wsgi_api \<Rightarrow> bytes \<Rightarrow> bytes" where
  "wsgi_name api k = (case to_wsgi_string (hc api) k of Some n \<Rightarrow> n | None \<Rightarrow> [])"

text \<open>Up to the path: the query string and \<open>PATH_INFO\<close> below the root path.\<close>

definition environ_path :: "wsgi_api \<Rightarrow> bytes \<Rightarrow> scope \<Rightarrow> pyerr + pydict" where
  "environ_path api root_path sc =
     (let d = set_http_method ''REQUEST_METHOD'' (sc_method sc) [];
          d = dict_set ''SCRIPT_NAME'' (PyStr root_path) d;
          (d, raw_path) =
            (case position (\<lambda>b. b = CHR ''?'') (sc_raw_path sc) of
               Some query_idx \<Rightarrow>
                 (dict_set ''QUERY_STRING''
                    (PyStr (decode_latin1 api (drop (query_idx + 1) (sc_raw_path sc)))) d,
                  take query_idx (sc_raw_path sc))
             | None \<Rightarrow> (dict_set ''QUERY_STRING'' (PyStr []) d, sc_raw_path sc));
          decoded_path = decode_binary api raw_path
      in if root_path = [] then Inr (dict_set ''PATH_INFO'' (PyStr (decode_latin1 api decoded_path)) d)
         else if take (length root_path) decoded_path = root_path then
           Inr (dict_set ''PATH_INFO''
             (PyStr (decode_latin1 api (drop (length root_path) decoded_path))) d)
         else Inl (ValueError (''Request path '' @ [CHR 0x27] @ from_utf8_lossy api decoded_path
                @ [CHR 0x27] @ '' does not start with root path '' @ [CHR 0x27] @ root_path @ [CHR 0x27])))"

text \<open>One header: the content headers have keys of their own, the others are joined.\<close>

definition environ_header :: "wsgi_api \<Rightarrow> bytes \<times> bytes \<Rightarrow> pydict \<Rightarrow> pyerr + pydict" where
  "environ_header api h d =
     (case h of (key, v) \<Rightarrow>
        if key = ''content-type'' then
          pbind (py_string_from_bytes v) (\<lambda>s. Inr (dict_set ''CONTENT_TYPE'' s d))
        else if key = ''content-length'' then
          pbind (py_string_from_bytes v) (\<lambda>s. Inr (dict_set ''CONTENT_LENGTH'' s d))
        else
          (let name = wsgi_name api key; text = decode_latin1 api v in
           case dict_get d name of
             Some existing \<Rightarrow>
               pbind (cast_str existing) (\<lambda>e. Inr (dict_set name (PyStr (e @ '','' @ text)) d))
           | None \<Rightarrow> Inr (dict_set name (PyStr text) d)))"

fun environ_headers :: "wsgi_api \<Rightarrow> headers \<Rightarrow> pydict \<Rightarrow> pyerr + pydict" where
  "environ_headers api [] d = Inr d"
| "environ_headers api (h # hs) d = pbind (environ_header api h d) (environ_headers api hs)"

text \<open>\<open>host_authority\<close>: the first Host header, if it is a valid authority.\<close>

definition host_authority :: "wsgi_api \<Rightarrow> headers \<Rightarrow> (bytes \<times> nat option) option" where
  "host_authority api hs =
     (case find (\<lambda>(n, _). n = ''host'') hs of
        None \<Rightarrow> None
      | Some (_, v) \<Rightarrow> authority api v)"

definition environ_server :: "wsgi_api \<Rightarrow> scope \<Rightarrow> pydict \<Rightarrow> pydict" where
  "environ_server api sc d =
     (case (case sc_server sc of
              Some (server, Some port) \<Rightarrow> Some (server, port)
            | Some (_, None) \<Rightarrow>
                map_option (\<lambda>(host, port). (host,
                    case port of Some p \<Rightarrow> int p
                    | None \<Rightarrow> if sc_scheme sc = ''https'' then 443 else 80))
                  (host_authority api (sc_headers sc))
            | None \<Rightarrow> None) of
        Some (server, port) \<Rightarrow>
          dict_set ''SERVER_PORT'' (PyStr (decimal_int port)) (dict_set ''SERVER_NAME'' (PyStr server) d)
      | None \<Rightarrow>
          dict_set ''SERVER_PORT'' (PyStr ''0'') (dict_set ''SERVER_NAME'' (PyStr ''localhost'') d))"

definition environ_tls :: "tls_info option \<Rightarrow> pydict \<Rightarrow> pydict" where
  "environ_tls info d =
     (case info of
        None \<Rightarrow> d
      | Some info \<Rightarrow>
          dict_set_opt ''wsgi.ext.tls.client_cert_name'' (map_option PyStr (client_cert_name info))
            (dict_set_opt ''wsgi.ext.tls.tls_version''
               (map_option (PyStr \<circ> decimal) (tls_version info)) d))"

text \<open>The objects of the request: \<open>RequestInput\<close>, \<open>ErrorsOutput\<close>, \<open>SendTrailersCallable\<close>.\<close>

definition REQUEST_INPUT :: pyval where "REQUEST_INPUT = PyObj 0"
definition ERRORS_OUTPUT :: pyval where "ERRORS_OUTPUT = PyObj 1"
definition SEND_TRAILERS :: pyval where "SEND_TRAILERS = PyObj 2"

definition environ_tail :: "wsgi_api \<Rightarrow> scope \<Rightarrow> pydict \<Rightarrow> pydict" where
  "environ_tail api sc d =
     (let d = environ_server api sc d;
          d = set_http_version_wsgi (sc_http_version sc) d;
          d = dict_set ''wsgi.version'' (PyTuple [PyInt 1, PyInt 0]) d;
          d = set_http_scheme ''wsgi.url_scheme'' (sc_scheme sc) d;
          d = dict_set ''wsgi.input'' REQUEST_INPUT d;
          d = dict_set ''wsgi.errors'' ERRORS_OUTPUT d;
          d = dict_set ''wsgi.multithread'' (PyBool True) d;
          d = dict_set ''wsgi.multiprocess'' (PyBool False) d;
          d = dict_set ''wsgi.run_once'' (PyBool False) d;
          d = environ_tls (sc_tls_info sc) d
      in dict_set ''wsgi.ext.http.send_trailers'' SEND_TRAILERS d)"

definition build_environ :: "wsgi_api \<Rightarrow> bytes \<Rightarrow> scope \<Rightarrow> pyerr + pydict" where
  "build_environ api root_path sc =
     pbind (environ_path api root_path sc) (\<lambda>d.
     pbind (environ_headers api (sc_headers sc) d) (\<lambda>d.
       Inr (environ_tail api sc d)))"

section \<open>The input stream\<close>

text \<open>\<open>in_rx\<close> is what the channel will deliver (\<open>None\<close>: the filter is gone); when it has run
  out, a read blocks.\<close>

record request_input =
  in_closed :: bool
  in_bridge :: "read_event bridge"
  in_commits :: nat
  in_rx :: "request_body option list"

definition do_read :: "read_event \<Rightarrow> request_input \<Rightarrow> (pyerr + bytes) option \<times> request_input" where
  "do_read event s =
     (if in_closed s then (Some (Inr []), s)
      else (case bridge_offer (in_bridge s) event of (ok, b) \<Rightarrow>
        (let s = s\<lparr>in_bridge := b, in_commits := in_commits s + (if ok then 1 else 0)\<rparr> in
         case in_rx s of
           [] \<Rightarrow> (None, s)
         | None # rx \<Rightarrow>
             (Some (Inl (RuntimeError ''Failed to receive request body: receiving on a closed channel'')),
              s\<lparr>in_rx := rx\<rparr>)
         | Some body # rx \<Rightarrow>
             (Some (Inr (rb_body body)),
              s\<lparr>in_rx := rx, in_closed := in_closed s \<or> rb_closed body\<rparr>))))"

definition input_read :: "int option \<Rightarrow> request_input \<Rightarrow> (pyerr + bytes) option \<times> request_input" where
  "input_read n s =
     (let n = (case n of Some n \<Rightarrow> n | None \<Rightarrow> -1) in
      if n = 0 then (Some (Inr []), s) else do_read (Raw n) s)"

definition input_readline :: "int option \<Rightarrow> request_input \<Rightarrow> (pyerr + bytes) option \<times> request_input" where
  "input_readline n s =
     (let n = (case n of Some n \<Rightarrow> n | None \<Rightarrow> -1) in
      if n = 0 then (Some (Inr []), s) else do_read (Line n) s)"

definition input_next :: "request_input \<Rightarrow> (pyerr + bytes) option \<times> request_input" where
  "input_next s =
     (case do_read (Line (-1)) s of
        (Some (Inr line), s) \<Rightarrow>
          (if line = [] then (Some (Inl StopIteration), s) else (Some (Inr line), s))
      | r \<Rightarrow> r)"

definition input_readlines :: "request_input \<Rightarrow> (pyerr + bytes list) option \<times> request_input" where
  "input_readlines s =
     (case do_read (Raw (-1)) s of
        (Some (Inr body), s) \<Rightarrow> (Some (Inr (split_inclusive (CHR 0x0A) body)), s)
      | (Some (Inl e), s) \<Rightarrow> (Some (Inl e), s)
      | (None, s) \<Rightarrow> (None, s))"

section \<open>The error stream\<close>

record errors_output =
  er_buffer :: bytes
  er_log :: "bytes list" \<comment> \<open>the lines logged to Envoy\<close>

definition log_lines :: "bytes \<Rightarrow> bytes list" where
  "log_lines s = filter (\<lambda>l. l \<noteq> []) (split_on (CHR 0x0A) s)"

definition ends_with_newline :: "bytes \<Rightarrow> bool" where
  "ends_with_newline s \<longleftrightarrow> s \<noteq> [] \<and> last s = CHR 0x0A"

definition errors_write :: "bytes \<Rightarrow> errors_output \<Rightarrow> nat \<times> errors_output" where
  "errors_write str s =
     (if str = [] then (0, s)
      else if ends_with_newline str \<and> er_buffer s = [] then
        (length str, s\<lparr>er_log := er_log s @ log_lines str\<rparr>)
      else
        (let buffer = er_buffer s @ str in
         if ends_with_newline buffer then
           (length str, s\<lparr>er_buffer := [], er_log := er_log s @ log_lines buffer\<rparr>)
         else (case rsplit_once (CHR 0x0A) buffer of
                 Some (to_write, remaining) \<Rightarrow>
                   (length str, s\<lparr>er_buffer := remaining,
                      er_log := er_log s @ log_lines (to_write @ [CHR 0x0A])\<rparr>)
               | None \<Rightarrow> (length str, s\<lparr>er_buffer := buffer\<rparr>))))"

definition errors_flush :: "errors_output \<Rightarrow> errors_output" where
  "errors_flush s =
     (if er_buffer s \<noteq> [] then s\<lparr>er_buffer := [], er_log := er_log s @ log_lines (er_buffer s)\<rparr> else s)"

fun writelines_loop :: "pyval list \<Rightarrow> pyerr + unit \<Rightarrow> errors_output \<Rightarrow> (pyerr + unit) \<times> errors_output" where
  "writelines_loop [] fin s = (fin, s)"
| "writelines_loop (item # items) fin s =
     (case cast_str item of
        Inl e \<Rightarrow> (Inl e, s)
      | Inr str \<Rightarrow>
          if str = [] then writelines_loop items fin s
          else (let str = (if ends_with_newline str then butlast str else str)
                in writelines_loop items fin (s\<lparr>er_log := er_log s @ [str]\<rparr>)))"

definition errors_writelines :: "pyval list \<Rightarrow> pyerr + unit \<Rightarrow> errors_output \<Rightarrow> (pyerr + unit) \<times> errors_output" where
  "errors_writelines items fin s = writelines_loop items fin (errors_flush s)"

section \<open>The callables\<close>

definition convert_header :: "wsgi_api \<Rightarrow> pyval \<Rightarrow> pyerr + (bytes \<times> bytes)" where
  "convert_header api item =
     pbind (seq_item item 0) (\<lambda>k. pbind (cast_str k) (\<lambda>key.
     pbind (seq_item item 1) (\<lambda>v. pbind (cast_str v) (\<lambda>val.
     pbind (case header_name api key of Some n \<Rightarrow> Inr n | None \<Rightarrow> Inl (ValueError ''invalid header name''))
       (\<lambda>n.
     pbind (case header_value api val of Some w \<Rightarrow> Inr w | None \<Rightarrow> Inl (ValueError ''invalid header value''))
       (\<lambda>w. Inr (n, w)))))))"

definition convert_headers :: "wsgi_api \<Rightarrow> pyval list \<Rightarrow> pyerr + headers" where
  "convert_headers api items = pmap (convert_header api) items"

definition start_response :: "wsgi_api \<Rightarrow> bytes \<Rightarrow> pyval list \<Rightarrow> pyval list option \<Rightarrow> response_sender
    \<Rightarrow> (pyerr + unit) \<times> response_sender" where
  "start_response api status response_headers exc_info s =
     (case convert_headers api response_headers of
        Inl e \<Rightarrow> (Inl e, s)
      | Inr headers \<Rightarrow>
          (let code = (case split_once (CHR '' '') status of Some (code, _) \<Rightarrow> code | None \<Rightarrow> status) in
           case status_code api code of
             None \<Rightarrow> (Inl (ValueError (''Invalid HTTP status code '' @ [CHR 0x27] @ code @ [CHR 0x27])), s)
           | Some st \<Rightarrow>
               sender_send (exc api) (SenderStart \<lparr>rs_status = st, rs_headers = headers\<rparr>) exc_info s))"

definition write_call :: "wsgi_api \<Rightarrow> bytes \<Rightarrow> response_sender \<Rightarrow> (pyerr + unit) \<times> response_sender" where
  "write_call api data s = sender_send (exc api) (SenderBody \<lparr>bd_body = data, bd_more = True\<rparr>) None s"

definition send_trailers :: "wsgi_api \<Rightarrow> pyval list \<Rightarrow> response_sender \<Rightarrow> (pyerr + unit) \<times> response_sender" where
  "send_trailers api trailers s =
     (case convert_headers api trailers of
        Inl e \<Rightarrow> (Inl e, s)
      | Inr ts \<Rightarrow> sender_send (exc api) (SenderTrailers ts) None s)"

section \<open>Running the application\<close>

text \<open>
  What an application does is a script: the calls it makes (whatever it makes of their
  results), then a response or an exception. The response is its \<open>len()\<close>, the items its
  iterator yields, each with the calls made before it, and how the iterator ends; and, if it
  has a \<open>close()\<close>, the calls that makes.
\<close>

datatype app_call =
    CallStart bytes "pyval list" "pyval list option"
  | CallWrite bytes
  | CallTrailers "pyval list"

record app_response =
  ar_len :: "pyerr + nat"
  ar_items :: "(app_call list \<times> pyval) list"
  ar_end :: "app_call list \<times> (pyerr + unit)"
  ar_close :: "app_call list option"

record app_script =
  as_calls :: "app_call list"
  as_result :: "pyerr + app_response"

fun run_call :: "wsgi_api \<Rightarrow> app_call \<Rightarrow> response_sender \<Rightarrow> response_sender" where
  "run_call api (CallStart status hs info) s = snd (start_response api status hs info s)"
| "run_call api (CallWrite data) s = snd (write_call api data s)"
| "run_call api (CallTrailers ts) s = snd (send_trailers api ts s)"

definition app_calls :: "wsgi_api \<Rightarrow> app_call list \<Rightarrow> response_sender \<Rightarrow> response_sender" where
  "app_calls api cs s = fold (run_call api) cs s"

definition send_body :: "wsgi_api \<Rightarrow> bytes \<Rightarrow> bool \<Rightarrow> response_sender \<Rightarrow> (pyerr + unit) \<times> response_sender" where
  "send_body api body more_body s =
     sender_send (exc api) (SenderBody \<lparr>bd_body = body, bd_more = more_body\<rparr>) None s"

text \<open>
  The general loop. After each chunk the thread waits for a token of the filter, which theory
  \<open>Wsgi_Run\<close> adds: there it is proved that what is sent does not depend on the wait.
\<close>

fun send_items :: "wsgi_api \<Rightarrow> (app_call list \<times> pyval) list \<Rightarrow> app_call list \<times> (pyerr + unit)
    \<Rightarrow> response_sender \<Rightarrow> (pyerr + unit) \<times> response_sender" where
  "send_items api [] (calls, fin) s =
     (let s = app_calls api calls s in
      case fin of Inl e \<Rightarrow> (Inl e, s) | Inr _ \<Rightarrow> send_body api [] False s)"
| "send_items api ((calls, item) # items) fin s =
     (let s = app_calls api calls s in
      case cast_bytes item of
        Inl e \<Rightarrow> (Inl e, s)
      | Inr body \<Rightarrow>
          (case send_body api body True s of
             (Inl e, s) \<Rightarrow> (Inl e, s)
           | (Inr _, s) \<Rightarrow> send_items api items fin s))"

definition send_response :: "wsgi_api \<Rightarrow> app_response \<Rightarrow> response_sender \<Rightarrow> (pyerr + unit) \<times> response_sender" where
  "send_response api r s =
     (if ar_len r = Inr 0 then send_body api [] False s
      else if ar_len r = Inr 1 then
        (case ar_items r of
           (calls, item) # _ \<Rightarrow>
             (let s = app_calls api calls s in
              case cast_bytes item of
                Inl e \<Rightarrow> (Inl e, s)
              | Inr body \<Rightarrow> send_body api body False s)
         | [] \<Rightarrow>
             (let s = app_calls api (fst (ar_end r)) s in
              case snd (ar_end r) of
                Inl e \<Rightarrow> (Inl e, s)
              | Inr _ \<Rightarrow> (Inl (RuntimeError ''WSGI app returned empty iterator despite len() == 1''), s)))
      else send_items api (ar_items r) (ar_end r) s)"

text \<open>\<open>_close\<close>: the \<open>close()\<close> of the iterable is called on every way out, its errors are ignored.\<close>

definition close_calls :: "app_response \<Rightarrow> app_call list" where
  "close_calls r = (case ar_close r of Some calls \<Rightarrow> calls | None \<Rightarrow> [])"

definition respond :: "wsgi_api \<Rightarrow> app_response \<Rightarrow> response_sender \<Rightarrow> (pyerr + unit) \<times> response_sender" where
  "respond api r s = (case send_response api r s of (res, s) \<Rightarrow> (res, app_calls api (close_calls r) s))"

definition execute_app :: "wsgi_api \<Rightarrow> bytes \<Rightarrow> scope \<Rightarrow> (pydict \<Rightarrow> app_script) \<Rightarrow> response_event bridge
    \<Rightarrow> (pyerr + unit) \<times> response_sender" where
  "execute_app api root_path sc app b =
     (let s = response_sender_new b in
      case build_environ api root_path sc of
        Inl e \<Rightarrow> (Inl e, s)
      | Inr environ \<Rightarrow>
          (let script = app environ; s = app_calls api (as_calls script) s in
           case as_result script of
             Inl e \<Rightarrow> (Inl e, s)
           | Inr response \<Rightarrow> respond api response s))"

text \<open>The worker loop of \<open>Executor::new\<close> on one request: the bridge afterwards, the commits.\<close>

definition run_job :: "wsgi_api \<Rightarrow> bytes \<Rightarrow> scope \<Rightarrow> (pydict \<Rightarrow> app_script) \<Rightarrow> response_event bridge
    \<Rightarrow> response_event bridge \<times> nat" where
  "run_job api root_path sc app b =
     (case execute_app api root_path sc app b of
        (Inr _, s) \<Rightarrow> (sn_bridge s, sn_commits s)
      | (Inl _, s) \<Rightarrow>
          (case bridge_offer (sn_bridge s) ResponseException of
             (ok, b) \<Rightarrow> (b, sn_commits s + (if ok then 1 else 0))))"

section \<open>The error stream: lemmas\<close>

definition no_newline :: "bytes \<Rightarrow> bool" where
  "no_newline s \<longleftrightarrow> CHR 0x0A \<notin> set s"

text \<open>A text that is a sequence of complete lines.\<close>

definition full_lines :: "bytes \<Rightarrow> bool" where
  "full_lines s \<longleftrightarrow> s = [] \<or> ends_with_newline s"

lemma split_on_newline: "split_on c (xs @ c # ys) = split_on c xs @ split_on c ys"
proof (induction xs)
  case Nil
  then show ?case by simp
next
  case (Cons x xs)
  then show ?case by (cases "split_on c xs") (auto split: list.splits)
qed

lemma log_lines_append:
  assumes "full_lines xs" shows "log_lines (xs @ ys) = log_lines xs @ log_lines ys"
proof (cases "xs = []")
  case True
  then show ?thesis by (simp add: log_lines_def)
next
  case False
  with assms have "xs = butlast xs @ [CHR 0x0A]"
    by (metis append_butlast_last_id ends_with_newline_def full_lines_def)
  then obtain zs where "xs = zs @ [CHR 0x0A]" by blast
  then show ?thesis
    using split_on_newline [of "CHR 0x0A" zs ys] split_on_newline [of "CHR 0x0A" zs "[]"]
    by (simp add: log_lines_def)
qed

lemma errors_write_step:
  assumes "no_newline (er_buffer s)"
  shows "\<exists>full. er_buffer s @ str = full @ er_buffer (snd (errors_write str s))
     \<and> full_lines full \<and> no_newline (er_buffer (snd (errors_write str s)))
     \<and> er_log (snd (errors_write str s)) = er_log s @ log_lines full"
proof (cases "str = []")
  case True
  with assms show ?thesis
    by (intro exI [of _ "[]"]) (simp add: errors_write_def full_lines_def log_lines_def)
next
  case False
  let ?buf = "er_buffer s @ str"
  show ?thesis
  proof (cases "ends_with_newline ?buf")
    case True
    have "ends_with_newline str" using True False by (simp add: ends_with_newline_def)
    with True False show ?thesis
      by (intro exI [of _ ?buf])
        (auto simp: errors_write_def full_lines_def no_newline_def Let_def)
  next
    case open_: False
    with False have w: "errors_write str s = (case rsplit_once (CHR 0x0A) ?buf of
                 Some (to_write, remaining) \<Rightarrow>
                   (length str, s\<lparr>er_buffer := remaining,
                      er_log := er_log s @ log_lines (to_write @ [CHR 0x0A])\<rparr>)
               | None \<Rightarrow> (length str, s\<lparr>er_buffer := ?buf\<rparr>))"
      by (auto simp: errors_write_def Let_def ends_with_newline_def)
    show ?thesis
    proof (cases "rsplit_once (CHR 0x0A) ?buf")
      case None
      then have "no_newline ?buf" by (simp add: rsplit_once_None no_newline_def)
      then show ?thesis
        by (intro exI [of _ "[]"]) (simp add: w None full_lines_def log_lines_def)
    next
      case (Some p)
      obtain a b where p: "p = (a, b)" by (cases p)
      with Some have "?buf = a @ CHR 0x0A # b" "CHR 0x0A \<notin> set b" by (simp_all add: rsplit_once_Some)
      with Some p show ?thesis
        by (intro exI [of _ "a @ [CHR 0x0A]"])
          (simp add: w full_lines_def ends_with_newline_def no_newline_def)
    qed
  qed
qed

definition errors_new :: errors_output where
  "errors_new = \<lparr>er_buffer = [], er_log = []\<rparr>"

section \<open>The input stream: lemmas\<close>

fun next_n :: "nat \<Rightarrow> request_input \<Rightarrow> (pyerr + bytes) option list" where
  "next_n 0 s = []"
| "next_n (Suc n) s = (case input_next s of (r, s) \<Rightarrow> r # next_n n s)"

lemma split_inclusive_line:
  "CHR 0x0A \<notin> set (butlast l) \<Longrightarrow> l \<noteq> [] \<Longrightarrow> last l = CHR 0x0A \<Longrightarrow>
     split_inclusive (CHR 0x0A) (l @ ys) = l # split_inclusive (CHR 0x0A) ys"
  by (induction l) (auto split: if_splits)

lemma split_inclusive_open: "CHR 0x0A \<notin> set l \<Longrightarrow> l \<noteq> [] \<Longrightarrow> split_inclusive (CHR 0x0A) l = [l]"
proof (induction l)
  case Nil
  then show ?case by simp
next
  case (Cons a l)
  then show ?case by (cases "l = []") auto
qed

lemma line_done_split:
  "line_done (-1) l \<Longrightarrow> split_inclusive (CHR 0x0A) (l @ ys) = l # split_inclusive (CHR 0x0A) ys"
  by (rule split_inclusive_line) (auto simp: line_done_def)

section \<open>The response: lemmas\<close>

text \<open>
  What a sender keeps through the calls of an application: the grammar of theory
  \<open>Wsgi_Response\<close>, and that it is only closed after something was emitted.
\<close>

definition app_ok :: "response_sender \<Rightarrow> bool" where
  "app_ok s \<longleftrightarrow> sn_bridge s \<noteq> Closed \<and> sender_ok s (bridge_content (sn_bridge s))
     \<and> (sn_closed s \<longrightarrow> bridge_content (sn_bridge s) \<noteq> [])"

lemma app_ok_send:
  assumes ok: "app_ok s" and "snd (sender_send x e info s) = s'"
    and e: "\<And>bd. e = SenderBody bd \<Longrightarrow> bd_more bd \<or> fst (sender_send x e info s) = Inr ()"
  shows "app_ok s'"
proof -
  have b: "sn_bridge s \<noteq> Closed" using ok by (simp add: app_ok_def)
  from sender_send_content [OF b, of x e info] sender_send_ok [of s "bridge_content (sn_bridge s)" x e info] ok
  have "sn_bridge s' \<noteq> Closed" "sender_ok s' (bridge_content (sn_bridge s'))"
    "bridge_content (sn_bridge s') = bridge_content (sn_bridge s) @ sender_adds e s"
    by (auto simp: app_ok_def assms(2) [symmetric])
  moreover have "sn_closed s' \<Longrightarrow> sn_closed s \<or> sender_adds e s \<noteq> []"
    using e assms(2)
    by (cases e) (auto simp: sender_send.simps sender_adds_def Let_def split: option.splits if_splits)
  ultimately show ?thesis using ok by (auto simp: app_ok_def)
qed

lemma app_ok_sent:
  "app_ok s \<Longrightarrow> sender_send x e info s = (r, s') \<Longrightarrow>
     (\<And>bd. e = SenderBody bd \<Longrightarrow> bd_more bd \<or> r = Inr ()) \<Longrightarrow> app_ok s'"
  by (rule app_ok_send [of s x e info s']) simp_all

lemma app_ok_call: "app_ok s \<Longrightarrow> app_ok (run_call api c s)"
  by (cases c)
    (auto simp: start_response_def write_call_def send_trailers_def Let_def
      intro: app_ok_send split: sum.split option.split)

lemma app_ok_calls: "app_ok s \<Longrightarrow> app_ok (app_calls api cs s)"
  by (induction cs arbitrary: s) (auto simp: app_calls_def app_ok_call)

text \<open>A final chunk that was accepted ends the response.\<close>

definition response_ended :: "response_event list \<Rightarrow> bool" where
  "response_ended es \<longleftrightarrow> resp_run Waiting es = Some Ended \<or> bare_trailers es"

lemma sender_send_final:
  "sender_send x (SenderBody bd) info s = (Inr u, s') \<Longrightarrow> \<not> bd_more bd \<Longrightarrow> sn_closed s'"
  by (auto simp: sender_send.simps Let_def split: if_splits option.splits)

lemma send_final_ended:
  assumes "app_ok s" and "send_body api body False s = (Inr u, s')"
  shows "app_ok s' \<and> sn_closed s'"
proof -
  have "app_ok s'"
    by (rule app_ok_sent [OF assms(1) assms(2) [unfolded send_body_def]]) auto
  moreover have "sn_closed s'"
    using assms(2) by (auto simp: send_body_def intro: sender_send_final)
  ultimately show ?thesis by blast
qed

lemma send_more_ok:
  "app_ok s \<Longrightarrow> send_body api body True s = (r, s') \<Longrightarrow> app_ok s'"
  by (erule app_ok_sent [where x = "exc api" and e = "SenderBody \<lparr>bd_body = body, bd_more = True\<rparr>"
        and info = None and r = r]) (auto simp: send_body_def)

lemma send_items_ended:
  "app_ok s \<Longrightarrow> send_items api items fin s = (Inr u, s') \<Longrightarrow> app_ok s' \<and> sn_closed s'"
proof (induction items arbitrary: s)
  case Nil
  obtain calls e where "fin = (calls, e)" by (cases fin)
  with Nil send_final_ended [OF app_ok_calls [OF Nil(1), of api calls], of api "[]" u s'] show ?case
    by (auto simp: Let_def split: sum.splits)
next
  case (Cons i items)
  obtain calls item where i: "i = (calls, item)" by (cases i)
  let ?s = "app_calls api calls s"
  from Cons.prems(2) i obtain body u1 s1 where "cast_bytes item = Inr body"
    "send_body api body True ?s = (Inr u1, s1)" "send_items api items fin s1 = (Inr u, s')"
    by (auto simp: Let_def split: sum.splits prod.splits)
  with Cons.IH [OF send_more_ok [OF app_ok_calls [OF Cons.prems(1), of api calls]]] show ?case by blast
qed

text \<open>A response that was closed gets no more events.\<close>

lemma sender_send_closed: "sn_closed s \<Longrightarrow> sender_send x e info s = (Inr (), s)"
  by (simp add: sender_send.simps)

lemma run_call_closed: "sn_closed s \<Longrightarrow> run_call api c s = s"
  by (cases c) (auto simp: start_response_def write_call_def send_trailers_def Let_def sender_send_closed
      split: sum.split option.split)

lemma app_calls_closed: "sn_closed s \<Longrightarrow> app_calls api cs s = s"
  by (induction cs) (simp_all add: app_calls_def run_call_closed)

lemma app_ok_ended: "app_ok s \<Longrightarrow> sn_closed s \<Longrightarrow> response_ended (bridge_content (sn_bridge s))"
  by (auto simp: app_ok_def sender_ok_def sender_phase_def response_ended_def)

lemma send_response_closed:
  assumes "app_ok s" and "send_response api r s = (Inr u, s')"
  shows "app_ok s' \<and> sn_closed s'"
proof -
  consider "ar_len r = Inr 0" | "ar_len r = Inr 1" | "ar_len r \<noteq> Inr 0" "ar_len r \<noteq> Inr 1" by blast
  then show ?thesis
  proof cases
    case 1
    with assms send_final_ended [OF assms(1)] show ?thesis by (simp add: send_response_def)
  next
    case 2
    with assms(2) obtain calls item rest body where "ar_items r = (calls, item) # rest"
      "send_body api body False (app_calls api calls s) = (Inr u, s')"
      by (auto simp: send_response_def Let_def split: list.splits sum.splits)
    with send_final_ended [OF app_ok_calls [OF assms(1)]] show ?thesis by blast
  next
    case 3
    with assms send_items_ended [OF assms(1)] show ?thesis by (simp add: send_response_def)
  qed
qed

lemma respond_ended:
  assumes "app_ok s" and "respond api r s = (Inr u, s')"
  shows "response_ended (bridge_content (sn_bridge s'))"
proof -
  from assms(2) obtain s1 where s1: "send_response api r s = (Inr u, s1)" "s' = app_calls api (close_calls r) s1"
    by (auto simp: respond_def split: prod.splits)
  from send_response_closed [OF assms(1) s1(1)] show ?thesis
    by (auto simp: s1(2) app_calls_closed app_ok_ended)
qed

text \<open>Nothing the application does closes the bridge.\<close>

lemma sender_send_open:
  "sn_bridge s \<noteq> Closed \<Longrightarrow> sender_send x e info s = (r, s') \<Longrightarrow> sn_bridge s' \<noteq> Closed"
  using sender_send_content [of s x e info] by auto

lemma run_call_open: "sn_bridge s \<noteq> Closed \<Longrightarrow> sn_bridge (run_call api c s) \<noteq> Closed"
  using sender_send_open [OF _ prod.collapse [symmetric]]
  by (cases c) (auto simp: start_response_def write_call_def send_trailers_def Let_def
      split: sum.split option.split)

lemma app_calls_open: "sn_bridge s \<noteq> Closed \<Longrightarrow> sn_bridge (app_calls api cs s) \<noteq> Closed"
  by (induction cs arbitrary: s) (auto simp: app_calls_def run_call_open)

lemma send_items_open:
  "sn_bridge s \<noteq> Closed \<Longrightarrow> send_items api items fin s = (r, s') \<Longrightarrow> sn_bridge s' \<noteq> Closed"
proof (induction items arbitrary: s)
  case Nil
  obtain calls e where "fin = (calls, e)" by (cases fin)
  with Nil app_calls_open [OF Nil(1), of api calls] show ?case
    by (auto simp: Let_def send_body_def split: sum.splits dest: sender_send_open)
next
  case (Cons i items)
  obtain calls item where i: "i = (calls, item)" by (cases i)
  have o: "sn_bridge (app_calls api calls s) \<noteq> Closed" by (rule app_calls_open [OF Cons.prems(1)])
  show ?case
  proof (cases "cast_bytes item")
    case (Inl e)
    with Cons.prems(2) o show ?thesis by (simp add: i Let_def)
  next
    case (Inr body)
    obtain r1 s1 where b: "send_body api body True (app_calls api calls s) = (r1, s1)"
      by (cases "send_body api body True (app_calls api calls s)")
    then have "sn_bridge s1 \<noteq> Closed"
      unfolding send_body_def by (rule sender_send_open [OF o])
    with Cons.IH [of s1] Cons.prems(2) b Inr show ?thesis
      by (cases r1) (simp_all add: i Let_def)
  qed
qed

lemma execute_app_open:
  assumes "b \<noteq> Closed" and "execute_app api root sc app b = (r, s)"
  shows "sn_bridge s \<noteq> Closed"
proof -
  let ?s = "\<lambda>cs. app_calls api cs (response_sender_new b)"
  have o: "sn_bridge (?s cs) \<noteq> Closed" for cs
    using assms(1) by (intro app_calls_open) (simp add: response_sender_new_def)
  have o2: "sn_bridge (app_calls api cs' (?s cs)) \<noteq> Closed" for cs cs' by (rule app_calls_open [OF o])
  have resp: "send_response api response (?s cs) = (r, s) \<Longrightarrow> sn_bridge s \<noteq> Closed" for response cs r s
    using o o2
    by (auto simp: send_response_def send_body_def Let_def split: if_splits list.splits sum.splits
        dest: sender_send_open [OF o] sender_send_open [OF o2] send_items_open [OF o])
  show ?thesis
    using assms(2) o o [of "[]"] resp app_calls_open
    by (fastforce simp: execute_app_def respond_def Let_def app_calls_def [of api "[]"] split: sum.splits prod.splits)
qed

section \<open>The environ: lemmas\<close>

fun comma_join :: "bytes list \<Rightarrow> bytes" where
  "comma_join [] = []"
| "comma_join [v] = v"
| "comma_join (v # w # vs) = comma_join ((v @ '','' @ w) # vs)"

definition content_header :: "bytes \<Rightarrow> bool" where
  "content_header k \<longleftrightarrow> k = ''content-type'' \<or> k = ''content-length''"

text \<open>The values of all headers that share an environ key, in order, as they are decoded.\<close>

definition header_values :: "wsgi_api \<Rightarrow> bytes \<Rightarrow> headers \<Rightarrow> bytes list" where
  "header_values api name hs =
     map (\<lambda>h. decode_latin1 api (snd h))
       (filter (\<lambda>h. \<not> content_header (fst h) \<and> wsgi_name api (fst h) = name) hs)"

definition is_http_key :: "bytes \<Rightarrow> bool" where
  "is_http_key k \<longleftrightarrow> take 5 k = ''HTTP_''"

definition http_strings :: "pydict \<Rightarrow> bool" where
  "http_strings d \<longleftrightarrow> (\<forall>k v. is_http_key k \<and> dict_get d k = Some v \<longrightarrow> (\<exists>s. v = PyStr s))"

lemma wsgi_name_http: "http_constants (hc api) \<Longrightarrow> wsgi_name api k = wsgi_fallback k"
  by (simp add: wsgi_name_def to_wsgi_string_eq)

lemma is_http_key_name: "is_http_key (wsgi_fallback k)"
  by (simp add: is_http_key_def wsgi_fallback_chars)

lemma not_http_key: "\<not> is_http_key ''CONTENT_TYPE''" "\<not> is_http_key ''CONTENT_LENGTH''"
  "\<not> is_http_key ''REQUEST_METHOD''" "\<not> is_http_key ''SCRIPT_NAME''" "\<not> is_http_key ''QUERY_STRING''"
  "\<not> is_http_key ''PATH_INFO''" "\<not> is_http_key ''SERVER_NAME''" "\<not> is_http_key ''SERVER_PORT''"
  "\<not> is_http_key ''SERVER_PROTOCOL''" "\<not> is_http_key (CHR ''w'' # k)"
  by (simp_all add: is_http_key_def)

text \<open>One header, on the entries it can touch.\<close>

lemma environ_header_step:
  assumes c: "http_constants (hc api)" and d: "http_strings d"
  shows "case environ_header api (k, v) d of
      Inl e \<Rightarrow> e = UnicodeDecodeError \<and> content_header k \<and> \<not> utf8_valid v
    | Inr d' \<Rightarrow> (content_header k \<longrightarrow> utf8_valid v) \<and> http_strings d'
        \<and> (\<forall>n. is_http_key n \<longrightarrow> dict_get d' n =
            (if \<not> content_header k \<and> wsgi_name api k = n
             then Some (PyStr (case dict_get d n of
                 Some (PyStr e) \<Rightarrow> e @ '','' @ decode_latin1 api v | _ \<Rightarrow> decode_latin1 api v))
             else dict_get d n))
        \<and> (\<forall>n. \<not> is_http_key n \<and> n \<noteq> ''CONTENT_TYPE'' \<and> n \<noteq> ''CONTENT_LENGTH'' \<longrightarrow>
              dict_get d' n = dict_get d n)"
proof (cases "content_header k")
  case True
  then show ?thesis
    using d not_http_key
    by (auto simp: environ_header_def content_header_def py_string_from_bytes_def http_strings_def)
next
  case False
  let ?n = "wsgi_fallback k" and ?t = "decode_latin1 api v"
  have key: "is_http_key ?n" by (rule is_http_key_name)
  show ?thesis
  proof (cases "dict_get d ?n")
    case None
    with False key d c show ?thesis
      by (auto simp: environ_header_def content_header_def wsgi_name_http Let_def http_strings_def)
  next
    case (Some x)
    with d key obtain e where "x = PyStr e" by (auto simp: http_strings_def)
    with Some False key d c show ?thesis
      by (auto simp: environ_header_def content_header_def wsgi_name_http Let_def http_strings_def)
  qed
qed

lemma environ_headers_spec:
  assumes c: "http_constants (hc api)"
  shows "http_strings d \<Longrightarrow> case environ_headers api hs d of
      Inl e \<Rightarrow> e = UnicodeDecodeError \<and> (\<exists>h \<in> set hs. content_header (fst h) \<and> \<not> utf8_valid (snd h))
    | Inr d' \<Rightarrow> (\<forall>h \<in> set hs. content_header (fst h) \<longrightarrow> utf8_valid (snd h))
        \<and> (\<forall>n. is_http_key n \<longrightarrow> dict_get d' n =
             (case dict_get d n of
                Some (PyStr e) \<Rightarrow> Some (PyStr (comma_join (e # header_values api n hs)))
              | _ \<Rightarrow> if header_values api n hs = [] then None
                     else Some (PyStr (comma_join (header_values api n hs)))))
        \<and> (\<forall>n. \<not> is_http_key n \<and> n \<noteq> ''CONTENT_TYPE'' \<and> n \<noteq> ''CONTENT_LENGTH'' \<longrightarrow>
              dict_get d' n = dict_get d n)"
proof (induction hs arbitrary: d)
  case Nil
  then show ?case by (auto simp: header_values_def http_strings_def split: option.split pyval.split)
next
  case (Cons h hs)
  obtain k v where h: "h = (k, v)" by (cases h)
  note step = environ_header_step [OF c Cons.prems, of k v]
  show ?case
  proof (cases "environ_header api h d")
    case (Inl e)
    with step h show ?thesis by auto
  next
    case (Inr d1)
    with step h have hs1: "http_strings d1" by simp
    have hv: "header_values api n (h # hs) = (if \<not> content_header k \<and> wsgi_name api k = n
        then decode_latin1 api v # header_values api n hs else header_values api n hs)" for n
      by (simp add: header_values_def h)
    show ?thesis
    proof (cases "environ_headers api hs d1")
      case (Inl e)
      with Cons.IH [OF hs1] Inr h show ?thesis by auto
    next
      case (Inr d2)
      with Cons.IH [OF hs1] have
        A: "\<forall>h \<in> set hs. content_header (fst h) \<longrightarrow> utf8_valid (snd h)"
        and B: "\<And>n. is_http_key n \<Longrightarrow> dict_get d2 n =
             (case dict_get d1 n of
                Some (PyStr e) \<Rightarrow> Some (PyStr (comma_join (e # header_values api n hs)))
              | _ \<Rightarrow> if header_values api n hs = [] then None
                     else Some (PyStr (comma_join (header_values api n hs))))"
        and C: "\<And>n. \<not> is_http_key n \<Longrightarrow> n \<noteq> ''CONTENT_TYPE'' \<Longrightarrow> n \<noteq> ''CONTENT_LENGTH'' \<Longrightarrow>
              dict_get d2 n = dict_get d1 n"
        by simp_all
      from step \<open>environ_header api h d = Inr d1\<close> h have
        D: "content_header k \<longrightarrow> utf8_valid v"
        and E: "\<And>n. is_http_key n \<Longrightarrow> dict_get d1 n =
            (if \<not> content_header k \<and> wsgi_name api k = n
             then Some (PyStr (case dict_get d n of
                 Some (PyStr e) \<Rightarrow> e @ '','' @ decode_latin1 api v | _ \<Rightarrow> decode_latin1 api v))
             else dict_get d n)"
        and F: "\<And>n. \<not> is_http_key n \<Longrightarrow> n \<noteq> ''CONTENT_TYPE'' \<Longrightarrow> n \<noteq> ''CONTENT_LENGTH'' \<Longrightarrow>
              dict_get d1 n = dict_get d n"
        by simp_all
      have "dict_get d2 n =
             (case dict_get d n of
                Some (PyStr e) \<Rightarrow> Some (PyStr (comma_join (e # header_values api n (h # hs))))
              | _ \<Rightarrow> if header_values api n (h # hs) = [] then None
                     else Some (PyStr (comma_join (header_values api n (h # hs)))))"
        if n: "is_http_key n" for n
        using Cons.prems n
        by (auto simp: B [OF n] E [OF n] hv http_strings_def split: option.splits pyval.splits)
      with A C D F Inr \<open>environ_header api h d = Inr d1\<close> h show ?thesis by simp
    qed
  qed
qed

lemma environ_tail_keeps:
  assumes "is_http_key n \<or> n \<in> {''REQUEST_METHOD'', ''SCRIPT_NAME'', ''QUERY_STRING'', ''PATH_INFO''}"
  shows "dict_get (environ_tail api sc d) n = dict_get d n"
proof -
  have "n \<notin> {''SERVER_NAME'', ''SERVER_PORT'', ''SERVER_PROTOCOL''}" "take 1 n \<noteq> ''w''"
    using assms not_http_key by (auto simp: is_http_key_def) (cases n; simp)
  moreover from this have "n \<noteq> CHR ''w'' # k" for k by auto
  ultimately show ?thesis
    by (auto simp: environ_tail_def environ_server_def environ_tls_def set_http_version_wsgi_def
        set_http_scheme_def Let_def split: option.split prod.split)
qed

lemma set_http_method_get:
  "dict_get (set_http_method key m d) k = (if k = key then Some (PyStr m) else dict_get d k)"
  by (auto simp: set_http_method_def)

text \<open>The decoded path of a request.\<close>

definition app_path :: "wsgi_api \<Rightarrow> scope \<Rightarrow> bytes" where
  "app_path api sc = decode_binary api (fst (split_query (sc_raw_path sc)))"

definition below_root :: "bytes \<Rightarrow> bytes \<Rightarrow> bool" where
  "below_root root path \<longleftrightarrow> take (length root) path = root"

lemma environ_path_spec:
  "case environ_path api root sc of
     Inl e \<Rightarrow> \<not> below_root root (app_path api sc)
   | Inr d \<Rightarrow> below_root root (app_path api sc) \<and> http_strings d
       \<and> (\<forall>k. is_http_key k \<longrightarrow> dict_get d k = None)
       \<and> dict_get d ''REQUEST_METHOD'' = Some (PyStr (sc_method sc))
       \<and> dict_get d ''SCRIPT_NAME'' = Some (PyStr root)
       \<and> dict_get d ''PATH_INFO'' = Some (PyStr (decode_latin1 api (drop (length root) (app_path api sc))))"
proof -
  have p: "fst (split_query raw) = (case position (\<lambda>b. b = CHR ''?'') raw of
      Some i \<Rightarrow> take i raw | None \<Rightarrow> raw)" for raw
    by (simp add: split_query_def split: option.split)
  show ?thesis
    using not_http_key
    by (cases "position (\<lambda>b. b = CHR ''?'') (sc_raw_path sc)")
      (auto simp: environ_path_def Let_def below_root_def app_path_def p http_strings_def
        set_http_method_get split: if_splits)
qed

section \<open>Properties\<close>


definition demo_wsgi_api :: wsgi_api where
  "demo_wsgi_api = \<lparr>decode_latin1 = (\<lambda>s. s), decode_binary = (\<lambda>s. s), from_utf8_lossy = (\<lambda>s. s),
     authority = (\<lambda>_. None), header_name = Some, header_value = Some, status_code = Some,
     hc = kebab, exc = demo_api\<rparr>"

definition demo_scope :: scope where
  "demo_scope = \<lparr>sc_http_version = HTTP_11, sc_method = ''GET'', sc_scheme = ''http'',
     sc_raw_path = ''/app/x?q'', sc_headers = [(''x-a'', ''1''), (''content-type'', ''t''), (''x-a'', ''2'')],
     sc_client = None, sc_server = None, sc_tls_info = None\<rparr>"


text \<open>
  The error stream loses nothing and logs whole lines: after any number of writes, the texts
  written are the complete lines logged so far followed by the buffer, which holds the
  unfinished line; how the text was cut into writes makes no difference, and a flush logs what
  is left.
\<close>

theorem errors_output_lines:
  "let s = fold (\<lambda>str s. snd (errors_write str s)) strs errors_new in
   \<exists>full. concat strs = full @ er_buffer s \<and> full_lines full \<and> no_newline (er_buffer s)
     \<and> er_log s = log_lines full \<and> er_log (errors_flush s) = log_lines (concat strs)
     \<and> er_buffer (errors_flush s) = []"
proof -
  let ?w = "\<lambda>strs s. fold (\<lambda>str s. snd (errors_write str s)) strs s"
  have run: "no_newline (er_buffer s) \<Longrightarrow>
    \<exists>full. er_buffer s @ concat strs = full @ er_buffer (?w strs s) \<and> full_lines full
      \<and> no_newline (er_buffer (?w strs s)) \<and> er_log (?w strs s) = er_log s @ log_lines full" for s
  proof (induction strs arbitrary: s)
    case Nil
    then show ?case by (intro exI [of _ "[]"]) (simp add: full_lines_def log_lines_def)
  next
    case (Cons str strs)
    let ?s = "snd (errors_write str s)"
    from errors_write_step [OF Cons.prems, of str] obtain f1 where f1:
      "er_buffer s @ str = f1 @ er_buffer ?s" "full_lines f1" "no_newline (er_buffer ?s)"
      "er_log ?s = er_log s @ log_lines f1" by blast
    from Cons.IH [OF f1(3)] obtain f2 where f2:
      "er_buffer ?s @ concat strs = f2 @ er_buffer (?w strs ?s)" "full_lines f2"
      "no_newline (er_buffer (?w strs ?s))" "er_log (?w strs ?s) = er_log ?s @ log_lines f2" by blast
    have "full_lines (f1 @ f2)"
      using f1(2) f2(2) by (auto simp: full_lines_def ends_with_newline_def)
    moreover have "er_buffer s @ concat (str # strs) = (f1 @ f2) @ er_buffer (?w (str # strs) s)"
      using f1(1) f2(1) by (simp flip: append_assoc) (simp add: append_assoc)
    ultimately show ?case
      using f1 f2 log_lines_append [OF f1(2), of f2] by (intro exI [of _ "f1 @ f2"]) simp
  qed
  from run [of errors_new] obtain full where f: "concat strs = full @ er_buffer (?w strs errors_new)"
    "full_lines full" "no_newline (er_buffer (?w strs errors_new))" "er_log (?w strs errors_new) = log_lines full"
    by (auto simp: errors_new_def no_newline_def)
  have "log_lines [] = []" by (simp add: log_lines_def)
  with f log_lines_append [OF f(2), of "er_buffer (?w strs errors_new)"] show ?thesis
    by (auto simp: Let_def errors_flush_def)
qed

text \<open>
  Iterating the input stream and \<open>readlines\<close> agree. If the filter answers each line read
  with a line and the last answer is flagged closed, iteration yields exactly the lines that
  \<open>readlines\<close> returns for the same body in one answer, then StopIteration and nothing but
  StopIteration.
\<close>

theorem input_lines_agree:
  assumes "\<forall>l \<in> set ls. line_done (-1) l" and "line_open (-1) l \<or> line_done (-1) l"
    and "\<not> in_closed s"
    and "in_rx s = map (\<lambda>l. Some \<lparr>rb_body = l, rb_closed = False\<rparr>) ls @ [Some \<lparr>rb_body = l, rb_closed = True\<rparr>]"
  shows "\<exists>lines. next_n (length ls + 1 + k) s
       = map (Some \<circ> Inr) lines @ replicate (length ls + 1 + k - length lines) (Some (Inl StopIteration))
     \<and> fst (input_readlines (s\<lparr>in_rx := [Some \<lparr>rb_body = concat ls @ l, rb_closed = True\<rparr>]\<rparr>)) = Some (Inr lines)
     \<and> length lines \<le> length ls + 1"
proof -
  let ?lines = "split_inclusive (CHR 0x0A) (concat ls @ l)"
  have stop: "next_n n t = replicate n (Some (Inl StopIteration))" if "in_closed t" for n t
    using that by (induction n arbitrary: t) (auto simp: input_next_def do_read_def)
  have "fst (input_readlines (s\<lparr>in_rx := [Some \<lparr>rb_body = concat ls @ l, rb_closed = True\<rparr>]\<rparr>)) = Some (Inr ?lines)"
    using assms(3) by (simp add: input_readlines_def do_read_def split: prod.split)
  moreover have "next_n (length ls + 1 + k) s
      = map (Some \<circ> Inr) ?lines @ replicate (length ls + 1 + k - length ?lines) (Some (Inl StopIteration))
    \<and> length ?lines \<le> length ls + 1"
    using assms(1,3,4)
  proof (induction ls arbitrary: s)
    case Nil
    have last: "split_inclusive (CHR 0x0A) l = (if l = [] then [] else [l])"
      using assms(2) line_done_split [of l "[]"] split_inclusive_open [of l] by (auto simp: line_open_def)
    obtain b c where "bridge_offer (in_bridge s) (Line (-1)) = (b, c)" by (cases "bridge_offer (in_bridge s) (Line (-1))")
    with Nil show ?case
      by (auto simp: last input_next_def do_read_def stop Let_def)
  next
    case (Cons x ls)
    obtain b c where b: "bridge_offer (in_bridge s) (Line (-1)) = (b, c)" by (cases "bridge_offer (in_bridge s) (Line (-1))")
    let ?s = "s\<lparr>in_bridge := c, in_commits := in_commits s + (if b then 1 else 0),
      in_rx := tl (in_rx s), in_closed := False\<rparr>"
    have x: "line_done (-1) x" "x \<noteq> []" using Cons.prems(1) by (auto simp: line_done_def)
    have "next_n (length (x # ls) + 1 + k) s = Some (Inr x) # next_n (length ls + 1 + k) ?s"
      using Cons.prems(2,3) b x(2) by (simp add: input_next_def do_read_def Let_def)
    with Cons.IH [of ?s] Cons.prems x line_done_split [of x "concat ls @ l"] show ?case
      by simp
  qed
  ultimately show ?thesis by blast
qed

theorem input_lines_agree_witness:
  "\<exists>lines. next_n 4 \<lparr>in_closed = False, in_bridge = Empty, in_commits = 0,
         in_rx = [Some \<lparr>rb_body = ''ab'' @ [CHR 0x0A], rb_closed = False\<rparr>, Some \<lparr>rb_body = ''c'', rb_closed = True\<rparr>]\<rparr>
       = map (Some \<circ> Inr) lines @ replicate (4 - length lines) (Some (Inl StopIteration))
     \<and> length lines \<le> 2"
  using input_lines_agree [of "[''ab'' @ [CHR 0x0A]]" "''c''" "\<lparr>in_closed = False, in_bridge = Empty,
      in_commits = 0, in_rx = [Some \<lparr>rb_body = ''ab'' @ [CHR 0x0A], rb_closed = False\<rparr>,
        Some \<lparr>rb_body = ''c'', rb_closed = True\<rparr>]\<rparr>" 2]
  by (auto simp: line_done_def line_open_def numeral_eq_Suc)


end
