(* ===== verification/Wsgi_Shutdown.thy ===== *)
theory Wsgi_Shutdown
  imports Work_Queue Blocking_Pool
begin

text \<open>
  The WSGI executor as a whole (\<open>Executor\<close> of \<open>src/src/wsgi/python.rs\<close>): its worker threads take
  requests from the queue and, while they run one, submit the iteration of streamed request
  bodies to the pool; \<open>shutdown\<close> closes the queue, joins the workers and then shuts the pool
  down. The queue and the pool are those of theories \<open>Work_Queue\<close> and \<open>Blocking_Pool\<close>.
\<close>

section \<open>State\<close>

datatype executor_pc = Serving | Joining | PoolStopping

text \<open>\<open>ex_submitting\<close>: the workers inside \<open>PoolHandle::execute\<close> past its test, with their job.\<close>

record ('a, 'j) wsgi_exec =
  ex_queue :: "'a work_queue"
  ex_pool :: "'j pool"
  ex_submitting :: "(nat \<times> 'j) list"
  ex_caller :: executor_pc

definition exec_new :: "('a, 'j) wsgi_exec" where
  "exec_new = \<lparr>ex_queue = work_queue_new, ex_pool = pool_new, ex_submitting = [], ex_caller = Serving\<rparr>"

section \<open>Operations\<close>

text \<open>A worker that runs a request hands a job to the pool, in the steps of \<open>execute\<close>.\<close>

definition exec_submit :: "nat \<Rightarrow> 'j \<Rightarrow> ('a, 'j) wsgi_exec \<Rightarrow> ('a, 'j) wsgi_exec" where
  "exec_submit t job s =
     s\<lparr>ex_pool := pool_execute job (ex_pool s),
       ex_submitting := (if pl_shutdown (ex_pool s) then ex_submitting s else (t, job) # ex_submitting s)\<rparr>"

definition exec_try_send :: "nat \<Rightarrow> 'j \<Rightarrow> ('a, 'j) wsgi_exec \<Rightarrow> ('a, 'j) wsgi_exec" where
  "exec_try_send t job s =
     s\<lparr>ex_pool := pool_try_send job (ex_pool s),
       ex_submitting := (if pl_idle (ex_pool s) > 0 then remove1 (t, job) (ex_submitting s) else ex_submitting s)\<rparr>"

definition exec_spawn :: "nat \<Rightarrow> 'j \<Rightarrow> ('a, 'j) wsgi_exec \<Rightarrow> ('a, 'j) wsgi_exec" where
  "exec_spawn t job s =
     s\<lparr>ex_pool := pool_spawn job (ex_pool s), ex_submitting := remove1 (t, job) (ex_submitting s)\<rparr>"

text \<open>\<open>Executor::shutdown\<close>: close the queue; all workers joined; then the pool.\<close>

definition exec_close :: "('a, 'j) wsgi_exec \<Rightarrow> ('a, 'j) wsgi_exec" where
  "exec_close s = s\<lparr>ex_queue := wq_close (ex_queue s), ex_caller := Joining\<rparr>"

definition exec_joined :: "('a, 'j) wsgi_exec \<Rightarrow> ('a, 'j) wsgi_exec" where
  "exec_joined s = s\<lparr>ex_pool := shutdown_store (ex_pool s), ex_caller := PoolStopping\<rparr>"

text \<open>
  The steps, for \<open>n\<close> workers. Requests come at any time. A worker inside \<open>execute\<close> does nothing
  else. A job of the pool goes on by itself.
\<close>

inductive exec_step :: "nat \<Rightarrow> ('a, 'j) wsgi_exec \<Rightarrow> ('a, 'j) wsgi_exec \<Rightarrow> bool" for n where
  request: "exec_step n s (s\<lparr>ex_queue := wq_push item (ex_queue s)\<rparr>)"
| notify: "t \<in> set (wq_notifying (ex_queue s)) \<Longrightarrow>
    exec_step n s (s\<lparr>ex_queue := wq_notify t (ex_queue s)\<rparr>)"
| pop: "t < n \<Longrightarrow> wq_pc (ex_queue s) t \<in> {Running, Woken} \<Longrightarrow> t \<notin> fst ` set (ex_submitting s) \<Longrightarrow>
    exec_step n s (s\<lparr>ex_queue := wq_pop t (ex_queue s)\<rparr>)"
| wake: "t < n \<Longrightarrow> wq_pc (ex_queue s) t = Parked \<Longrightarrow> wq_notified (ex_queue s) t \<Longrightarrow>
    exec_step n s (s\<lparr>ex_queue := wq_wake t (ex_queue s)\<rparr>)"
| submit: "t < n \<Longrightarrow> wq_pc (ex_queue s) t = Running \<Longrightarrow> t \<notin> fst ` set (ex_submitting s) \<Longrightarrow>
    exec_step n s (exec_submit t job s)"
| try_send: "(t, job) \<in> set (ex_submitting s) \<Longrightarrow> job \<in> set (pl_checked (ex_pool s)) \<Longrightarrow>
    exec_step n s (exec_try_send t job s)"
| spawn: "(t, job) \<in> set (ex_submitting s) \<Longrightarrow> job \<in> set (pl_full (ex_pool s)) \<Longrightarrow>
    exec_step n s (exec_spawn t job s)"
| initial: "job \<in> set (pl_starting (ex_pool s)) \<Longrightarrow>
    exec_step n s (s\<lparr>ex_pool := worker_initial job (ex_pool s)\<rparr>)"
| job_done: "job \<in> set (pl_running (ex_pool s)) \<Longrightarrow>
    exec_step n s (s\<lparr>ex_pool := worker_job_done job (ex_pool s)\<rparr>)"
| job_panic: "job \<in> set (pl_running (ex_pool s)) \<Longrightarrow>
    exec_step n s (s\<lparr>ex_pool := worker_job_panic job (ex_pool s)\<rparr>)"
| leave: "pl_idle (ex_pool s) > 0 \<Longrightarrow> exec_step n s (s\<lparr>ex_pool := worker_leave (ex_pool s)\<rparr>)"
| guard_drop: "pl_exiting (ex_pool s) > 0 \<Longrightarrow>
    exec_step n s (s\<lparr>ex_pool := worker_guard_drop (ex_pool s)\<rparr>)"
| close: "ex_caller s = Serving \<Longrightarrow> exec_step n s (exec_close s)"
| joined: "ex_caller s = Joining \<Longrightarrow> \<forall>t < n. wq_pc (ex_queue s) t = Finished \<Longrightarrow>
    exec_step n s (exec_joined s)"
| drop_tx: "pl_caller (ex_pool s) = FlagStored \<Longrightarrow>
    exec_step n s (s\<lparr>ex_pool := shutdown_drop_tx (ex_pool s)\<rparr>)"
| return: "pl_caller (ex_pool s) = TxDropped \<Longrightarrow> pl_workers (ex_pool s) = 0 \<Longrightarrow>
    exec_step n s (s\<lparr>ex_pool := shutdown_return (ex_pool s)\<rparr>)"

abbreviation exec_reach :: "nat \<Rightarrow> ('a, 'j) wsgi_exec \<Rightarrow> bool" where
  "exec_reach n \<equiv> reach (\<lambda>s. s = exec_new) (exec_step n)"

section \<open>Invariant\<close>

text \<open>
  The executor is a run of the queue and a run of the pool, and the latter one whose shutdown
  starts with no submission under way: the jobs under submission are those of workers that run
  a request.
\<close>

definition exec_inv :: "nat \<Rightarrow> ('a, 'j) wsgi_exec \<Rightarrow> bool" where
  "exec_inv n s \<longleftrightarrow>
     wq_reach (ex_queue s) \<and> pool_reach True (ex_pool s)
     \<and> mset (map snd (ex_submitting s)) = mset (pl_checked (ex_pool s)) + mset (pl_full (ex_pool s))
     \<and> (\<forall>t \<in> fst ` set (ex_submitting s). t < n \<and> wq_pc (ex_queue s) t = Running)
     \<and> pl_rejected (ex_pool s) = []
     \<and> (ex_caller s \<noteq> PoolStopping \<longleftrightarrow> pl_caller (ex_pool s) = NotCalled)
     \<and> (ex_caller s \<noteq> Serving \<longleftrightarrow> wq_closed (ex_queue s))
     \<and> (ex_caller s = PoolStopping \<longrightarrow> (\<forall>t < n. wq_pc (ex_queue s) t = Finished))"

lemma pool_shutdown_iff: "pool_reach quiet p \<Longrightarrow> pl_shutdown p \<longleftrightarrow> pl_caller p \<noteq> NotCalled"
  using pool.reach_inv by (auto simp: pool_inv_def)

text \<open>Steps of the queue keep the pool's part, if they keep the workers that submit running.\<close>

lemma queue_step_inv:
  assumes "exec_inv n s" and "wq_step (ex_queue s) q"
    and "wq_closed q = wq_closed (ex_queue s)"
    and "\<And>t. t \<in> fst ` set (ex_submitting s) \<Longrightarrow> wq_pc q t = wq_pc (ex_queue s) t"
    and "\<And>t. wq_pc (ex_queue s) t = Finished \<Longrightarrow> wq_pc q t = Finished"
  shows "exec_inv n (s\<lparr>ex_queue := q\<rparr>)"
proof -
  have "wq_reach q" using assms(1,2) by (auto simp: exec_inv_def intro: reach_step)
  with assms show ?thesis by (simp add: exec_inv_def)
qed

lemma wq_pc_simps [simp]:
  "wq_pc (wq_push item q) = wq_pc q" "wq_pc (wq_notify t q) = wq_pc q"
  "wq_pc (wq_close q) = wq_pc q" "wq_pc (wq_wake t q) = (wq_pc q)(t := Woken)"
  "wq_closed (wq_push item q) = wq_closed q" "wq_closed (wq_notify t q) = wq_closed q"
  "wq_closed (wq_wake t q) = wq_closed q" "wq_closed (wq_pop t q) = wq_closed q"
  by (simp_all add: wq_push_def wq_notify_def wq_close_def wq_wake_def wq_pop_def Let_def split: list.split)

lemma wq_pop_other: "u \<noteq> t \<Longrightarrow> wq_pc (wq_pop t q) u = wq_pc q u"
  by (simp add: wq_pop_def split: list.split)

text \<open>Steps of the pool's own threads touch no submission.\<close>

lemma pool_step_keeps:
  assumes "exec_inv n s" and "pool_step True (ex_pool s) p"
    and "pl_checked p = pl_checked (ex_pool s)" "pl_full p = pl_full (ex_pool s)"
    and "pl_rejected p = pl_rejected (ex_pool s)"
    and "pl_caller p = NotCalled \<longleftrightarrow> pl_caller (ex_pool s) = NotCalled"
  shows "exec_inv n (s\<lparr>ex_pool := p\<rparr>)"
proof -
  have "pool_reach True p" using assms(1,2) by (auto simp: exec_inv_def intro: reach_step)
  with assms show ?thesis by (simp add: exec_inv_def)
qed

lemma remove1_image: "fst ` set (remove1 x xs) \<subseteq> fst ` set xs"
  using set_remove1_subset by fastforce

lemma submitting_remove:
  "(t, job) \<in> set xs \<Longrightarrow> add_mset job (mset (map snd (remove1 (t, job) xs))) = mset (map snd xs)"
proof -
  assume "(t, job) \<in> set xs"
  then have "mset xs = add_mset (t, job) (mset (remove1 (t, job) xs))" by simp
  then show ?thesis by (metis image_mset_add_mset mset_map snd_conv)
qed

lemma exec_submit_inv:
  assumes inv: "exec_inv n s" and t: "t < n" "wq_pc (ex_queue s) t = Running"
  shows "exec_inv n (exec_submit t job s)"
proof -
  have "ex_caller s \<noteq> PoolStopping" using inv t by (auto simp: exec_inv_def)
  then have "\<not> pl_shutdown (ex_pool s)"
    using inv pool_shutdown_iff [of True "ex_pool s"] by (simp add: exec_inv_def)
  moreover have "pool_reach True (pool_execute job (ex_pool s))"
    using inv by (simp add: exec_inv_def pool_reach_intros)
  ultimately show ?thesis
    using inv t by (simp add: exec_inv_def exec_submit_def pool_execute_def Let_def)
qed

lemma exec_try_send_inv:
  assumes inv: "exec_inv n s" and t: "(t, job) \<in> set (ex_submitting s)" "job \<in> set (pl_checked (ex_pool s))"
  shows "exec_inv n (exec_try_send t job s)"
proof -
  have reach: "pool_reach True (pool_try_send job (ex_pool s))"
    using inv t by (simp add: exec_inv_def pool_reach_intros)
  have jobs: "mset (map snd (ex_submitting s)) = mset (pl_checked (ex_pool s)) + mset (pl_full (ex_pool s))"
    using inv by (simp add: exec_inv_def)
  note sub = submitting_remove [OF t(1)] and chk = mset_remove1_add [OF t(2)]
  show ?thesis
  proof (cases "pl_idle (ex_pool s) > 0")
    case True
    have "add_mset job (mset (map snd (remove1 (t, job) (ex_submitting s))))
        = add_mset job (mset (remove1 job (pl_checked (ex_pool s))) + mset (pl_full (ex_pool s)))"
      using jobs sub chk by (metis union_mset_add_mset_left)
    then have "mset (map snd (remove1 (t, job) (ex_submitting s)))
        = mset (remove1 job (pl_checked (ex_pool s))) + mset (pl_full (ex_pool s))" by (simp only: add_mset_add_mset_same_iff)
    with True inv reach remove1_image [of "(t, job)" "ex_submitting s"] show ?thesis
      by (simp add: exec_inv_def exec_try_send_def) (auto simp: pool_try_send_def Let_def)
  next
    case False
    have "mset (pl_checked (ex_pool s)) + mset (pl_full (ex_pool s))
        = mset (remove1 job (pl_checked (ex_pool s))) + mset (job # pl_full (ex_pool s))"
      using chk by (metis mset.simps(2) union_mset_add_mset_left union_mset_add_mset_right)
    with False inv reach show ?thesis
      by (simp add: exec_inv_def exec_try_send_def) (simp add: pool_try_send_def Let_def)
  qed
qed

lemma exec_spawn_inv:
  assumes inv: "exec_inv n s" and t: "(t, job) \<in> set (ex_submitting s)" "job \<in> set (pl_full (ex_pool s))"
  shows "exec_inv n (exec_spawn t job s)"
proof -
  have reach: "pool_reach True (pool_spawn job (ex_pool s))"
    using inv t by (simp add: exec_inv_def pool_reach_intros)
  have jobs: "mset (map snd (ex_submitting s)) = mset (pl_checked (ex_pool s)) + mset (pl_full (ex_pool s))"
    using inv by (simp add: exec_inv_def)
  have "add_mset job (mset (map snd (remove1 (t, job) (ex_submitting s))))
      = add_mset job (mset (pl_checked (ex_pool s)) + mset (remove1 job (pl_full (ex_pool s))))"
    using jobs submitting_remove [OF t(1)] mset_remove1_add [OF t(2)] by (metis union_mset_add_mset_right)
  then have "mset (map snd (remove1 (t, job) (ex_submitting s)))
      = mset (pl_checked (ex_pool s)) + mset (remove1 job (pl_full (ex_pool s)))" by (simp only: add_mset_add_mset_same_iff)
  with inv reach remove1_image [of "(t, job)" "ex_submitting s"] show ?thesis
    by (simp add: exec_inv_def exec_spawn_def) (auto simp: pool_spawn_def)
qed

lemma exec_close_inv:
  assumes "exec_inv n s" and "ex_caller s = Serving"
  shows "exec_inv n (exec_close s)"
proof -
  have "wq_reach (wq_close (ex_queue s))" using assms(1) by (simp add: exec_inv_def wq_reach_intros)
  with assms show ?thesis by (simp add: exec_inv_def exec_close_def) (simp add: wq_close_def)
qed

text \<open>When all workers have been joined, nothing is under submission.\<close>

lemma exec_joined_inv:
  assumes inv: "exec_inv n s" and "ex_caller s = Joining" and fin: "\<forall>t < n. wq_pc (ex_queue s) t = Finished"
  shows "exec_inv n (exec_joined s)"
proof -
  have none: "ex_submitting s = []"
  proof (rule ccontr)
    assume "ex_submitting s \<noteq> []"
    then obtain t job where "(t, job) \<in> set (ex_submitting s)" by (cases "ex_submitting s") auto
    with inv have "t < n" "wq_pc (ex_queue s) t = Running" by (auto simp: exec_inv_def)
    with fin show False by simp
  qed
  with inv have quiet: "pl_checked (ex_pool s) = [] \<and> pl_full (ex_pool s) = []"
    by (simp add: exec_inv_def)
  moreover have "pl_caller (ex_pool s) = NotCalled" using assms by (simp add: exec_inv_def)
  ultimately have "pool_reach True (shutdown_store (ex_pool s))"
    using inv by (simp add: exec_inv_def pool_reach_intros)
  with assms none show ?thesis by (simp add: exec_inv_def exec_joined_def shutdown_store_def)
qed

lemma exec_step_inv:
  assumes inv: "exec_inv n s" and step: "exec_step n s s'"
  shows "exec_inv n s'"
  using step
proof cases
  case (request item)
  then show ?thesis by (auto intro: queue_step_inv [OF inv] wq_step.intros)
next
  case (notify t)
  then show ?thesis by (auto intro: queue_step_inv [OF inv] wq_step.intros)
next
  case (pop t)
  have "wq_step (ex_queue s) (wq_pop t (ex_queue s))" using pop by (intro wq_step.pop) auto
  moreover have "wq_pc (wq_pop t (ex_queue s)) u = wq_pc (ex_queue s) u"
    if "u \<in> fst ` set (ex_submitting s) \<or> wq_pc (ex_queue s) u = Finished" for u
    using that pop by (intro wq_pop_other) auto
  ultimately show ?thesis unfolding pop(1) by (intro queue_step_inv [OF inv]) auto
next
  case (wake t)
  have "(t, b) \<notin> set (ex_submitting s)" for b using inv wake by (force simp: exec_inv_def)
  with wake show ?thesis by (auto intro!: queue_step_inv [OF inv] wq_step.wake)
next
  case (submit t job)
  with exec_submit_inv [OF inv] show ?thesis by simp
next
  case (try_send t job)
  with exec_try_send_inv [OF inv] show ?thesis by simp
next
  case (spawn t job)
  with exec_spawn_inv [OF inv] show ?thesis by simp
next
  case (initial job)
  show ?thesis unfolding initial(1)
    by (rule pool_step_keeps [OF inv pool_step.initial [OF initial(2)]]) (simp_all add: worker_initial_def)
next
  case (job_done job)
  show ?thesis unfolding job_done(1)
    by (rule pool_step_keeps [OF inv pool_step.job_done [OF job_done(2)]]) (simp_all add: worker_job_done_def)
next
  case (job_panic job)
  show ?thesis unfolding job_panic(1)
    by (rule pool_step_keeps [OF inv pool_step.job_panic [OF job_panic(2)]]) (simp_all add: worker_job_panic_def)
next
  case leave
  show ?thesis unfolding leave(1)
    by (rule pool_step_keeps [OF inv pool_step.leave [OF leave(2)]]) (simp_all add: worker_leave_def)
next
  case guard_drop
  show ?thesis unfolding guard_drop(1)
    by (rule pool_step_keeps [OF inv pool_step.guard_drop [OF guard_drop(2)]]) (simp_all add: worker_guard_drop_def)
next
  case close
  with exec_close_inv [OF inv] show ?thesis by simp
next
  case joined
  with exec_joined_inv [OF inv] show ?thesis by simp
next
  case drop_tx
  show ?thesis unfolding drop_tx(1)
    by (rule pool_step_keeps [OF inv pool_step.drop_tx [OF drop_tx(2)]]) (simp_all add: shutdown_drop_tx_def drop_tx(2))
next
  case return
  show ?thesis unfolding return(1)
    by (rule pool_step_keeps [OF inv pool_step.return [OF return(2,3)]]) (simp_all add: shutdown_return_def return(2))
qed

lemma exec_new_inv: "exec_inv n exec_new"
proof -
  have "pl_checked pool_new = []" "pl_full pool_new = []" "pl_rejected pool_new = []"
    "pl_caller pool_new = NotCalled" "\<not> wq_closed work_queue_new"
    by (simp_all add: pool_new_def work_queue_new_def)
  then show ?thesis by (simp add: exec_inv_def exec_new_def wq_reach_intros pool_reach_intros)
qed

interpretation wsgi_exec: invariant_contract "\<lambda>s. s = exec_new" "exec_step n" "exec_inv n" for n
  by unfold_locales (auto simp: exec_new_inv intro: exec_step_inv)

section \<open>Progress of a shutdown\<close>

text \<open>How many steps are left once nothing new comes in.\<close>

fun pc_work :: "worker_pc \<Rightarrow> nat" where
  "pc_work Running = 2"
| "pc_work Woken = 3"
| "pc_work Parked = 4"
| "pc_work Finished = 0"

definition queue_work :: "nat \<Rightarrow> 'a work_queue \<Rightarrow> nat" where
  "queue_work n q =
     4 * length (wq_items q) + 2 * length (wq_notifying q) + (\<Sum>t<n. pc_work (wq_pc q t))"

definition exec_work :: "nat \<Rightarrow> ('a, 'j) wsgi_exec \<Rightarrow> nat" where
  "exec_work n s =
     queue_work n (ex_queue s) + pool_work (ex_pool s)
     + 6 * length (pl_checked (ex_pool s)) + 5 * length (pl_full (ex_pool s))"

text \<open>New work: a request, or a job submitted by a worker.\<close>

definition new_work :: "('a, 'j) wsgi_exec \<Rightarrow> ('a, 'j) wsgi_exec \<Rightarrow> bool" where
  "new_work s s' \<longleftrightarrow>
     wq_pushed (ex_queue s') \<noteq> wq_pushed (ex_queue s) \<or> pl_submitted (ex_pool s') \<noteq> pl_submitted (ex_pool s)"

lemma pc_work_update:
  fixes n :: nat
  shows "t < n \<Longrightarrow> (\<Sum>u<n. pc_work ((g(t := x)) u)) + pc_work (g t) = (\<Sum>u<n. pc_work (g u)) + pc_work x"
proof -
  assume t: "t < n"
  have "(\<Sum>u<n. f u) = f t + (\<Sum>u\<in>{..<n} - {t}. f u)" for f :: "nat \<Rightarrow> nat"
    using t by (intro sum.remove) auto
  moreover have "(\<Sum>u\<in>{..<n} - {t}. pc_work ((g(t := x)) u)) = (\<Sum>u\<in>{..<n} - {t}. pc_work (g u))"
    by (intro sum.cong) auto
  ultimately show ?thesis by simp
qed

lemma queue_work_pop:
  assumes "t < n" and "wq_pc q t \<in> {Running, Woken}" and "wq_closed q"
  shows "queue_work n (wq_pop t q) < queue_work n q"
proof (cases "wq_items q")
  case Nil
  with assms pc_work_update [OF assms(1), of "wq_pc q" Finished] show ?thesis
    by (auto simp: queue_work_def wq_pop_def simp del: fun_upd_apply)
next
  case (Cons item rest)
  with assms pc_work_update [OF assms(1), of "wq_pc q" Running] show ?thesis
    by (auto simp: queue_work_def wq_pop_def simp del: fun_upd_apply)
qed

lemma queue_work_wake:
  "t < n \<Longrightarrow> wq_pc q t = Parked \<Longrightarrow> queue_work n (wq_wake t q) < queue_work n q"
  using pc_work_update [of t n "wq_pc q" Woken]
  by (simp add: queue_work_def wq_wake_def del: fun_upd_apply)

lemma queue_work_notify:
  "t \<in> set (wq_notifying q) \<Longrightarrow> queue_work n (wq_notify t q) < queue_work n q"
  using length_remove1_Suc [of t "wq_notifying q"] by (simp add: queue_work_def wq_notify_def)

lemmas work_defs = exec_work_def pool_work_def

lemma exec_step_work:
  assumes inv: "exec_inv n s" and closing: "ex_caller s \<noteq> Serving" and step: "exec_step n s s'"
  shows "new_work s s' \<or> exec_work n s' < exec_work n s"
  using step
proof cases
  case (request item)
  then show ?thesis by (simp add: new_work_def wq_push_def Let_def)
next
  case (notify t)
  with queue_work_notify [of t "ex_queue s" n] show ?thesis by (simp add: exec_work_def)
next
  case (pop t)
  have "wq_closed (ex_queue s)" using inv closing by (simp add: exec_inv_def)
  with pop queue_work_pop [of t n "ex_queue s"] show ?thesis by (simp add: exec_work_def)
next
  case (wake t)
  with queue_work_wake [of t n "ex_queue s"] show ?thesis by (simp add: exec_work_def)
next
  case (submit t job)
  then show ?thesis by (simp add: new_work_def exec_submit_def pool_execute_def Let_def)
next
  case (try_send t job)
  have "exec_work n s' < exec_work n s"
    using length_remove1_Suc [OF try_send(3)]
    by (cases "pl_idle (ex_pool s) > 0")
      (simp_all add: try_send(1) work_defs exec_try_send_def pool_try_send_def Let_def)
  then show ?thesis by simp
next
  case (spawn t job)
  then show ?thesis
    using length_remove1_Suc [of job "pl_full (ex_pool s)"]
    by (simp add: work_defs exec_spawn_def) (simp add: pool_spawn_def)
next
  case (initial job)
  then show ?thesis
    using length_remove1_Suc [of job "pl_starting (ex_pool s)"] by (simp add: work_defs worker_initial_def)
next
  case (job_done job)
  then show ?thesis
    using length_remove1_Suc [of job "pl_running (ex_pool s)"] by (simp add: work_defs worker_job_done_def)
next
  case (job_panic job)
  then show ?thesis
    using length_remove1_Suc [of job "pl_running (ex_pool s)"] by (simp add: work_defs worker_job_panic_def)
next
  case leave
  then have "exec_work n s' < exec_work n s" by (simp add: work_defs worker_leave_def)
  then show ?thesis by simp
next
  case guard_drop
  then have "exec_work n s' < exec_work n s" by (simp add: work_defs worker_guard_drop_def)
  then show ?thesis by simp
next
  case close
  with closing show ?thesis by simp
next
  case joined
  then have "pl_caller (ex_pool s) = NotCalled" using inv by (simp add: exec_inv_def)
  with joined show ?thesis by (simp add: work_defs exec_joined_def shutdown_store_def)
next
  case drop_tx
  then show ?thesis by (simp add: work_defs shutdown_drop_tx_def)
next
  case return
  then show ?thesis by (simp add: work_defs shutdown_return_def)
qed

text \<open>A worker that has not finished, after the close, can go on.\<close>

lemma worker_goes_on:
  assumes inv: "exec_inv n s" and closed: "wq_closed (ex_queue s)"
    and t: "t < n" "wq_pc (ex_queue s) t \<noteq> Finished"
  shows "\<exists>s'. exec_step n s s' \<and> \<not> new_work s s'"
proof (cases "\<exists>job. (t, job) \<in> set (ex_submitting s)")
  case True
  then obtain job where job: "(t, job) \<in> set (ex_submitting s)" by blast
  then have "job \<in># mset (map snd (ex_submitting s))" by force
  then have "job \<in># mset (pl_checked (ex_pool s)) + mset (pl_full (ex_pool s))"
    using inv by (simp only: exec_inv_def)
  then consider "job \<in> set (pl_checked (ex_pool s))" | "job \<in> set (pl_full (ex_pool s))" by auto
  then show ?thesis
  proof cases
    case 1
    with job show ?thesis
      by (intro exI [of _ "exec_try_send t job s"] conjI exec_step.try_send)
        (simp_all add: new_work_def exec_try_send_def pool_try_send_def Let_def)
  next
    case 2
    with job show ?thesis
      by (intro exI [of _ "exec_spawn t job s"] conjI exec_step.spawn)
        (simp_all add: new_work_def exec_spawn_def pool_spawn_def)
  qed
next
  case False
  then have free: "t \<notin> fst ` set (ex_submitting s)" by auto
  show ?thesis
  proof (cases "wq_pc (ex_queue s) t = Parked")
    case True
    have "wq_reach (ex_queue s)" using inv by (simp add: exec_inv_def)
    from wq_close_drains [OF this closed] True
    consider "wq_notified (ex_queue s) t" | "t \<in> set (wq_notifying (ex_queue s))" by blast
    then show ?thesis
    proof cases
      case 1
      with t True show ?thesis
        by (intro exI [of _ "s\<lparr>ex_queue := wq_wake t (ex_queue s)\<rparr>"] conjI exec_step.wake)
          (simp_all add: new_work_def wq_wake_def)
    next
      case 2
      then show ?thesis
        by (intro exI [of _ "s\<lparr>ex_queue := wq_notify t (ex_queue s)\<rparr>"] conjI exec_step.notify)
          (simp_all add: new_work_def wq_notify_def)
    qed
  next
    case False
    with t have "wq_pc (ex_queue s) t \<in> {Running, Woken}" by (cases "wq_pc (ex_queue s) t") auto
    with t free show ?thesis
      by (intro exI [of _ "s\<lparr>ex_queue := wq_pop t (ex_queue s)\<rparr>"] conjI exec_step.pop)
        (simp_all add: new_work_def wq_pop_def split: list.split)
  qed
qed

text \<open>So can the pool, while its shutdown waits.\<close>

lemma pool_goes_on:
  assumes inv: "exec_inv n s" and "pl_caller (ex_pool s) = TxDropped"
  shows "\<exists>s'. exec_step n s s' \<and> \<not> new_work s s'"
proof -
  let ?p = "ex_pool s"
  have "pl_workers ?p = length (pl_starting ?p) + length (pl_running ?p) + pl_idle ?p + pl_exiting ?p"
    using inv pool_accounting [of True ?p] by (simp add: exec_inv_def)
  then consider "pl_workers ?p = 0" | "pl_starting ?p \<noteq> []" | "pl_running ?p \<noteq> []"
    | "pl_idle ?p > 0" | "pl_exiting ?p > 0" by fastforce
  then show ?thesis
  proof cases
    case 1
    with assms(2) exec_step.return [of s n] show ?thesis
      by (auto simp: new_work_def shutdown_return_def)
  next
    case 2
    then have "hd (pl_starting ?p) \<in> set (pl_starting ?p)" by simp
    from exec_step.initial [OF this, of n] show ?thesis by (auto simp: new_work_def worker_initial_def)
  next
    case 3
    then have "hd (pl_running ?p) \<in> set (pl_running ?p)" by simp
    from exec_step.job_done [OF this, of n] show ?thesis by (auto simp: new_work_def worker_job_done_def)
  next
    case 4
    from exec_step.leave [OF this, of n] show ?thesis by (auto simp: new_work_def worker_leave_def)
  next
    case 5
    from exec_step.guard_drop [OF this, of n] show ?thesis by (auto simp: new_work_def worker_guard_drop_def)
  qed
qed

section \<open>Properties\<close>

text \<open>
  C22. A shutdown of the executor completes what was accepted: once it has returned, every worker
  has finished, every request pushed before the close was taken by a worker, every job submitted
  to the pool was started (none was rejected), and no thread of the pool is left.
\<close>

theorem wsgi_shutdown_complete:
  assumes "exec_reach n s" and "0 < n" and "pl_caller (ex_pool s) = Returned"
  shows "(\<forall>t < n. wq_pc (ex_queue s) t = Finished)
    \<and> (\<exists>k. wq_at_close (ex_queue s) = Some k
         \<and> take k (wq_pushed (ex_queue s)) = take k (map snd (wq_popped (ex_queue s))))
    \<and> pl_rejected (ex_pool s) = [] \<and> mset (pl_submitted (ex_pool s)) = mset (pl_started (ex_pool s))
    \<and> pl_workers (ex_pool s) = 0 \<and> pl_starting (ex_pool s) = [] \<and> pl_running (ex_pool s) = []"
proof -
  have inv: "exec_inv n s" by (rule wsgi_exec.reach_inv [OF assms(1)])
  then have fin: "\<forall>t < n. wq_pc (ex_queue s) t = Finished" and closed: "wq_closed (ex_queue s)"
    and q: "wq_reach (ex_queue s)" and p: "pool_reach True (ex_pool s)" and "pl_rejected (ex_pool s) = []"
    using assms(3) by (auto simp: exec_inv_def)
  moreover from fin assms(2) wq_close_drains [OF q closed]
  obtain k where "wq_at_close (ex_queue s) = Some k"
    "take k (wq_pushed (ex_queue s)) = take k (map snd (wq_popped (ex_queue s)))" by blast
  moreover have "pool_inv True (ex_pool s)" by (rule pool.reach_inv [OF p])
  ultimately show ?thesis
    using assms(3) by (auto simp: pool_inv_def)
qed

text \<open>One worker takes one request and submits a job; then the executor is shut down.\<close>

definition exec_served :: "(nat, nat) wsgi_exec" where
  "exec_served =
     (let s = exec_submit 0 7 (exec_new\<lparr>ex_queue := wq_pop 0 (wq_push 5 work_queue_new)\<rparr>);
          s = exec_spawn 0 7 (exec_try_send 0 7 s)
      in s\<lparr>ex_pool := worker_job_done 7 (worker_initial 7 (ex_pool s))\<rparr>)"

definition exec_stopped :: "(nat, nat) wsgi_exec" where
  "exec_stopped =
     (let s = exec_close exec_served; s = exec_joined (s\<lparr>ex_queue := wq_pop 0 (ex_queue s)\<rparr>)
      in s\<lparr>ex_pool := shutdown_return (worker_guard_drop (worker_leave (shutdown_drop_tx (ex_pool s))))\<rparr>)"

lemmas exec_defs = exec_new_def work_queue_new_def wq_push_def wq_pop_def wq_close_def exec_submit_def
  exec_try_send_def exec_spawn_def exec_close_def exec_joined_def pool_defs

lemma exec_reach_step: "exec_reach n s \<Longrightarrow> exec_step n s s' \<Longrightarrow> exec_reach n s'"
  by (rule reach_step)

lemma exec_served_reach: "exec_reach 1 exec_served"
proof -
  let ?s0 = "exec_new :: (nat, nat) wsgi_exec"
  let ?s1 = "?s0\<lparr>ex_queue := wq_push 5 (ex_queue ?s0)\<rparr>"
  let ?s2 = "?s1\<lparr>ex_queue := wq_pop 0 (ex_queue ?s1)\<rparr>"
  let ?s3 = "exec_submit 0 7 ?s2"
  let ?s4 = "exec_try_send 0 7 ?s3"
  let ?s5 = "exec_spawn 0 7 ?s4"
  let ?s6 = "?s5\<lparr>ex_pool := worker_initial 7 (ex_pool ?s5)\<rparr>"
  have "exec_reach 1 ?s0" by (rule reach_init) simp
  then have "exec_reach 1 ?s1" by (rule exec_reach_step [OF _ exec_step.request])
  then have "exec_reach 1 ?s2" by (rule exec_reach_step [OF _ exec_step.pop]) (simp_all add: exec_defs)
  then have "exec_reach 1 ?s3" by (rule exec_reach_step [OF _ exec_step.submit]) (simp_all add: exec_defs)
  then have "exec_reach 1 ?s4" by (rule exec_reach_step [OF _ exec_step.try_send]) (simp_all add: exec_defs)
  then have "exec_reach 1 ?s5" by (rule exec_reach_step [OF _ exec_step.spawn]) (simp_all add: exec_defs)
  then have "exec_reach 1 ?s6" by (rule exec_reach_step [OF _ exec_step.initial]) (simp_all add: exec_defs)
  then have "exec_reach 1 (?s6\<lparr>ex_pool := worker_job_done 7 (ex_pool ?s6)\<rparr>)"
    by (rule exec_reach_step [OF _ exec_step.job_done]) (simp_all add: exec_defs)
  moreover have "?s6\<lparr>ex_pool := worker_job_done 7 (ex_pool ?s6)\<rparr> = exec_served"
    by (simp add: exec_served_def Let_def) (simp add: exec_defs)
  ultimately show ?thesis by simp
qed

lemma exec_stopped_reach: "exec_reach 1 exec_stopped"
proof -
  let ?s1 = "exec_close exec_served"
  let ?s2 = "?s1\<lparr>ex_queue := wq_pop 0 (ex_queue ?s1)\<rparr>"
  let ?s3 = "exec_joined ?s2"
  let ?s4 = "?s3\<lparr>ex_pool := shutdown_drop_tx (ex_pool ?s3)\<rparr>"
  let ?s5 = "?s4\<lparr>ex_pool := worker_leave (ex_pool ?s4)\<rparr>"
  let ?s6 = "?s5\<lparr>ex_pool := worker_guard_drop (ex_pool ?s5)\<rparr>"
  have "exec_reach 1 ?s1"
    by (rule exec_reach_step [OF exec_served_reach exec_step.close]) (simp add: exec_served_def exec_defs)
  then have "exec_reach 1 ?s2"
    by (rule exec_reach_step [OF _ exec_step.pop]) (simp_all add: exec_served_def exec_defs)
  then have "exec_reach 1 ?s3"
    by (rule exec_reach_step [OF _ exec_step.joined]) (simp_all add: exec_served_def exec_defs)
  then have "exec_reach 1 ?s4"
    by (rule exec_reach_step [OF _ exec_step.drop_tx]) (simp add: exec_served_def exec_defs)
  then have "exec_reach 1 ?s5"
    by (rule exec_reach_step [OF _ exec_step.leave]) (simp add: exec_served_def exec_defs)
  then have "exec_reach 1 ?s6"
    by (rule exec_reach_step [OF _ exec_step.guard_drop]) (simp add: exec_served_def exec_defs)
  then have "exec_reach 1 (?s6\<lparr>ex_pool := shutdown_return (ex_pool ?s6)\<rparr>)"
    by (rule exec_reach_step [OF _ exec_step.return]) (simp_all add: exec_served_def exec_defs)
  then show ?thesis by (simp add: exec_stopped_def Let_def)
qed

theorem wsgi_shutdown_complete_witness:
  "wq_pc (ex_queue exec_stopped) 0 = Finished \<and> wq_pushed (ex_queue exec_stopped) = [5]
   \<and> mset (pl_submitted (ex_pool exec_stopped)) = mset (pl_started (ex_pool exec_stopped))"
proof -
  have "pl_caller (ex_pool exec_stopped) = Returned" "wq_pushed (ex_queue exec_stopped) = [5]"
    by (simp_all add: exec_stopped_def exec_served_def exec_defs)
  with wsgi_shutdown_complete [OF exec_stopped_reach] show ?thesis by simp
qed

text \<open>
  C23. A shutdown of the executor ends. Once the queue is closed every step that brings no new
  request or job uses up a bounded amount of work, and until the shutdown has returned there is
  such a step: it waits neither for a worker that nobody wakes nor for a thread of the pool that
  does not exist.
\<close>

theorem wsgi_shutdown_progress:
  assumes "exec_reach n s" and "ex_caller s \<noteq> Serving"
  shows "(\<forall>s'. exec_step n s s' \<longrightarrow> new_work s s' \<or> exec_work n s' < exec_work n s)
    \<and> (pl_caller (ex_pool s) \<noteq> Returned \<longrightarrow> (\<exists>s'. exec_step n s s' \<and> exec_work n s' < exec_work n s))"
proof -
  have inv: "exec_inv n s" by (rule wsgi_exec.reach_inv [OF assms(1)])
  note down = exec_step_work [OF inv assms(2)]
  have closed: "wq_closed (ex_queue s)" using inv assms(2) by (simp add: exec_inv_def)
  have "\<exists>s'. exec_step n s s' \<and> \<not> new_work s s'" if r: "pl_caller (ex_pool s) \<noteq> Returned"
  proof (cases "pl_caller (ex_pool s)")
    case NotCalled
    show ?thesis
    proof (cases "\<forall>t < n. wq_pc (ex_queue s) t = Finished")
      case True
      have "ex_caller s = Joining" using inv assms(2) NotCalled by (cases "ex_caller s") (auto simp: exec_inv_def)
      from exec_step.joined [OF this True] show ?thesis
        by (auto simp: new_work_def exec_joined_def shutdown_store_def)
    next
      case False
      with worker_goes_on [OF inv closed] show ?thesis by blast
    qed
  next
    case FlagStored
    from exec_step.drop_tx [OF this, of n] show ?thesis by (auto simp: new_work_def shutdown_drop_tx_def)
  next
    case TxDropped
    with pool_goes_on [OF inv] show ?thesis by blast
  next
    case Returned
    with r show ?thesis by simp
  qed
  with down show ?thesis by blast
qed

theorem wsgi_shutdown_progress_witness:
  "\<exists>s'. exec_step 1 (exec_close exec_served) s' \<and> exec_work 1 s' < exec_work 1 (exec_close exec_served)"
proof -
  have "exec_reach 1 (exec_close exec_served)"
    by (rule exec_reach_step [OF exec_served_reach exec_step.close]) (simp add: exec_served_def exec_defs)
  moreover have "ex_caller (exec_close exec_served) \<noteq> Serving"
    "pl_caller (ex_pool (exec_close exec_served)) \<noteq> Returned"
    by (simp_all add: exec_served_def exec_defs)
  ultimately show ?thesis using wsgi_shutdown_progress by blast
qed

end
