(* ===== verification/Wsgi_Run.thy ===== *)
theory Wsgi_Run
  imports Wsgi_App "HOL-Library.Sublist"
begin

text \<open>
  A worker thread of \<open>src/src/wsgi/python.rs\<close> running one request while the filter of
  \<open>src/src/wsgi/filter.rs\<close> writes the response. \<open>Wsgi_App.execute_app\<close> is the run of a worker
  that nothing interrupts; here the worker makes one step at a time, and between two steps
  Envoy may call the filter, the stream may end and the filter may be dropped. What the
  uninterrupted run leaves out is here: the wait for a token after each chunk of the loop, the
  context variable that gives the application its request's transport bridge, and the guards of
  \<open>src/src/ondrop.rs\<close> that call \<open>close()\<close> and reset the variable.
\<close>

section \<open>The worker\<close>

text \<open>
  \<open>RunOnDrop\<close>: a Python callable with the arguments it is called with when the guard is dropped.
  The worker makes two: the \<open>close()\<close> of the response (with the calls it makes), and the reset of
  the context variable to the value that its token holds.
\<close>

datatype guard = CloseGuard "app_call list" | ResetGuard "nat option"

text \<open>
  Where \<open>execute_app\<close> continues when the Python code it is running returns: the call of the
  application, the only item of a response of length 1, an item of the loop, the end of the
  iterator, the wait for a token, the drop of the guards with the result to return, and the
  worker loop after it.
\<close>

datatype place =
    AppReturns "pyerr + app_response"
  | OneItem "pyerr + pyval"
  | NextItem pyval "(app_call list \<times> pyval) list" "app_call list \<times> (pyerr + unit)"
  | LastItem "pyerr + unit"
  | AwaitToken "(app_call list \<times> pyval) list" "app_call list \<times> (pyerr + unit)"
  | Unwind "pyerr + unit"
  | WorkerDone "pyerr + unit"

text \<open>
  \<open>ru_calls\<close> are the calls the running Python code has still to make, \<open>ru_guards\<close> the guards
  in the order they will be dropped, \<open>ru_taken\<close> the tokens received from \<open>response_written_rx\<close>,
  \<open>ru_context\<close> the context variable of the thread (the bridge of a request is a number),
  \<open>ru_dropped\<close> whether the filter, and with it the sender of tokens, is gone. History variables:
  the calls of \<open>close()\<close>, the chunks of the loop, the calls of \<open>write\<close>, and the sender of a run
  in which nothing is taken from the bridge.
\<close>

record run_sys =
  ru_resp :: resp_sys
  ru_calls :: "app_call list"
  ru_at :: place
  ru_guards :: "guard list"
  ru_taken :: nat
  ru_context :: "nat option"
  ru_dropped :: bool
  ru_closes :: nat
  ru_chunks :: nat
  ru_writes :: nat
  ru_alone :: response_sender

text \<open>An operation on the sender works on the bridge that the filter shares.\<close>

definition send_on :: "(response_sender \<Rightarrow> 'r \<times> response_sender) \<Rightarrow> run_sys \<Rightarrow> 'r \<times> run_sys" where
  "send_on f y =
     (let q = ru_resp y;
          res = f ((rp_sender q)\<lparr>sn_bridge := fl_response_bridge (rp_filter q), sn_commits := 0\<rparr>);
          s = snd res
      in (fst res, y\<lparr>ru_resp := q\<lparr>rp_sender := s, rp_filter := (rp_filter q)\<lparr>fl_response_bridge := sn_bridge s\<rparr>,
                 rp_pending := rp_pending q + sn_commits s\<rparr>,
               ru_alone := snd (f (ru_alone y))\<rparr>))"

definition call_step :: "wsgi_api \<Rightarrow> app_call \<Rightarrow> run_sys \<Rightarrow> run_sys" where
  "call_step api c y =
     (let y = snd (send_on (\<lambda>s. ((), run_call api c s)) y) in
      case c of CallWrite _ \<Rightarrow> y\<lparr>ru_writes := ru_writes y + 1\<rparr> | _ \<Rightarrow> y)"

text \<open>One step of \<open>for item in response.try_iter()?\<close>.\<close>

definition iterate :: "(app_call list \<times> pyval) list \<Rightarrow> app_call list \<times> (pyerr + unit) \<Rightarrow> run_sys \<Rightarrow> run_sys" where
  "iterate items fin y =
     (case items of
        [] \<Rightarrow> y\<lparr>ru_calls := fst fin, ru_at := LastItem (snd fin)\<rparr>
      | (calls, item) # items \<Rightarrow> y\<lparr>ru_calls := calls, ru_at := NextItem item items fin\<rparr>)"

definition send_final :: "wsgi_api \<Rightarrow> bytes \<Rightarrow> run_sys \<Rightarrow> run_sys" where
  "send_final api body y = (case send_on (send_body api body False) y of (r, y) \<Rightarrow> y\<lparr>ru_at := Unwind r\<rparr>)"

text \<open>One chunk of the loop, up to the wait.\<close>

definition send_loop_chunk :: "wsgi_api \<Rightarrow> bytes \<Rightarrow> (app_call list \<times> pyval) list \<Rightarrow> app_call list \<times> (pyerr + unit)
    \<Rightarrow> run_sys \<Rightarrow> run_sys" where
  "send_loop_chunk api body items fin y =
     (case send_on (send_body api body True) y of
        (Inl e, y) \<Rightarrow> y\<lparr>ru_at := Unwind (Inl e)\<rparr>
      | (Inr _, y) \<Rightarrow> y\<lparr>ru_at := AwaitToken items fin, ru_chunks := ru_chunks y + 1\<rparr>)"

text \<open>The response is there: the guard of its \<open>close\<close>, and the three ways to send it.\<close>

definition begin_response :: "wsgi_api \<Rightarrow> app_response \<Rightarrow> run_sys \<Rightarrow> run_sys" where
  "begin_response api r y =
     (let y = (case ar_close r of Some calls \<Rightarrow> y\<lparr>ru_guards := CloseGuard calls # ru_guards y\<rparr> | None \<Rightarrow> y) in
      if ar_len r = Inr 0 then send_final api [] y
      else if ar_len r = Inr 1 then
        (case ar_items r of
           (calls, item) # _ \<Rightarrow> y\<lparr>ru_calls := calls, ru_at := OneItem (Inr item)\<rparr>
         | [] \<Rightarrow> y\<lparr>ru_calls := fst (ar_end r), ru_at := OneItem (case snd (ar_end r) of
                  Inl e \<Rightarrow> Inl e
                | Inr _ \<Rightarrow> Inl (RuntimeError ''WSGI app returned empty iterator despite len() == 1''))\<rparr>)
      else iterate (ar_items r) (ar_end r) y)"

text \<open>\<open>response_written_rx.recv()\<close>: a token, or an error, which is ignored, once the sender is gone.\<close>

definition await_token :: "(app_call list \<times> pyval) list \<Rightarrow> app_call list \<times> (pyerr + unit) \<Rightarrow> run_sys \<Rightarrow> run_sys" where
  "await_token items fin y =
     (if ru_taken y < fl_written (rp_filter (ru_resp y)) then iterate items fin (y\<lparr>ru_taken := ru_taken y + 1\<rparr>)
      else if ru_dropped y then iterate items fin y
      else y)"

text \<open>\<open>Drop\<close> of a guard; an error of the call is ignored.\<close>

fun drop_guard :: "guard \<Rightarrow> run_sys \<Rightarrow> run_sys" where
  "drop_guard (CloseGuard calls) y = y\<lparr>ru_calls := calls, ru_closes := ru_closes y + 1\<rparr>"
| "drop_guard (ResetGuard token) y = y\<lparr>ru_context := token\<rparr>"

text \<open>The worker loop after an error.\<close>

definition report_failure :: "run_sys \<Rightarrow> run_sys" where
  "report_failure y =
     (let q = ru_resp y in
      case app_fails (rp_filter q) of
        (ok, f) \<Rightarrow> y\<lparr>ru_resp := q\<lparr>rp_filter := f, rp_pending := rp_pending q + (if ok then 1 else 0)\<rparr>,
                     ru_alone := sn_emit ResponseException (ru_alone y)\<rparr>)"

definition unwind_step :: "pyerr + unit \<Rightarrow> run_sys \<Rightarrow> run_sys" where
  "unwind_step r y =
     (case ru_guards y of
        g # gs \<Rightarrow> drop_guard g (y\<lparr>ru_guards := gs\<rparr>)
      | [] \<Rightarrow> (case r of Inl _ \<Rightarrow> report_failure y | Inr _ \<Rightarrow> y)\<lparr>ru_at := WorkerDone r\<rparr>)"

text \<open>The worker's next step; it does nothing while it waits and when it is done.\<close>

definition work_step :: "wsgi_api \<Rightarrow> run_sys \<Rightarrow> run_sys" where
  "work_step api y =
     (case ru_calls y of
        c # cs \<Rightarrow> call_step api c (y\<lparr>ru_calls := cs\<rparr>)
      | [] \<Rightarrow>
          (case ru_at y of
             AppReturns (Inl e) \<Rightarrow> y\<lparr>ru_at := Unwind (Inl e)\<rparr>
           | AppReturns (Inr r) \<Rightarrow> begin_response api r y
           | OneItem (Inl e) \<Rightarrow> y\<lparr>ru_at := Unwind (Inl e)\<rparr>
           | OneItem (Inr item) \<Rightarrow>
               (case cast_bytes item of Inl e \<Rightarrow> y\<lparr>ru_at := Unwind (Inl e)\<rparr> | Inr body \<Rightarrow> send_final api body y)
           | NextItem item items fin \<Rightarrow>
               (case cast_bytes item of
                  Inl e \<Rightarrow> y\<lparr>ru_at := Unwind (Inl e)\<rparr> | Inr body \<Rightarrow> send_loop_chunk api body items fin y)
           | LastItem (Inl e) \<Rightarrow> y\<lparr>ru_at := Unwind (Inl e)\<rparr>
           | LastItem (Inr _) \<Rightarrow> send_final api [] y
           | AwaitToken items fin \<Rightarrow> await_token items fin y
           | Unwind r \<Rightarrow> unwind_step r y
           | WorkerDone r \<Rightarrow> y))"

text \<open>
  The start of \<open>execute_app\<close>: the environ, the context variable if there is an HTTP client
  (\<open>client\<close> is the bridge of the request, \<open>ctx\<close> the variable before), and the call of the
  application.
\<close>

definition run_new :: "wsgi_api \<Rightarrow> bytes \<Rightarrow> scope \<Rightarrow> (pydict \<Rightarrow> app_script) \<Rightarrow> nat option \<Rightarrow> nat option \<Rightarrow> run_sys" where
  "run_new api root_path sc app client ctx =
     (let y = \<lparr>ru_resp = resp_sys_new\<lparr>rp_filter := filter_new (client \<noteq> None)\<rparr>, ru_calls = [],
            ru_at = Unwind (Inr ()), ru_guards = [], ru_taken = 0, ru_context = ctx, ru_dropped = False,
            ru_closes = 0, ru_chunks = 0, ru_writes = 0, ru_alone = response_sender_new bridge_new\<rparr> in
      case build_environ api root_path sc of
        Inl e \<Rightarrow> y\<lparr>ru_at := Unwind (Inl e)\<rparr>
      | Inr environ \<Rightarrow>
          (let script = app environ;
               y = (case client of
                      Some b \<Rightarrow> y\<lparr>ru_context := Some b, ru_guards := [ResetGuard (ru_context y)]\<rparr>
                    | None \<Rightarrow> y)
           in y\<lparr>ru_calls := as_calls script, ru_at := AppReturns (as_result script)\<rparr>))"

text \<open>What may happen: a step of the worker, a call of Envoy, the drop of the filter after its stream.\<close>

datatype run_op = Work | EnvoyScheduled | EnvoyAbove | EnvoyBelow | EnvoyComplete | FilterDropped

definition envoy_on :: "(envoy_call list \<Rightarrow> bool) \<Rightarrow> wsgi_api \<Rightarrow> resp_op \<Rightarrow> run_sys \<Rightarrow> run_sys" where
  "envoy_on ends api op y = y\<lparr>ru_resp := resp_exec ends (exc api) op (ru_resp y)\<rparr>"

fun run_exec :: "(envoy_call list \<Rightarrow> bool) \<Rightarrow> wsgi_api \<Rightarrow> run_op \<Rightarrow> run_sys \<Rightarrow> run_sys" where
  "run_exec ends api Work y = work_step api y"
| "run_exec ends api EnvoyScheduled y = envoy_on ends api Scheduled y"
| "run_exec ends api EnvoyAbove y = envoy_on ends api AboveHigh y"
| "run_exec ends api EnvoyBelow y = envoy_on ends api BelowLow y"
| "run_exec ends api EnvoyComplete y = envoy_on ends api StreamComplete y"
| "run_exec ends api FilterDropped y =
     (if fl_response_bridge (rp_filter (ru_resp y)) = Closed then y\<lparr>ru_dropped := True\<rparr> else y)"

definition waits :: "run_sys \<Rightarrow> bool" where
  "waits y \<longleftrightarrow> (case ru_at y of AwaitToken _ _ \<Rightarrow> True | _ \<Rightarrow> False)"

definition is_done :: "run_sys \<Rightarrow> bool" where
  "is_done y \<longleftrightarrow> (case ru_at y of WorkerDone _ \<Rightarrow> True | _ \<Rightarrow> False)"

section \<open>Operations on the sender: lemmas\<close>

text \<open>Two senders that differ only in their bridges behave alike.\<close>

definition same_flags :: "response_sender \<Rightarrow> response_sender \<Rightarrow> bool" where
  "same_flags s t \<longleftrightarrow> sn_start s = sn_start t \<and> sn_headers_sent s = sn_headers_sent t \<and> sn_closed s = sn_closed t"

lemma same_flags_bridge [simp]:
  "same_flags (s\<lparr>sn_bridge := b, sn_commits := n\<rparr>) t = same_flags s t"
  "same_flags (s\<lparr>sn_bridge := b\<rparr>) t = same_flags s t"
  by (simp_all add: same_flags_def)

lemma sender_adds_flags: "same_flags s t \<Longrightarrow> sender_adds e s = sender_adds e t"
  by (auto simp: same_flags_def sender_adds_def split: sender_event.split)

lemma sender_send_flags_eq:
  "same_flags s t \<Longrightarrow> fst (sender_send x e info s) = fst (sender_send x e info t)
     \<and> same_flags (snd (sender_send x e info s)) (snd (sender_send x e info t))"
  by (cases e) (auto simp: same_flags_def sender_send.simps Let_def split: option.split)

text \<open>
  \<open>sends x e f\<close>: the operation \<open>f\<close> makes at most the one send \<open>e\<close>, and its result does not
  depend on the bridge.
\<close>

definition sends :: "exc_api \<Rightarrow> sender_event option \<Rightarrow> (response_sender \<Rightarrow> 'r \<times> response_sender) \<Rightarrow> bool" where
  "sends x e f \<longleftrightarrow>
     (\<forall>s t. same_flags s t \<longrightarrow> fst (f s) = fst (f t))
     \<and> (case e of None \<Rightarrow> \<forall>s. snd (f s) = s
        | Some e \<Rightarrow> \<exists>info. \<forall>s. snd (f s) = snd (sender_send x e info s))"

definition adds :: "sender_event option \<Rightarrow> response_sender \<Rightarrow> response_event list" where
  "adds e s = (case e of None \<Rightarrow> [] | Some e \<Rightarrow> sender_adds e s)"

definition call_event :: "wsgi_api \<Rightarrow> app_call \<Rightarrow> sender_event option" where
  "call_event api c =
     (case c of
        CallStart status hs info \<Rightarrow>
          (case convert_headers api hs of
             Inl _ \<Rightarrow> None
           | Inr headers \<Rightarrow>
               map_option (\<lambda>st. SenderStart \<lparr>rs_status = st, rs_headers = headers\<rparr>)
                 (status_code api (case split_once (CHR '' '') status of Some (code, _) \<Rightarrow> code | None \<Rightarrow> status)))
      | CallWrite data \<Rightarrow> Some (SenderBody \<lparr>bd_body = data, bd_more = True\<rparr>)
      | CallTrailers ts \<Rightarrow> (case convert_headers api ts of Inl _ \<Rightarrow> None | Inr ts \<Rightarrow> Some (SenderTrailers ts)))"

lemma sends_call: "sends (exc api) (call_event api c) (\<lambda>s. ((), run_call api c s))"
  by (cases c) (auto simp: sends_def call_event_def start_response_def write_call_def send_trailers_def Let_def
      split: sum.split option.split)

lemma sends_body: "sends (exc api) (Some (SenderBody \<lparr>bd_body = body, bd_more = m\<rparr>)) (send_body api body m)"
  using sender_send_flags_eq by (auto simp: sends_def send_body_def)

lemma sends_flags:
  "sends x e f \<Longrightarrow> same_flags s t \<Longrightarrow> fst (f s) = fst (f t) \<and> same_flags (snd (f s)) (snd (f t))"
  using sender_send_flags_eq by (auto simp: sends_def split: option.splits)

lemma sends_content:
  "sends x e f \<Longrightarrow> sn_bridge s \<noteq> Closed \<Longrightarrow>
     bridge_content (sn_bridge (snd (f s))) = bridge_content (sn_bridge s) @ adds e s \<and> sn_bridge (snd (f s)) \<noteq> Closed"
  using sender_send_content by (auto simp: sends_def adds_def split: option.splits)

lemma sends_closed_bridge: "sends x e f \<Longrightarrow> sn_bridge s = Closed \<Longrightarrow> sn_bridge (snd (f s)) = Closed"
  using sender_send_closed_bridge by (auto simp: sends_def split: option.splits)

lemma sends_after_end: "sends x e f \<Longrightarrow> sn_closed s \<Longrightarrow> sn_closed (snd (f s))"
  by (auto simp: sends_def sender_send_closed split: option.splits)

text \<open>Only a body with more to follow is answered by a token.\<close>

abbreviation more_events :: "response_event list \<Rightarrow> nat" where
  "more_events es \<equiv> length (filter event_more es)"

definition more_body :: "sender_event option \<Rightarrow> bool" where
  "more_body e \<longleftrightarrow> (case e of Some (SenderBody bd) \<Rightarrow> bd_more bd | _ \<Rightarrow> False)"

lemma more_body_simps [simp]:
  "more_body None = False" "more_body (Some (SenderStart st)) = False"
  "more_body (Some (SenderBody bd)) = bd_more bd" "more_body (Some (SenderTrailers ts)) = False"
  by (simp_all add: more_body_def)

lemma more_adds: "more_events (adds e s) \<le> (if more_body e then 1 else 0)"
  by (cases e) (auto simp: adds_def sender_adds_def split: sender_event.split option.split)

lemma more_adds_sent:
  "sender_send x (SenderBody bd) info s = (Inr u, s') \<Longrightarrow> \<not> sn_closed s \<Longrightarrow> bd_more bd \<Longrightarrow>
     more_events (adds (Some (SenderBody bd)) s) = 1"
  by (auto simp: sender_send.simps adds_def sender_adds_def Let_def split: option.splits if_splits)

lemma more_call: "more_body (call_event api c) \<Longrightarrow> \<exists>data. c = CallWrite data"
  by (cases c) (auto simp: call_event_def more_body_def split: sum.splits option.splits)

text \<open>\<open>grows s t\<close>: an open bridge stays open and only gets longer.\<close>

definition grows :: "response_sender \<Rightarrow> response_sender \<Rightarrow> bool" where
  "grows s t \<longleftrightarrow> (sn_bridge s \<noteq> Closed \<longrightarrow>
     sn_bridge t \<noteq> Closed \<and> prefix (bridge_content (sn_bridge s)) (bridge_content (sn_bridge t)))"

lemma grows_refl [simp, intro]: "grows s s"
  by (simp add: grows_def)

lemma grows_trans: "grows s t \<Longrightarrow> grows t u \<Longrightarrow> grows s u"
  by (auto simp: grows_def intro: prefix_order.trans)

lemma sends_grows: "sends x e f \<Longrightarrow> grows s (snd (f s))"
  using sends_content by (fastforce simp: grows_def)

lemma call_grows: "grows s (run_call api c s)"
  using sends_grows [OF sends_call, of s api c] by simp

lemma body_grows: "grows s (snd (send_body api body m s))"
  by (rule sends_grows [OF sends_body])

lemma calls_grow: "grows s (app_calls api cs s)"
proof (induction cs arbitrary: s)
  case Nil
  then show ?case by (simp add: app_calls_def)
next
  case (Cons c cs)
  from grows_trans [OF call_grows Cons.IH, of s api c] show ?case by (simp add: app_calls_def)
qed

lemma calls_then_body_grow: "grows s (snd (send_body api body m (app_calls api cs s)))"
  by (rule grows_trans [OF calls_grow body_grows])

lemma items_grow: "grows s (snd (send_items api items fin s))"
proof (induction items arbitrary: s)
  case Nil
  then show ?case
    using calls_grow calls_then_body_grow by (cases fin) (auto simp: Let_def split: sum.split)
next
  case (Cons i items)
  obtain calls item where i: "i = (calls, item)" by (cases i)
  show ?case
  proof (cases "cast_bytes item")
    case (Inl e)
    then show ?thesis using calls_grow by (simp add: i Let_def)
  next
    case (Inr body)
    obtain r1 s1 where b: "send_body api body True (app_calls api calls s) = (r1, s1)"
      by (cases "send_body api body True (app_calls api calls s)")
    from calls_then_body_grow [of s api body True calls] b have "grows s s1" by simp
    with grows_trans [OF this Cons.IH] Inr b show ?thesis by (cases r1) (simp_all add: i Let_def)
  qed
qed

lemma respond_grows: "grows s (snd (respond api r s))"
proof -
  have "grows s (snd (send_response api r s))"
    using body_grows calls_grow calls_then_body_grow items_grow
    by (auto simp: send_response_def Let_def split: list.split sum.split)
  from grows_trans [OF this calls_grow [of _ api "close_calls r"]] show ?thesis
    by (cases "send_response api r s") (simp add: respond_def)
qed

section \<open>What the filter sees\<close>

text \<open>
  The filter has been given the beginning of what the worker alone sends, and everything that
  was sent while the stream is open.
\<close>

definition run_sent :: "run_sys \<Rightarrow> bool" where
  "run_sent y \<longleftrightarrow>
     resp_inv (ru_resp y) \<and> same_flags (rp_sender (ru_resp y)) (ru_alone y) \<and> sn_bridge (ru_alone y) \<noteq> Closed
     \<and> prefix (rp_events (ru_resp y)) (bridge_content (sn_bridge (ru_alone y)))
     \<and> (fl_response_bridge (rp_filter (ru_resp y)) \<noteq> Closed \<longrightarrow>
          rp_events (ru_resp y) = bridge_content (sn_bridge (ru_alone y)))"

text \<open>The chunks, the tokens, and the drop of the filter.\<close>

definition run_counts :: "run_sys \<Rightarrow> bool" where
  "run_counts y \<longleftrightarrow>
     (let q = ru_resp y; f = rp_filter q; n = more_events (rp_events q) in
      n \<le> ru_chunks y + ru_writes y
      \<and> (fl_response_bridge f \<noteq> Closed \<and> \<not> sn_closed (rp_sender q) \<longrightarrow> ru_chunks y \<le> n)
      \<and> (ru_dropped y \<longrightarrow> fl_response_bridge f = Closed)
      \<and> ru_taken y \<le> fl_written f
      \<and> (waits y \<longrightarrow> ru_calls y = [])
      \<and> (\<not> ru_dropped y \<longrightarrow> ru_chunks y = ru_taken y + (if waits y then 1 else 0)))"

text \<open>A send by the worker.\<close>

lemma send_on_frame:
  assumes "send_on f y = (r, y')"
  shows "ru_calls y' = ru_calls y \<and> ru_at y' = ru_at y \<and> ru_guards y' = ru_guards y \<and> ru_taken y' = ru_taken y
    \<and> ru_context y' = ru_context y \<and> ru_dropped y' = ru_dropped y \<and> ru_closes y' = ru_closes y
    \<and> ru_chunks y' = ru_chunks y \<and> ru_writes y' = ru_writes y \<and> ru_alone y' = snd (f (ru_alone y))"
  using assms by (auto simp: send_on_def Let_def split: prod.splits)

lemma send_on_result:
  assumes "sends x e f" and "run_sent y"
  shows "fst (send_on f y) = fst (f (ru_alone y))"
proof -
  have "same_flags ((rp_sender (ru_resp y))\<lparr>sn_bridge := b, sn_commits := 0\<rparr>) (ru_alone y)" for b
    using assms(2) by (simp add: run_sent_def)
  from sends_flags [OF assms(1) this] show ?thesis by (simp add: send_on_def Let_def)
qed

lemma send_on_none:
  assumes "sends x None f"
  shows "ru_resp (snd (send_on f y)) = (ru_resp y)\<lparr>rp_sender := (rp_sender (ru_resp y))\<lparr>sn_bridge :=
          fl_response_bridge (rp_filter (ru_resp y)), sn_commits := 0\<rparr>\<rparr>"
proof -
  from assms have "snd (f s) = s" for s by (simp add: sends_def)
  then show ?thesis by (simp add: send_on_def Let_def)
qed

lemma send_on_some:
  assumes "sends x (Some e) f"
  obtains info where "\<And>ends. ru_resp (snd (send_on f y)) = resp_exec ends x (AppSend e info) (ru_resp y)"
proof -
  from assms obtain info where "\<And>s. snd (f s) = snd (sender_send x e info s)" by (auto simp: sends_def)
  then have "ru_resp (snd (send_on f y)) = resp_exec ends x (AppSend e info) (ru_resp y)" for ends
    by (simp add: send_on_def Let_def)
  with that show thesis .
qed

text \<open>The events, the tokens and the invariant of the response after a send.\<close>

lemma send_on_events:
  assumes "sends x e f"
  shows "rp_events (ru_resp (snd (send_on f y))) = rp_events (ru_resp y) @
      (if fl_response_bridge (rp_filter (ru_resp y)) = Closed then [] else adds e (rp_sender (ru_resp y)))
    \<and> (fl_response_bridge (rp_filter (ru_resp (snd (send_on f y)))) = Closed
         \<longleftrightarrow> fl_response_bridge (rp_filter (ru_resp y)) = Closed)
    \<and> fl_written (rp_filter (ru_resp (snd (send_on f y)))) = fl_written (rp_filter (ru_resp y))
    \<and> fl_watermark (rp_filter (ru_resp (snd (send_on f y)))) = fl_watermark (rp_filter (ru_resp y))
    \<and> (sn_closed (rp_sender (ru_resp y)) \<longrightarrow> sn_closed (rp_sender (ru_resp (snd (send_on f y)))))"
proof -
  let ?b = "fl_response_bridge (rp_filter (ru_resp y))"
  let ?s = "(rp_sender (ru_resp y))\<lparr>sn_bridge := ?b, sn_commits := 0\<rparr>"
  have "adds e ?s = adds e (rp_sender (ru_resp y))" by (simp add: adds_def split: option.split)
  moreover have "sn_closed (rp_sender (ru_resp y)) \<longrightarrow> sn_closed (snd (f ?s))"
    using sends_after_end [OF assms, of ?s] by simp
  ultimately show ?thesis
    using sends_content [OF assms, of ?s] sends_closed_bridge [OF assms, of ?s]
    by (auto simp: send_on_def Let_def rp_events_def)
qed

lemma sender_ok_new_commits [simp]:
  "sender_ok (s\<lparr>sn_commits := n, sn_bridge := b\<rparr>) es = sender_ok (s\<lparr>sn_bridge := b\<rparr>) es"
  by (simp add: sender_ok_def sender_phase_def)

lemma send_on_inv:
  assumes "sends x e f" and "resp_inv (ru_resp y)"
  shows "resp_inv (ru_resp (snd (send_on f y)))"
proof (cases e)
  case None
  with assms send_on_none [of x f y] show ?thesis
    by (simp add: resp_inv_def Let_def rp_events_def)
next
  case (Some e')
  with assms(1) obtain info where "\<And>ends. ru_resp (snd (send_on f y)) = resp_exec ends x (AppSend e' info) (ru_resp y)"
    using send_on_some by metis
  with resp_exec_inv [OF assms(2)] show ?thesis by metis
qed

lemma send_on_sent:
  assumes f: "sends x e f" and y: "run_sent y"
  shows "run_sent (snd (send_on f y))"
proof -
  let ?q = "ru_resp y"
  let ?b = "fl_response_bridge (rp_filter ?q)"
  let ?y = "snd (send_on f y)"
  have flags: "same_flags ((rp_sender ?q)\<lparr>sn_bridge := ?b, sn_commits := 0\<rparr>) (ru_alone y)"
    using y by (simp add: run_sent_def)
  have adds: "adds e (rp_sender ?q) = adds e (ru_alone y)"
    using y sender_adds_flags by (auto simp: run_sent_def adds_def split: option.split)
  have alone: "ru_alone ?y = snd (f (ru_alone y))" by (simp add: send_on_def Let_def)
  have flags': "same_flags (rp_sender (ru_resp ?y)) (ru_alone ?y)"
    using sends_flags [OF f flags] by (simp add: send_on_def Let_def)
  have content: "bridge_content (sn_bridge (ru_alone ?y)) = bridge_content (sn_bridge (ru_alone y)) @ adds e (ru_alone y)
      \<and> sn_bridge (ru_alone ?y) \<noteq> Closed"
    using sends_content [OF f, of "ru_alone y"] y by (simp add: alone run_sent_def)
  show ?thesis
    using y flags' content send_on_events [OF f, of y] send_on_inv [OF f, of y]
    by (auto simp: run_sent_def adds)
qed

text \<open>A call of Envoy loses and adds no event, except that closing the bridge drops what is in it.\<close>

lemma scheduled_events:
  "rp_events (resp_exec ends x Scheduled q) = rp_events q
   \<and> (fl_response_bridge (rp_filter q) = Closed \<longrightarrow> fl_response_bridge (rp_filter (resp_exec ends x Scheduled q)) = Closed)"
proof (cases "rp_pending q = 0 \<or> fl_watermark (rp_filter q) \<noteq> 0")
  case True
  then show ?thesis by (auto simp: Let_def rp_events_def)
next
  case False
  let ?b = "fl_response_bridge (rp_filter q)"
  let ?f = "process_send_events ends (rp_filter q)"
  have "same_or_closed (if ?b = Closed then Closed else Empty) ?f"
    using send_steps_effects [of ends "bridge_content ?b"
        "(rp_filter q)\<lparr>fl_response_bridge := (if ?b = Closed then Closed else Empty)\<rparr>"
        "if ?b = Closed then Closed else Empty"]
    by (simp add: process_send_effects same_or_closed_def)
  with False show ?thesis
    by (auto simp: Let_def rp_events_def same_or_closed_def split: if_splits)
qed

definition envoy_op :: "resp_op \<Rightarrow> bool" where
  "envoy_op op \<longleftrightarrow> op \<in> {Scheduled, AboveHigh, BelowLow, StreamComplete}"

lemma envoy_op_events:
  assumes "envoy_op op"
  shows "let q' = resp_exec ends x op q; b = fl_response_bridge (rp_filter q); b' = fl_response_bridge (rp_filter q') in
     rp_sender q' = rp_sender q \<and> (b = Closed \<longrightarrow> b' = Closed) \<and> prefix (rp_events q') (rp_events q)
     \<and> (b' \<noteq> Closed \<longrightarrow> rp_events q' = rp_events q)"
proof -
  consider "op = Scheduled" | "op = AboveHigh" | "op = BelowLow" | "op = StreamComplete"
    using assms by (auto simp: envoy_op_def)
  then show ?thesis
  proof cases
    case 1
    have "rp_sender (resp_exec ends x Scheduled q) = rp_sender q" by (simp add: Let_def)
    with scheduled_events [of ends x q] show ?thesis unfolding 1 Let_def by simp
  qed (simp_all add: Let_def rp_events_def on_above_high_watermark_def on_below_low_watermark_def
      on_stream_complete_effects)
qed

lemma envoy_op_written: "resp_inv q \<Longrightarrow> envoy_op op \<Longrightarrow>
    fl_written (rp_filter q) \<le> fl_written (rp_filter (resp_exec ends x op q))"
proof -
  assume inv: "resp_inv q" and op: "envoy_op op"
  have "prefix (rp_handed q) (rp_handed (resp_exec ends x op q))"
    using op by (auto simp: envoy_op_def Let_def)
  then have "more_events (rp_handed q) \<le> more_events (rp_handed (resp_exec ends x op q))"
    by (auto simp: prefix_def)
  with inv resp_exec_inv [OF inv, of ends x op] show ?thesis
    by (simp add: resp_inv_def Let_def)
qed

lemma run_sent_envoy:
  assumes "envoy_op op" and y: "run_sent y"
  shows "run_sent (envoy_on ends api op y)"
  using y resp_exec_inv [of "ru_resp y" ends "exc api" op] envoy_op_events [OF assms(1), of ends "exc api" "ru_resp y"]
  by (auto simp: run_sent_def envoy_on_def Let_def intro: prefix_order.trans)

text \<open>The parts of the state that a step without a send leaves alone.\<close>

lemma run_sent_updates [simp]:
  "run_sent (y\<lparr>ru_calls := a\<rparr>) = run_sent y" "run_sent (y\<lparr>ru_at := b\<rparr>) = run_sent y"
  "run_sent (y\<lparr>ru_guards := c\<rparr>) = run_sent y" "run_sent (y\<lparr>ru_taken := n\<rparr>) = run_sent y"
  "run_sent (y\<lparr>ru_context := d\<rparr>) = run_sent y" "run_sent (y\<lparr>ru_dropped := e\<rparr>) = run_sent y"
  "run_sent (y\<lparr>ru_closes := n\<rparr>) = run_sent y" "run_sent (y\<lparr>ru_chunks := n\<rparr>) = run_sent y"
  "run_sent (y\<lparr>ru_writes := n\<rparr>) = run_sent y"
  by (simp_all add: run_sent_def)

lemma iterate_frame [simp]:
  "ru_resp (iterate items fin y) = ru_resp y" "ru_alone (iterate items fin y) = ru_alone y"
  "ru_guards (iterate items fin y) = ru_guards y" "ru_taken (iterate items fin y) = ru_taken y"
  "ru_context (iterate items fin y) = ru_context y" "ru_dropped (iterate items fin y) = ru_dropped y"
  "ru_closes (iterate items fin y) = ru_closes y" "ru_chunks (iterate items fin y) = ru_chunks y"
  "ru_writes (iterate items fin y) = ru_writes y" "\<not> waits (iterate items fin y)"
  by (simp_all add: iterate_def waits_def split: list.split prod.split)

lemma drop_guard_frame [simp]:
  "ru_resp (drop_guard g y) = ru_resp y" "ru_alone (drop_guard g y) = ru_alone y"
  "ru_at (drop_guard g y) = ru_at y" "ru_guards (drop_guard g y) = ru_guards y"
  "ru_taken (drop_guard g y) = ru_taken y" "ru_dropped (drop_guard g y) = ru_dropped y"
  "ru_chunks (drop_guard g y) = ru_chunks y" "ru_writes (drop_guard g y) = ru_writes y"
  by (cases g; simp)+

lemma run_sent_steps [simp]:
  "run_sent (iterate items fin y) = run_sent y" "run_sent (drop_guard g y) = run_sent y"
  by (simp_all add: run_sent_def)

lemma run_sent_report: "run_sent y \<Longrightarrow> run_sent (report_failure y)"
proof -
  assume y: "run_sent y"
  let ?q = "ru_resp y"
  have q: "ru_resp (report_failure y) = resp_exec (\<lambda>_. False) x AppFails ?q" for x
    by (simp add: report_failure_def Let_def split: prod.split)
  have alone: "ru_alone (report_failure y) = sn_emit ResponseException (ru_alone y)"
    by (simp add: report_failure_def Let_def split: prod.split)
  have events: "fl_response_bridge (rp_filter (ru_resp (report_failure y))) = snd (bridge_offer (fl_response_bridge (rp_filter ?q)) ResponseException)
      \<and> rp_handed (ru_resp (report_failure y)) = rp_handed ?q \<and> rp_sender (ru_resp (report_failure y)) = rp_sender ?q"
    by (simp add: report_failure_def app_fails_def Let_def split: prod.split)
  have "resp_inv (ru_resp (report_failure y))"
    using y resp_exec_inv q by (metis run_sent_def)
  moreover have "same_flags s (sn_emit ResponseException t) = same_flags s t" for s t
    by (simp add: same_flags_def)
  ultimately show ?thesis
    using y events bridge_offer_content [of "sn_bridge (ru_alone y)" ResponseException]
      bridge_offer_content [of "fl_response_bridge (rp_filter ?q)" ResponseException]
    by (cases "fl_response_bridge (rp_filter ?q) = Closed") (auto simp: run_sent_def alone rp_events_def simp flip: append_assoc)
qed

text \<open>The rule by which a predicate is kept by the worker: each of the things a step does keeps it.\<close>

lemma work_step_keeps:
  assumes call: "\<And>c cs. ru_calls y = c # cs \<Longrightarrow> P (call_step api c (y\<lparr>ru_calls := cs\<rparr>))"
    and at: "\<And>e. ru_calls y = [] \<Longrightarrow> ru_at y \<in> {AppReturns (Inl e), OneItem (Inl e), LastItem (Inl e)}
        \<or> (\<exists>item items fin. ru_at y \<in> {NextItem item items fin, OneItem (Inr item)} \<and> cast_bytes item = Inl e) \<Longrightarrow>
        P (y\<lparr>ru_at := Unwind (Inl e)\<rparr>)"
    and response: "\<And>r. ru_calls y = [] \<Longrightarrow> ru_at y = AppReturns (Inr r) \<Longrightarrow> P (begin_response api r y)"
    and one: "\<And>item body. ru_calls y = [] \<Longrightarrow> ru_at y = OneItem (Inr item) \<Longrightarrow> cast_bytes item = Inr body \<Longrightarrow>
        P (send_final api body y)"
    and chunk: "\<And>item items fin body. ru_calls y = [] \<Longrightarrow> ru_at y = NextItem item items fin \<Longrightarrow> cast_bytes item = Inr body \<Longrightarrow>
        P (send_loop_chunk api body items fin y)"
    and last: "\<And>u. ru_calls y = [] \<Longrightarrow> ru_at y = LastItem (Inr u) \<Longrightarrow> P (send_final api [] y)"
    and await: "\<And>items fin. ru_calls y = [] \<Longrightarrow> ru_at y = AwaitToken items fin \<Longrightarrow> P (await_token items fin y)"
    and unwind: "\<And>r. ru_calls y = [] \<Longrightarrow> ru_at y = Unwind r \<Longrightarrow> P (unwind_step r y)"
    and done_: "\<And>r. ru_calls y = [] \<Longrightarrow> ru_at y = WorkerDone r \<Longrightarrow> P y"
  shows "P (work_step api y)"
proof (cases "ru_calls y")
  case Nil
  then show ?thesis
  proof (cases "ru_at y")
    case (NextItem item items fin)
    with Nil at chunk show ?thesis by (cases "cast_bytes item") (auto simp: work_step_def)
  next
    case (OneItem res)
    show ?thesis
    proof (cases res)
      case (Inr item)
      with Nil OneItem at one show ?thesis by (cases "cast_bytes item") (auto simp: work_step_def)
    qed (use Nil OneItem at in \<open>auto simp: work_step_def\<close>)
  qed (use assms in \<open>auto simp: work_step_def split: sum.split\<close>)
next
  case Cons
  with call show ?thesis by (simp add: work_step_def)
qed

lemma run_sent_send: "sends x e f \<Longrightarrow> run_sent y \<Longrightarrow> send_on f y = (r, y') \<Longrightarrow> run_sent y'"
  using send_on_sent [of x e f y] by simp

lemma run_sent_call: "run_sent y \<Longrightarrow> run_sent (call_step api c y)"
  using send_on_sent [OF sends_call, of y api c] by (cases c) (simp_all add: call_step_def Let_def)

lemma run_sent_final: "run_sent y \<Longrightarrow> run_sent (send_final api body y)"
  using run_sent_send [OF sends_body] by (auto simp: send_final_def split: prod.split)

lemma run_sent_chunk: "run_sent y \<Longrightarrow> run_sent (send_loop_chunk api body items fin y)"
  using run_sent_send [OF sends_body] by (auto simp: send_loop_chunk_def split: prod.split sum.split)

lemma run_sent_begin: "run_sent y \<Longrightarrow> run_sent (begin_response api r y)"
  by (auto simp: begin_response_def Let_def run_sent_final split: option.split list.split)

lemma run_sent_work: "run_sent y \<Longrightarrow> run_sent (work_step api y)"
  by (rule work_step_keeps)
    (auto simp: run_sent_begin run_sent_final run_sent_chunk run_sent_call await_token_def unwind_step_def
      run_sent_report split: list.split sum.split)

lemma run_exec_sent [pres]: "run_sent y \<Longrightarrow> run_sent (run_exec ends api op y)"
  by (cases op) (simp_all add: run_sent_work run_sent_envoy envoy_op_def)

lemma waits_simps [simp]:
  "waits (y\<lparr>ru_calls := a\<rparr>) = waits y" "waits (y\<lparr>ru_at := Unwind r\<rparr>) = False"
  "waits (y\<lparr>ru_at := WorkerDone r\<rparr>) = False" "waits (y\<lparr>ru_at := OneItem i\<rparr>) = False"
  "waits (y\<lparr>ru_guards := c\<rparr>) = waits y" "waits (y\<lparr>ru_resp := q\<rparr>) = waits y"
  "waits (y\<lparr>ru_dropped := e\<rparr>) = waits y" "waits (y\<lparr>ru_writes := n\<rparr>) = waits y"
  "waits (drop_guard g y) = waits y" "waits (y\<lparr>ru_at := AwaitToken items fin, ru_chunks := n\<rparr>)"
  by (simp_all add: waits_def)

lemma send_on_waits [simp]: "waits (snd (send_on f y)) = waits y"
  by (simp add: waits_def send_on_def Let_def)

text \<open>A send that is no chunk of the loop.\<close>

lemma run_counts_send:
  assumes f: "sends x e f" and y: "run_counts y" and s: "send_on f y = (r, y')"
  shows "run_counts (y'\<lparr>ru_writes := ru_writes y + (if more_body e then 1 else 0)\<rparr>)"
  using y send_on_events [OF f, of y] send_on_frame [OF s] more_adds [of e "rp_sender (ru_resp y)"] send_on_waits [of f y] s
  by (auto simp: run_counts_def Let_def split: if_splits)

lemma run_counts_call:
  assumes "run_counts y" shows "run_counts (call_step api c y)"
proof -
  obtain u y' where s: "send_on (\<lambda>s. ((), run_call api c s)) y = (u, y')" by (metis surj_pair)
  let ?n = "if more_body (call_event api c) then 1 else 0 :: nat"
  have c: "run_counts (y'\<lparr>ru_writes := ru_writes y + ?n\<rparr>)"
    by (rule run_counts_send [OF sends_call assms s])
  have w: "ru_writes y' = ru_writes y" using send_on_frame [OF s] by simp
  show ?thesis
  proof (cases "\<exists>data. c = CallWrite data")
    case True
    then have "?n = 1" by (auto simp: call_event_def)
    with True c w s show ?thesis by (auto simp: call_step_def)
  next
    case False
    then have "?n = 0" using more_call by auto
    moreover have "y'\<lparr>ru_writes := ru_writes y\<rparr> = y'" using w by simp
    moreover have "call_step api c y = y'" using s False by (simp add: call_step_def split: app_call.split)
    ultimately show ?thesis using c by simp
  qed
qed

lemma run_counts_updates [simp]:
  "run_counts (y\<lparr>ru_guards := g\<rparr>) = run_counts y" "run_counts (y\<lparr>ru_context := c\<rparr>) = run_counts y"
  "run_counts (y\<lparr>ru_closes := n\<rparr>) = run_counts y"
  by (simp_all add: run_counts_def waits_def)

text \<open>A change of the place, when the worker does not wait.\<close>

lemma run_counts_at:
  "run_counts y \<Longrightarrow> \<not> waits y \<Longrightarrow> \<not> waits (y\<lparr>ru_calls := cs, ru_at := p\<rparr>) \<Longrightarrow> run_counts (y\<lparr>ru_calls := cs, ru_at := p\<rparr>)"
  by (auto simp: run_counts_def Let_def)

lemma run_counts_unwind: "run_counts y \<Longrightarrow> \<not> waits y \<Longrightarrow> run_counts (y\<lparr>ru_at := Unwind r\<rparr>)"
  by (auto simp: run_counts_def Let_def)

lemma run_counts_iterate: "run_counts y \<Longrightarrow> \<not> waits y \<Longrightarrow> run_counts (iterate items fin y)"
  using run_counts_at [of y] iterate_frame(10) [of items fin y]
  by (auto simp: iterate_def split: list.split prod.split)

lemma run_counts_final:
  assumes "run_counts y" and "\<not> waits y" shows "run_counts (send_final api body y)"
proof -
  obtain r y' where s: "send_on (send_body api body False) y = (r, y')" by (metis surj_pair)
  have "y'\<lparr>ru_writes := ru_writes y\<rparr> = y'" using send_on_frame [OF s] by simp
  with run_counts_send [OF sends_body assms(1) s] run_counts_unwind [of y' r] send_on_waits [of "send_body api body False" y] s assms(2)
  show ?thesis by (simp add: send_final_def)
qed

lemma run_counts_chunk:
  assumes y: "run_counts y" "run_sent y" "\<not> waits y" "ru_calls y = []"
  shows "run_counts (send_loop_chunk api body items fin y)"
proof -
  let ?e = "SenderBody \<lparr>bd_body = body, bd_more = True\<rparr>"
  let ?q = "ru_resp y"
  obtain r y' where s: "send_on (send_body api body True) y = (r, y')" by (metis surj_pair)
  note ev = send_on_events [OF sends_body [of api body True], where y = y, unfolded s snd_conv]
  note fr = send_on_frame [OF s]
  show ?thesis
  proof (cases r)
    case (Inl e)
    have "more_events (adds (Some ?e) (rp_sender ?q)) = 0"
    proof -
      from send_on_result [OF sends_body y(2)] s Inl have "fst (send_body api body True (ru_alone y)) = Inl e" by (metis fst_conv)
      moreover have "same_flags (rp_sender ?q) (ru_alone y)" using y(2) by (simp add: run_sent_def)
      ultimately show ?thesis
        using sender_adds_flags [of "rp_sender ?q" "ru_alone y" ?e]
        by (auto simp: send_body_def sender_send.simps adds_def sender_adds_def Let_def split: option.splits if_splits)
    qed
    with y ev fr Inl s show ?thesis
      by (auto simp: send_loop_chunk_def run_counts_def Let_def)
  next
    case (Inr u)
    have "more_events (adds (Some ?e) (rp_sender ?q)) = 1" if "\<not> sn_closed (rp_sender ?q)"
    proof -
      from send_on_result [OF sends_body y(2)] s Inr have "fst (send_body api body True (ru_alone y)) = Inr u" by (metis fst_conv)
      moreover have flags: "same_flags (rp_sender ?q) (ru_alone y)" using y(2) by (simp add: run_sent_def)
      ultimately show ?thesis
        using sender_adds_flags [OF flags, of ?e] that more_adds_sent [of "exc api" "\<lparr>bd_body = body, bd_more = True\<rparr>" None "ru_alone y" u]
        by (cases "send_body api body True (ru_alone y)") (auto simp: send_body_def adds_def same_flags_def)
    qed
    with y ev fr Inr s more_adds [of "Some ?e" "rp_sender ?q"] show ?thesis
      by (auto simp: send_loop_chunk_def run_counts_def Let_def waits_def split: if_splits)
  qed
qed

lemma run_counts_begin:
  assumes "run_counts y" and "\<not> waits y" shows "run_counts (begin_response api r y)"
proof -
  have "\<not> waits (y\<lparr>ru_calls := cs, ru_at := OneItem i\<rparr>)" for y cs i by (simp add: waits_def)
  then have one: "run_counts (z\<lparr>ru_calls := cs, ru_at := OneItem i\<rparr>)" if "run_counts z" "\<not> waits z" for z cs i
    using run_counts_at that by blast
  have "run_counts (y\<lparr>ru_guards := g\<rparr>)" "\<not> waits (y\<lparr>ru_guards := g\<rparr>)" for g using assms by simp_all
  then show ?thesis
    using assms one run_counts_final run_counts_iterate
    by (auto simp: begin_response_def Let_def split: option.split list.split)
qed

lemma run_counts_await:
  assumes "run_counts y" and "waits y" shows "run_counts (await_token items fin y)"
proof -
  have "\<not> waits (iterate items fin z)" for z by simp
  moreover have "ru_calls (iterate items fin z) = ru_calls (iterate items fin y)" "ru_at (iterate items fin z) = ru_at (iterate items fin y)" for z
    by (simp_all add: iterate_def split: list.split prod.split)
  ultimately show ?thesis
    using assms by (auto simp: await_token_def run_counts_def Let_def)
qed

lemma report_failure_frame:
  "ru_calls (report_failure y) = ru_calls y \<and> ru_at (report_failure y) = ru_at y \<and> ru_guards (report_failure y) = ru_guards y
   \<and> ru_taken (report_failure y) = ru_taken y \<and> ru_context (report_failure y) = ru_context y
   \<and> ru_dropped (report_failure y) = ru_dropped y \<and> ru_closes (report_failure y) = ru_closes y
   \<and> ru_chunks (report_failure y) = ru_chunks y \<and> ru_writes (report_failure y) = ru_writes y
   \<and> ru_alone (report_failure y) = sn_emit ResponseException (ru_alone y)"
  by (simp add: report_failure_def Let_def split: prod.split)

lemma report_failure_resp:
  "rp_sender (ru_resp (report_failure y)) = rp_sender (ru_resp y)
   \<and> fl_written (rp_filter (ru_resp (report_failure y))) = fl_written (rp_filter (ru_resp y))
   \<and> fl_watermark (rp_filter (ru_resp (report_failure y))) = fl_watermark (rp_filter (ru_resp y))
   \<and> (fl_response_bridge (rp_filter (ru_resp (report_failure y))) = Closed
        \<longleftrightarrow> fl_response_bridge (rp_filter (ru_resp y)) = Closed)
   \<and> rp_events (ru_resp (report_failure y)) = rp_events (ru_resp y) @
        (if fl_response_bridge (rp_filter (ru_resp y)) = Closed then [] else [ResponseException])"
  using bridge_offer_content [of "fl_response_bridge (rp_filter (ru_resp y))" ResponseException]
    bridge_offer_Closed_iff [of "fl_response_bridge (rp_filter (ru_resp y))" ResponseException]
  by (auto simp: report_failure_def app_fails_def Let_def rp_events_def split: prod.splits)

lemma run_counts_unwind_step:
  assumes "run_counts y" and "\<not> waits y" shows "run_counts (unwind_step r y)"
proof -
  have w: "waits (report_failure y) = waits y" using report_failure_frame by (simp add: waits_def)
  have "run_counts (report_failure y)"
    using assms report_failure_frame [of y] report_failure_resp [of y] w
    by (auto simp: run_counts_def Let_def split: if_splits)
  moreover have "run_counts (z\<lparr>ru_at := WorkerDone r\<rparr>)" if "run_counts z" "\<not> waits z" for z
    using that by (auto simp: run_counts_def Let_def)
  moreover have "run_counts (drop_guard g z)" if "run_counts z" "\<not> waits z" for g z
    using that by (cases g) (auto simp: run_counts_def Let_def waits_def)
  ultimately show ?thesis
    using assms w by (auto simp: unwind_step_def split: list.split sum.split)
qed

lemma run_counts_work:
  assumes "run_sent y" and "run_counts y" shows "run_counts (work_step api y)"
proof (rule work_step_keeps)
  fix c cs assume "ru_calls y = c # cs"
  with assms(2) have "run_counts (y\<lparr>ru_calls := cs\<rparr>)" by (auto simp: run_counts_def Let_def)
  then show "run_counts (call_step api c (y\<lparr>ru_calls := cs\<rparr>))" by (rule run_counts_call)
qed (use assms in \<open>auto simp: run_counts_begin run_counts_final run_counts_chunk run_counts_await
      run_counts_unwind_step run_counts_unwind waits_def\<close>)

lemma run_counts_envoy:
  assumes op: "envoy_op op" and "run_sent y" and "run_counts y" shows "run_counts (envoy_on ends api op y)"
proof -
  let ?q = "ru_resp y"
  let ?q' = "resp_exec ends (exc api) op ?q"
  have "more_events (rp_events ?q') \<le> more_events (rp_events ?q)"
    using envoy_op_events [OF op, of ends "exc api" ?q] by (auto simp: Let_def prefix_def)
  moreover have "fl_written (rp_filter ?q) \<le> fl_written (rp_filter ?q')"
    using assms(2) by (intro envoy_op_written [OF _ op]) (simp add: run_sent_def)
  ultimately show ?thesis
    using assms(3) envoy_op_events [OF op, of ends "exc api" ?q]
    by (auto simp: run_counts_def envoy_on_def Let_def)
qed

lemma run_exec_counts [pres]: "run_sent y \<Longrightarrow> run_counts y \<Longrightarrow> run_counts (run_exec ends api op y)"
  by (cases op) (simp_all add: run_counts_work run_counts_envoy envoy_op_def, simp add: run_counts_def Let_def)

section \<open>Every run of the worker is the run of a worker alone\<close>

text \<open>What is left of \<open>execute_app\<close> when the running Python code returns.\<close>

fun conclude :: "wsgi_api \<Rightarrow> place \<Rightarrow> response_sender \<Rightarrow> (pyerr + unit) \<times> response_sender" where
  "conclude api (AppReturns (Inl e)) s = (Inl e, s)"
| "conclude api (AppReturns (Inr r)) s = respond api r s"
| "conclude api (OneItem (Inl e)) s = (Inl e, s)"
| "conclude api (OneItem (Inr item)) s =
     (case cast_bytes item of Inl e \<Rightarrow> (Inl e, s) | Inr body \<Rightarrow> send_body api body False s)"
| "conclude api (NextItem item items fin) s = send_items api (([], item) # items) fin s"
| "conclude api (LastItem fin) s = send_items api [] ([], fin) s"
| "conclude api (AwaitToken items fin) s = send_items api items fin s"
| "conclude api (Unwind r) s = (r, s)"
| "conclude api (WorkerDone r) s = (r, s)"

fun guard_calls :: "guard \<Rightarrow> app_call list" where
  "guard_calls (CloseGuard calls) = calls"
| "guard_calls (ResetGuard token) = []"

definition failure_sent :: "(pyerr + unit) \<times> response_sender \<Rightarrow> (pyerr + unit) \<times> response_sender" where
  "failure_sent p = (fst p, case fst p of Inl _ \<Rightarrow> sn_emit ResponseException (snd p) | Inr _ \<Rightarrow> snd p)"

text \<open>How the run will end if nothing interrupts it from here.\<close>

definition outcome :: "wsgi_api \<Rightarrow> run_sys \<Rightarrow> (pyerr + unit) \<times> response_sender" where
  "outcome api y =
     (if is_done y then conclude api (ru_at y) (ru_alone y)
      else (case conclude api (ru_at y) (app_calls api (ru_calls y) (ru_alone y)) of
              (r, s) \<Rightarrow> failure_sent (r, app_calls api (concat (map guard_calls (ru_guards y))) s)))"

lemma run_job_failure_sent:
  "fst (run_job api root sc app b) = sn_bridge (snd (failure_sent (execute_app api root sc app b)))"
  by (simp add: run_job_def failure_sent_def split: prod.split sum.split)

lemma app_calls_simps [simp]:
  "app_calls api [] s = s" "app_calls api (c # cs) s = app_calls api cs (run_call api c s)"
  "app_calls api (cs @ ds) s = app_calls api ds (app_calls api cs s)"
  by (simp_all add: app_calls_def)

definition guards_run :: "wsgi_api \<Rightarrow> guard list \<Rightarrow> response_sender \<Rightarrow> response_sender" where
  "guards_run api gs s = app_calls api (concat (map guard_calls gs)) s"

lemma guards_run_simps [simp]:
  "guards_run api [] s = s" "guards_run api (g # gs) s = guards_run api gs (app_calls api (guard_calls g) s)"
  by (simp_all add: guards_run_def)

lemma is_done_simps [simp]:
  "is_done (y\<lparr>ru_at := Unwind r\<rparr>) = False" "is_done (y\<lparr>ru_at := WorkerDone r\<rparr>)"
  "is_done (y\<lparr>ru_at := OneItem i\<rparr>) = False" "is_done (y\<lparr>ru_at := AwaitToken items fin\<rparr>) = False"
  "is_done (y\<lparr>ru_calls := cs\<rparr>) = is_done y" "is_done (y\<lparr>ru_guards := gs\<rparr>) = is_done y"
  "is_done (y\<lparr>ru_chunks := n\<rparr>) = is_done y" "is_done (y\<lparr>ru_taken := n\<rparr>) = is_done y"
  "is_done (y\<lparr>ru_writes := n\<rparr>) = is_done y" "is_done (y\<lparr>ru_resp := q\<rparr>) = is_done y"
  "is_done (y\<lparr>ru_dropped := d\<rparr>) = is_done y" "is_done (drop_guard g y) = is_done y"
  by (simp_all add: is_done_def)

lemma iterate_done [simp]: "\<not> is_done (iterate items fin y)"
  by (simp add: iterate_def is_done_def split: list.split prod.split)

lemma outcome_running:
  "\<not> is_done y \<Longrightarrow> conclude api (ru_at y) (app_calls api (ru_calls y) (ru_alone y)) = (r, s) \<Longrightarrow>
     ru_guards y = gs \<Longrightarrow> outcome api y = failure_sent (r, guards_run api gs s)"
  by (auto simp add: outcome_def guards_run_def)

lemma outcome_final:
  assumes y: "run_sent y" "ru_calls y = []" and b: "send_body api body False (ru_alone y) = (r, s)"
  shows "outcome api (send_final api body y) = failure_sent (r, guards_run api (ru_guards y) s)"
proof -
  obtain r' y' where on: "send_on (send_body api body False) y = (r', y')" by (metis surj_pair)
  have "r' = r" using send_on_result [OF sends_body y(1), of api body False] on b by simp
  with send_on_frame [OF on] y b on show ?thesis
    by (intro outcome_running) (simp_all add: send_final_def)
qed

lemma outcome_iterate:
  "send_items api items fin (ru_alone y) = (r, s) \<Longrightarrow>
     outcome api (iterate items fin y) = failure_sent (r, guards_run api (ru_guards y) s)"
proof (rule outcome_running [OF iterate_done])
  assume i: "send_items api items fin (ru_alone y) = (r, s)"
  show "conclude api (ru_at (iterate items fin y)) (app_calls api (ru_calls (iterate items fin y)) (ru_alone (iterate items fin y))) = (r, s)"
  proof (cases items)
    case Nil
    then show ?thesis using i by (cases fin) (simp add: iterate_def)
  next
    case (Cons x xs)
    obtain calls item where "x = (calls, item)" by (cases x)
    then show ?thesis using i Cons by (simp add: iterate_def)
  qed
qed simp

lemma outcome_chunk:
  assumes y: "run_sent y" "ru_calls y = []" and b: "cast_bytes item = Inr body"
    and i: "send_items api (([], item) # items) fin (ru_alone y) = (r, s)"
  shows "outcome api (send_loop_chunk api body items fin y) = failure_sent (r, guards_run api (ru_guards y) s)"
proof -
  obtain r1 y' where on: "send_on (send_body api body True) y = (r1, y')" by (metis surj_pair)
  obtain s1 where s1: "send_body api body True (ru_alone y) = (r1, s1)"
    using send_on_result [OF sends_body y(1), of api body True] on
    by (cases "send_body api body True (ru_alone y)") simp
  have "conclude api (ru_at (send_loop_chunk api body items fin y)) s1 = (r, s)"
    using i b s1 on by (cases r1) (auto simp: send_loop_chunk_def)
  moreover have "\<not> is_done (send_loop_chunk api body items fin y)" "ru_calls (send_loop_chunk api body items fin y) = []"
    "ru_guards (send_loop_chunk api body items fin y) = ru_guards y" "ru_alone (send_loop_chunk api body items fin y) = s1"
    using send_on_frame [OF on] on s1 y(2) by (auto simp: send_loop_chunk_def is_done_def split: sum.split)
  ultimately show ?thesis using outcome_running [of "send_loop_chunk api body items fin y"] by simp
qed

lemma outcome_begin:
  assumes y: "run_sent y" "ru_calls y = []" and b: "respond api r (ru_alone y) = (res, s)"
  shows "outcome api (begin_response api r y) = failure_sent (res, guards_run api (ru_guards y) s)"
proof -
  define z where "z = (case ar_close r of Some calls \<Rightarrow> y\<lparr>ru_guards := CloseGuard calls # ru_guards y\<rparr> | None \<Rightarrow> y)"
  obtain s1 where s1: "send_response api r (ru_alone y) = (res, s1)" "s = app_calls api (close_calls r) s1"
    using b by (auto simp: respond_def split: prod.splits)
  have z: "run_sent z" "ru_calls z = []" "ru_alone z = ru_alone y" "guards_run api (ru_guards z) s1 = guards_run api (ru_guards y) s"
    using y s1 by (simp_all add: z_def close_calls_def split: option.split)
  have "outcome api (begin_response api r y) = failure_sent (res, guards_run api (ru_guards z) s1)"
  proof (cases "ar_len r = Inr 0 \<or> ar_len r \<noteq> Inr 1")
    case True
    then show ?thesis
      using outcome_final [OF z(1,2)] outcome_iterate [of api "ar_items r" "ar_end r" z] s1 z(3)
      by (auto simp: begin_response_def Let_def z_def [symmetric] send_response_def)
  next
    case False
    then show ?thesis
      using s1 z
      by (intro outcome_running)
        (auto simp: begin_response_def Let_def z_def [symmetric] send_response_def split: list.splits sum.splits)
  qed
  with z(4) show ?thesis by simp
qed

lemma outcome_work:
  assumes y: "run_sent y" and idle: "is_done y \<or> waits y \<Longrightarrow> ru_calls y = []"
  shows "outcome api (work_step api y) = outcome api y"
proof (rule work_step_keeps)
  fix c cs assume c: "ru_calls y = c # cs"
  then have d: "\<not> is_done y" using idle by auto
  obtain u y' where on: "send_on (\<lambda>s. ((), run_call api c s)) (y\<lparr>ru_calls := cs\<rparr>) = (u, y')" by (metis surj_pair)
  let ?z = "call_step api c (y\<lparr>ru_calls := cs\<rparr>)"
  have "ru_alone ?z = run_call api c (ru_alone y)" "ru_calls ?z = cs" "ru_at ?z = ru_at y" "ru_guards ?z = ru_guards y"
    using send_on_frame [OF on] on by (auto simp: call_step_def split: app_call.split)
  with d c show "outcome api ?z = outcome api y"
    by (simp add: outcome_def is_done_def)
next
  fix r assume "ru_calls y = []" "ru_at y = AppReturns (Inr r)"
  with outcome_begin [OF y] outcome_running [of y api] show "outcome api (begin_response api r y) = outcome api y"
    by (cases "respond api r (ru_alone y)") (auto simp: is_done_def)
next
  fix item body assume "ru_calls y = []" "ru_at y = OneItem (Inr item)" "cast_bytes item = Inr body"
  with outcome_final [OF y, of api body] outcome_running [of y api] show "outcome api (send_final api body y) = outcome api y"
    by (cases "send_body api body False (ru_alone y)") (auto simp: is_done_def)
next
  fix u assume "ru_calls y = []" "ru_at y = LastItem (Inr u)"
  with outcome_final [OF y, of api "[]"] outcome_running [of y api] show "outcome api (send_final api [] y) = outcome api y"
    by (cases "send_body api [] False (ru_alone y)") (auto simp: is_done_def)
next
  fix item items fin body assume "ru_calls y = []" "ru_at y = NextItem item items fin" "cast_bytes item = Inr body"
  with outcome_chunk [OF y, of item body api items fin] outcome_running [of y api]
  show "outcome api (send_loop_chunk api body items fin y) = outcome api y"
    by (cases "send_items api (([], item) # items) fin (ru_alone y)") (auto simp: is_done_def)
next
  fix items fin assume at: "ru_calls y = []" "ru_at y = AwaitToken items fin"
  have "outcome api (iterate items fin z) = outcome api y"
    if "ru_alone z = ru_alone y" "ru_guards z = ru_guards y" for z
    using at that outcome_iterate [of api items fin z] outcome_running [of y api]
    by (cases "send_items api items fin (ru_alone y)") (auto simp: is_done_def)
  then show "outcome api (await_token items fin y) = outcome api y" by (simp add: await_token_def)
next
  fix r assume at: "ru_calls y = []" "ru_at y = Unwind r"
  then have o: "outcome api y = failure_sent (r, guards_run api (ru_guards y) (ru_alone y))"
    by (intro outcome_running) (simp_all add: is_done_def)
  show "outcome api (unwind_step r y) = outcome api y"
  proof (cases "ru_guards y")
    case Nil
    then show ?thesis
      using o report_failure_frame [of y]
      by (auto simp: unwind_step_def outcome_def failure_sent_def split: sum.split)
  next
    case (Cons g gs)
    let ?z = "drop_guard g (y\<lparr>ru_guards := gs\<rparr>)"
    have "app_calls api (ru_calls ?z) (ru_alone y) = app_calls api (guard_calls g) (ru_alone y)"
      using at by (cases g) simp_all
    then have "outcome api ?z = failure_sent (r, guards_run api gs (app_calls api (guard_calls g) (ru_alone y)))"
      using at by (intro outcome_running) (simp_all add: is_done_def)
    with o Cons show ?thesis by (simp add: unwind_step_def)
  qed
next
  fix e assume at: "ru_calls y = []" "ru_at y \<in> {AppReturns (Inl e), OneItem (Inl e), LastItem (Inl e)}
        \<or> (\<exists>item items fin. ru_at y \<in> {NextItem item items fin, OneItem (Inr item)} \<and> cast_bytes item = Inl e)"
  then have "outcome api y = failure_sent (Inl e, guards_run api (ru_guards y) (ru_alone y))"
    by (intro outcome_running) (auto simp: is_done_def)
  moreover have "outcome api (y\<lparr>ru_at := Unwind (Inl e)\<rparr>) = failure_sent (Inl e, guards_run api (ru_guards y) (ru_alone y))"
    using at by (intro outcome_running) auto
  ultimately show "outcome api (y\<lparr>ru_at := Unwind (Inl e)\<rparr>) = outcome api y" by simp
qed simp

lemma outcome_same:
  "ru_at z = ru_at y \<Longrightarrow> ru_calls z = ru_calls y \<Longrightarrow> ru_guards z = ru_guards y \<Longrightarrow> ru_alone z = ru_alone y \<Longrightarrow>
     outcome api z = outcome api y"
  by (simp add: outcome_def is_done_def)

lemma outcome_grows: "grows (ru_alone y) (snd (outcome api y))"
proof -
  have c: "grows s (snd (conclude api p s))" for p s
    by (cases "(api, p, s)" rule: conclude.cases)
      (simp_all add: body_grows items_grow respond_grows del: send_items.simps split: sum.split)
  have emit: "grows s (sn_emit ResponseException s)" for s
    using bridge_offer_content [of "sn_bridge s" ResponseException] by (auto simp: grows_def)
  show ?thesis
  proof (cases "is_done y")
    case True
    with c show ?thesis by (simp add: outcome_def)
  next
    case False
    obtain r s where rs: "conclude api (ru_at y) (app_calls api (ru_calls y) (ru_alone y)) = (r, s)" by (metis surj_pair)
    have "grows (ru_alone y) s"
      using grows_trans [OF calls_grow [of "ru_alone y" api "ru_calls y"] c [of _ "ru_at y"]] rs by simp
    then have "grows (ru_alone y) (guards_run api (ru_guards y) s)"
      unfolding guards_run_def by (rule grows_trans [OF _ calls_grow])
    with outcome_running [OF False rs refl] show ?thesis
      using grows_trans [OF _ emit] by (auto simp: failure_sent_def split: sum.split)
  qed
qed

section \<open>The guards\<close>

text \<open>
  While the application runs its request's bridge is in the context variable; \<open>close()\<close> is
  called once if the response has one, before the variable is reset. \<open>n\<close> is how often \<open>close()\<close>
  is to be called, \<open>res\<close> what the call of the application gives, \<open>inner\<close> and \<open>outer\<close> the
  variable inside and outside the request, \<open>base\<close> the guard of the variable.
\<close>

definition run_guards :: "(pyerr + app_response) \<Rightarrow> nat option \<Rightarrow> nat option \<Rightarrow> guard list \<Rightarrow> run_sys \<Rightarrow> bool" where
  "run_guards res inner outer base y \<longleftrightarrow>
     (let n = (case res of Inr r \<Rightarrow> (if ar_close r = None then 0 else 1) | Inl _ \<Rightarrow> 0);
          opened = (\<exists>gs. ru_guards y = gs @ base \<and> ru_closes y + length gs = n \<and> (\<forall>g \<in> set gs. \<exists>cs. g = CloseGuard cs))
            \<and> ru_context y = inner;
          closed = ru_guards y = [] \<and> ru_calls y = [] \<and> ru_closes y = n \<and> ru_context y = outer in
      (ru_calls y \<noteq> [] \<longrightarrow> ru_context y = inner)
      \<and> (waits y \<longrightarrow> ru_calls y = [])
      \<and> (case ru_at y of
           AppReturns res' \<Rightarrow> res' = res \<and> ru_guards y = base \<and> ru_closes y = 0 \<and> ru_context y = inner
         | Unwind _ \<Rightarrow> opened \<or> closed
         | WorkerDone _ \<Rightarrow> closed
         | _ \<Rightarrow> opened))"

lemma run_guards_frame:
  assumes "run_guards res inner outer base y"
    and "ru_calls z = [] \<or> ru_calls z = ru_calls y \<or> ru_calls y = c # ru_calls z" "ru_at z = ru_at y" "ru_guards z = ru_guards y"
    "ru_closes z = ru_closes y" "ru_context z = ru_context y"
  shows "run_guards res inner outer base z"
  using assms by (auto simp: run_guards_def Let_def waits_def split: place.splits)

text \<open>Being inside the request, with the response's guard made.\<close>

definition inside :: "(pyerr + app_response) \<Rightarrow> nat option \<Rightarrow> guard list \<Rightarrow> run_sys \<Rightarrow> bool" where
  "inside res inner base y \<longleftrightarrow>
     ru_context y = inner
     \<and> (\<exists>gs. ru_guards y = gs @ base \<and> (\<forall>g \<in> set gs. \<exists>cs. g = CloseGuard cs)
         \<and> ru_closes y + length gs = (case res of Inr r \<Rightarrow> (if ar_close r = None then 0 else 1) | Inl _ \<Rightarrow> 0))"

lemma inside_frame:
  "inside res inner base y \<Longrightarrow> ru_guards z = ru_guards y \<Longrightarrow> ru_closes z = ru_closes y \<Longrightarrow> ru_context z = ru_context y \<Longrightarrow>
     inside res inner base z"
  by (simp add: inside_def)

lemma run_guards_inside:
  assumes "inside res inner base y" and "waits y \<Longrightarrow> ru_calls y = []"
    and "case ru_at y of AppReturns _ \<Rightarrow> False | WorkerDone _ \<Rightarrow> False | _ \<Rightarrow> True"
  shows "run_guards res inner outer base y"
  using assms by (auto simp: run_guards_def inside_def Let_def split: place.splits)

lemma inside_at:
  "run_guards res inner outer base y \<Longrightarrow> ru_at y \<in> {OneItem i, NextItem item items fin, LastItem l, AwaitToken items fin} \<Longrightarrow>
     inside res inner base y"
  by (auto simp: run_guards_def inside_def Let_def)

lemma send_final_guards:
  assumes "inside res inner base y" shows "run_guards res inner outer base (send_final api body y)"
proof -
  obtain r y' where s: "send_on (send_body api body False) y = (r, y')" by (metis surj_pair)
  have "inside res inner base (y'\<lparr>ru_at := Unwind r\<rparr>)"
    using send_on_frame [OF s] by (intro inside_frame [OF assms]) simp_all
  then have "run_guards res inner outer base (y'\<lparr>ru_at := Unwind r\<rparr>)" by (rule run_guards_inside) simp_all
  with s show ?thesis by (simp add: send_final_def)
qed

lemma send_loop_chunk_guards:
  assumes "inside res inner base y" "ru_calls y = []" shows "run_guards res inner outer base (send_loop_chunk api body items fin y)"
proof -
  obtain r y' where s: "send_on (send_body api body True) y = (r, y')" by (metis surj_pair)
  have "inside res inner base (send_loop_chunk api body items fin y)"
    using send_on_frame [OF s] s by (intro inside_frame [OF assms(1)]) (simp_all add: send_loop_chunk_def split: sum.split)
  then show ?thesis
    using send_on_frame [OF s] s assms(2) by (intro run_guards_inside) (auto simp: send_loop_chunk_def split: sum.splits)
qed

lemma iterate_guards:
  assumes "inside res inner base y" shows "run_guards res inner outer base (iterate items fin y)"
proof (rule run_guards_inside)
  show "inside res inner base (iterate items fin y)" by (rule inside_frame [OF assms]) simp_all
  show "case ru_at (iterate items fin y) of AppReturns _ \<Rightarrow> False | WorkerDone _ \<Rightarrow> False | _ \<Rightarrow> True"
    by (simp add: iterate_def split: list.split prod.split)
qed simp

lemma begin_response_guards:
  assumes y: "run_guards (Inr r) inner outer base y" "ru_at y = AppReturns (Inr r)"
  shows "run_guards (Inr r) inner outer base (begin_response api r y)"
proof -
  let ?z = "case ar_close r of Some calls \<Rightarrow> y\<lparr>ru_guards := CloseGuard calls # ru_guards y\<rparr> | None \<Rightarrow> y"
  have z: "inside (Inr r) inner base ?z"
    using y by (cases "ar_close r") (auto simp: run_guards_def inside_def Let_def)
  have one: "run_guards (Inr r) inner outer base (?z\<lparr>ru_calls := cs, ru_at := OneItem i\<rparr>)" for cs i
  proof (rule run_guards_inside)
    show "inside (Inr r) inner base (?z\<lparr>ru_calls := cs, ru_at := OneItem i\<rparr>)"
      by (rule inside_frame [OF z]) simp_all
  qed (simp_all add: waits_def)
  show ?thesis
    using one send_final_guards [OF z] iterate_guards [OF z]
    by (simp add: begin_response_def Let_def split: list.split)
qed

lemma unwind_step_guards:
  assumes y: "run_guards res inner outer base y" "ru_at y = Unwind r" "ru_calls y = []"
    and base: "base = [] \<and> inner = outer \<or> base = [ResetGuard outer]"
  shows "run_guards res inner outer base (unwind_step r y)"
proof (cases "ru_guards y")
  case Nil
  have "run_guards res inner outer base (z\<lparr>ru_at := WorkerDone r\<rparr>)"
    if "ru_guards z = []" "ru_calls z = []" "ru_closes z = ru_closes y" "ru_context z = ru_context y" for z
    using y that Nil base by (auto simp: run_guards_def Let_def)
  with Nil y(3) report_failure_frame [of y] show ?thesis
    by (simp add: unwind_step_def split: sum.split)
next
  case (Cons g gs)
  with y base show ?thesis
    by (cases g) (auto simp: run_guards_def unwind_step_def Let_def Cons_eq_append_conv waits_def)
qed

lemma run_guards_work:
  assumes y: "run_guards res inner outer base y" and base: "base = [] \<and> inner = outer \<or> base = [ResetGuard outer]"
  shows "run_guards res inner outer base (work_step api y)"
proof (rule work_step_keeps)
  fix c cs assume c: "ru_calls y = c # cs"
  obtain u y' where on: "send_on (\<lambda>s. ((), run_call api c s)) (y\<lparr>ru_calls := cs\<rparr>) = (u, y')" by (metis surj_pair)
  show "run_guards res inner outer base (call_step api c (y\<lparr>ru_calls := cs\<rparr>))"
    using send_on_frame [OF on] on c
    by (intro run_guards_frame [OF y, where c = c]) (auto simp: call_step_def split: app_call.split)
next
  fix e assume at: "ru_calls y = []" "ru_at y \<in> {AppReturns (Inl e), OneItem (Inl e), LastItem (Inl e)}
        \<or> (\<exists>item items fin. ru_at y \<in> {NextItem item items fin, OneItem (Inr item)} \<and> cast_bytes item = Inl e)"
  have "inside res inner base y" using y at by (auto simp: run_guards_def inside_def Let_def)
  then have "inside res inner base (y\<lparr>ru_at := Unwind (Inl e)\<rparr>)" by (rule inside_frame) simp_all
  then show "run_guards res inner outer base (y\<lparr>ru_at := Unwind (Inl e)\<rparr>)" by (rule run_guards_inside) simp_all
next
  fix r assume "ru_at y = AppReturns (Inr r)"
  moreover from this y have "res = Inr r" by (simp add: run_guards_def Let_def)
  ultimately show "run_guards res inner outer base (begin_response api r y)"
    using y begin_response_guards by blast
next
  fix items fin assume at: "ru_at y = AwaitToken items fin"
  have "inside res inner base y" using inside_at [OF y] at by blast
  then have "inside res inner base y" "inside res inner base (y\<lparr>ru_taken := n\<rparr>)" for n by (simp_all add: inside_def)
  then show "run_guards res inner outer base (await_token items fin y)"
    using y by (simp add: await_token_def iterate_guards)
next
  fix r assume "ru_calls y = []" "ru_at y = Unwind r"
  with unwind_step_guards [OF y] base show "run_guards res inner outer base (unwind_step r y)" by blast
qed (use y in \<open>auto intro!: send_final_guards send_loop_chunk_guards inside_at [OF y]\<close>)

lemma run_guards_exec [pres]:
  assumes "base = [] \<and> inner = outer \<or> base = [ResetGuard outer]" and "run_guards res inner outer base y"
  shows "run_guards res inner outer base (run_exec ends api op y)"
  using assms run_guards_work run_guards_frame [OF assms(2)]
  by (cases op) (simp_all add: envoy_on_def)

section \<open>The worker ends\<close>

text \<open>A bound on the steps that are left.\<close>

definition items_size :: "(app_call list \<times> pyval) list \<Rightarrow> app_call list \<times> (pyerr + unit) \<Rightarrow> nat" where
  "items_size items fin = sum_list (map (\<lambda>(calls, _). length calls + 2) items) + length (fst fin) + 2"

fun place_size :: "place \<Rightarrow> nat" where
  "place_size (AppReturns (Inl e)) = 2"
| "place_size (AppReturns (Inr r)) =
     (case ar_close r of Some calls \<Rightarrow> length calls + 1 | None \<Rightarrow> 0) + items_size (ar_items r) (ar_end r) + 1"
| "place_size (OneItem i) = 2"
| "place_size (NextItem item items fin) = items_size items fin + 2"
| "place_size (LastItem fin) = 2"
| "place_size (AwaitToken items fin) = items_size items fin + 1"
| "place_size (Unwind r) = 1"
| "place_size (WorkerDone r) = 0"

definition guard_size :: "guard \<Rightarrow> nat" where
  "guard_size g = length (guard_calls g) + 1"

definition work_size :: "run_sys \<Rightarrow> nat" where
  "work_size y = length (ru_calls y) + place_size (ru_at y) + sum_list (map guard_size (ru_guards y))"

text \<open>The worker is blocked in \<open>recv\<close>.\<close>

definition blocked :: "run_sys \<Rightarrow> bool" where
  "blocked y \<longleftrightarrow> ru_calls y = [] \<and> waits y \<and> \<not> ru_dropped y \<and> fl_written (rp_filter (ru_resp y)) \<le> ru_taken y"

lemma items_size_simps [simp]:
  "items_size [] fin = length (fst fin) + 2"
  "items_size ((calls, item) # items) fin = length calls + 2 + items_size items fin"
  by (simp_all add: items_size_def)

lemma send_final_size:
  assumes "ru_calls y = []" shows "work_size (send_final api body y) = 1 + sum_list (map guard_size (ru_guards y))"
proof -
  obtain r y' where s: "send_on (send_body api body False) y = (r, y')" by (metis surj_pair)
  with send_on_frame [OF s] assms show ?thesis by (simp add: send_final_def work_size_def)
qed

lemma iterate_size: "work_size (iterate items fin y) = items_size items fin + sum_list (map guard_size (ru_guards y))"
  by (cases items) (auto simp: iterate_def work_size_def)

lemma items_size_pos: "2 \<le> items_size items fin"
  by (simp add: items_size_def)

lemma begin_response_size:
  assumes "ru_calls y = []" and "ru_at y = AppReturns (Inr r)"
  shows "work_size (begin_response api r y) < work_size y"
proof -
  let ?z = "case ar_close r of Some calls \<Rightarrow> y\<lparr>ru_guards := CloseGuard calls # ru_guards y\<rparr> | None \<Rightarrow> y"
  have g: "sum_list (map guard_size (ru_guards ?z)) =
      (case ar_close r of Some calls \<Rightarrow> length calls + 1 | None \<Rightarrow> 0) + sum_list (map guard_size (ru_guards y))"
    by (simp add: guard_size_def split: option.split)
  have y: "work_size y = sum_list (map guard_size (ru_guards ?z)) + items_size (ar_items r) (ar_end r) + 1"
    using assms g by (simp add: work_size_def)
  have "ru_calls ?z = []" using assms by (simp split: option.split)
  with send_final_size [of ?z api "[]"] iterate_size [of "ar_items r" "ar_end r" ?z] items_size_pos [of "ar_items r" "ar_end r"]
  show ?thesis
    unfolding y by (auto simp: begin_response_def Let_def work_size_def split: list.split)
qed

lemma work_step_size:
  assumes "\<not> blocked y" and "is_done y \<Longrightarrow> ru_calls y \<noteq> []"
  shows "work_size (work_step api y) < work_size y"
proof (rule work_step_keeps)
  fix c cs assume c: "ru_calls y = c # cs"
  obtain u y' where on: "send_on (\<lambda>s. ((), run_call api c s)) (y\<lparr>ru_calls := cs\<rparr>) = (u, y')" by (metis surj_pair)
  with send_on_frame [OF on] c show "work_size (call_step api c (y\<lparr>ru_calls := cs\<rparr>)) < work_size y"
    by (auto simp: call_step_def work_size_def split: app_call.split)
next
  fix item items fin body assume at: "ru_calls y = []" "ru_at y = NextItem item items fin"
  obtain r y' where on: "send_on (send_body api body True) y = (r, y')" by (metis surj_pair)
  with send_on_frame [OF on] at show "work_size (send_loop_chunk api body items fin y) < work_size y"
    by (auto simp: send_loop_chunk_def work_size_def split: sum.split)
next
  fix items fin assume at: "ru_calls y = []" "ru_at y = AwaitToken items fin"
  then have "ru_taken y < fl_written (rp_filter (ru_resp y)) \<or> ru_dropped y"
    using assms(1) by (auto simp: blocked_def waits_def)
  moreover have "work_size (iterate items fin (y\<lparr>ru_taken := n\<rparr>)) < work_size y" "work_size (iterate items fin y) < work_size y" for n
    using at unfolding iterate_size by (simp_all add: work_size_def)
  ultimately show "work_size (await_token items fin y) < work_size y" by (auto simp: await_token_def)
next
  fix r assume at: "ru_calls y = []" "ru_at y = Unwind r"
  show "work_size (unwind_step r y) < work_size y"
  proof (cases "ru_guards y")
    case Nil
    with at report_failure_frame [of y] show ?thesis by (auto simp: unwind_step_def work_size_def split: sum.split)
  next
    case (Cons g gs)
    with at show ?thesis by (cases g) (simp_all add: unwind_step_def work_size_def guard_size_def)
  qed
next
  fix e assume at: "ru_calls y = []" "ru_at y \<in> {AppReturns (Inl e), OneItem (Inl e), LastItem (Inl e)}
        \<or> (\<exists>item items fin. ru_at y \<in> {NextItem item items fin, OneItem (Inr item)} \<and> cast_bytes item = Inl e)"
  then show "work_size (y\<lparr>ru_at := Unwind (Inl e)\<rparr>) < work_size y" by (auto simp: work_size_def)
next
  fix r assume "ru_calls y = []" "ru_at y = AppReturns (Inr r)"
  then show "work_size (begin_response api r y) < work_size y" by (rule begin_response_size)
qed (use assms in \<open>auto simp: send_final_size is_done_def work_size_def [of y]\<close>)

text \<open>What a step of the worker leaves alone.\<close>

lemma send_final_frame:
  "ru_dropped (send_final api body y) = ru_dropped y"
  "fl_watermark (rp_filter (ru_resp (send_final api body y))) = fl_watermark (rp_filter (ru_resp y))"
proof -
  obtain r y' where s: "send_on (send_body api body False) y = (r, y')" by (metis surj_pair)
  with send_on_frame [OF s] send_on_events [OF sends_body [of api body False], where y = y]
  show "ru_dropped (send_final api body y) = ru_dropped y"
    "fl_watermark (rp_filter (ru_resp (send_final api body y))) = fl_watermark (rp_filter (ru_resp y))"
    by (simp_all add: send_final_def)
qed

lemma work_step_frame:
  "ru_dropped (work_step api y) = ru_dropped y
   \<and> fl_watermark (rp_filter (ru_resp (work_step api y))) = fl_watermark (rp_filter (ru_resp y))"
proof (rule work_step_keeps)
  fix c cs
  obtain u y' where on: "send_on (\<lambda>s. ((), run_call api c s)) (y\<lparr>ru_calls := cs\<rparr>) = (u, y')" by (metis surj_pair)
  with send_on_frame [OF on] send_on_events [OF sends_call [of api c], where y = "y\<lparr>ru_calls := cs\<rparr>"]
  show "ru_dropped (call_step api c (y\<lparr>ru_calls := cs\<rparr>)) = ru_dropped y
    \<and> fl_watermark (rp_filter (ru_resp (call_step api c (y\<lparr>ru_calls := cs\<rparr>)))) = fl_watermark (rp_filter (ru_resp y))"
    by (simp add: call_step_def split: app_call.split)
next
  fix r
  show "ru_dropped (begin_response api r y) = ru_dropped y
    \<and> fl_watermark (rp_filter (ru_resp (begin_response api r y))) = fl_watermark (rp_filter (ru_resp y))"
    by (simp add: begin_response_def Let_def send_final_frame split: option.split list.split prod.split)
next
  fix body items fin
  obtain r y' where s: "send_on (send_body api body True) y = (r, y')" by (metis surj_pair)
  with send_on_frame [OF s] send_on_events [OF sends_body [of api body True], where y = y]
  show "ru_dropped (send_loop_chunk api body items fin y) = ru_dropped y
    \<and> fl_watermark (rp_filter (ru_resp (send_loop_chunk api body items fin y))) = fl_watermark (rp_filter (ru_resp y))"
    by (simp add: send_loop_chunk_def split: sum.split)
next
  fix r
  show "ru_dropped (unwind_step r y) = ru_dropped y
    \<and> fl_watermark (rp_filter (ru_resp (unwind_step r y))) = fl_watermark (rp_filter (ru_resp y))"
    using report_failure_frame [of y] report_failure_resp [of y]
    by (simp add: unwind_step_def split: list.split sum.split)
qed (simp_all add: send_final_frame await_token_def)

lemma work_step_idle: "blocked y \<or> is_done y \<and> ru_calls y = [] \<Longrightarrow> work_step api y = y"
  by (auto simp: blocked_def waits_def is_done_def work_step_def await_token_def split: place.splits)

text \<open>
  Nothing the filter could do frees the worker any more: it waits for a token of a chunk that
  was never sent, because the response is over or the stream is.
\<close>

definition run_held :: "run_sys \<Rightarrow> bool" where
  "run_held y \<longleftrightarrow> blocked y \<and> bridge_content (fl_response_bridge (rp_filter (ru_resp y))) = []
     \<and> (fl_response_bridge (rp_filter (ru_resp y)) = Closed \<or> sn_closed (rp_sender (ru_resp y)))"

definition run_ok :: "run_sys \<Rightarrow> bool" where
  "run_ok y \<longleftrightarrow> run_sent y \<and> run_counts y \<and> (is_done y \<longrightarrow> ru_calls y = [])"

lemma blocked_held:
  assumes y: "run_ok y" and "blocked y" and "bridge_content (fl_response_bridge (rp_filter (ru_resp y))) = []"
  shows "run_held y"
proof -
  let ?q = "ru_resp y"
  have "fl_written (rp_filter ?q) = more_events (rp_events ?q)"
    using y assms(3) by (simp add: run_ok_def run_sent_def resp_inv_def Let_def rp_events_def)
  with y assms(2,3) show ?thesis
    by (auto simp: run_ok_def run_counts_def run_held_def blocked_def Let_def)
qed

text \<open>Envoy delivers the scheduled event, then the worker makes a step.\<close>

definition run_round :: "(envoy_call list \<Rightarrow> bool) \<Rightarrow> wsgi_api \<Rightarrow> run_sys \<Rightarrow> run_sys" where
  "run_round ends api y = work_step api (envoy_on ends api Scheduled y)"

lemma scheduled_frame:
  "rp_sender (resp_exec ends x Scheduled q) = rp_sender q
   \<and> fl_watermark (rp_filter (resp_exec ends x Scheduled q)) = fl_watermark (rp_filter q)"
  using send_steps_effects [of ends "bridge_content (fl_response_bridge (rp_filter q))"
      "(rp_filter q)\<lparr>fl_response_bridge := (if fl_response_bridge (rp_filter q) = Closed then Closed else Empty)\<rparr>"]
  by (simp add: Let_def process_send_effects)

lemma scheduled_drained:
  assumes inv: "resp_inv q" and w: "fl_watermark (rp_filter q) = 0"
  shows "bridge_content (fl_response_bridge (rp_filter (resp_exec ends x Scheduled q))) = []"
proof (cases "rp_pending q = 0")
  case True
  with inv w show ?thesis by (auto simp: resp_inv_def Let_def)
next
  case False
  let ?b = "fl_response_bridge (rp_filter q)"
  have "same_or_closed (if ?b = Closed then Closed else Empty) (process_send_events ends (rp_filter q))"
    using send_steps_effects [of ends "bridge_content ?b"
        "(rp_filter q)\<lparr>fl_response_bridge := (if ?b = Closed then Closed else Empty)\<rparr>"
        "if ?b = Closed then Closed else Empty"]
    by (simp add: process_send_effects same_or_closed_def)
  with False w show ?thesis by (auto simp: Let_def same_or_closed_def split: if_splits)
qed

lemma run_ok_envoy: "envoy_op op \<Longrightarrow> run_ok y \<Longrightarrow> run_ok (envoy_on ends api op y)"
  using run_sent_envoy [of op y ends api] run_counts_envoy [of op y ends api]
  by (simp add: run_ok_def) (simp add: envoy_on_def is_done_def)

lemma run_ok_work: "run_ok y \<Longrightarrow> run_ok (work_step api y)"
proof -
  assume y: "run_ok y"
  have "is_done (work_step api y) \<longrightarrow> ru_calls (work_step api y) = []"
  proof (rule work_step_keeps)
    fix c cs assume c: "ru_calls y = c # cs"
    obtain u y' where on: "send_on (\<lambda>s. ((), run_call api c s)) (y\<lparr>ru_calls := cs\<rparr>) = (u, y')" by (metis surj_pair)
    have "\<not> is_done y" using y c by (auto simp: run_ok_def)
    with send_on_frame [OF on] on
    show "is_done (call_step api c (y\<lparr>ru_calls := cs\<rparr>)) \<longrightarrow> ru_calls (call_step api c (y\<lparr>ru_calls := cs\<rparr>)) = []"
      by (simp add: call_step_def is_done_def split: app_call.split)
  next
    fix r assume "ru_calls y = []" "ru_at y = Unwind r"
    then show "is_done (unwind_step r y) \<longrightarrow> ru_calls (unwind_step r y) = []"
      using report_failure_frame [of y] by (auto simp: unwind_step_def is_done_def split: list.split sum.split)
  next
    fix r show "is_done (begin_response api r y) \<longrightarrow> ru_calls (begin_response api r y) = []"
      by (simp add: begin_response_def Let_def send_final_def split: option.split list.split prod.split) 
  qed (simp_all add: send_final_def send_loop_chunk_def await_token_def is_done_def iterate_def
      split: prod.split sum.split list.split)
  with y run_sent_work [of y api] run_counts_work [of y api] show ?thesis by (simp add: run_ok_def)
qed

lemma run_ok_exec [pres]: "run_ok y \<Longrightarrow> run_ok (run_exec ends api op y)"
  by (cases op)
    (simp_all add: run_ok_work run_ok_envoy envoy_op_def,
     auto simp: run_ok_def run_counts_def Let_def)

interpretation run_machine: machine_contract "run_exec ends api" "\<lambda>_. True" run_ok for ends api
  by unfold_locales (rule run_ok_exec)

lemma round_ends:
  assumes y: "run_ok y" and w: "fl_watermark (rp_filter (ru_resp y)) = 0"
  shows "let z = run_round ends api y in
     run_ok z \<and> fl_watermark (rp_filter (ru_resp z)) = 0 \<and> (is_done z \<or> run_held z \<or> work_size z < work_size y)"
proof -
  let ?y = "envoy_on ends api Scheduled y"
  have ok: "run_ok ?y" using run_ok_envoy [OF _ y] by (simp add: envoy_op_def)
  have w': "fl_watermark (rp_filter (ru_resp ?y)) = 0"
    using scheduled_frame [of ends "exc api" "ru_resp y"] w unfolding envoy_on_def by simp
  have empty: "bridge_content (fl_response_bridge (rp_filter (ru_resp ?y))) = []"
    using scheduled_drained [OF _ w, of ends "exc api"] y
    unfolding envoy_on_def by (simp add: run_ok_def run_sent_def del: resp_exec.simps)
  have size: "work_size ?y = work_size y" by (simp add: envoy_on_def work_size_def)
  have "is_done (run_round ends api y) \<or> run_held (run_round ends api y) \<or> work_size (run_round ends api y) < work_size y"
  proof (cases "blocked ?y \<or> is_done ?y \<and> ru_calls ?y = []")
    case True
    then have "run_round ends api y = ?y" by (simp add: run_round_def work_step_idle)
    with True blocked_held [OF ok _ empty] show ?thesis by auto
  next
    case False
    with work_step_size [of ?y api] size show ?thesis by (auto simp: run_round_def)
  qed
  then show ?thesis
    using run_ok_work [OF ok, of api] work_step_frame [of api ?y] w' by (simp add: run_round_def Let_def)
qed

lemma round_stays:
  assumes "run_ok y" and "is_done y \<or> run_held y"
  shows "is_done (run_round ends api y) \<or> run_held (run_round ends api y)"
proof -
  let ?y = "envoy_on ends api Scheduled y"
  have "is_done ?y = is_done y" "ru_calls ?y = ru_calls y" by (simp_all add: envoy_on_def is_done_def)
  moreover have "run_held ?y" if held: "run_held y"
  proof -
    have b: "bridge_content (fl_response_bridge (rp_filter (ru_resp y))) = []" using held by (simp add: run_held_def)
    have e: "fl_response_bridge (rp_filter (ru_resp y)) \<noteq> Closed \<Longrightarrow> fl_response_bridge (rp_filter (ru_resp y)) = Empty"
      using b assms(1) by (cases "fl_response_bridge (rp_filter (ru_resp y))")
        (auto simp: run_ok_def run_sent_def resp_inv_def Let_def sender_ok_def bridge_wf_def)
    have "rp_filter (ru_resp ?y) = rp_filter (ru_resp y)" "rp_sender (ru_resp ?y) = rp_sender (ru_resp y)"
      using b e by (auto simp: envoy_on_def Let_def process_send_effects)
    with held show ?thesis by (simp add: run_held_def blocked_def waits_def) (simp add: envoy_on_def)
  qed
  ultimately show ?thesis
    using assms work_step_idle [of ?y api] by (auto simp: run_round_def run_ok_def run_held_def)
qed

lemma rounds_end:
  assumes "run_ok y" and "fl_watermark (rp_filter (ru_resp y)) = 0" and "is_done y \<or> run_held y \<or> work_size y \<le> n"
  shows "is_done ((run_round ends api ^^ n) y) \<or> run_held ((run_round ends api ^^ n) y)"
  using assms
proof (induction n arbitrary: y)
  case 0
  have "work_size y = 0 \<Longrightarrow> is_done y"
    by (cases "ru_at y") (auto simp: work_size_def is_done_def items_size_def split: sum.splits elim: place_size.elims)
  with 0 show ?case by auto
next
  case (Suc n)
  let ?z = "run_round ends api y"
  have z: "run_ok ?z" "fl_watermark (rp_filter (ru_resp ?z)) = 0"
    "is_done ?z \<or> run_held ?z \<or> work_size ?z < work_size y"
    using round_ends [OF Suc.prems(1,2), of ends api] by (simp_all add: Let_def)
  from z(3) Suc.prems(3) round_stays [OF Suc.prems(1), of ends api]
  have "is_done ?z \<or> run_held ?z \<or> work_size ?z \<le> n" by auto
  from Suc.IH [OF z(1,2) this] show ?case by (simp add: funpow_swap1)
qed

lemma dropped_ends:
  "ru_dropped y \<Longrightarrow> run_ok y \<Longrightarrow> work_size y \<le> n \<Longrightarrow> is_done ((work_step api ^^ n) y)"
proof (induction n arbitrary: y)
  case 0
  then show ?case
    by (cases "ru_at y") (auto simp: work_size_def is_done_def items_size_def split: sum.splits elim: place_size.elims)
next
  case (Suc n)
  show ?case
  proof (cases "is_done y")
    case True
    then have "work_step api y = y" using Suc.prems(2) by (intro work_step_idle) (simp add: run_ok_def)
    then have "(work_step api ^^ m) y = y" for m by (induction m) simp_all
    with True show ?thesis by metis
  next
    case False
    have "work_size (work_step api y) < work_size y"
      using False Suc.prems(1) by (intro work_step_size) (auto simp: blocked_def)
    with Suc.IH [of "work_step api y"] Suc.prems work_step_frame [of api y] run_ok_work [of y api]
    show ?thesis by (simp add: funpow_swap1)
  qed
qed

section \<open>The start\<close>

text \<open>The context variable while the application runs, the guard of it, what the application returns.\<close>

definition app_context :: "wsgi_api \<Rightarrow> bytes \<Rightarrow> scope \<Rightarrow> nat option \<Rightarrow> nat option \<Rightarrow> nat option" where
  "app_context api root sc client ctx =
     (case build_environ api root sc of Inl _ \<Rightarrow> ctx | Inr _ \<Rightarrow> (case client of Some b \<Rightarrow> Some b | None \<Rightarrow> ctx))"

definition app_guards :: "wsgi_api \<Rightarrow> bytes \<Rightarrow> scope \<Rightarrow> nat option \<Rightarrow> nat option \<Rightarrow> guard list" where
  "app_guards api root sc client ctx =
     (case build_environ api root sc of
        Inl _ \<Rightarrow> [] | Inr _ \<Rightarrow> (case client of Some b \<Rightarrow> [ResetGuard ctx] | None \<Rightarrow> []))"

definition app_returned :: "wsgi_api \<Rightarrow> bytes \<Rightarrow> scope \<Rightarrow> (pydict \<Rightarrow> app_script) \<Rightarrow> pyerr + app_response" where
  "app_returned api root sc app =
     (case build_environ api root sc of Inl e \<Rightarrow> Inl e | Inr environ \<Rightarrow> as_result (app environ))"

definition close_count :: "pyerr + app_response \<Rightarrow> nat" where
  "close_count res = (case res of Inr r \<Rightarrow> (if ar_close r = None then 0 else 1) | Inl _ \<Rightarrow> 0)"

lemma run_new_ok: "run_ok (run_new api root sc app client ctx)"
proof -
  let ?q = "resp_sys_new\<lparr>rp_filter := filter_new (client \<noteq> None)\<rparr>"
  have q: "resp_inv ?q" "rp_events ?q = []"
    by (simp_all add: resp_inv_def Let_def sender_ok_def resp_sys_new_def response_sender_new_def
      filter_new_def rp_events_def bridge_new_def bridge_wf_def sender_phase_def response_calls_def)
  have "run_ok y" if "ru_resp y = ?q" "ru_alone y = response_sender_new bridge_new" "ru_taken y = 0" "ru_chunks y = 0"
    "\<not> ru_dropped y" "\<not> waits y" "\<not> is_done y" for y
    using that q
    by (simp add: run_ok_def run_sent_def run_counts_def Let_def)
      (simp add: resp_sys_new_def response_sender_new_def bridge_new_def same_flags_def)
  then show ?thesis
    by (auto simp: run_new_def Let_def waits_def is_done_def split: sum.split option.split)
qed

lemma run_new_outcome:
  "outcome api (run_new api root sc app client ctx) = failure_sent (execute_app api root sc app bridge_new)"
proof (cases "build_environ api root sc")
  case (Inl e)
  then show ?thesis by (simp add: run_new_def execute_app_def outcome_def is_done_def)
next
  case (Inr environ)
  let ?y = "run_new api root sc app client ctx"
  let ?s = "app_calls api (as_calls (app environ)) (response_sender_new bridge_new)"
  obtain r s where rs: "conclude api (AppReturns (as_result (app environ))) ?s = (r, s)" by (metis surj_pair)
  have "outcome api ?y = failure_sent (r, guards_run api (app_guards api root sc client ctx) s)"
    using Inr rs by (intro outcome_running) (auto simp: run_new_def Let_def is_done_def app_guards_def split: option.split)
  moreover have "guards_run api (app_guards api root sc client ctx) s = s" by (simp add: app_guards_def split: sum.split option.split)
  moreover have "execute_app api root sc app bridge_new = (r, s)"
    using rs Inr by (cases "as_result (app environ)") (simp_all add: execute_app_def Let_def)
  ultimately show ?thesis by simp
qed

lemma run_new_guards:
  "run_guards (app_returned api root sc app) (app_context api root sc client ctx) ctx (app_guards api root sc client ctx)
     (run_new api root sc app client ctx)"
  by (auto simp: run_guards_def run_new_def app_returned_def app_context_def app_guards_def Let_def waits_def
      split: sum.split option.split)

lemma app_guards_cases:
  "app_guards api root sc client ctx = [] \<and> app_context api root sc client ctx = ctx
   \<or> app_guards api root sc client ctx = [ResetGuard ctx]"
  by (simp add: app_guards_def app_context_def split: sum.split option.split)

lemma run_reaches_ok: "run_ok (fold (run_exec ends api) ops (run_new api root sc app client ctx))"
  by (rule run_machine.fold_inv [OF _ run_new_ok]) (simp add: list_all_iff)

lemma run_exec_outcome:
  assumes "run_ok y" shows "outcome api (run_exec ends api op y) = outcome api y"
proof (cases op)
  case Work
  have "outcome api (work_step api y) = outcome api y"
    using assms by (intro outcome_work) (auto simp: run_ok_def run_counts_def Let_def)
  with Work show ?thesis by simp
qed (auto intro!: outcome_same simp: envoy_on_def)

lemma run_outcome:
  "run_ok y \<Longrightarrow> outcome api (fold (run_exec ends api) ops y) = outcome api y"
  by (induction ops arbitrary: y) (auto simp: run_exec_outcome run_ok_exec)

lemma run_reaches_guards:
  "run_guards (app_returned api root sc app) (app_context api root sc client ctx) ctx (app_guards api root sc client ctx)
     (fold (run_exec ends api) ops (run_new api root sc app client ctx))"
proof (induction ops rule: rev_induct)
  case Nil
  then show ?case by (simp add: run_new_guards)
next
  case (snoc op ops)
  then show ?case using run_guards_exec [OF app_guards_cases] by simp
qed

lemma run_guards_facts:
  assumes "run_guards res inner outer base y"
  shows "(ru_calls y \<noteq> [] \<longrightarrow> ru_context y = inner)
    \<and> (if is_done y then ru_context y = outer \<and> ru_guards y = [] \<and> ru_closes y = close_count res
       else ru_closes y \<le> close_count res)"
proof
  show "ru_calls y \<noteq> [] \<longrightarrow> ru_context y = inner" using assms by (simp add: run_guards_def Let_def)
  show "if is_done y then ru_context y = outer \<and> ru_guards y = [] \<and> ru_closes y = close_count res
       else ru_closes y \<le> close_count res"
    using assms by (cases "ru_at y") (auto simp: run_guards_def Let_def is_done_def close_count_def)
qed

lemma run_counts_facts:
  assumes "run_ok y"
  shows "more_events (bridge_content (fl_response_bridge (rp_filter (ru_resp y)))) \<le> 1 + ru_writes y
     \<and> ru_taken y \<le> fl_written (rp_filter (ru_resp y))
     \<and> (ru_dropped y \<or> ru_chunks y \<le> fl_written (rp_filter (ru_resp y)) + 1)"
  using assms by (cases "ru_dropped y")
    (auto simp: run_ok_def run_counts_def run_sent_def resp_inv_def Let_def rp_events_def split: if_splits)

section \<open>An example\<close>

text \<open>An application that yields two chunks, and makes the calls \<open>cs\<close> before the second.\<close>

definition demo_response :: "app_call list \<Rightarrow> app_response" where
  "demo_response cs = \<lparr>ar_len = Inr 2, ar_items = [([], PyBytes ''a''), (cs, PyBytes ''b'')],
     ar_end = ([], Inr ()), ar_close = Some []\<rparr>"

definition demo_app :: "app_call list \<Rightarrow> pydict \<Rightarrow> app_script" where
  "demo_app cs _ = \<lparr>as_calls = [CallStart ''200'' [] None], as_result = Inr (demo_response cs)\<rparr>"

definition run_demo_scope :: scope where
  "run_demo_scope = demo_scope\<lparr>sc_headers := []\<rparr>"

abbreviation demo_new :: "app_call list \<Rightarrow> run_sys" where
  "demo_new cs \<equiv> run_new demo_wsgi_api [] run_demo_scope (demo_app cs) (Some 7) None"

definition demo_state :: "app_call list \<Rightarrow> run_sys" where
  "demo_state cs = \<lparr>ru_resp = resp_sys_new\<lparr>rp_filter := filter_new True\<rparr>, ru_calls = [CallStart ''200'' [] None],
   ru_at = AppReturns (Inr (demo_response cs)), ru_guards = [ResetGuard None], ru_taken = 0, ru_context = Some 7,
   ru_dropped = False, ru_closes = 0, ru_chunks = 0, ru_writes = 0, ru_alone = response_sender_new bridge_new\<rparr>"

lemma demo_environ: "\<exists>d. build_environ demo_wsgi_api [] run_demo_scope = Inr d"
  by (simp add: run_demo_scope_def build_environ_def environ_path_def Let_def split: option.split)

lemma demo_new_state: "demo_new cs = demo_state cs"
  using demo_environ by (auto simp: run_new_def Let_def demo_app_def demo_state_def)

text \<open>Envoy writes each chunk before the worker goes on, until the worker is done.\<close>

definition demo_ops :: "run_op list" where
  "demo_ops = replicate 3 Work @ [EnvoyScheduled] @ replicate 2 Work @ [EnvoyScheduled] @ replicate 6 Work"

definition demo_end :: run_sys where
  "demo_end = fold (run_exec (\<lambda>_. False) demo_wsgi_api) demo_ops (demo_state [])"

lemma demo_end_facts:
  "ru_at demo_end = WorkerDone (Inr ())" "bridge_content (fl_response_bridge (rp_filter (ru_resp demo_end))) \<noteq> []"
  by code_simp+

text \<open>
  After trailers the next chunk is dropped by the sender, but the worker waits for its token, and
  nothing but the drop of the filter gives it one.
\<close>

lemma held_after_trailers:
  "let y = fold (run_exec (\<lambda>_. False) demo_wsgi_api)
       (replicate 3 Work @ [EnvoyScheduled] @ replicate 3 Work @ [EnvoyScheduled]) (demo_state [CallTrailers []])
   in run_held y \<and> \<not> is_done y"
  by code_simp

lemma held_until_dropped:
  assumes y: "run_ok y" "run_held y" and "op \<noteq> FilterDropped"
  shows "run_held (run_exec ends api op y)"
proof -
  have closed: "run_held (envoy_on ends api op' y)"
    if op': "envoy_op op'" and w: "fl_written (rp_filter (ru_resp (envoy_on ends api op' y))) = fl_written (rp_filter (ru_resp y))"
      and b: "bridge_content (fl_response_bridge (rp_filter (ru_resp (envoy_on ends api op' y)))) = []" for op'
    using y(2) w b envoy_op_events [OF op', of ends "exc api" "ru_resp y"]
    by (auto simp: run_held_def blocked_def waits_def envoy_on_def Let_def)
  have b: "bridge_content (fl_response_bridge (rp_filter (ru_resp y))) = []" using y(2) by (simp add: run_held_def)
  show ?thesis
  proof (cases op)
    case Work
    with y(2) show ?thesis by (simp add: run_held_def work_step_idle)
  next
    case EnvoyScheduled
    with closed [of Scheduled] b show ?thesis
      by (simp add: envoy_op_def envoy_on_def Let_def process_send_effects)
  next
    case EnvoyAbove
    with closed [of AboveHigh] b show ?thesis
      by (simp add: envoy_op_def envoy_on_def on_above_high_watermark_def)
  next
    case EnvoyBelow
    with closed [of BelowLow] b show ?thesis
      by (simp add: envoy_op_def envoy_on_def on_below_low_watermark_def Let_def)
  next
    case EnvoyComplete
    with closed [of StreamComplete] show ?thesis
      by (simp add: envoy_op_def envoy_on_def on_stream_complete_effects)
  qed (use assms(3) in simp)
qed

section \<open>Properties\<close>

text \<open>
  C3. What a WSGI worker sends does not depend on how Envoy interleaves with it. Whatever calls
  of Envoy come between its steps, the filter has been given a beginning of the events of the
  uninterrupted run; once the worker is done its result is the result of that run, and unless
  the stream has ended every event of the run, with the failure at its end, is written or in the
  bridge.
\<close>

theorem wsgi_worker_refines:
  "let y = fold (run_exec ends api) ops (run_new api root sc app client ctx);
       es = bridge_content (fst (run_job api root sc app bridge_new)) in
     prefix (rp_handed (ru_resp y)) es
     \<and> (\<forall>r. ru_at y = WorkerDone r \<longrightarrow> r = fst (execute_app api root sc app bridge_new)
          \<and> (fl_response_bridge (rp_filter (ru_resp y)) = Closed \<or> rp_events (ru_resp y) = es))"
proof -
  let ?y = "fold (run_exec ends api) ops (run_new api root sc app client ctx)"
  let ?p = "failure_sent (execute_app api root sc app bridge_new)"
  have ok: "run_ok ?y" by (rule run_reaches_ok)
  have out: "outcome api ?y = ?p" using run_outcome [OF run_new_ok] run_new_outcome by metis
  have es: "fst (run_job api root sc app bridge_new) = sn_bridge (snd ?p)" by (rule run_job_failure_sent)
  have "grows (ru_alone ?y) (snd ?p)" using outcome_grows [of ?y api] out by simp
  moreover have "prefix (rp_handed (ru_resp ?y)) (bridge_content (sn_bridge (ru_alone ?y)))" "sn_bridge (ru_alone ?y) \<noteq> Closed"
    using ok by (auto simp: run_ok_def run_sent_def rp_events_def dest: append_prefixD)
  ultimately have pre: "prefix (rp_handed (ru_resp ?y)) (bridge_content (sn_bridge (snd ?p)))"
    by (auto simp: grows_def intro: prefix_order.trans)
  have "r = fst (execute_app api root sc app bridge_new) \<and> ru_alone ?y = snd ?p" if "ru_at ?y = WorkerDone r" for r
    using out that by (auto simp: outcome_def is_done_def failure_sent_def prod_eq_iff)
  with pre ok es show ?thesis by (auto simp: Let_def run_ok_def run_sent_def)
qed

theorem wsgi_worker_refines_witness:
  "fst (execute_app demo_wsgi_api [] run_demo_scope (demo_app []) bridge_new) = Inr ()
   \<and> rp_events (ru_resp demo_end) = bridge_content (fst (run_job demo_wsgi_api [] run_demo_scope (demo_app []) bridge_new))"
  using wsgi_worker_refines [of "\<lambda>_. False" demo_wsgi_api demo_ops "[]" run_demo_scope "demo_app []" "Some 7" None] demo_end_facts
  by (auto simp: demo_new_state demo_end_def [symmetric] Let_def)



text \<open>
  C33. The loop over the application's iterable runs at most one chunk ahead of Envoy: apart
  from one chunk for each call of \<open>write\<close>, which does not wait, no more than one chunk is in the
  bridge; the worker never takes a token that was not sent, and before the filter is dropped it
  has sent at most one chunk more than were written.
\<close>

theorem wsgi_one_chunk_ahead:
  "let y = fold (run_exec ends api) ops (run_new api root sc app client ctx); f = rp_filter (ru_resp y) in
     more_events (bridge_content (fl_response_bridge f)) \<le> 1 + ru_writes y
     \<and> ru_taken y \<le> fl_written f \<and> (ru_dropped y \<or> ru_chunks y \<le> fl_written f + 1)"
proof -
  from run_counts_facts [OF run_reaches_ok] show ?thesis by (simp only: Let_def)
qed

text \<open>
  C32. A request leaves nothing behind on its worker thread. While code of the application runs,
  \<open>close()\<close> included, the context variable holds the bridge of this request; when the worker is
  done the variable is what it was before, and \<open>close()\<close> was called exactly once if the
  application returned a response that has one, whether the response was sent or failed.
\<close>

theorem wsgi_request_cleanup:
  "let y = fold (run_exec ends api) ops (run_new api root sc app client ctx);
       n = close_count (app_returned api root sc app) in
     (ru_calls y \<noteq> [] \<longrightarrow> ru_context y = app_context api root sc client ctx)
     \<and> (if is_done y then ru_context y = ctx \<and> ru_guards y = [] \<and> ru_closes y = n else ru_closes y \<le> n)"
proof -
  from run_guards_facts [OF run_reaches_guards] show ?thesis by (simp only: Let_def)
qed

theorem wsgi_request_cleanup_witness:
  "ru_calls (demo_state []) \<noteq> [] \<and> ru_context (demo_state []) = app_context demo_wsgi_api [] run_demo_scope (Some 7) None
   \<and> ru_closes demo_end = close_count (Inr (demo_response [])) \<and> ru_context demo_end = None"
proof -
  have r: "app_returned demo_wsgi_api [] run_demo_scope (demo_app []) = Inr (demo_response [])"
    using demo_environ by (auto simp: app_returned_def demo_app_def)
  have "ru_calls (demo_state []) \<noteq> []" "is_done demo_end"
    using demo_end_facts by (simp_all add: demo_state_def is_done_def)
  with r wsgi_request_cleanup [of "\<lambda>_. False" demo_wsgi_api "[]" "[]" run_demo_scope "demo_app []" "Some 7" None]
    wsgi_request_cleanup [of "\<lambda>_. False" demo_wsgi_api demo_ops "[]" run_demo_scope "demo_app []" "Some 7" None]
  show ?thesis by (simp add: demo_new_state demo_end_def [symmetric] Let_def)
qed

end
