(* ===== verification/Event_Loop.thy ===== *)
theory Event_Loop
  imports Py_Values
begin

text \<open>
  \<open>src/src/asgi/shared/eventloop.rs\<close>: how Envoy's threads hand tasks to a Python event loop
  without the interpreter lock, how the loop is woken and drains them, and the pool of loops.
\<close>

section \<open>Kinds of loops\<close>

datatype loop_kind = Asyncio | Uvloop | Winloop | Zuvloop | Trio

definition loop_kind_parse :: "bytes \<Rightarrow> loop_kind option" where
  "loop_kind_parse name =
     (if name = ''asyncio'' then Some Asyncio
      else if name = ''uvloop'' then Some Uvloop
      else if name = ''winloop'' then Some Winloop
      else if name = ''zuvloop'' then Some Zuvloop
      else if name = ''trio'' then Some Trio
      else None)"

definition platform_default :: "bool \<Rightarrow> loop_kind" where
  "platform_default windows = (if windows then Winloop else Uvloop)"

fun loop_module :: "loop_kind \<Rightarrow> bytes" where
  "loop_module Asyncio = ''asyncio''"
| "loop_module Uvloop = ''uvloop''"
| "loop_module Winloop = ''winloop''"
| "loop_module Zuvloop = ''zuvloop''"
| "loop_module Trio = ''pyvoy._trio''"

fun watches_sockets :: "bool \<Rightarrow> loop_kind \<Rightarrow> bool" where
  "watches_sockets unix Trio = False"
| "watches_sockets unix Asyncio = unix"
| "watches_sockets unix _ = True"

section \<open>The queue of one loop\<close>

text \<open>
  Where the drainer is: not running, past the clearing of the socket, or past its critical
  section with the tasks it took and whether it still has to schedule another pass.
\<close>

datatype 't drainer = Resting | Cleared | Taken "'t list" bool

datatype waker_message = Wake | Stop

text \<open>
  \<open>lp_owed\<close> counts the producers between their critical section and their write,
  \<open>lp_bytes\<close> the bytes in the socket, \<open>lp_messages\<close> the messages to the waker thread (of the loops
  that cannot watch a socket), \<open>lp_thread\<close> whether it is alive, \<open>lp_scheduled\<close> the passes
  scheduled on the loop with \<open>call_soon\<close>. The last two fields are history.
\<close>

record 't loop_state =
  lp_socket :: bool
  lp_batch_size :: nat
  lp_tasks :: "'t list"
  lp_wake_pending :: bool
  lp_owed :: nat
  lp_bytes :: nat
  lp_messages :: "waker_message list"
  lp_thread :: bool
  lp_scheduled :: nat
  lp_drainer :: "'t drainer"
  lp_dispatched :: "'t list"
  lp_ran :: "'t list"

definition loop_new :: "bool \<Rightarrow> nat \<Rightarrow> 't loop_state" where
  "loop_new socket batch_size =
     \<lparr>lp_socket = socket, lp_batch_size = batch_size, lp_tasks = [], lp_wake_pending = False,
      lp_owed = 0, lp_bytes = 0, lp_messages = [], lp_thread = True, lp_scheduled = 0,
      lp_drainer = Resting, lp_dispatched = [], lp_ran = []\<rparr>"

text \<open>\<open>dispatch\<close>: its critical section, and the wake-up that follows if it was the first.\<close>

definition dispatch :: "'t \<Rightarrow> 't loop_state \<Rightarrow> 't loop_state" where
  "dispatch t s =
     (let wake = \<not> lp_wake_pending s;
          s = s\<lparr>lp_tasks := lp_tasks s @ [t], lp_wake_pending := True,
                lp_dispatched := lp_dispatched s @ [t]\<rparr>
      in if wake then s\<lparr>lp_owed := lp_owed s + 1\<rparr> else s)"

text \<open>A write to a full socket is dropped; \<open>full\<close> says that this one is.\<close>

definition wake :: "bool \<Rightarrow> 't loop_state \<Rightarrow> 't loop_state" where
  "wake full s =
     (let s = s\<lparr>lp_owed := lp_owed s - 1\<rparr> in
      if lp_socket s then s\<lparr>lp_bytes := (if full then lp_bytes s else lp_bytes s + 1)\<rparr>
      else s\<lparr>lp_messages := lp_messages s @ [Wake]\<rparr>)"

text \<open>The waker thread: one iteration of its loop.\<close>

definition waker_step :: "'t loop_state \<Rightarrow> 't loop_state" where
  "waker_step s =
     (case lp_messages s of
        [] \<Rightarrow> s
      | Wake # rest \<Rightarrow> s\<lparr>lp_messages := rest, lp_scheduled := lp_scheduled s + 1\<rparr>
      | Stop # rest \<Rightarrow> s\<lparr>lp_messages := rest, lp_thread := False\<rparr>)"

text \<open>
  \<open>LoopDrainer::__call__\<close> in its three parts. Clearing reads 64 bytes at a time until a read
  comes back short; a short or empty read leaves nothing.
\<close>

function clear_socket :: "nat \<Rightarrow> nat" where
  "clear_socket n = (if n < 64 then 0 else clear_socket (n - 64))"
  by pat_completeness auto
termination by (relation "measure (\<lambda>n. n)") auto

declare clear_socket.simps [simp del]

definition drain_clear :: "'t loop_state \<Rightarrow> 't loop_state" where
  "drain_clear s =
     s\<lparr>lp_bytes := (if lp_socket s then clear_socket (lp_bytes s) else lp_bytes s),
       lp_drainer := Cleared\<rparr>"

definition drain_take :: "'t loop_state \<Rightarrow> 't loop_state" where
  "drain_take s =
     (let count = min (length (lp_tasks s)) (lp_batch_size s);
          tasks = take count (lp_tasks s);
          rest = drop count (lp_tasks s);
          more_tasks = (rest \<noteq> []);
          s = s\<lparr>lp_tasks := rest, lp_drainer := Taken tasks more_tasks\<rparr>
      in if \<not> more_tasks then s\<lparr>lp_wake_pending := False\<rparr> else s)"

definition drain_reschedule :: "'t list \<Rightarrow> 't loop_state \<Rightarrow> 't loop_state" where
  "drain_reschedule ts s = s\<lparr>lp_scheduled := lp_scheduled s + 1, lp_drainer := Taken ts False\<rparr>"

text \<open>
  A \<open>call_soon\<close> that raises ends the call of the drainer: the tasks it took are dropped, and the
  loop stays marked as woken.
\<close>

definition drain_reschedule_fails :: "'t loop_state \<Rightarrow> 't loop_state" where
  "drain_reschedule_fails s = s\<lparr>lp_drainer := Resting\<rparr>"

text \<open>
  \<open>report_task_error\<close>: the exception handler of the loop, or the error stream if a call on the way
  there raises, as it does on the trio adapter, which has no handler.
\<close>

datatype error_report = ToHandler | ToStderr

definition report_task_error :: "(pyerr + unit) \<Rightarrow> (pyerr + unit) \<Rightarrow> error_report" where
  "report_task_error set_context call_handler =
     (case pbind set_context (\<lambda>_. call_handler) of Inr _ \<Rightarrow> ToHandler | Inl _ \<Rightarrow> ToStderr)"

text \<open>Running a task; an error it returns is reported and changes nothing here.\<close>

definition drain_run :: "'t \<Rightarrow> 't list \<Rightarrow> 't loop_state \<Rightarrow> 't loop_state" where
  "drain_run t ts s = s\<lparr>lp_ran := lp_ran s @ [t], lp_drainer := Taken ts False\<rparr>"

text \<open>
  The steps of the loop and its wakers, without new dispatches. The loop calls the drainer when
  the socket is readable or a scheduled pass is due, and runs one callback at a time.
\<close>

inductive loop_step :: "'t loop_state \<Rightarrow> 't loop_state \<Rightarrow> bool" where
  wake: "lp_owed s > 0 \<Longrightarrow> full \<longrightarrow> lp_bytes s > 0 \<Longrightarrow> loop_step s (wake full s)"
| waker: "lp_thread s \<Longrightarrow> lp_messages s \<noteq> [] \<Longrightarrow> loop_step s (waker_step s)"
| readable: "lp_drainer s = Resting \<Longrightarrow> lp_socket s \<Longrightarrow> lp_bytes s > 0 \<Longrightarrow> loop_step s (drain_clear s)"
| scheduled: "lp_drainer s = Resting \<Longrightarrow> lp_scheduled s > 0 \<Longrightarrow>
    loop_step s (drain_clear (s\<lparr>lp_scheduled := lp_scheduled s - 1\<rparr>))"
| take: "lp_drainer s = Cleared \<Longrightarrow> loop_step s (drain_take s)"
| reschedule: "lp_drainer s = Taken ts True \<Longrightarrow> loop_step s (drain_reschedule ts s)"
| run: "lp_drainer s = Taken (t # ts) False \<Longrightarrow> loop_step s (drain_run t ts s)"
| finish: "lp_drainer s = Taken [] False \<Longrightarrow> loop_step s (s\<lparr>lp_drainer := Resting\<rparr>)"

inductive_cases loop_stepE: "loop_step s t"

text \<open>The whole system, until the loop is stopped: any thread may dispatch at any time.\<close>

inductive loop_system :: "'t loop_state \<Rightarrow> 't loop_state \<Rightarrow> bool" where
  own: "loop_step s t \<Longrightarrow> loop_system s t"
| dispatched: "loop_system s (dispatch t s)"

abbreviation loop_reach :: "bool \<Rightarrow> nat \<Rightarrow> 't loop_state \<Rightarrow> bool" where
  "loop_reach socket batch \<equiv> reach (\<lambda>s. s = loop_new socket batch) loop_system"

section \<open>Invariant\<close>

lemma clear_socket_0 [simp]: "clear_socket n = 0"
  by (induction n rule: clear_socket.induct) (subst clear_socket.simps; simp)

text \<open>Something that makes the loop drain is under way.\<close>

definition wake_under_way :: "'t loop_state \<Rightarrow> bool" where
  "wake_under_way s \<longleftrightarrow>
     lp_owed s > 0 \<or> (lp_socket s \<and> lp_bytes s > 0) \<or> lp_messages s \<noteq> [] \<or> lp_scheduled s > 0
     \<or> lp_drainer s = Cleared \<or> (\<exists>ts. lp_drainer s = Taken ts True)"

fun in_hand :: "'t drainer \<Rightarrow> 't list" where
  "in_hand (Taken ts m) = ts"
| "in_hand _ = []"

definition loop_inv :: "bool \<Rightarrow> nat \<Rightarrow> 't loop_state \<Rightarrow> bool" where
  "loop_inv socket batch s \<longleftrightarrow>
     lp_socket s = socket \<and> lp_batch_size s = batch \<and> lp_thread s \<and> Stop \<notin> set (lp_messages s)
     \<and> (lp_wake_pending s \<longleftrightarrow> lp_tasks s \<noteq> [])
     \<and> (lp_tasks s \<noteq> [] \<longrightarrow> wake_under_way s)
     \<and> lp_dispatched s = lp_ran s @ in_hand (lp_drainer s) @ lp_tasks s
     \<and> length (in_hand (lp_drainer s)) \<le> batch
     \<and> (\<forall>ts. lp_drainer s = Taken ts True \<longrightarrow> lp_tasks s \<noteq> [])
     \<and> (socket \<longrightarrow> lp_messages s = [])"

lemma loop_step_inv:
  assumes inv: "loop_inv socket batch s" and step: "loop_step s t"
  shows "loop_inv socket batch t"
  using step
proof cases
  case (wake full)
  with inv show ?thesis
    by (cases full) (auto simp: loop_inv_def wake_def Let_def wake_under_way_def)
next
  case waker
  with inv show ?thesis
    by (auto simp: loop_inv_def waker_step_def wake_under_way_def split: list.split waker_message.split)
next
  case readable
  with inv show ?thesis by (auto simp: loop_inv_def drain_clear_def wake_under_way_def)
next
  case scheduled
  with inv show ?thesis by (auto simp: loop_inv_def drain_clear_def wake_under_way_def)
next
  case take
  with inv show ?thesis
    by (auto simp: loop_inv_def drain_take_def Let_def wake_under_way_def min_def)
next
  case (reschedule ts)
  with inv show ?thesis by (auto simp: loop_inv_def drain_reschedule_def wake_under_way_def)
next
  case (run x ts)
  with inv show ?thesis by (auto simp: loop_inv_def drain_run_def wake_under_way_def)
next
  case finish
  with inv show ?thesis by (auto simp: loop_inv_def wake_under_way_def)
qed

lemma dispatch_inv: "loop_inv socket batch s \<Longrightarrow> loop_inv socket batch (dispatch t s)"
  by (auto simp: loop_inv_def dispatch_def Let_def wake_under_way_def)

lemma loop_system_inv [pres]:
  "loop_inv socket batch s \<Longrightarrow> loop_system s t \<Longrightarrow> loop_inv socket batch t"
  by (erule loop_system.cases) (auto intro: loop_step_inv dispatch_inv)

interpretation loop: invariant_contract "\<lambda>s. s = loop_new socket batch" loop_system "loop_inv socket batch"
  for socket batch
proof
  show "loop_inv socket batch s" if "s = loop_new socket batch" for s
    using that by (simp add: loop_new_def loop_inv_def)
qed (rule loop_system_inv)

section \<open>Progress\<close>

fun drainer_work :: "'t drainer \<Rightarrow> nat" where
  "drainer_work Resting = 0"
| "drainer_work Cleared = 3"
| "drainer_work (Taken ts m) = 1 + length ts + (if m then 5 else 0)"

text \<open>Every step of the loop and its wakers lowers this measure.\<close>

definition loop_work :: "'t loop_state \<Rightarrow> nat" where
  "loop_work s = 6 * lp_owed s + (if lp_socket s then 5 * lp_bytes s else 0) + 5 * length (lp_messages s)
     + 4 * lp_scheduled s + 5 * length (lp_tasks s) + drainer_work (lp_drainer s)"

lemma loop_step_work:
  assumes "loop_step s t" and "lp_batch_size s > 0"
  shows "loop_work t < loop_work s"
  using assms(1)
proof cases
  case (wake full)
  then show ?thesis by (cases full) (auto simp: wake_def loop_work_def Let_def)
next
  case waker
  then show ?thesis
    by (cases "lp_messages s") (auto simp: waker_step_def loop_work_def split: waker_message.splits)
next
  case readable
  then show ?thesis by (simp add: drain_clear_def loop_work_def)
next
  case scheduled
  then show ?thesis by (cases "lp_socket s") (simp_all add: drain_clear_def loop_work_def)
next
  case take
  let ?n = "length (lp_tasks s)" and ?b = "lp_batch_size s"
  have "min ?n ?b = 0 \<longleftrightarrow> ?n = 0" using assms(2) by (auto simp: min_def)
  with take show ?thesis
    by (auto simp: drain_take_def loop_work_def Let_def min_def)
next
  case (reschedule ts)
  then show ?thesis by (simp add: drain_reschedule_def loop_work_def)
next
  case (run x ts)
  then show ?thesis by (simp add: drain_run_def loop_work_def)
next
  case finish
  then show ?thesis by (simp add: loop_work_def)
qed

text \<open>While anything waits or runs, some step other than a dispatch is enabled.\<close>

lemma loop_step_enabled:
  assumes "loop_inv socket batch s" and "lp_tasks s \<noteq> [] \<or> lp_drainer s \<noteq> Resting"
  shows "\<exists>t. loop_step s t"
proof (cases "lp_drainer s")
  case Resting
  with assms have "wake_under_way s" by (simp add: loop_inv_def)
  then consider "lp_owed s > 0" | "lp_socket s" "lp_bytes s > 0" | "lp_messages s \<noteq> []" | "lp_scheduled s > 0"
    using Resting by (auto simp: wake_under_way_def)
  then show ?thesis
  proof cases
    case 1
    then show ?thesis using loop_step.wake [of s False] by blast
  next
    case 2
    with Resting show ?thesis using loop_step.readable by blast
  next
    case 3
    with assms(1) show ?thesis using loop_step.waker [of s] by (auto simp: loop_inv_def)
  next
    case 4
    with Resting show ?thesis using loop_step.scheduled by blast
  qed
next
  case Cleared
  then show ?thesis using loop_step.take by blast
next
  case (Taken ts m)
  then show ?thesis
    using loop_step.reschedule [of s ts] loop_step.run [of s] loop_step.finish [of s]
    by (cases m; cases ts) auto
qed

text \<open>A run of the loop on its own that cannot go on.\<close>

inductive loop_runs :: "'t loop_state \<Rightarrow> 't loop_state \<Rightarrow> bool" where
  stop: "(\<nexists>t. loop_step s t) \<Longrightarrow> loop_runs s s"
| step: "loop_step s t \<Longrightarrow> loop_runs t u \<Longrightarrow> loop_runs s u"

lemma loop_runs_inv:
  "loop_runs s u \<Longrightarrow> loop_inv socket batch s \<Longrightarrow> loop_inv socket batch u \<and> (\<nexists>t. loop_step u t)
     \<and> lp_dispatched u = lp_dispatched s"
proof (induction rule: loop_runs.induct)
  case (stop s)
  then show ?case by simp
next
  case (step s t u)
  have "lp_dispatched t = lp_dispatched s"
    using step.hyps(1)
    by cases (auto simp: wake_def waker_step_def drain_clear_def drain_take_def drain_reschedule_def
        drain_run_def Let_def split: list.split waker_message.split)
  with step loop_step_inv show ?case by auto
qed

lemma loop_runs_exist:
  assumes "loop_inv socket batch s" and "batch > 0" shows "\<exists>u. loop_runs s u"
  using assms(1)
proof (induction "loop_work s" arbitrary: s rule: less_induct)
  case less
  show ?case
  proof (cases "\<exists>t. loop_step s t")
    case False
    then show ?thesis using loop_runs.stop by blast
  next
    case True
    then obtain t where t: "loop_step s t" by blast
    have "loop_work t < loop_work s"
      using loop_step_work [OF t] less.prems assms(2) by (simp add: loop_inv_def)
    with less.hyps [OF _ loop_step_inv [OF less.prems t]] t show ?thesis
      using loop_runs.step by blast
  qed
qed

section \<open>The batch size\<close>

definition DEFAULT_ASYNC_TASK_BATCH_SIZE :: nat where "DEFAULT_ASYNC_TASK_BATCH_SIZE = 40"

text \<open>\<open>env\<close> is the value of \<open>PYVOY_ASYNC_TASK_BATCH_SIZE\<close>, if set.\<close>

definition async_task_batch_size :: "bytes option \<Rightarrow> nat" where
  "async_task_batch_size env =
     (case Option.bind env parse_usize of
        Some n \<Rightarrow> if n > 0 then n else DEFAULT_ASYNC_TASK_BATCH_SIZE
      | None \<Rightarrow> DEFAULT_ASYNC_TASK_BATCH_SIZE)"

lemma async_task_batch_size_pos: "async_task_batch_size env > 0"
  by (simp add: async_task_batch_size_def DEFAULT_ASYNC_TASK_BATCH_SIZE_def split: option.split)

text \<open>
  After a failed \<open>call_soon\<close> with no other wake-up under way the tasks that were left can never
  run: no step of the loop is enabled, and no further dispatch wakes it.
\<close>

lemma failed_reschedule_strands:
  assumes "loop_inv socket batch s" and "lp_drainer s = Taken ts True"
    and "lp_owed s = 0" "lp_bytes s = 0" "lp_messages s = []" "lp_scheduled s = 0"
  shows "let u = fold dispatch xs (drain_reschedule_fails s) in lp_tasks u \<noteq> [] \<and> (\<nexists>v. loop_step u v)"
proof -
  have "lp_tasks u \<noteq> [] \<and> (\<nexists>v. loop_step u v)"
    if "lp_wake_pending u" "lp_tasks u \<noteq> []" "lp_owed u = 0" "lp_bytes u = 0" "lp_messages u = []"
      "lp_scheduled u = 0" "lp_drainer u = Resting" for u :: "'a loop_state"
    using that by (auto elim!: loop_stepE)
  moreover have "let u = fold dispatch xs s' in lp_wake_pending u \<and> lp_tasks u \<noteq> [] \<and> lp_owed u = lp_owed s'
      \<and> lp_bytes u = lp_bytes s' \<and> lp_messages u = lp_messages s' \<and> lp_scheduled u = lp_scheduled s'
      \<and> lp_drainer u = lp_drainer s'"
    if "lp_wake_pending s'" "lp_tasks s' \<noteq> []" for s' :: "'a loop_state"
    using that by (induction xs arbitrary: s') (auto simp: dispatch_def Let_def)
  from this [of "drain_reschedule_fails s"] assms
  have "let u = fold dispatch xs (drain_reschedule_fails s) in lp_wake_pending u \<and> lp_tasks u \<noteq> [] \<and> lp_owed u = 0
      \<and> lp_bytes u = 0 \<and> lp_messages u = [] \<and> lp_scheduled u = 0 \<and> lp_drainer u = Resting"
    by (simp add: drain_reschedule_fails_def loop_inv_def Let_def)
  ultimately show ?thesis by (simp add: Let_def)
qed

section \<open>The pool of loops\<close>

text \<open>A loop is known by the identity of its Python object, a number.\<close>

datatype event_loops = SingleLoop nat | MultipleLoops "nat list" u64

text \<open>A computation that may panic or raise: the \<open>?\<close> of a \<open>PyResult\<close>.\<close>

fun rp_bind :: "(pyerr + 'a) rust \<Rightarrow> ('a \<Rightarrow> (pyerr + 'b) rust) \<Rightarrow> (pyerr + 'b) rust" where
  "rp_bind Panic f = Panic"
| "rp_bind (Ret (Inl e)) f = Ret (Inl e)"
| "rp_bind (Ret (Inr x)) f = f x"

lemma rp_bind_Inr: "rp_bind m f = Ret (Inr y) \<longleftrightarrow> (\<exists>x. m = Ret (Inr x) \<and> f x = Ret (Inr y))"
  by (cases "(m, f)" rule: rp_bind.cases) auto

text \<open>\<open>new_loop\<close> is \<open>EventLoop::new\<close>: it may raise, and then the earlier loops are dropped.\<close>

fun new_loops :: "nat \<Rightarrow> (nat \<Rightarrow> (pyerr + nat) rust) \<Rightarrow> nat \<Rightarrow> (pyerr + nat list) rust" where
  "new_loops 0 new_loop i = Ret (Inr [])"
| "new_loops (Suc n) new_loop i =
     rp_bind (new_loop i) (\<lambda>l. rp_bind (new_loops n new_loop (i + 1)) (\<lambda>ls. Ret (Inr (l # ls))))"

definition event_loops_new :: "nat \<Rightarrow> (nat \<Rightarrow> (pyerr + nat) rust) \<Rightarrow> (pyerr + event_loops) rust" where
  "event_loops_new sz new_loop =
     (if sz > 1 then rp_bind (new_loops sz new_loop 0) (\<lambda>ls. Ret (Inr (MultipleLoops ls 0)))
      else rp_bind (new_loop 0) (\<lambda>l. Ret (Inr (SingleLoop l))))"

text \<open>\<open>next\<close>: \<open>fetch_add\<close> wraps; an empty pool would be a division by zero.\<close>

fun event_loops_next :: "event_loops \<Rightarrow> (nat \<times> event_loops) rust" where
  "event_loops_next (SingleLoop l) = Ret (l, SingleLoop l)"
| "event_loops_next (MultipleLoops ls n) =
     (if ls = [] then Panic
      else Ret (ls ! (unat n mod length ls), MultipleLoops ls (n + 1)))"

text \<open>\<open>find\<close>: the loop with the given identity, or the first loop (reported as a bug).\<close>

fun event_loops_find :: "event_loops \<Rightarrow> nat \<Rightarrow> (nat \<times> bool) rust" where
  "event_loops_find (SingleLoop l) i = Ret (if l = i then (l, True) else (l, False))"
| "event_loops_find (MultipleLoops ls n) i =
     (case ls of
        [] \<Rightarrow> Panic
      | l # _ \<Rightarrow> (case List.find (\<lambda>x. x = i) ls of Some x \<Rightarrow> Ret (x, True) | None \<Rightarrow> Ret (l, False)))"

text \<open>
  \<open>EventLoop::stop\<close> as the sequence of its effects: the lifespan shutdown if there is one, the
  stop message to a waker thread, and \<open>call_soon_threadsafe(stop)\<close>, whose error is returned.
\<close>

datatype stop_action = LifespanShutdown nat | StopWaker nat | CallStop nat

definition stop_loop :: "(nat \<Rightarrow> bool) \<Rightarrow> (nat \<Rightarrow> bool) \<Rightarrow> (nat \<Rightarrow> pyerr option) \<Rightarrow> nat
    \<Rightarrow> stop_action list \<times> (pyerr + unit)" where
  "stop_loop has_lifespan has_waker_thread call_stop l =
     ((if has_lifespan l then [LifespanShutdown l] else [])
      @ (if has_waker_thread l then [StopWaker l] else []) @ [CallStop l],
      case call_stop l of Some e \<Rightarrow> Inl e | None \<Rightarrow> Inr ())"

fun stop_loops :: "(nat \<Rightarrow> stop_action list \<times> (pyerr + unit)) \<Rightarrow> nat list \<Rightarrow> stop_action list \<times> (pyerr + unit)" where
  "stop_loops stop [] = ([], Inr ())"
| "stop_loops stop (l # ls) =
     (case stop l of
        (as, Inl e) \<Rightarrow> (as, Inl e)
      | (as, Inr _) \<Rightarrow> (case stop_loops stop ls of (bs, r) \<Rightarrow> (as @ bs, r)))"

fun event_loops_stop :: "(nat \<Rightarrow> stop_action list \<times> (pyerr + unit)) \<Rightarrow> event_loops
    \<Rightarrow> stop_action list \<times> (pyerr + unit)" where
  "event_loops_stop stop (SingleLoop l) = stop l"
| "event_loops_stop stop (MultipleLoops ls n) = stop_loops stop ls"

fun take_loops :: "nat \<Rightarrow> event_loops \<Rightarrow> nat list rust" where
  "take_loops 0 p = Ret []"
| "take_loops (Suc k) p = rust_bind (event_loops_next p) (\<lambda>(l, p). rust_map ((#) l) (take_loops k p))"

text \<open>\<open>execute_app\<close> of the executors: the job of a request is a task for the next loop.\<close>

definition execute_on_next :: "event_loops \<Rightarrow> 'job \<Rightarrow> ((nat \<times> 'job) \<times> event_loops) rust" where
  "execute_on_next loops job = rust_map (\<lambda>(l, loops). ((l, job), loops)) (event_loops_next loops)"

text \<open>
  \<open>eager_task_kwargs\<close>: the keyword arguments of an eager task on a loop, made once and kept with its
  handle.
\<close>

definition eager_task_kwargs :: "pyval \<Rightarrow> pydict option \<Rightarrow> pydict \<times> pydict option" where
  "eager_task_kwargs loop kept =
     (case kept of
        Some kwargs \<Rightarrow> (kwargs, kept)
      | None \<Rightarrow>
          (let kwargs = dict_set ''eager_start'' (PyBool True) (dict_set ''loop'' loop [])
           in (kwargs, Some kwargs)))"

lemma eager_task_kwargs_kept:
  "fst (eager_task_kwargs loop (snd (eager_task_kwargs loop kept))) = fst (eager_task_kwargs loop kept)"
  by (simp add: eager_task_kwargs_def Let_def split: option.split)

text \<open>Whatever the pool, some loop of it gets the job.\<close>

lemma execute_on_next_total:
  assumes "event_loops_new sz new_loop = Ret (Inr p)"
  shows "\<exists>l p'. execute_on_next p job = Ret ((l, job), p') \<and> l \<in> (case p of SingleLoop l \<Rightarrow> {l} | MultipleLoops ls n \<Rightarrow> set ls)"
proof (cases p)
  case (SingleLoop l)
  then show ?thesis by (simp add: execute_on_next_def)
next
  case (MultipleLoops ls n)
  have "new_loops k new_loop 0 = Ret (Inr ls) \<Longrightarrow> k > 0 \<Longrightarrow> ls \<noteq> []" for k
    by (cases k) (auto simp: rp_bind_Inr)
  with assms MultipleLoops have "ls \<noteq> []" by (auto simp: event_loops_new_def rp_bind_Inr split: if_splits)
  with MultipleLoops show ?thesis by (simp add: execute_on_next_def)
qed

lemma new_loops_length: "new_loops n f i = Ret (Inr ls) \<Longrightarrow> length ls = n"
  by (induction n arbitrary: i ls) (auto simp: rp_bind_Inr)

lemma new_loops_each:
  "new_loops n f i = Ret (Inr ls) \<Longrightarrow> k < n \<Longrightarrow> f (i + k) = Ret (Inr (ls ! k))"
proof (induction n arbitrary: i ls k)
  case (Suc n)
  then obtain l ls' where ls: "f i = Ret (Inr l)" "new_loops n f (i + 1) = Ret (Inr ls')" "ls = l # ls'"
    by (auto simp: rp_bind_Inr)
  show ?case
  proof (cases k)
    case (Suc k')
    with Suc.prems(2) Suc.IH [OF ls(2), of k'] ls(3) show ?thesis by simp
  qed (simp add: ls)
qed simp

lemma take_loops_multiple:
  "ls \<noteq> [] \<Longrightarrow> unat n + k < 2 ^ 64 \<Longrightarrow>
     take_loops k (MultipleLoops ls n) = Ret (map (\<lambda>i. ls ! (i mod length ls)) [unat n ..< unat n + k])"
proof (induction k arbitrary: n)
  case 0
  then show ?case by simp
next
  case (Suc k)
  have "unat (n + 1) = unat n + 1"
    using Suc.prems(2) by (simp add: unat_word_ariths)
  moreover have "[unat n ..< unat n + Suc k] = unat n # [unat n + 1 ..< unat n + 1 + k]"
    by (subst upt_conv_Cons) simp_all
  ultimately show ?case using Suc.IH [of "n + 1"] Suc.prems by simp
qed

lemma round_robin_blocks:
  assumes "ls \<noteq> []"
  shows "map (\<lambda>i. ls ! (i mod length ls)) [0 ..< q * length ls] = concat (replicate q ls)"
proof (induction q)
  case 0
  then show ?case by simp
next
  case (Suc q)
  let ?n = "length ls"
  have "[0 ..< Suc q * ?n] = [0 ..< q * ?n] @ [q * ?n ..< q * ?n + ?n]"
    using upt_add_eq_append [of 0 "q * ?n" ?n] by (simp add: add.commute)
  moreover have "map (\<lambda>i. ls ! (i mod ?n)) [q * ?n ..< q * ?n + ?n] = ls"
    by (rule nth_equalityI) (simp_all add: assms)
  moreover have "concat (replicate (Suc q) ls) = concat (replicate q ls) @ ls"
    by (induction q) simp_all
  ultimately show ?case using Suc.IH by simp
qed

section \<open>Properties\<close>

text \<open>
  C7. No task is lost or stuck behind a missed wake-up: in every reachable state, however
  dispatches, writes to a full socket, waker messages and passes of the drainer interleave, if a
  task waits then the loop is marked as woken and a wake-up really is under way; tasks have run,
  or are in hand, or wait, in exactly the order they were dispatched, and one pass never holds
  more than a batch.
\<close>

theorem loop_no_lost_wakeup:
  assumes "loop_reach socket batch s"
  shows "(lp_tasks s = [] \<or> lp_wake_pending s \<and> wake_under_way s)
    \<and> lp_dispatched s = lp_ran s @ in_hand (lp_drainer s) @ lp_tasks s
    \<and> length (in_hand (lp_drainer s)) \<le> batch"
  using loop.reach_inv [OF assms] by (auto simp: loop_inv_def)

theorem loop_no_lost_wakeup_witness:
  "wake_under_way (dispatch (1 :: nat) (loop_new True 40))
   \<and> lp_dispatched (dispatch (1 :: nat) (loop_new True 40)) = [1]"
proof -
  have "loop_reach True 40 (dispatch (1 :: nat) (loop_new True 40))"
    by (rule reach_step [OF reach_init]) (auto intro: loop_system.dispatched)
  from loop_no_lost_wakeup [OF this] show ?thesis
    by (simp add: dispatch_def loop_new_def)
qed

text \<open>
  C31. The loop always gets through its work. From every reachable state, with the batch size
  that is configured, its own steps cannot go on for ever, and wherever they end every task
  dispatched so far has run, in order, and the drainer rests.
\<close>

theorem loop_drains:
  assumes "loop_reach socket (async_task_batch_size env) s"
  shows "(\<exists>u. loop_runs s u) \<and> (\<forall>u. loop_runs s u \<longrightarrow> lp_ran u = lp_dispatched s \<and> lp_drainer u = Resting)
     \<and> (\<forall>t. loop_step s t \<longrightarrow> loop_work t < loop_work s)"
proof -
  have inv: "loop_inv socket (async_task_batch_size env) s" by (rule loop.reach_inv [OF assms])
  have "lp_ran u = lp_dispatched s \<and> lp_drainer u = Resting" if "loop_runs s u" for u
  proof -
    from loop_runs_inv [OF that inv] have u: "loop_inv socket (async_task_batch_size env) u"
      "\<nexists>t. loop_step u t" "lp_dispatched u = lp_dispatched s" by blast+
    with loop_step_enabled [OF u(1)] have "lp_tasks u = []" "lp_drainer u = Resting" by blast+
    with u show ?thesis by (simp add: loop_inv_def)
  qed
  moreover have "loop_work t < loop_work s" if "loop_step s t" for t
    using loop_step_work [OF that] inv async_task_batch_size_pos by (simp add: loop_inv_def)
  ultimately show ?thesis
    using loop_runs_exist [OF inv async_task_batch_size_pos] by blast
qed

theorem loop_drains_witness:
  "\<exists>u. loop_runs (dispatch (1 :: nat) (loop_new False 40)) u \<and> lp_ran u = [1]"
proof -
  have "async_task_batch_size None = 40"
    by (simp add: async_task_batch_size_def DEFAULT_ASYNC_TASK_BATCH_SIZE_def)
  moreover have "loop_reach False 40 (dispatch (1 :: nat) (loop_new False 40))"
    by (rule reach_step [OF reach_init]) (auto intro: loop_system.dispatched)
  ultimately show ?thesis
    using loop_drains [of False None "dispatch (1 :: nat) (loop_new False 40)"]
    by (auto simp: dispatch_def loop_new_def)
qed

text \<open>
  Requests are spread evenly over the pool: after the pool was created, any number of whole
  rounds of \<open>next\<close> visits every loop once per round, in the order of the pool, without a panic,
  as long as the 64-bit counter has not wrapped.
\<close>

theorem event_loops_round_robin:
  assumes "event_loops_new sz new_loop = Ret (Inr p)" and "q * sz < 2 ^ 64"
  shows "\<exists>ls. length ls = max sz 1 \<and> (p = SingleLoop (hd ls) \<or> p = MultipleLoops ls 0)
     \<and> take_loops (q * length ls) p = Ret (concat (replicate q ls))"
proof (cases "sz > 1")
  case True
  with assms(1) obtain ls where ls: "new_loops sz new_loop 0 = Ret (Inr ls)" "p = MultipleLoops ls 0"
    by (auto simp: event_loops_new_def rp_bind_Inr)
  then have len: "length ls = sz" by (simp add: new_loops_length)
  with True have "ls \<noteq> []" by auto
  with take_loops_multiple [of ls 0 "q * sz"] assms(2) len round_robin_blocks [of ls q] ls show ?thesis
    using True by (intro exI [of _ ls]) (auto simp: len)
next
  case False
  with assms(1) obtain l where p: "p = SingleLoop l"
    by (auto simp: event_loops_new_def rp_bind_Inr split: if_splits)
  have "take_loops q (SingleLoop l) = Ret (replicate q l)" for q
    by (induction q) simp_all
  moreover have "concat (replicate q [l]) = replicate q l" for q by (induction q) simp_all
  ultimately show ?thesis using False p by (intro exI [of _ "[l]"]) simp
qed

theorem event_loops_round_robin_witness:
  "take_loops 6 (MultipleLoops [7, 8, 9] 0) = Ret [7, 8, 9, 7, 8, 9]"
proof -
  have "event_loops_new 3 (\<lambda>i. Ret (Inr (i + 7))) = Ret (Inr (MultipleLoops [7, 8, 9] 0))"
    by (simp add: event_loops_new_def numeral_3_eq_3)
  then obtain ls where ls: "MultipleLoops [7, 8, 9] 0 = MultipleLoops ls 0"
    "take_loops (2 * length ls) (MultipleLoops [7, 8, 9] 0) = Ret (concat (replicate 2 ls))"
    using event_loops_round_robin [of 3 _ _ 2] by fastforce
  then have "ls = [7, 8, 9]" by simp
  moreover have "concat (replicate 2 [7, 8, 9 :: nat]) = [7, 8, 9, 7, 8, 9]" by (simp add: numeral_2_eq_2)
  moreover have "2 * length [7, 8, 9 :: nat] = 6" by simp
  ultimately show ?thesis using ls(2) by metis
qed

end
