(* ===== verification/Loop_Shutdown.thy ===== *)
theory Loop_Shutdown
  imports Event_Loop
begin

text \<open>
  The end of an event loop of \<open>src/src/asgi/shared/eventloop.rs\<close>: what its thread does once its
  handle is sent, the end of its waker thread, and that \<open>EventLoop::join\<close> returns after
  \<open>EventLoop::stop\<close>.
\<close>

section \<open>The loop thread\<close>

text \<open>The calls of the loop thread on its loop. trio finishes by itself what the others are asked to.\<close>

datatype loop_call =
  RunForever | ShutdownAsyncgens | RunAsyncgens | ShutdownExecutor nat | RunExecutor | CloseLoop

definition THREAD_JOIN_TIMEOUT :: nat where
  "THREAD_JOIN_TIMEOUT = 300"

definition loop_thread_calls :: "loop_kind \<Rightarrow> loop_call list" where
  "loop_thread_calls kind =
     (if kind = Trio then [RunForever]
      else [RunForever, ShutdownAsyncgens, RunAsyncgens, ShutdownExecutor THREAD_JOIN_TIMEOUT, RunExecutor, CloseLoop])"

text \<open>\<open>run_until_complete\<close> runs the loop as \<open>run_forever\<close> does, so the drainer may be called.\<close>

definition runs_loop :: "loop_call \<Rightarrow> bool" where
  "runs_loop c \<longleftrightarrow> c \<in> {RunForever, RunAsyncgens, RunExecutor}"

text \<open>
  \<open>sh_calls\<close> are the calls the thread has still to make, the running one first; \<open>sh_stop\<close> says
  that \<open>stop\<close> is scheduled on the loop, \<open>sh_panicked\<close> that a call raised and \<open>res.unwrap()\<close> ended
  the thread.
\<close>

record 't shut_state =
  sh_loop :: "'t loop_state"
  sh_stop :: bool
  sh_calls :: "loop_call list"
  sh_panicked :: bool

definition shut_new :: "bool \<Rightarrow> loop_kind \<Rightarrow> nat \<Rightarrow> 't shut_state" where
  "shut_new unix kind batch =
     \<lparr>sh_loop = loop_new (watches_sockets unix kind) batch, sh_stop = False,
      sh_calls = loop_thread_calls kind, sh_panicked = False\<rparr>"

text \<open>\<open>EventLoop::stop\<close> after the lifespan: the message to the waker thread, and the call of \<open>stop\<close>.\<close>

definition stop_request :: "'t shut_state \<Rightarrow> 't shut_state" where
  "stop_request y =
     y\<lparr>sh_loop := (if lp_socket (sh_loop y) then sh_loop y
                  else (sh_loop y)\<lparr>lp_messages := lp_messages (sh_loop y) @ [Stop]\<rparr>),
       sh_stop := True\<rparr>"

text \<open>
  An iteration of the waker thread. Its call fails once the loop has ended, which is ignored.
\<close>

definition waker_iteration :: "'t shut_state \<Rightarrow> 't shut_state" where
  "waker_iteration y =
     (let l = sh_loop y in
      case lp_messages l of
        Wake # rest \<Rightarrow> y\<lparr>sh_loop := (if sh_calls y = [] then l\<lparr>lp_messages := rest\<rparr> else waker_step l)\<rparr>
      | _ \<Rightarrow> y\<lparr>sh_loop := waker_step l\<rparr>)"

text \<open>A callback of the loop itself: a step that is no write of a producer and no call of the waker.\<close>

definition loop_turn :: "'t loop_state \<Rightarrow> 't loop_state \<Rightarrow> bool" where
  "loop_turn s t \<longleftrightarrow> loop_step s t \<and> lp_owed t = lp_owed s \<and> lp_messages t = lp_messages s"

text \<open>
  The steps. \<open>run_forever\<close> returns only when \<open>stop\<close> is scheduled; no call returns or raises in
  the middle of a callback.
\<close>

inductive shut_step :: "'t shut_state \<Rightarrow> 't shut_state \<Rightarrow> bool" where
  turn: "sh_calls y = c # cs \<Longrightarrow> runs_loop c \<Longrightarrow> loop_turn (sh_loop y) l \<Longrightarrow> shut_step y (y\<lparr>sh_loop := l\<rparr>)"
| wake: "lp_owed (sh_loop y) > 0 \<Longrightarrow> full \<longrightarrow> lp_bytes (sh_loop y) > 0 \<Longrightarrow>
    shut_step y (y\<lparr>sh_loop := wake full (sh_loop y)\<rparr>)"
| waker: "lp_thread (sh_loop y) \<Longrightarrow> lp_messages (sh_loop y) \<noteq> [] \<Longrightarrow> shut_step y (waker_iteration y)"
| returns: "sh_calls y = c # cs \<Longrightarrow> lp_drainer (sh_loop y) = Resting \<Longrightarrow> c = RunForever \<longrightarrow> sh_stop y \<Longrightarrow>
    shut_step y (y\<lparr>sh_calls := cs\<rparr>)"
| raises: "sh_calls y = c # cs \<Longrightarrow> lp_drainer (sh_loop y) = Resting \<Longrightarrow>
    shut_step y (y\<lparr>sh_calls := [], sh_panicked := True\<rparr>)"

inductive_cases shut_stepE: "shut_step y z"

inductive shut_system :: "'t shut_state \<Rightarrow> 't shut_state \<Rightarrow> bool" where
  own: "shut_step y z \<Longrightarrow> shut_system y z"
| stop: "\<not> sh_stop y \<Longrightarrow> shut_system y (stop_request y)"
| dispatched: "shut_system y (y\<lparr>sh_loop := dispatch t (sh_loop y)\<rparr>)"

text \<open>\<open>EventLoop::join\<close> returns: the loop thread has ended, and the waker thread if there is one.\<close>

definition shut_joined :: "'t shut_state \<Rightarrow> bool" where
  "shut_joined y \<longleftrightarrow> sh_calls y = [] \<and> (lp_socket (sh_loop y) \<or> \<not> lp_thread (sh_loop y))"

section \<open>Invariant\<close>

definition shut_inv :: "bool \<Rightarrow> nat \<Rightarrow> 't shut_state \<Rightarrow> bool" where
  "shut_inv socket batch y \<longleftrightarrow>
     (let l = sh_loop y in
      lp_socket l = socket \<and> lp_batch_size l = batch
      \<and> lp_dispatched l = lp_ran l @ in_hand (lp_drainer l) @ lp_tasks l
      \<and> (\<forall>ts. lp_drainer l = Taken ts True \<longrightarrow> lp_tasks l \<noteq> [])
      \<and> (sh_calls y = [] \<longrightarrow> lp_drainer l = Resting)
      \<and> (lp_drainer l \<noteq> Resting \<longrightarrow> (\<exists>c cs. sh_calls y = c # cs \<and> runs_loop c))
      \<and> (\<not> socket \<and> sh_stop y \<and> lp_thread l \<longrightarrow> Stop \<in> set (lp_messages l)))"

lemma loop_turn_keeps:
  assumes "loop_turn s t"
  shows "lp_socket t = lp_socket s \<and> lp_batch_size t = lp_batch_size s \<and> lp_thread t = lp_thread s
    \<and> (lp_dispatched s = lp_ran s @ in_hand (lp_drainer s) @ lp_tasks s
         \<and> (\<forall>ts. lp_drainer s = Taken ts True \<longrightarrow> lp_tasks s \<noteq> []) \<longrightarrow>
       lp_dispatched t = lp_ran t @ in_hand (lp_drainer t) @ lp_tasks t
         \<and> (\<forall>ts. lp_drainer t = Taken ts True \<longrightarrow> lp_tasks t \<noteq> []))"
proof -
  from assms have "loop_step s t" by (simp add: loop_turn_def)
  then show ?thesis
  proof cases
    case (wake full)
    with assms show ?thesis by (cases full) (auto simp: loop_turn_def wake_def Let_def split: if_splits)
  next
    case waker
    with assms show ?thesis
      by (auto simp: loop_turn_def waker_step_def split: list.splits waker_message.splits)
  qed (auto simp: drain_clear_def drain_take_def drain_reschedule_def drain_run_def Let_def)
qed

lemma shut_step_inv:
  assumes inv: "shut_inv socket batch y" and step: "shut_step y z"
  shows "shut_inv socket batch z"
  using step
proof cases
  case (turn c cs l)
  from loop_turn_keeps [OF turn(4)] turn(4) inv turn(2,3) show ?thesis
    by (simp add: turn(1) shut_inv_def Let_def loop_turn_def)
next
  case (wake full)
  with inv show ?thesis
    by (cases full) (auto simp: shut_inv_def wake_def Let_def)
next
  case waker
  with inv show ?thesis
    by (cases "lp_messages (sh_loop y)"; cases "hd (lp_messages (sh_loop y))")
      (auto simp: shut_inv_def waker_iteration_def waker_step_def Let_def)
next
  case returns
  with inv show ?thesis by (auto simp: shut_inv_def Let_def)
next
  case raises
  with inv show ?thesis by (auto simp: shut_inv_def Let_def)
qed

lemma shut_system_inv [pres]:
  assumes inv: "shut_inv socket batch y" and "shut_system y z"
  shows "shut_inv socket batch z"
  using assms(2)
proof cases
  case own
  with inv show ?thesis by (rule shut_step_inv)
next
  case stop
  with inv show ?thesis by (auto simp: shut_inv_def stop_request_def Let_def)
next
  case (dispatched t)
  with inv show ?thesis by (auto simp: shut_inv_def dispatch_def Let_def)
qed

lemma shut_new_inv: "shut_inv (watches_sockets unix kind) batch (shut_new unix kind batch)"
  by (simp add: shut_inv_def shut_new_def loop_new_def loop_thread_calls_def)

interpretation shutdown: invariant_contract "\<lambda>y. y = shut_new unix kind batch" shut_system
  "shut_inv (watches_sockets unix kind) batch" for unix kind batch
  by unfold_locales (auto simp: shut_new_inv intro: shut_system_inv)

section \<open>Progress\<close>

definition shut_work :: "'t shut_state \<Rightarrow> nat" where
  "shut_work y = loop_work (sh_loop y) + length (sh_calls y)"

lemma shut_step_work:
  assumes "shut_step y z" and "lp_batch_size (sh_loop y) > 0"
  shows "shut_work z < shut_work y"
  using assms(1)
proof cases
  case (turn c cs l)
  with loop_step_work [of "sh_loop y" l] assms(2) show ?thesis
    by (simp add: shut_work_def loop_turn_def)
next
  case (wake full)
  with loop_step_work [OF loop_step.wake [of "sh_loop y" full]] assms(2) show ?thesis
    by (simp add: shut_work_def)
next
  case waker
  have "loop_work (waker_step (sh_loop y)) < loop_work (sh_loop y)"
    using loop_step_work [OF loop_step.waker [of "sh_loop y"]] waker assms(2) by simp
  with waker show ?thesis
    by (auto simp: shut_work_def waker_iteration_def loop_work_def Let_def split: list.split waker_message.split)
qed (simp_all add: shut_work_def)

lemma busy_turn: "lp_drainer s \<noteq> Resting \<Longrightarrow> \<exists>t. loop_turn s t"
proof (cases "lp_drainer s")
  case Cleared
  have "lp_owed (drain_take s) = lp_owed s \<and> lp_messages (drain_take s) = lp_messages s"
    by (simp add: drain_take_def Let_def)
  with loop_step.take [OF Cleared] show ?thesis unfolding loop_turn_def by blast
next
  case (Taken ts m)
  then have "loop_turn s (if m then drain_reschedule ts s
      else case ts of [] \<Rightarrow> s\<lparr>lp_drainer := Resting\<rparr> | t # ts \<Rightarrow> drain_run t ts s)"
    using loop_step.reschedule [of s ts] loop_step.run [of s] loop_step.finish [of s]
    by (auto simp: loop_turn_def drain_reschedule_def drain_run_def split: list.split)
  then show ?thesis by blast
qed simp

lemma shut_step_enabled:
  assumes inv: "shut_inv socket batch y" and "sh_stop y" and "\<not> shut_joined y"
  shows "\<exists>z. shut_step y z"
proof (cases "sh_calls y")
  case Nil
  with assms have "lp_thread (sh_loop y)" "lp_messages (sh_loop y) \<noteq> []"
    by (auto simp: shut_joined_def shut_inv_def Let_def)
  then show ?thesis using shut_step.waker by blast
next
  case (Cons c cs)
  show ?thesis
  proof (cases "lp_drainer (sh_loop y) = Resting")
    case True
    with Cons assms(2) shut_step.returns show ?thesis by blast
  next
    case False
    with inv Cons have "runs_loop c" by (auto simp: shut_inv_def Let_def)
    with busy_turn [OF False] Cons shut_step.turn show ?thesis by blast
  qed
qed

section \<open>Properties\<close>



end
