(* ===== verification/Asgi_Shared.thy ===== *)
theory Asgi_Shared
  imports Py_Values
begin

text \<open>
  What the ASGI executors share: the awaitables of \<open>src/src/asgi/shared/awaitable.rs\<close>, the
  headers of an event (\<open>headers.rs\<close>) and the detection of ASGI2 applications (\<open>app.rs\<close>).
\<close>

section \<open>Awaitables\<close>

text \<open>An awaitable is its own iterator; a call that returns one may return a loop's future instead.\<close>

datatype awaitable =
    EmptyAwaitable
  | ValueAwaitable "pyval option"
  | ErrorAwaitable "pyerr option"

datatype returned = Awaits awaitable | AwaitsFuture nat

text \<open>One \<open>__next__\<close>: yields to the event loop, returns through \<open>StopIteration\<close>, or raises.\<close>

datatype next_result = Yields | Stops pyval | Raises pyerr

fun awaitable_next :: "awaitable \<Rightarrow> next_result \<times> awaitable" where
  "awaitable_next EmptyAwaitable = (Stops PyNone, EmptyAwaitable)"
| "awaitable_next (ValueAwaitable (Some v)) = (Stops v, ValueAwaitable None)"
| "awaitable_next (ValueAwaitable None) = (Stops PyNone, ValueAwaitable None)"
| "awaitable_next (ErrorAwaitable (Some e)) = (Raises e, ErrorAwaitable None)"
| "awaitable_next (ErrorAwaitable None) = (Yields, ErrorAwaitable None)"

definition value_awaitable :: "pyval \<Rightarrow> awaitable" where
  "value_awaitable v = ValueAwaitable (Some v)"

definition error_awaitable :: "pyerr \<Rightarrow> awaitable" where
  "error_awaitable e = ErrorAwaitable (Some e)"

text \<open>\<open>await\<close> by a coroutine: it resumes the iterator until it returns or raises, if ever.\<close>

partial_function (option) await :: "awaitable \<Rightarrow> ((pyerr + pyval) \<times> awaitable) option" where
  "await a = (case awaitable_next a of
       (Yields, b) \<Rightarrow> await b
     | (Stops v, b) \<Rightarrow> Some (Inr v, b)
     | (Raises e, b) \<Rightarrow> Some (Inl e, b))"

lemma await_simps [simp]:
  "await EmptyAwaitable = Some (Inr PyNone, EmptyAwaitable)"
  "await (ValueAwaitable (Some v)) = Some (Inr v, ValueAwaitable None)"
  "await (ValueAwaitable None) = Some (Inr PyNone, ValueAwaitable None)"
  "await (ErrorAwaitable (Some e)) = Some (Inl e, ErrorAwaitable None)"
  by (subst await.simps; simp)+

text \<open>Awaiting an error a second time gives no result: the iterator yields at every step.\<close>

lemma await_error_twice: "await (ErrorAwaitable None) = None"
proof -
  have "a \<noteq> ErrorAwaitable None" if "await a = Some r" for a r
  proof (rule await.raw_induct [where P = "\<lambda>a r. a \<noteq> ErrorAwaitable None", OF _ that])
    fix f :: "awaitable \<Rightarrow> ((pyerr + pyval) \<times> awaitable) option" and a r
    assume "\<And>a r. f a = Some r \<Longrightarrow> a \<noteq> ErrorAwaitable None"
      and "(case awaitable_next a of (Yields, b) \<Rightarrow> f b | (Stops v, b) \<Rightarrow> Some (Inr v, b)
           | (Raises e, b) \<Rightarrow> Some (Inl e, b)) = Some r"
    then show "a \<noteq> ErrorAwaitable None" by (cases a rule: awaitable_next.cases; cases r) auto
  qed
  then show ?thesis by (cases "await (ErrorAwaitable None)") auto
qed

text \<open>A text between single quotes, as the messages of errors have it.\<close>

definition quoted :: "bytes \<Rightarrow> bytes" where
  "quoted s = [CHR 0x27] @ s @ [CHR 0x27]"

section \<open>Headers of an event\<close>

text \<open>\<open>HeaderName::from_bytes\<close>, \<open>HeaderValue::from_bytes\<close> and the texts of their errors.\<close>

record header_api =
  header_name :: "bytes \<Rightarrow> bytes + bytes"
  header_value :: "bytes \<Rightarrow> bytes + bytes"

fun parsed :: "bytes + bytes \<Rightarrow> pyerr + bytes" where
  "parsed (Inl e) = Inl (ValueError e)"
| "parsed (Inr x) = Inr x"

definition extract_header :: "'a header_api_scheme \<Rightarrow> pyval \<Rightarrow> pyerr + (bytes \<times> bytes)" where
  "extract_header api item =
     pbind (seq_item item 0) (\<lambda>key_item.
     pbind (seq_item item 1) (\<lambda>value_item.
     pbind (cast_bytes key_item) (\<lambda>key.
     pbind (cast_bytes value_item) (\<lambda>val.
     pbind (parsed (header_name api key)) (\<lambda>n.
     pbind (parsed (header_value api val)) (\<lambda>v. Inr (n, v)))))))"

definition extract_headers_from_event :: "'a header_api_scheme \<Rightarrow> pydict \<Rightarrow> pyerr + headers" where
  "extract_headers_from_event api event =
     (case dict_get event ''headers'' of
        Some v \<Rightarrow> pbind (py_iter v) (pmap (extract_header api))
      | None \<Rightarrow> Inr [])"

text \<open>The type of a message, as every send callable reads it.\<close>

definition event_type :: "pydict \<Rightarrow> pyerr + bytes" where
  "event_type event =
     (case dict_get event ''type'' of
        None \<Rightarrow> Inl (RuntimeError (''Unexpected ASGI message, missing '' @ quoted ''type'' @ ''.''))
      | Some v \<Rightarrow> cast_str v)"

section \<open>ASGI2 applications\<close>

text \<open>What \<open>is_asgi2_app\<close> looks at: attributes, if present, by their truth, and the two
  predicates of \<open>inspect\<close> on the application; each may raise.\<close>

record app_view =
  asgi_single_callable :: "pyerr + bool option"
  asgi_double_callable :: "pyerr + bool option"
  isclass :: "pyerr + bool"
  call_iscoroutinefunction :: "pyerr + bool option"
  iscoroutinefunction :: "pyerr + bool"

definition is_asgi2_app :: "app_view \<Rightarrow> pyerr + bool" where
  "is_asgi2_app app =
     pbind (asgi_single_callable app) (\<lambda>single.
       if single = Some True then Inr False
       else pbind (asgi_double_callable app) (\<lambda>double.
         if double = Some True then Inr True
         else pbind (isclass app) (\<lambda>cls.
           if cls then Inr True
           else pbind (call_iscoroutinefunction app) (\<lambda>callable.
             if callable = Some True then Inr False
             else pbind (iscoroutinefunction app) (\<lambda>c. Inr (\<not> c))))))"

text \<open>\<open>ASGI2Invoker\<close>: \<open>call\<close> is calling a Python object.\<close>

definition asgi2_invoke :: "(pyval \<Rightarrow> pyval list \<Rightarrow> pyerr + pyval) \<Rightarrow> pyval \<Rightarrow> pyval \<Rightarrow> pyval \<Rightarrow> pyval
    \<Rightarrow> pyerr + pyval" where
  "asgi2_invoke call app scope_dict receive_py send_py =
     pbind (call app [scope_dict]) (\<lambda>inst. call inst [receive_py, send_py])"

text \<open>\<open>ensure_asgi3_app\<close>: how the application is called from then on.\<close>

definition ensure_asgi3_app :: "(pyval \<Rightarrow> pyval list \<Rightarrow> pyerr + pyval) \<Rightarrow> app_view \<Rightarrow> pyval
    \<Rightarrow> pyerr + (pyval \<Rightarrow> pyval \<Rightarrow> pyval \<Rightarrow> pyerr + pyval)" where
  "ensure_asgi3_app call view app =
     pbind (is_asgi2_app view) (\<lambda>asgi2.
       Inr (if asgi2 then asgi2_invoke call app
            else (\<lambda>scope_dict receive_py send_py. call app [scope_dict, receive_py, send_py])))"

end
