(* ===== verification/Asgi_Lifespan.thy ===== *)
theory Asgi_Lifespan
  imports Asgi_Shared
begin

text \<open>
  \<open>src/src/asgi/shared/lifespan.rs\<close>: the lifespan protocol, by which an application learns that
  the server starts and stops. The two callables, the handler of the finished coroutine, and the
  server's side at startup and shutdown.
\<close>

section \<open>Events and callables\<close>

datatype lifespan_event =
    StartupComplete | StartupFailed bytes
  | ShutdownComplete | ShutdownFailed bytes
  | LifespanFailed bytes | LifespanComplete

datatype next_lifespan_event = LsStartup | LsShutdown | LsCompleted

text \<open>\<open>RecvCallable\<close>; the future is the one completed at shutdown.\<close>

fun lifespan_recv :: "next_lifespan_event \<Rightarrow> (pyerr + returned) \<times> next_lifespan_event" where
  "lifespan_recv LsStartup =
     (Inr (Awaits (value_awaitable (PyDict [(''type'', PyStr ''lifespan.startup'')]))), LsShutdown)"
| "lifespan_recv LsShutdown = (Inr (AwaitsFuture 0), LsCompleted)"
| "lifespan_recv LsCompleted =
     (Inl (RuntimeError ''lifespan receive called after shutdown completed.''), LsCompleted)"

text \<open>\<open>SendCallable\<close>; \<open>ls_tx\<close> is what was sent on the channel.\<close>

record lifespan_send =
  ls_next :: next_lifespan_event
  ls_tx :: "lifespan_event list"

definition event_message :: "pydict \<Rightarrow> pyerr + bytes" where
  "event_message event =
     (case dict_get event ''message'' of Some v \<Rightarrow> cast_str v | None \<Rightarrow> Inr [])"

definition lifespan_tx :: "lifespan_event \<Rightarrow> next_lifespan_event \<Rightarrow> lifespan_send
    \<Rightarrow> (pyerr + awaitable) \<times> lifespan_send" where
  "lifespan_tx e next s = (Inr EmptyAwaitable, s\<lparr>ls_tx := ls_tx s @ [e], ls_next := next\<rparr>)"

definition lifespan_send_call :: "pydict \<Rightarrow> lifespan_send \<Rightarrow> (pyerr + awaitable) \<times> lifespan_send" where
  "lifespan_send_call event s =
     (case event_type event of
        Inl e \<Rightarrow> (Inl e, s)
      | Inr ty \<Rightarrow>
          (case ls_next s of
             LsStartup \<Rightarrow>
               if ty = ''lifespan.startup.complete'' then lifespan_tx StartupComplete LsShutdown s
               else if ty = ''lifespan.startup.failed'' then
                 (case event_message event of
                    Inl e \<Rightarrow> (Inl e, s)
                  | Inr msg \<Rightarrow> lifespan_tx (StartupFailed msg) LsShutdown s)
               else (Inr (error_awaitable (RuntimeError
                 (''Expected lifespan message '' @ quoted ''lifespan.startup.complete'' @ '' or ''
                  @ quoted ''lifespan.startup.failed'' @ '', got '' @ quoted ty))), s)
           | LsShutdown \<Rightarrow>
               if ty = ''lifespan.shutdown.complete'' then lifespan_tx ShutdownComplete LsCompleted s
               else if ty = ''lifespan.shutdown.failed'' then
                 (case event_message event of
                    Inl e \<Rightarrow> (Inl e, s)
                  | Inr msg \<Rightarrow> lifespan_tx (ShutdownFailed msg) LsCompleted s)
               else (Inr (error_awaitable (RuntimeError
                 (''Expected lifespan message '' @ quoted ''lifespan.shutdown.complete'' @ '' or ''
                  @ quoted ''lifespan.shutdown.failed'' @ '', got '' @ quoted ty))), s)
           | LsCompleted \<Rightarrow>
               (Inr (error_awaitable (RuntimeError ''lifespan send called after shutdown completed.'')), s)))"

text \<open>\<open>FutureHandler\<close>, when the coroutine is done; \<open>trace\<close> is the message for an exception.\<close>

definition lifespan_done :: "(pyerr \<Rightarrow> bytes) \<Rightarrow> pyerr + unit \<Rightarrow> lifespan_send \<Rightarrow> lifespan_send" where
  "lifespan_done trace result s =
     s\<lparr>ls_tx := ls_tx s @ [case result of Inr _ \<Rightarrow> LifespanComplete | Inl e \<Rightarrow> LifespanFailed (trace e)]\<rparr>"

section \<open>The server's side\<close>

datatype lifespan_log = LogInfo bytes | LogError bytes

text \<open>
  Startup. \<open>call_error\<close> is the exception of calling the application, if it raises at once; \<open>rx\<close> is
  what the channel delivers first (\<open>None\<close> if all senders are gone, an \<open>unwrap\<close>). The result is
  whether the lifespan is supported, with the lines logged.
\<close>

fun lifespan_startup :: "bool \<Rightarrow> lifespan_event option \<Rightarrow> ((pyerr + bool) \<times> lifespan_log list) rust" where
  "lifespan_startup req (Some StartupComplete) =
     Ret (Inr True, [LogInfo ''Application startup complete.''])"
| "lifespan_startup req (Some (StartupFailed err)) =
     Ret (Inl (RuntimeError (''Application startup failed: '' @ err)), [])"
| "lifespan_startup req (Some (LifespanFailed msg)) =
     Ret (if req then (Inl (RuntimeError ''Application startup failed. Exiting.''), [LogError msg])
          else (Inr False, [LogInfo (''ASGI '' @ quoted ''lifespan'' @ '' protocol appears unsupported.'')]))"
| "lifespan_startup req (Some LifespanComplete) = Ret (Inr False, [])"
| "lifespan_startup req _ = Panic"

definition execute_lifespan :: "(pyerr \<Rightarrow> bytes) \<Rightarrow> bool \<Rightarrow> pyerr option \<Rightarrow> lifespan_event option
    \<Rightarrow> ((pyerr + bool) \<times> lifespan_log list) rust" where
  "execute_lifespan trace req call_error rx =
     (case call_error of
        Some e \<Rightarrow>
          Ret (if req then (Inl (RuntimeError ''Application startup failed. Exiting.''), [LogError (trace e)])
               else (Inr False, [LogInfo (''ASGI '' @ quoted ''lifespan'' @ '' protocol appears unsupported.'')]))
      | None \<Rightarrow> lifespan_startup req rx)"

text \<open>\<open>EventLoop::new\<close>: whether the protocol runs at all, and whether it is required.\<close>

definition start_lifespan :: "bool option \<Rightarrow> (bool \<Rightarrow> ((pyerr + bool) \<times> lifespan_log list) rust)
    \<Rightarrow> ((pyerr + bool) \<times> lifespan_log list) rust" where
  "start_lifespan enable_lifespan execute =
     (case enable_lifespan of
        Some False \<Rightarrow> Ret (Inr False, [])
      | Some True \<Rightarrow> execute True
      | None \<Rightarrow> execute False)"

text \<open>Shutdown: \<open>set_error\<close> is the failure of scheduling the shutdown message, with its text.\<close>

definition lifespan_shutdown :: "bytes option \<Rightarrow> lifespan_event option \<Rightarrow> lifespan_log list rust" where
  "lifespan_shutdown set_error rx =
     rust_map ((@) (case set_error of
          Some err \<Rightarrow> [LogError (''Failed to start lifespan shutdown. This is usually a bug in pyvoy: '' @ err)]
        | None \<Rightarrow> []))
       (case rx of
          Some ShutdownComplete \<Rightarrow> Ret [LogInfo ''Application shutdown complete.'']
        | Some (ShutdownFailed msg) \<Rightarrow> Ret [LogError (''Application shutdown failed: '' @ msg)]
        | Some LifespanComplete \<Rightarrow> Ret []
        | Some (LifespanFailed msg) \<Rightarrow> Ret [LogError (''Lifespan exception during shutdown: '' @ msg)]
        | Some _ \<Rightarrow> Panic
        | None \<Rightarrow> Ret [LogError ''Unexpected error during lifespan shutdown.''])"

section \<open>An application\<close>

text \<open>
  Any mix of calls of the two callables, and the end of the coroutine, which happens at most
  once; tasks it left behind may go on calling.
\<close>

record lifespan_app =
  la_recv :: next_lifespan_event
  la_send :: lifespan_send
  la_done :: bool

datatype lifespan_op = LsRecv | LsSend pydict | LsReturn "pyerr + unit"

definition lifespan_app_new :: lifespan_app where
  "lifespan_app_new = \<lparr>la_recv = LsStartup, la_send = \<lparr>ls_next = LsStartup, ls_tx = []\<rparr>, la_done = False\<rparr>"

fun lifespan_exec :: "(pyerr \<Rightarrow> bytes) \<Rightarrow> lifespan_op \<Rightarrow> lifespan_app \<Rightarrow> lifespan_app" where
  "lifespan_exec trace LsRecv a = a\<lparr>la_recv := snd (lifespan_recv (la_recv a))\<rparr>"
| "lifespan_exec trace (LsSend event) a = a\<lparr>la_send := snd (lifespan_send_call event (la_send a))\<rparr>"
| "lifespan_exec trace (LsReturn result) a =
     (if la_done a then a
      else a\<lparr>la_send := lifespan_done trace result (la_send a), la_done := True\<rparr>)"

section \<open>Lemmas\<close>

fun is_startup :: "lifespan_event \<Rightarrow> bool" where
  "is_startup StartupComplete = True"
| "is_startup (StartupFailed m) = True"
| "is_startup _ = False"

fun is_shutdown :: "lifespan_event \<Rightarrow> bool" where
  "is_shutdown ShutdownComplete = True"
| "is_shutdown (ShutdownFailed m) = True"
| "is_shutdown _ = False"

definition is_sent :: "lifespan_event \<Rightarrow> bool" where
  "is_sent e \<longleftrightarrow> is_startup e \<or> is_shutdown e"

text \<open>What the callable has sent when it waits for the given event.\<close>

fun sent_until :: "next_lifespan_event \<Rightarrow> lifespan_event list \<Rightarrow> bool" where
  "sent_until LsStartup es \<longleftrightarrow> es = []"
| "sent_until LsShutdown es \<longleftrightarrow> (\<exists>e. es = [e] \<and> is_startup e)"
| "sent_until LsCompleted es \<longleftrightarrow> (\<exists>e f. es = [e, f] \<and> is_startup e \<and> is_shutdown f)"

definition lifespan_inv :: "lifespan_app \<Rightarrow> bool" where
  "lifespan_inv a \<longleftrightarrow>
     sent_until (ls_next (la_send a)) (filter is_sent (ls_tx (la_send a)))
     \<and> length (filter (\<lambda>e. \<not> is_sent e) (ls_tx (la_send a))) = (if la_done a then 1 else 0)"

lemma is_sent_simps [simp]:
  "is_sent StartupComplete" "is_sent (StartupFailed m)" "is_sent ShutdownComplete"
  "is_sent (ShutdownFailed m)" "\<not> is_sent LifespanComplete" "\<not> is_sent (LifespanFailed m)"
  by (simp_all add: is_sent_def)

text \<open>A call either changes nothing or sends the event that is due.\<close>

fun due :: "next_lifespan_event \<Rightarrow> lifespan_event \<Rightarrow> next_lifespan_event \<Rightarrow> bool" where
  "due LsStartup e nxt \<longleftrightarrow> is_startup e \<and> nxt = LsShutdown"
| "due LsShutdown e nxt \<longleftrightarrow> is_shutdown e \<and> nxt = LsCompleted"
| "due LsCompleted e nxt \<longleftrightarrow> False"

lemma lifespan_tx_snd: "snd (lifespan_tx e nxt s) = s\<lparr>ls_tx := ls_tx s @ [e], ls_next := nxt\<rparr>"
  by (simp add: lifespan_tx_def)

lemma lifespan_send_call_due:
  obtains "snd (lifespan_send_call event s) = s"
  | e nxt where "snd (lifespan_send_call event s) = snd (lifespan_tx e nxt s)" "due (ls_next s) e nxt"
proof -
  have "snd (lifespan_send_call event s) = s
      \<or> (\<exists>e nxt. snd (lifespan_send_call event s) = snd (lifespan_tx e nxt s) \<and> due (ls_next s) e nxt)"
  proof (cases "event_type event")
    case (Inr ty)
    consider "ls_next s = LsStartup" | "ls_next s = LsShutdown" | "ls_next s = LsCompleted"
      by (cases "ls_next s")
    then show ?thesis
    proof cases
      case 1
      then have "due (ls_next s) StartupComplete LsShutdown" "due (ls_next s) (StartupFailed m) LsShutdown" for m
        by simp_all
      with 1 Inr show ?thesis
        unfolding lifespan_send_call_def
        by (cases "event_message event"; simp only: sum.case next_lifespan_event.case split: if_split) (metis snd_conv)+
    next
      case 2
      then have "due (ls_next s) ShutdownComplete LsCompleted" "due (ls_next s) (ShutdownFailed m) LsCompleted" for m
        by simp_all
      with 2 Inr show ?thesis
        unfolding lifespan_send_call_def
        by (cases "event_message event"; simp only: sum.case next_lifespan_event.case split: if_split) (metis snd_conv)+
    qed (simp add: lifespan_send_call_def Inr)
  qed (simp add: lifespan_send_call_def)
  with that show thesis by blast
qed

lemma lifespan_exec_inv [pres]:
  assumes "lifespan_inv a" shows "lifespan_inv (lifespan_exec trace op a)"
proof (cases op)
  case (LsSend event)
  show ?thesis
  proof (cases event "la_send a" rule: lifespan_send_call_due)
    case 1
    with assms LsSend show ?thesis by (simp add: lifespan_inv_def)
  next
    case (2 e nxt)
    then have "is_sent e" by (cases "ls_next (la_send a)") (auto simp: is_sent_def)
    with assms 2 LsSend show ?thesis
      by (cases "ls_next (la_send a)") (auto simp: lifespan_inv_def lifespan_tx_snd)
  qed
qed (use assms in \<open>auto simp: lifespan_inv_def lifespan_done_def split: sum.splits\<close>)

interpretation lifespan_machine: machine_contract "lifespan_exec trace" "\<lambda>_. True" lifespan_inv for trace
  by unfold_locales (rule lifespan_exec_inv)

lemma lifespan_run_inv: "lifespan_inv (fold (lifespan_exec trace) ops lifespan_app_new)"
  by (rule lifespan_machine.fold_inv)
    (auto simp: list_all_iff lifespan_inv_def lifespan_app_new_def)

text \<open>The first message of an application, and the second after a completed startup.\<close>

lemma lifespan_first:
  assumes "lifespan_inv a" and "ls_tx (la_send a) = e # es"
  shows "is_startup e \<or> \<not> is_sent e"
  using assms by (cases "ls_next (la_send a)") (auto simp: lifespan_inv_def is_sent_def split: if_splits)

lemma lifespan_second:
  assumes "lifespan_inv a" and "ls_tx (la_send a) = e # f # es" and "is_startup e"
  shows "is_shutdown f \<or> \<not> is_sent f"
  using assms by (cases "ls_next (la_send a)") (auto simp: lifespan_inv_def is_sent_def split: if_splits)

lemma lifespan_length:
  assumes "lifespan_inv a" shows "length (ls_tx (la_send a)) \<le> 3"
proof -
  have "length (filter is_sent (ls_tx (la_send a))) \<le> 2"
    using assms by (cases "ls_next (la_send a)") (auto simp: lifespan_inv_def)
  moreover have "length (filter (\<lambda>e. \<not> is_sent e) (ls_tx (la_send a))) \<le> 1"
    using assms by (simp add: lifespan_inv_def)
  ultimately show ?thesis using sum_length_filter_compl [of is_sent "ls_tx (la_send a)"] by linarith
qed

section \<open>Properties\<close>

text \<open>
  C26. The lifespan protocol cannot be driven into a state the server does not handle. Whatever
  an application sends, in whatever order, and however its coroutine ends, the server's waits at
  startup and at shutdown never meet an event they call unreachable; the lifespan counts as
  supported exactly if startup.complete came first; and the server refuses to start exactly if
  the application said that its startup failed, or raised before that while the lifespan is
  required. At most three messages are ever sent.
\<close>

theorem lifespan_never_unreachable:
  "let es = ls_tx (la_send (fold (lifespan_exec trace) ops lifespan_app_new)) in
     length es \<le> 3
     \<and> (case es of
          [] \<Rightarrow> True
        | e # _ \<Rightarrow> \<exists>r log. execute_lifespan trace req None (Some e) = Ret (r, log)
            \<and> (r = Inr True \<longleftrightarrow> e = StartupComplete)
            \<and> ((\<exists>x. r = Inl x) \<longleftrightarrow> (\<exists>m. e = StartupFailed m) \<or> req \<and> (\<exists>m. e = LifespanFailed m)))
     \<and> (case es of
          StartupComplete # f # _ \<Rightarrow> \<exists>log. lifespan_shutdown err (Some f) = Ret log
        | _ \<Rightarrow> True)"
proof -
  let ?a = "fold (lifespan_exec trace) ops lifespan_app_new"
  have inv: "lifespan_inv ?a" by (rule lifespan_run_inv)
  have first: "\<exists>r log. execute_lifespan trace req None (Some e) = Ret (r, log)
      \<and> (r = Inr True \<longleftrightarrow> e = StartupComplete)
      \<and> ((\<exists>x. r = Inl x) \<longleftrightarrow> (\<exists>m. e = StartupFailed m) \<or> req \<and> (\<exists>m. e = LifespanFailed m))"
    if "ls_tx (la_send ?a) = e # es" for e es
    using lifespan_first [OF inv that] by (cases e) (auto simp: execute_lifespan_def)
  have second: "\<exists>log. lifespan_shutdown err (Some f) = Ret log"
    if "ls_tx (la_send ?a) = StartupComplete # f # es" for f es
    using lifespan_second [OF inv that] by (cases f) (auto simp: lifespan_shutdown_def)
  show ?thesis
    unfolding Let_def
    using lifespan_length [OF inv] first second
    by (auto split: list.split lifespan_event.split)
qed

end
