(* ===== verification/Asgi_App.thy ===== *)
theory Asgi_App
  imports Asgi_Shared Event_Bridge Request_Scope Wsgi_Read
begin

text \<open>
  \<open>src/src/asgi/python/mod.rs\<close>: the Python side of an ASGI request. The receive and send
  callables, the handler of the finished application, and how the executor completes or fails
  the futures the application waits for.
\<close>

section \<open>Events\<close>

text \<open>A future is known by a number. \<open>ab_future\<close> is \<open>None\<close> for the last chunk.\<close>

record asgi_start =
  as_status :: bytes
  as_headers :: headers
  as_trailers :: bool

record asgi_body =
  ab_body :: bytes
  ab_future :: "nat option"

datatype send_event =
    SendStart asgi_start asgi_body
  | SendBody asgi_body
  | SendTrailers headers bool
  | SendException

text \<open>The tasks that complete the futures on their event loop, one per dispatch.\<close>

datatype loop_task =
    RecvResult nat bytes bool
  | RecvDisconnect nat
  | SendResult nat
  | SendDisconnect nat

section \<open>What the filter and the callables share\<close>

text \<open>
  The two bridges, the futures created so far, the tasks dispatched to the event loop, and the
  events scheduled on the filter. \<open>ln_response_closed\<close> is the shared flag.
\<close>

record asgi_link =
  ln_response_closed :: bool
  ln_recv :: "nat bridge"
  ln_send :: "send_event bridge"
  ln_futures :: nat
  ln_tasks :: "loop_task list"
  ln_commits :: "nat list"

definition loop_dispatch :: "loop_task \<Rightarrow> 'a asgi_link_scheme \<Rightarrow> 'a asgi_link_scheme" where
  "loop_dispatch t l = l\<lparr>ln_tasks := ln_tasks l @ [t]\<rparr>"

definition commit :: "nat \<Rightarrow> 'a asgi_link_scheme \<Rightarrow> 'a asgi_link_scheme" where
  "commit event_id l = l\<lparr>ln_commits := ln_commits l @ [event_id]\<rparr>"

text \<open>\<open>create_future\<close> of the loop.\<close>

definition create_future :: "'a asgi_link_scheme \<Rightarrow> nat \<times> 'a asgi_link_scheme" where
  "create_future l = (ln_futures l, l\<lparr>ln_futures := ln_futures l + 1\<rparr>)"

text \<open>Dropping a receive future, or an event with a send future in it, fails the future.\<close>

definition drop_recv_future :: "nat \<Rightarrow> 'a asgi_link_scheme \<Rightarrow> 'a asgi_link_scheme" where
  "drop_recv_future fut l = loop_dispatch (RecvDisconnect fut) l"

fun event_future :: "send_event \<Rightarrow> nat option" where
  "event_future (SendStart st bd) = ab_future bd"
| "event_future (SendBody bd) = ab_future bd"
| "event_future _ = None"

definition drop_send_event :: "send_event \<Rightarrow> 'a asgi_link_scheme \<Rightarrow> 'a asgi_link_scheme" where
  "drop_send_event e l =
     (case event_future e of Some fut \<Rightarrow> loop_dispatch (SendDisconnect fut) l | None \<Rightarrow> l)"

section \<open>Receive\<close>

definition recv_call :: "'a asgi_link_scheme \<Rightarrow> returned \<times> 'a asgi_link_scheme" where
  "recv_call l =
     (case create_future l of (fut, l) \<Rightarrow>
        (AwaitsFuture fut,
         case bridge_offer (ln_recv l) fut of
           (True, b) \<Rightarrow> commit EVENT_ID_REQUEST (l\<lparr>ln_recv := b\<rparr>)
         | (False, b) \<Rightarrow> drop_recv_future fut (l\<lparr>ln_recv := b\<rparr>)))"

definition asgi_empty_recv :: pyval where
  "asgi_empty_recv = PyDict [(''type'', PyStr ''http.request''), (''body'', PyBytes []),
     (''more_body'', PyBool False)]"

definition asgi_empty_recv_disconnect :: pyval where
  "asgi_empty_recv_disconnect = PyDict [(''type'', PyStr ''http.disconnect'')]"

definition empty_recv_call :: "'a asgi_link_scheme \<Rightarrow> returned" where
  "empty_recv_call l =
     Awaits (value_awaitable
       (if ln_response_closed l then asgi_empty_recv_disconnect else asgi_empty_recv))"

section \<open>Send\<close>

datatype next_asgi_event = NextStart | NextBody bool | NextTrailers | NextDone

record asgi_sender =
  se_next :: next_asgi_event
  se_start :: "asgi_start option"
  se_trailers_accepted :: bool
  se_closed :: bool

definition asgi_sender_new :: "bool \<Rightarrow> asgi_sender" where
  "asgi_sender_new trailers_accepted =
     \<lparr>se_next = NextStart, se_start = None, se_trailers_accepted = trailers_accepted, se_closed = False\<rparr>"

text \<open>\<open>StatusCode::from_u16\<close> joins the parsers of headers; a status is its text.\<close>

record asgi_api = header_api +
  status_from_u16 :: "nat \<Rightarrow> bytes option"

definition flag :: "pydict \<Rightarrow> bytes \<Rightarrow> pyerr + bool" where
  "flag event key = (case dict_get event key of Some v \<Rightarrow> extract_bool v | None \<Rightarrow> Inr False)"

text \<open>Sending to the bridge: a closed one hands the event back, and dropping it fails its future.\<close>

definition send_offer :: "send_event \<Rightarrow> asgi_sender \<Rightarrow> 'a asgi_link_scheme
    \<Rightarrow> bool \<times> asgi_sender \<times> 'a asgi_link_scheme" where
  "send_offer e s l =
     (case bridge_offer (ln_send l) e of
        (True, b) \<Rightarrow> (True, s, commit EVENT_ID_RESPONSE (l\<lparr>ln_send := b\<rparr>))
      | (False, b) \<Rightarrow> (False, s\<lparr>se_closed := True\<rparr>, drop_send_event e (l\<lparr>ln_send := b\<rparr>)))"

definition unexpected :: "bytes \<Rightarrow> bytes \<Rightarrow> pyerr" where
  "unexpected expected ty = RuntimeError (''Expected ASGI message '' @ quoted expected
     @ '', but got '' @ quoted ty @ ''.'')"

definition send_start :: "'b asgi_api_scheme \<Rightarrow> pydict \<Rightarrow> asgi_sender \<Rightarrow> pyerr + asgi_sender" where
  "send_start api event s =
     pbind (extract_headers_from_event api event) (\<lambda>hs.
     pbind (case dict_get event ''status'' of
              Some v \<Rightarrow> extract_u16 v
            | None \<Rightarrow> Inl (RuntimeError (''Unexpected ASGI message, missing '' @ quoted ''status''
                @ '' in '' @ quoted ''http.response.start'' @ ''.''))) (\<lambda>code.
     pbind (case status_from_u16 api code of
              Some st \<Rightarrow> Inr st
            | None \<Rightarrow> Inl (ValueError (''Invalid HTTP status code '' @ quoted (decimal code)))) (\<lambda>st.
     pbind (flag event ''trailers'') (\<lambda>trailers.
       Inr (s\<lparr>se_next := NextBody trailers,
              se_start := Some \<lparr>as_status = st, as_headers = hs,
                as_trailers = (trailers \<and> se_trailers_accepted s)\<rparr>\<rparr>)))))"

text \<open>A chunk: the state moves on before anything is sent; more chunks wait for a future.\<close>

definition send_chunk :: "bool \<Rightarrow> bytes \<Rightarrow> bool \<Rightarrow> asgi_sender \<Rightarrow> 'a asgi_link_scheme
    \<Rightarrow> returned \<times> asgi_sender \<times> 'a asgi_link_scheme" where
  "send_chunk trailers body more_body s l =
     (let s = (if \<not> more_body then s\<lparr>se_next := (if trailers then NextTrailers else NextDone)\<rparr> else s);
          (ret, fut, l) =
            (if more_body then (case create_future l of (fut, l) \<Rightarrow> (AwaitsFuture fut, Some fut, l))
             else (Awaits EmptyAwaitable, None, l));
          bd = \<lparr>ab_body = body, ab_future = fut\<rparr>
      in case se_start s of
           Some st \<Rightarrow>
             (case send_offer (SendStart st bd) (s\<lparr>se_start := None\<rparr>) l of (_, s, l) \<Rightarrow> (ret, s, l))
         | None \<Rightarrow> (case send_offer (SendBody bd) s l of (_, s, l) \<Rightarrow> (ret, s, l)))"

definition send_body_event :: "bool \<Rightarrow> pydict \<Rightarrow> asgi_sender \<Rightarrow> 'a asgi_link_scheme
    \<Rightarrow> (pyerr + returned) \<times> asgi_sender \<times> 'a asgi_link_scheme" where
  "send_body_event trailers event s l =
     (case pbind (flag event ''more_body'') (\<lambda>more_body.
           pbind (case dict_get event ''body'' of Some v \<Rightarrow> cast_bytes v | None \<Rightarrow> Inr [])
             (\<lambda>body. Inr (more_body, body))) of
        Inl e \<Rightarrow> (Inl e, s, l)
      | Inr (more_body, body) \<Rightarrow>
          (case send_chunk trailers body more_body s l of (ret, s, l) \<Rightarrow> (Inr ret, s, l)))"

definition send_trailers_event :: "'b asgi_api_scheme \<Rightarrow> pydict \<Rightarrow> asgi_sender \<Rightarrow> 'a asgi_link_scheme
    \<Rightarrow> (pyerr + returned) \<times> asgi_sender \<times> 'a asgi_link_scheme" where
  "send_trailers_event api event s l =
     (case flag event ''more_trailers'' of
        Inl e \<Rightarrow> (Inl e, s, l)
      | Inr more_trailers \<Rightarrow>
          (let s = (if \<not> more_trailers then s\<lparr>se_next := NextDone\<rparr> else s) in
           if se_trailers_accepted s then
             (case extract_headers_from_event api event of
                Inl e \<Rightarrow> (Inl e, s, l)
              | Inr hs \<Rightarrow>
                  (case send_offer (SendTrailers hs more_trailers) s l of
                     (True, s, l) \<Rightarrow> (Inr (Awaits EmptyAwaitable), s, l)
                   | (False, s, l) \<Rightarrow> (Inr (Awaits (error_awaitable ClientDisconnectedError)), s, l)))
           else (Inr (Awaits EmptyAwaitable), s, l)))"

definition asgi_send :: "'b asgi_api_scheme \<Rightarrow> pydict \<Rightarrow> asgi_sender \<Rightarrow> 'a asgi_link_scheme
    \<Rightarrow> (pyerr + returned) \<times> asgi_sender \<times> 'a asgi_link_scheme" where
  "asgi_send api event s l =
     (if se_closed s then (Inr (Awaits (error_awaitable ClientDisconnectedError)), s, l)
      else (case event_type event of
        Inl e \<Rightarrow> (Inl e, s, l)
      | Inr ty \<Rightarrow>
          (case se_next s of
             NextStart \<Rightarrow>
               if ty \<noteq> ''http.response.start'' then
                 (Inr (Awaits (error_awaitable (unexpected ''http.response.start'' ty))), s, l)
               else (case send_start api event s of
                       Inl e \<Rightarrow> (Inl e, s, l)
                     | Inr s \<Rightarrow> (Inr (Awaits EmptyAwaitable), s, l))
           | NextBody trailers \<Rightarrow>
               if ty \<noteq> ''http.response.body'' then
                 (Inr (Awaits (error_awaitable (unexpected ''http.response.body'' ty))), s, l)
               else send_body_event trailers event s l
           | NextTrailers \<Rightarrow>
               if ty \<noteq> ''http.response.trailers'' then
                 (Inr (Awaits (error_awaitable (unexpected ''http.response.trailers'' ty))), s, l)
               else send_trailers_event api event s l
           | NextDone \<Rightarrow>
               (Inr (Awaits (error_awaitable (RuntimeError (''Unexpected ASGI message '' @ quoted ty
                  @ '' sent, after response already completed.'')))), s, l))))"

section \<open>The application's end\<close>

text \<open>\<open>AppFutureHandler\<close>, with the result of the finished task.\<close>

definition app_done :: "pyerr + unit \<Rightarrow> 'a asgi_link_scheme \<Rightarrow> 'a asgi_link_scheme" where
  "app_done result l =
     (case result of
        Inr _ \<Rightarrow> l
      | Inl e \<Rightarrow>
          if e = ClientDisconnectedError then l
          else (case bridge_offer (ln_send l) SendException of
                  (True, b) \<Rightarrow> commit EVENT_ID_RESPONSE (l\<lparr>ln_send := b\<rparr>)
                | (False, b) \<Rightarrow> l\<lparr>ln_send := b\<rparr>))"

section \<open>Completing futures\<close>

text \<open>\<open>handle_recv_future\<close> and \<open>handle_send_future\<close>, on Envoy's thread.\<close>

definition handle_recv_future :: "bytes \<Rightarrow> bool \<Rightarrow> nat \<Rightarrow> 'a asgi_link_scheme \<Rightarrow> 'a asgi_link_scheme" where
  "handle_recv_future body more_body fut l = loop_dispatch (RecvResult fut body more_body) l"

definition handle_send_future :: "nat \<Rightarrow> 'a asgi_link_scheme \<Rightarrow> 'a asgi_link_scheme" where
  "handle_send_future fut l = loop_dispatch (SendResult fut) l"

text \<open>What the tasks do to the future on the event loop: the value or the exception it gets.\<close>

fun task_outcome :: "loop_task \<Rightarrow> nat \<times> (pyerr + pyval)" where
  "task_outcome (RecvResult fut body more_body) =
     (fut, Inr (PyDict [(''type'', PyStr ''http.request''), (''body'', PyBytes body),
        (''more_body'', PyBool more_body)]))"
| "task_outcome (RecvDisconnect fut) = (fut, Inr asgi_empty_recv_disconnect)"
| "task_outcome (SendResult fut) = (fut, Inr PyNone)"
| "task_outcome (SendDisconnect fut) = (fut, Inl ClientDisconnectedError)"

section \<open>Starting the application\<close>

text \<open>
  \<open>run_app\<close>, on the event loop: the scope, then the call of the application, each of which may
  fail; the failure goes back to the loop, which only reports it. \<open>call\<close> is the application's
  call, \<open>request_closed\<close> chooses the receive callable.
\<close>

datatype recv_kind = EmptyRecv | BridgeRecv

definition run_app :: "(bytes \<Rightarrow> bytes) \<Rightarrow> (string \<Rightarrow> bytes) \<Rightarrow> scope \<Rightarrow> bytes \<Rightarrow> pydict option \<Rightarrow> bool \<Rightarrow> bool
    \<Rightarrow> (pydict \<Rightarrow> pyerr option) \<Rightarrow> pyerr + recv_kind \<times> asgi_sender" where
  "run_app decode_binary hc sc root_path state request_closed trailers_accepted call =
     pbind (new_scope_dict decode_binary hc sc ''http''
              [(''version'', PyStr ''3.0''), (''spec_version'', PyStr ''2.5'')]
              [(''http.response.trailers'', PyDict [])] (Some root_path) state) (\<lambda>scope_dict.
       case call scope_dict of
         Some e \<Rightarrow> Inl e
       | None \<Rightarrow> Inr (if request_closed then EmptyRecv else BridgeRecv, asgi_sender_new trailers_accepted))"

text \<open>
  The rest of \<open>run_app\<close>: the task of the coroutine. \<open>eager_task\<close> is whether the executor has an
  eager task class and \<open>client\<close> whether the request may use the HTTP client; \<open>tk_no_factory\<close> is
  what asking the loop for a task factory gives, \<open>tk_done\<close> whether the task is already done, and
  the other fields are the failures of the remaining Python calls. The bridge of the client is
  in the context variable between \<open>SetBridge\<close> and \<open>ResetBridge\<close>; a reset is a drop, so it also
  runs on the way out of an error. The list is what was done.
\<close>

record task_calls =
  tk_no_factory :: "pyerr + bool"
  tk_set_bridge :: "pyerr + unit"
  tk_create :: "bool \<Rightarrow> pyerr + unit"
  tk_done :: "pyerr + bool"
  tk_add_callback :: "pyerr + unit"

datatype task_action = SetBridge | ResetBridge | CreateTask bool | RunHandler | AddHandler

definition start_task :: "task_calls \<Rightarrow> bool \<Rightarrow> bool \<Rightarrow> task_action list \<times> (pyerr + unit)" where
  "start_task k eager_task client =
     (case (if eager_task then tk_no_factory k else Inr False) of
        Inl e \<Rightarrow> ([], Inl e)
      | Inr eager \<Rightarrow>
          (case (if client then tk_set_bridge k else Inr ()) of
             Inl e \<Rightarrow> ([], Inl e)
           | Inr _ \<Rightarrow>
               (let before = (if client then [SetBridge] else []);
                    reset = (if client then [ResetBridge] else [])
                in case tk_create k eager of
                     Inl e \<Rightarrow> (before @ reset, Inl e)
                   | Inr _ \<Rightarrow>
                       (let made = before @ [CreateTask eager] @ reset in
                        case (if eager then tk_done k else Inr False) of
                          Inl e \<Rightarrow> (made, Inl e)
                        | Inr True \<Rightarrow> (made @ [RunHandler], Inr ())
                        | Inr False \<Rightarrow>
                            (case tk_add_callback k of
                               Inl e \<Rightarrow> (made, Inl e)
                             | Inr _ \<Rightarrow> (made @ [AddHandler], Inr ()))))))"

text \<open>
  The bridge is taken back out of the context whatever happens, and no handler runs or is added
  while it is there; the handler is in place exactly if no call failed.
\<close>

lemma start_task_bridge:
  "case start_task k eager_task client of (done, r) \<Rightarrow>
     count_list done SetBridge = count_list done ResetBridge
     \<and> (SetBridge \<in> set done \<longrightarrow> client)
     \<and> (isl r \<longleftrightarrow> RunHandler \<notin> set done \<and> AddHandler \<notin> set done)"
  by (auto simp: start_task_def Let_def split: sum.split bool.split)

end
