(* ===== verification/Asgi_Transport.thy ===== *)
theory Asgi_Transport
  imports Asgi_Shared Wsgi_Transport Envoy_Api
begin

text \<open>
  The HTTP client of an ASGI application: \<open>src/src/asgi/transport.rs\<close> on the Python side, and
  the upstream streams of \<open>src/src/asgi/filter.rs\<close> on Envoy's side. Objects shared between the
  two (response and request contents, futures) live in lists and are known by their index.
\<close>

section \<open>Objects\<close>

text \<open>\<open>ResponseContent\<close>: \<open>cn_trailers\<close> is the Python \<open>Headers\<close> object of the response, if made.\<close>

record async_content =
  cn_trailers :: "headers option"
  cn_pending :: "nat option"
  cn_body :: bytes
  cn_http_trailers :: "headers option"
  cn_end_stream :: bool
  cn_reset :: "reset_reason option"
  cn_exception :: "pyval option"
  cn_stream_handle :: u64

definition content_new :: async_content where
  "content_new = \<lparr>cn_trailers = None, cn_pending = None, cn_body = [], cn_http_trailers = None,
     cn_end_stream = False, cn_reset = None, cn_exception = None, cn_stream_handle = 0\<rparr>"

text \<open>\<open>RequestContent\<close>: \<open>qc_task\<close> is whether its forwarding task was created.\<close>

record request_content =
  qc_stream_handle :: u64
  qc_iter :: pyval
  qc_task :: bool

record asgi_response =
  arsp_status :: bytes
  arsp_headers :: headers
  arsp_content :: "nat option"
  arsp_request_task :: "nat option"

datatype outcome = ResponseOut asgi_response | ChunkOut bytes | ErrorOut pyerr

datatype future_state = FutPending | FutCancelled | FutDone outcome

section \<open>Events and tasks\<close>

datatype request_source = Buffered bytes | FromIter nat

record asgi_start_stream =
  sv_method :: bytes
  sv_url :: url
  sv_headers :: headers
  sv_body :: request_source
  sv_cluster :: bytes
  sv_timeout_ms :: nat
  sv_response_future :: nat
  sv_response_content :: nat

datatype asgi_transport_event =
    AsgiStart asgi_start_stream
  | AsgiSendData u64 bytes bool
  | AsgiReset u64 "pyval option"

record asgi_stream =
  us_request :: "nat option"
  us_future :: "nat option"
  us_content :: nat

datatype upstream_task =
    ReceivedHeaders bytes headers nat nat "nat option" bool
  | SetFutureException nat reset_reason nat "nat option"
  | NotifyRequest nat
  | NotifyResponse nat

text \<open>
  \<open>up_tasks\<close> are the tasks dispatched to the event loop that have not run; \<open>up_cancelled\<close> the
  requests whose forwarding task was cancelled, \<open>up_calls\<close> the calls on Envoy.
\<close>

record asgi_upstream =
  up_bridge :: "asgi_transport_event bridge option"
  up_commits :: nat
  up_futures :: "future_state list"
  up_contents :: "async_content list"
  up_requests :: "request_content list"
  up_tasks :: "upstream_task list"
  up_streams :: "(u64 \<times> asgi_stream) list"
  up_cancelled :: "nat list"
  up_calls :: "envoy_call list"

definition upstream_new :: "bool \<Rightarrow> asgi_upstream" where
  "upstream_new enable_http_client =
     \<lparr>up_bridge = (if enable_http_client then Some bridge_new else None), up_commits = 0,
      up_futures = [], up_contents = [], up_requests = [], up_tasks = [], up_streams = [],
      up_cancelled = [], up_calls = []\<rparr>"

text \<open>Sending to the bridge and scheduling the filter, as all callables do.\<close>

definition up_offer :: "asgi_transport_event \<Rightarrow> asgi_upstream \<Rightarrow> asgi_upstream" where
  "up_offer e u =
     (case up_bridge u of
        None \<Rightarrow> u
      | Some b \<Rightarrow>
          (case bridge_offer b e of
             (ok, b) \<Rightarrow> u\<lparr>up_bridge := Some b, up_commits := up_commits u + (if ok then 1 else 0)\<rparr>))"

definition up_dispatch :: "upstream_task \<Rightarrow> asgi_upstream \<Rightarrow> asgi_upstream" where
  "up_dispatch t u = u\<lparr>up_tasks := up_tasks u @ [t]\<rparr>"

definition up_create_future :: "asgi_upstream \<Rightarrow> nat \<times> asgi_upstream" where
  "up_create_future u = (length (up_futures u), u\<lparr>up_futures := up_futures u @ [FutPending]\<rparr>)"

definition set_content :: "nat \<Rightarrow> async_content \<Rightarrow> asgi_upstream \<Rightarrow> asgi_upstream" where
  "set_content i c u = u\<lparr>up_contents := (up_contents u)[i := c]\<rparr>"

text \<open>\<open>set_result\<close> and \<open>set_exception\<close> of a future, which raise if it is done.\<close>

definition complete_future :: "nat \<Rightarrow> outcome \<Rightarrow> asgi_upstream \<Rightarrow> pyerr option \<times> asgi_upstream" where
  "complete_future f r u =
     (if up_futures u ! f = FutPending then (None, u\<lparr>up_futures := (up_futures u)[f := FutDone r]\<rparr>)
      else (Some InvalidStateError, u))"

definition cancel_forwarding :: "nat option \<Rightarrow> asgi_upstream \<Rightarrow> asgi_upstream" where
  "cancel_forwarding req u =
     (case req of
        Some q \<Rightarrow> if qc_task (up_requests u ! q) then u\<lparr>up_cancelled := up_cancelled u @ [q]\<rparr> else u
      | None \<Rightarrow> u)"

section \<open>Errors\<close>

fun asgi_map_reset_reason :: "http_client_api \<Rightarrow> reset_reason \<Rightarrow> pyerr + pyerr" where
  "asgi_map_reset_reason api Local = read_error_new api ''local stream reset''"
| "asgi_map_reset_reason api Remote = read_error_new api ''remote stream reset''"
| "asgi_map_reset_reason api Protocol = read_error_new api ''protocol error''"
| "asgi_map_reset_reason api Connection = Inr (ConnectionError ''connection error'')"
| "asgi_map_reset_reason api Overflow = read_error_new api ''stream overflow''"
| "asgi_map_reset_reason api ServerRequestDone =
     read_error_new api ''server request completed before client response''"
| "asgi_map_reset_reason api InvalidUpstream = read_error_new api ''invalid upstream config''"

section \<open>Sending a request\<close>

text \<open>The method, URL, headers and body of a request are read as by the synchronous client.\<close>

definition asgi_prepare_request :: "http_client_api \<Rightarrow> (bytes \<Rightarrow> pyerr + pyval)
    \<Rightarrow> pyerr + (bytes \<times> url \<times> headers \<times> pyval)" where
  "asgi_prepare_request api attr = prepare_request api attr"

text \<open>\<open>bridge_set\<close> is whether the context variable holds a bridge, \<open>enabled\<close> the process flag.\<close>

definition asgi_execute :: "http_client_api \<Rightarrow> bool \<Rightarrow> bool \<Rightarrow> bytes \<Rightarrow> nat \<Rightarrow> (bytes \<Rightarrow> pyerr + pyval)
    \<Rightarrow> asgi_upstream \<Rightarrow> (pyerr + nat) \<times> asgi_upstream" where
  "asgi_execute api bridge_set enabled cluster timeout_ms attr u =
     (if \<not> bridge_set then
        (Inl (RuntimeError
           (if \<not> enabled then ''no upstreams configured, HTTP transport cannot be used''
            else ''TransportBridge not found in contextvars. This likely means the HTTP client was used outside of the context of the request.'')), u)
      else (case up_create_future u of (future, u) \<Rightarrow>
        (case asgi_prepare_request api attr of
           Inl e \<Rightarrow> (Inl e, u)
         | Inr (meth, url, hs, request_body) \<Rightarrow>
             (let (body, u) =
                    (case extract_bytes api request_body of
                       Inr bs \<Rightarrow> (Buffered bs, u)
                     | Inl _ \<Rightarrow>
                         (FromIter (length (up_requests u)),
                          u\<lparr>up_requests := up_requests u @
                              [\<lparr>qc_stream_handle = 0, qc_iter = request_body, qc_task = False\<rparr>]\<rparr>));
                  content = length (up_contents u);
                  u = u\<lparr>up_contents := up_contents u @ [content_new]\<rparr>
              in (Inr future,
                  up_offer (AsgiStart \<lparr>sv_method = meth, sv_url = url, sv_headers = hs, sv_body = body,
                    sv_cluster = cluster, sv_timeout_ms = timeout_ms, sv_response_future = future,
                    sv_response_content = content\<rparr>) u)))))"

text \<open>\<open>RequestContentForwarder\<close>, called by the forwarding task of the request with that handle.\<close>

datatype forwarded = ForwardStatus nat | ForwardException pyval | ForwardNone | ForwardData "pyerr + bytes"

fun forwarder_call :: "u64 \<Rightarrow> forwarded \<Rightarrow> asgi_upstream \<Rightarrow> ((pyerr + awaitable) \<times> asgi_upstream) rust" where
  "forwarder_call h (ForwardStatus n) u =
     (if n = 1 then Ret (Inr EmptyAwaitable, up_offer (AsgiReset h None) u) else Panic)"
| "forwarder_call h (ForwardException e) u = Ret (Inr EmptyAwaitable, up_offer (AsgiReset h (Some e)) u)"
| "forwarder_call h ForwardNone u = Ret (Inr EmptyAwaitable, up_offer (AsgiSendData h [] True) u)"
| "forwarder_call h (ForwardData (Inr body)) u =
     Ret (Inr EmptyAwaitable, up_offer (AsgiSendData h body False) u)"
| "forwarder_call h (ForwardData (Inl e)) u = Ret (Inl e, u)"

definition start_forwarding :: "nat \<Rightarrow> asgi_upstream \<Rightarrow> asgi_upstream" where
  "start_forwarding q u =
     u\<lparr>up_requests := (up_requests u)[q := (up_requests u ! q)\<lparr>qc_task := True\<rparr>]\<rparr>"

section \<open>The response content\<close>

text \<open>Feeding, on Envoy's thread; the flag is whether a read is pending and must be notified.\<close>

definition feed_response_data :: "bytes \<Rightarrow> bool \<Rightarrow> async_content \<Rightarrow> bool \<times> async_content" where
  "feed_response_data data end_stream c =
     (cn_pending c \<noteq> None,
      c\<lparr>cn_body := cn_body c @ data, cn_end_stream := cn_end_stream c \<or> end_stream\<rparr>)"

definition feed_response_trailers :: "envoy_api \<Rightarrow> headers \<Rightarrow> async_content \<Rightarrow> bool \<times> async_content" where
  "feed_response_trailers api ts c =
     (cn_pending c \<noteq> None,
      c\<lparr>cn_http_trailers := Some (List.map_filter
             (\<lambda>(n, v). case (name_from_bytes api n, value_from_bytes api v) of
                        (Some n, Some v) \<Rightarrow> Some (n, v) | _ \<Rightarrow> None) ts),
        cn_end_stream := True\<rparr>)"

definition content_set_exception :: "pyval \<Rightarrow> async_content \<Rightarrow> async_content" where
  "content_set_exception e c = c\<lparr>cn_exception := Some e\<rparr>"

definition content_take_exception :: "async_content \<Rightarrow> pyval option \<times> async_content" where
  "content_take_exception c = (cn_exception c, c\<lparr>cn_exception := None\<rparr>)"

definition content_reset :: "reset_reason \<Rightarrow> async_content \<Rightarrow> bool \<times> async_content" where
  "content_reset reason c = (cn_pending c \<noteq> None, c\<lparr>cn_end_stream := True, cn_reset := Some reason\<rparr>)"

definition maybe_copy_trailers :: "http_client_api \<Rightarrow> async_content \<Rightarrow> pyerr option \<times> async_content" where
  "maybe_copy_trailers api c =
     (case cn_http_trailers c of
        None \<Rightarrow> (None, c)
      | Some trailers \<Rightarrow>
          (let c = c\<lparr>cn_http_trailers := None\<rparr> in
           case cn_trailers c of
             None \<Rightarrow> (None, c)
           | Some py \<Rightarrow> (case add_trailers api trailers py of
                          (e, py) \<Rightarrow> (e, c\<lparr>cn_trailers := Some py\<rparr>))))"

text \<open>What ends a read when nothing is buffered: the error, or the end of the iteration.\<close>

definition content_error :: "http_client_api \<Rightarrow> async_content \<Rightarrow> (pyerr + pyerr) option" where
  "content_error api c =
     (case cn_exception c of
        Some e \<Rightarrow> Some (Inr (as_error api e))
      | None \<Rightarrow> map_option (asgi_map_reset_reason api) (cn_reset c))"

text \<open>\<open>__anext__\<close>.\<close>

definition content_anext :: "http_client_api \<Rightarrow> nat \<Rightarrow> asgi_upstream \<Rightarrow> (pyerr + returned) \<times> asgi_upstream" where
  "content_anext api i u =
     (let c = up_contents u ! i in
      if cn_pending c \<noteq> None then (Inr (Awaits (value_awaitable (PyBytes []))), u)
      else (case maybe_copy_trailers api c of
        (Some e, c) \<Rightarrow> (Inl e, set_content i c u)
      | (None, c) \<Rightarrow>
          if cn_body c \<noteq> [] then
            (Inr (Awaits (value_awaitable (PyBytes (cn_body c)))), set_content i (c\<lparr>cn_body := []\<rparr>) u)
          else (case content_error api c of
            Some (Inr e) \<Rightarrow> (Inr (Awaits (error_awaitable e)), set_content i c u)
          | Some (Inl e) \<Rightarrow> (Inl e, set_content i c u)
          | None \<Rightarrow>
              if cn_end_stream c then (Inl StopAsyncIteration, set_content i c u)
              else (case up_create_future u of
                      (f, u) \<Rightarrow> (Inr (AwaitsFuture f), set_content i (c\<lparr>cn_pending := Some f\<rparr>) u)))))"

text \<open>\<open>notify\<close>, on the event loop.\<close>

definition content_notify :: "http_client_api \<Rightarrow> nat \<Rightarrow> asgi_upstream \<Rightarrow> pyerr option \<times> asgi_upstream" where
  "content_notify api i u =
     (case maybe_copy_trailers api (up_contents u ! i) of
        (Some e, c) \<Rightarrow> (Some e, set_content i c u)
      | (None, c) \<Rightarrow>
          if cn_body c = [] \<and> \<not> cn_end_stream c then (None, set_content i c u)
          else (case cn_pending c of
            None \<Rightarrow> (None, set_content i c u)
          | Some f \<Rightarrow>
              (let c = c\<lparr>cn_pending := None\<rparr> in
               if up_futures u ! f \<noteq> FutPending then (None, set_content i c u)
               else if cn_body c \<noteq> [] then
                 complete_future f (ChunkOut (cn_body c)) (set_content i (c\<lparr>cn_body := []\<rparr>) u)
               else (case content_error api c of
                 Some (Inr e) \<Rightarrow> complete_future f (ErrorOut e) (set_content i c u)
               | Some (Inl e) \<Rightarrow> (Some e, set_content i c u)
               | None \<Rightarrow> complete_future f (ErrorOut StopAsyncIteration) (set_content i c u)))))"

definition content_aclose :: "nat \<Rightarrow> asgi_upstream \<Rightarrow> awaitable \<times> asgi_upstream" where
  "content_aclose i u =
     (EmptyAwaitable,
      if \<not> cn_end_stream (up_contents u ! i) then up_offer (AsgiReset (cn_stream_handle (up_contents u ! i)) None) u
      else u)"

section \<open>The tasks on the event loop\<close>

text \<open>\<open>ReceivedResponseHeadersExecutor::run\<close>; \<open>response_new\<close> is the error of building the response.\<close>

definition received_headers :: "http_client_api \<Rightarrow> bytes \<Rightarrow> headers \<Rightarrow> nat \<Rightarrow> nat \<Rightarrow> nat option \<Rightarrow> bool
    \<Rightarrow> asgi_upstream \<Rightarrow> pyerr option \<times> asgi_upstream" where
  "received_headers api status hs f i req end_stream u =
     (if up_futures u ! f = FutCancelled then (None, cancel_forwarding req u)
      else (case add_trailers api hs [] of
        (Some e, _) \<Rightarrow> (Some e, u)
      | (None, py_headers) \<Rightarrow>
          (let u = (if \<not> end_stream then set_content i ((up_contents u ! i)\<lparr>cn_trailers := Some []\<rparr>) u else u) in
           case response_new api status py_headers (\<not> end_stream) of
             Some e \<Rightarrow> (Some e, u)
           | None \<Rightarrow>
               complete_future f (ResponseOut \<lparr>arsp_status = status, arsp_headers = py_headers,
                 arsp_content = (if end_stream then None else Some i),
                 arsp_request_task = (case req of
                     Some q \<Rightarrow> if qc_task (up_requests u ! q) then Some q else None
                   | None \<Rightarrow> None)\<rparr>) u)))"

text \<open>\<open>SetResponseFutureException::run\<close>, which takes the exception stored for the response.\<close>

definition set_future_exception :: "http_client_api \<Rightarrow> nat \<Rightarrow> reset_reason \<Rightarrow> nat \<Rightarrow> nat option
    \<Rightarrow> asgi_upstream \<Rightarrow> pyerr option \<times> asgi_upstream" where
  "set_future_exception api f reason i req u =
     (case content_take_exception (up_contents u ! i) of (ex, c) \<Rightarrow>
        (let u = set_content i c u in
         if up_futures u ! f \<noteq> FutPending then (None, cancel_forwarding req u)
         else (case (case ex of Some e \<Rightarrow> Inr (as_error api e) | None \<Rightarrow> asgi_map_reset_reason api reason) of
                 Inl e \<Rightarrow> (Some e, u)
               | Inr err \<Rightarrow>
                   (case complete_future f (ErrorOut err) u of
                      (Some e, u) \<Rightarrow> (Some e, u)
                    | (None, u) \<Rightarrow> (None, cancel_forwarding req u)))))"

fun run_task :: "http_client_api \<Rightarrow> upstream_task \<Rightarrow> asgi_upstream \<Rightarrow> pyerr option \<times> asgi_upstream" where
  "run_task api (ReceivedHeaders status hs f i req end_stream) u =
     received_headers api status hs f i req end_stream u"
| "run_task api (SetFutureException f reason i req) u = set_future_exception api f reason i req u"
| "run_task api (NotifyRequest q) u = (None, start_forwarding q u)"
| "run_task api (NotifyResponse i) u = content_notify api i u"

section \<open>The filter's side\<close>

definition up_call :: "envoy_call \<Rightarrow> asgi_upstream \<Rightarrow> asgi_upstream" where
  "up_call c u = u\<lparr>up_calls := up_calls u @ [c]\<rparr>"

definition notify_if :: "bool \<Rightarrow> nat \<Rightarrow> asgi_upstream \<Rightarrow> asgi_upstream" where
  "notify_if pending i u = (if pending then up_dispatch (NotifyResponse i) u else u)"

fun asgi_reset_reason :: "stream_reset_reason \<Rightarrow> reset_reason" where
  "asgi_reset_reason LocalReset = Local"
| "asgi_reset_reason LocalRefusedStreamReset = Local"
| "asgi_reset_reason RemoteReset = Remote"
| "asgi_reset_reason RemoteRefusedStreamReset = Remote"
| "asgi_reset_reason ProtocolError = Protocol"
| "asgi_reset_reason ConnectionFailure = Connection"
| "asgi_reset_reason ConnectionTermination = Connection"
| "asgi_reset_reason OverflowReset = Overflow"

definition asgi_stream_reset :: "u64 \<Rightarrow> stream_reset_reason \<Rightarrow> asgi_upstream \<Rightarrow> asgi_upstream" where
  "asgi_stream_reset h reason u =
     (case map_of (up_streams u) h of
        None \<Rightarrow> u
      | Some st \<Rightarrow>
          (let u = u\<lparr>up_streams := AList.delete h (up_streams u)\<rparr>;
               reason = asgi_reset_reason reason;
               u = (case us_future st of
                      Some f \<Rightarrow> up_dispatch (SetFutureException f reason (us_content st) (us_request st)) u
                    | None \<Rightarrow> u)
           in case content_reset reason (up_contents u ! us_content st) of
                (pending, c) \<Rightarrow> notify_if pending (us_content st) (set_content (us_content st) c u)))"

text \<open>\<open>reset_http_stream\<close> re-enters \<open>on_http_stream_reset\<close> when Envoy resets at once.\<close>

definition asgi_reset_http_stream :: "envoy_api \<Rightarrow> u64 \<Rightarrow> asgi_upstream \<Rightarrow> asgi_upstream" where
  "asgi_reset_http_stream api h u =
     (let u = up_call (ResetHttpStream h) u in
      case reset_reenters api (up_calls u) of
        Some reason \<Rightarrow> asgi_stream_reset h reason u
      | None \<Rightarrow> u)"

fun asgi_headers_loop :: "envoy_api \<Rightarrow> headers \<Rightarrow> bytes \<Rightarrow> headers \<Rightarrow> bytes \<times> headers" where
  "asgi_headers_loop api [] status acc = (status, acc)"
| "asgi_headers_loop api ((k, v) # hs) status acc =
     (if k = '':status'' then
        asgi_headers_loop api hs (case status_from_bytes api v of Some st \<Rightarrow> st | None \<Rightarrow> ''500'') acc
      else (case (name_from_bytes api k, value_from_bytes api v) of
              (Some n, Some v) \<Rightarrow> asgi_headers_loop api hs status (acc @ [(n, v)])
            | _ \<Rightarrow> asgi_headers_loop api hs status acc))"

definition asgi_stream_headers :: "envoy_api \<Rightarrow> u64 \<Rightarrow> headers \<Rightarrow> bool \<Rightarrow> asgi_upstream \<Rightarrow> asgi_upstream" where
  "asgi_stream_headers api h hs end_stream u =
     (case map_of (up_streams u) h of
        None \<Rightarrow> asgi_reset_http_stream api h u
      | Some st \<Rightarrow>
          (let u = u\<lparr>up_streams := AList.update h (st\<lparr>us_future := None\<rparr>) (up_streams u)\<rparr> in
           case asgi_headers_loop api hs ''200'' [] of
             (status, headers) \<Rightarrow>
               (case us_future st of
                  None \<Rightarrow> u
                | Some f \<Rightarrow>
                    up_dispatch (ReceivedHeaders status headers f (us_content st) (us_request st) end_stream) u)))"

definition asgi_stream_data :: "u64 \<Rightarrow> bytes list \<Rightarrow> bool \<Rightarrow> asgi_upstream \<Rightarrow> asgi_upstream" where
  "asgi_stream_data h data end_stream u =
     (case map_of (up_streams u) h of
        None \<Rightarrow> u
      | Some st \<Rightarrow>
          (case feed_response_data (concat data) end_stream (up_contents u ! us_content st) of
             (pending, c) \<Rightarrow> notify_if pending (us_content st) (set_content (us_content st) c u)))"

definition asgi_stream_trailers :: "envoy_api \<Rightarrow> u64 \<Rightarrow> headers \<Rightarrow> asgi_upstream \<Rightarrow> asgi_upstream" where
  "asgi_stream_trailers api h ts u =
     (case map_of (up_streams u) h of
        None \<Rightarrow> u
      | Some st \<Rightarrow>
          (case feed_response_trailers api ts (up_contents u ! us_content st) of
             (pending, c) \<Rightarrow> notify_if pending (us_content st) (set_content (us_content st) c u)))"

definition asgi_stream_complete :: "u64 \<Rightarrow> asgi_upstream \<Rightarrow> asgi_upstream" where
  "asgi_stream_complete h u = u\<lparr>up_streams := AList.delete h (up_streams u)\<rparr>"

definition asgi_upstream_headers :: "asgi_start_stream \<Rightarrow> headers" where
  "asgi_upstream_headers ev =
     sv_headers ev
     @ [('':method'', sv_method ev), ('':path'', url_path (sv_url ev)),
        ('':scheme'', url_scheme (sv_url ev)), ('':authority'', url_authority (sv_url ev))]
     @ (case sv_body ev of
          Buffered body \<Rightarrow>
            if list_ex (\<lambda>(k, v). k = ''content-length'') (sv_headers ev) then []
            else [(''content-length'', decimal (length body))]
        | FromIter q \<Rightarrow> [])"

fun asgi_transport_step :: "envoy_api \<Rightarrow> asgi_transport_event \<Rightarrow> asgi_upstream \<Rightarrow> asgi_upstream" where
  "asgi_transport_step api (AsgiStart ev) u =
     (let (body, end_stream, req) =
            (case sv_body ev of Buffered b \<Rightarrow> (Some b, True, None) | FromIter q \<Rightarrow> (None, False, Some q));
          u = up_call (StartHttpStream (sv_cluster ev) (asgi_upstream_headers ev) body end_stream
                (sv_timeout_ms ev)) u
      in case start_result api (up_calls u) of
           (False, _) \<Rightarrow>
             up_dispatch (SetFutureException (sv_response_future ev) InvalidUpstream (sv_response_content ev) req) u
         | (True, h) \<Rightarrow>
             (let u = (case req of
                         Some q \<Rightarrow> up_dispatch (NotifyRequest q)
                           (u\<lparr>up_requests := (up_requests u)[q := (up_requests u ! q)\<lparr>qc_stream_handle := h\<rparr>]\<rparr>)
                       | None \<Rightarrow> u);
                  i = sv_response_content ev;
                  u = set_content i ((up_contents u ! i)\<lparr>cn_stream_handle := h\<rparr>) u
              in u\<lparr>up_streams := AList.update h
                   \<lparr>us_request = req, us_future = Some (sv_response_future ev), us_content = i\<rparr> (up_streams u)\<rparr>))"
| "asgi_transport_step api (AsgiSendData h data end_stream) u =
     (if map_of (up_streams u) h \<noteq> None then up_call (SendHttpStreamData h data end_stream) u else u)"
| "asgi_transport_step api (AsgiReset h exception) u =
     (case map_of (up_streams u) h of
        None \<Rightarrow> u
      | Some st \<Rightarrow>
          asgi_reset_http_stream api h
            (case exception of
               Some e \<Rightarrow> set_content (us_content st) (content_set_exception e (up_contents u ! us_content st)) u
             | None \<Rightarrow> u))"

definition asgi_transport_events :: "envoy_api \<Rightarrow> asgi_upstream \<Rightarrow> asgi_upstream" where
  "asgi_transport_events api u =
     (case up_bridge u of
        None \<Rightarrow> u
      | Some b \<Rightarrow>
          (case bridge_process b of
             (events, b) \<Rightarrow> fold (asgi_transport_step api) events (u\<lparr>up_bridge := Some b\<rparr>)))"

text \<open>
  The upstream half of \<open>on_stream_complete\<close>: every live stream fails its response future, or the
  read of its content. The bridge stays open.
\<close>

definition asgi_release_stream :: "asgi_stream \<Rightarrow> asgi_upstream \<Rightarrow> asgi_upstream" where
  "asgi_release_stream st u =
     (case us_future st of
        Some f \<Rightarrow> up_dispatch (SetFutureException f ServerRequestDone (us_content st) (us_request st)) u
      | None \<Rightarrow>
          (case content_reset ServerRequestDone (up_contents u ! us_content st) of
             (pending, c) \<Rightarrow> notify_if pending (us_content st) (set_content (us_content st) c u)))"

definition asgi_release_streams :: "asgi_upstream \<Rightarrow> asgi_upstream" where
  "asgi_release_streams u =
     fold (\<lambda>(h, st). asgi_release_stream st) (up_streams u) (u\<lparr>up_streams := []\<rparr>)"

end
