(* ===== verification/Asgi_Client.thy ===== *)
theory Asgi_Client
  imports Asgi_Transport "HOL-Library.Multiset"
begin

text \<open>
  The HTTP client of theory \<open>Asgi_Transport\<close> as a whole: the application, the event loop and
  Envoy's callbacks in any interleaving, and what holds of every such run.
\<close>

section \<open>The client and the filter together\<close>

text \<open>
  Any interleaving of the application (its requests, reads, closes, cancellations and the
  forwarding of its bodies), the event loop (which runs the dispatched tasks in order), and
  Envoy's callbacks. An operation on an object that does not exist does nothing, and Envoy
  reports a stream as complete only after its response headers.
\<close>

datatype up_op =
    UpExecute bytes nat "bytes \<Rightarrow> pyerr + pyval"
  | UpAnext nat | UpAclose nat | UpForward nat forwarded | UpCancel nat
  | UpRunTask
  | UpProcess | UpHeaders u64 headers bool | UpData u64 "bytes list" bool | UpTrailers u64 headers
  | UpReset u64 stream_reset_reason | UpComplete u64 | UpDownComplete

fun up_exec :: "http_client_api \<Rightarrow> envoy_api \<Rightarrow> up_op \<Rightarrow> asgi_upstream \<Rightarrow> asgi_upstream" where
  "up_exec capi eapi (UpExecute cluster timeout_ms attr) u =
     snd (asgi_execute capi (up_bridge u \<noteq> None) True cluster timeout_ms attr u)"
| "up_exec capi eapi (UpAnext i) u =
     (if i < length (up_contents u) then snd (content_anext capi i u) else u)"
| "up_exec capi eapi (UpAclose i) u =
     (if i < length (up_contents u) then snd (content_aclose i u) else u)"
| "up_exec capi eapi (UpForward q data) u =
     (if q < length (up_requests u) \<and> qc_task (up_requests u ! q) then
        (case forwarder_call (qc_stream_handle (up_requests u ! q)) data u of
           Ret (_, u) \<Rightarrow> u | Panic \<Rightarrow> u)
      else u)"
| "up_exec capi eapi (UpCancel f) u =
     (if f < length (up_futures u) \<and> up_futures u ! f = FutPending
      then u\<lparr>up_futures := (up_futures u)[f := FutCancelled]\<rparr> else u)"
| "up_exec capi eapi UpRunTask u =
     (case up_tasks u of [] \<Rightarrow> u | t # ts \<Rightarrow> snd (run_task capi t (u\<lparr>up_tasks := ts\<rparr>)))"
| "up_exec capi eapi UpProcess u = asgi_transport_events eapi u"
| "up_exec capi eapi (UpHeaders h hs end_stream) u = asgi_stream_headers eapi h hs end_stream u"
| "up_exec capi eapi (UpData h data end_stream) u = asgi_stream_data h data end_stream u"
| "up_exec capi eapi (UpTrailers h ts) u = asgi_stream_trailers eapi h ts u"
| "up_exec capi eapi (UpReset h reason) u = asgi_stream_reset h reason u"
| "up_exec capi eapi (UpComplete h) u =
     (case map_of (up_streams u) h of
        Some st \<Rightarrow> if us_future st = None then asgi_stream_complete h u else u
      | None \<Rightarrow> asgi_stream_complete h u)"
| "up_exec capi eapi UpDownComplete u = asgi_release_streams u"

text \<open>History: the response futures handed to the application, and per response the bytes Envoy
  delivered and the bytes the application's reads returned.\<close>

record up_sys =
  ys_up :: asgi_upstream
  ys_asked :: "nat list"
  ys_fed :: "nat \<Rightarrow> bytes"
  ys_read :: "nat \<Rightarrow> bytes"

definition op_asked :: "http_client_api \<Rightarrow> up_op \<Rightarrow> asgi_upstream \<Rightarrow> nat list" where
  "op_asked capi op u =
     (case op of
        UpExecute cluster timeout_ms attr \<Rightarrow>
          (case fst (asgi_execute capi (up_bridge u \<noteq> None) True cluster timeout_ms attr u) of
             Inr f \<Rightarrow> [f] | Inl e \<Rightarrow> [])
      | _ \<Rightarrow> [])"

definition op_fed :: "up_op \<Rightarrow> asgi_upstream \<Rightarrow> nat \<Rightarrow> bytes" where
  "op_fed op u i =
     (case op of
        UpData h data end_stream \<Rightarrow>
          (case map_of (up_streams u) h of
             Some st \<Rightarrow> if us_content st = i then concat data else [] | None \<Rightarrow> [])
      | _ \<Rightarrow> [])"

fun returned_bytes :: "pyerr + returned \<Rightarrow> bytes" where
  "returned_bytes (Inr (Awaits (ValueAwaitable (Some (PyBytes b))))) = b"
| "returned_bytes _ = []"

fun future_bytes :: "future_state \<Rightarrow> bytes" where
  "future_bytes (FutDone (ChunkOut b)) = b"
| "future_bytes _ = []"

definition op_read :: "http_client_api \<Rightarrow> up_op \<Rightarrow> asgi_upstream \<Rightarrow> nat \<Rightarrow> bytes" where
  "op_read capi op u i =
     (case op of
        UpAnext j \<Rightarrow>
          if j = i \<and> i < length (up_contents u) then returned_bytes (fst (content_anext capi i u)) else []
      | UpRunTask \<Rightarrow>
          (case up_tasks u of
             NotifyResponse j # ts \<Rightarrow>
               if j = i then
                 (case cn_pending (up_contents u ! i) of
                    Some f \<Rightarrow>
                      if up_futures u ! f = FutPending
                      then future_bytes (up_futures (snd (content_notify capi i (u\<lparr>up_tasks := ts\<rparr>))) ! f)
                      else []
                  | None \<Rightarrow> [])
               else []
           | _ \<Rightarrow> [])
      | _ \<Rightarrow> [])"

definition sys_exec :: "http_client_api \<Rightarrow> envoy_api \<Rightarrow> up_op \<Rightarrow> up_sys \<Rightarrow> up_sys" where
  "sys_exec capi eapi op y =
     (let u = ys_up y in
      \<lparr>ys_up = up_exec capi eapi op u, ys_asked = ys_asked y @ op_asked capi op u,
       ys_fed = (\<lambda>i. ys_fed y i @ op_fed op u i), ys_read = (\<lambda>i. ys_read y i @ op_read capi op u i)\<rparr>)"

definition sys_new :: up_sys where
  "sys_new = \<lparr>ys_up = upstream_new True, ys_asked = [], ys_fed = (\<lambda>_. []), ys_read = (\<lambda>_. [])\<rparr>"

section \<open>Who holds a response future\<close>

fun task_futures :: "upstream_task \<Rightarrow> nat list" where
  "task_futures (ReceivedHeaders status hs f i req e) = [f]"
| "task_futures (SetFutureException f reason i req) = [f]"
| "task_futures _ = []"

fun event_futures :: "asgi_transport_event \<Rightarrow> nat list" where
  "event_futures (AsgiStart ev) = [sv_response_future ev]"
| "event_futures _ = []"

definition stream_futures :: "u64 \<times> asgi_stream \<Rightarrow> nat list" where
  "stream_futures hst = (case us_future (snd hst) of Some f \<Rightarrow> [f] | None \<Rightarrow> [])"

definition bridge_events :: "asgi_upstream \<Rightarrow> asgi_transport_event list" where
  "bridge_events u = (case up_bridge u of Some b \<Rightarrow> bridge_content b | None \<Rightarrow> [])"

text \<open>The futures of the events \<open>es\<close>, of the live streams and of the dispatched tasks.\<close>

definition streams_held :: "(u64 \<times> asgi_stream) list \<Rightarrow> nat multiset" where
  "streams_held ss = mset (concat (map stream_futures ss))"

definition held :: "asgi_transport_event list \<Rightarrow> asgi_upstream \<Rightarrow> nat multiset" where
  "held es u = mset (concat (map event_futures es)) + streams_held (up_streams u)
     + mset (concat (map task_futures (up_tasks u)))"

fun task_contents :: "upstream_task \<Rightarrow> nat list" where
  "task_contents (ReceivedHeaders status hs f i req e) = [i]"
| "task_contents (SetFutureException f reason i req) = [i]"
| "task_contents (NotifyRequest q) = []"
| "task_contents (NotifyResponse i) = [i]"

fun event_contents :: "asgi_transport_event \<Rightarrow> nat list" where
  "event_contents (AsgiStart ev) = [sv_response_content ev]"
| "event_contents _ = []"

definition named_contents :: "asgi_transport_event list \<Rightarrow> asgi_upstream \<Rightarrow> nat set" where
  "named_contents es u = set (concat (map event_contents es)) \<union> us_content ` snd ` set (up_streams u)
     \<union> set (concat (map task_contents (up_tasks u)))"

text \<open>A read that has something to deliver has its notification under way.\<close>

definition awake :: "nat \<Rightarrow> asgi_upstream \<Rightarrow> bool" where
  "awake i u \<longleftrightarrow>
     (cn_pending (up_contents u ! i) \<noteq> None
        \<and> (cn_body (up_contents u ! i) \<noteq> [] \<or> cn_end_stream (up_contents u ! i))
      \<longrightarrow> NotifyResponse i \<in> set (up_tasks u))"

definition up_inv :: "asgi_transport_event list \<Rightarrow> asgi_upstream \<Rightarrow> bool" where
  "up_inv es u \<longleftrightarrow>
     (\<forall>i \<in> named_contents es u. i < length (up_contents u))
     \<and> distinct (map fst (up_streams u))
     \<and> (\<forall>f. count (held es u) f \<le> 1)
     \<and> (\<forall>f \<in># held es u. f < length (up_futures u) \<and> (\<forall>r. up_futures u ! f \<noteq> FutDone r))
     \<and> (\<forall>i < length (up_contents u). \<forall>f. cn_pending (up_contents u ! i) = Some f
          \<longrightarrow> f < length (up_futures u) \<and> f \<notin># held es u)
     \<and> (\<forall>i < length (up_contents u). awake i u)
     \<and> (\<exists>b. up_bridge u = Some b \<and> b \<noteq> Closed \<and> bridge_wf b)"

lemma up_invI:
  assumes "\<And>i. i \<in> named_contents es u \<Longrightarrow> i < length (up_contents u)"
    and "distinct (map fst (up_streams u))"
    and "\<And>f. count (held es u) f \<le> 1"
    and "\<And>f. f \<in># held es u \<Longrightarrow> f < length (up_futures u)"
    and "\<And>f r. f \<in># held es u \<Longrightarrow> up_futures u ! f = FutDone r \<Longrightarrow> False"
    and "\<And>i f. i < length (up_contents u) \<Longrightarrow> cn_pending (up_contents u ! i) = Some f \<Longrightarrow> f < length (up_futures u)"
    and "\<And>i f. i < length (up_contents u) \<Longrightarrow> cn_pending (up_contents u ! i) = Some f \<Longrightarrow> f \<in># held es u \<Longrightarrow> False"
    and "\<And>i. i < length (up_contents u) \<Longrightarrow> awake i u"
    and "\<exists>b. up_bridge u = Some b \<and> b \<noteq> Closed \<and> bridge_wf b"
  shows "up_inv es u"
  unfolding up_inv_def by (intro conjI ballI allI impI) (use assms in blast)+

lemma up_invD:
  assumes "up_inv es u"
  shows "i \<in> named_contents es u \<Longrightarrow> i < length (up_contents u)"
    and "distinct (map fst (up_streams u))"
    and "count (held es u) f \<le> 1"
    and "f \<in># held es u \<Longrightarrow> f < length (up_futures u)"
    and "f \<in># held es u \<Longrightarrow> up_futures u ! f \<noteq> FutDone r"
    and "i < length (up_contents u) \<Longrightarrow> cn_pending (up_contents u ! i) = Some f \<Longrightarrow> f < length (up_futures u)"
    and "i < length (up_contents u) \<Longrightarrow> cn_pending (up_contents u ! i) = Some f \<Longrightarrow> f \<notin># held es u"
    and "i < length (up_contents u) \<Longrightarrow> awake i u"
    and "\<exists>b. up_bridge u = Some b \<and> b \<noteq> Closed \<and> bridge_wf b"
  using assms unfolding up_inv_def by blast+

section \<open>Basic facts\<close>

lemma map_of_delete_streams:
  assumes "distinct (map fst l)" and "map_of l h = Some st"
  shows "mset l = add_mset (h, st) (mset (AList.delete h l))"
  using assms
proof (induction l)
  case (Cons x l)
  obtain k v where x: "x = (k, v)" by (cases x)
  show ?case
  proof (cases "k = h")
    case True
    with Cons.prems x have "v = st" "h \<notin> fst ` set l" by auto
    with x True show ?thesis by simp
  qed (use Cons x in simp)
qed simp

lemma mset_update_streams:
  assumes "distinct (map fst l)"
  shows "mset (AList.update h st l) = add_mset (h, st) (mset (AList.delete h l))"
  using assms
proof (induction l)
  case (Cons x l)
  obtain k v where x: "x = (k, v)" by (cases x)
  show ?case
  proof (cases "k = h")
    case True
    with Cons.prems x have "h \<notin> fst ` set l" by auto
    with x True show ?thesis by simp
  qed (use Cons x in simp)
qed simp

lemma streams_held_mset: "streams_held ss = (\<Sum>x \<in># mset ss. mset (stream_futures x))"
  by (induction ss) (simp_all add: streams_held_def)

lemma streams_held_delete:
  "distinct (map fst l) \<Longrightarrow> map_of l h = Some st \<Longrightarrow>
     streams_held l = mset (stream_futures (h, st)) + streams_held (AList.delete h l)"
  by (simp add: streams_held_mset map_of_delete_streams)

lemma streams_held_update:
  "distinct (map fst l) \<Longrightarrow>
     streams_held (AList.update h st l) = mset (stream_futures (h, st)) + streams_held (AList.delete h l)"
  by (simp add: streams_held_mset mset_update_streams)

lemma streams_held_delete_le: "streams_held (AList.delete h l) \<subseteq># streams_held l"
  by (induction l) (auto simp: streams_held_def subset_mset.add_increasing)

lemma set_update_streams: "set (AList.update h st l) \<subseteq> insert (h, st) (set l)"
  by (induction l) auto

lemma update_same: "map_of l h = Some st \<Longrightarrow> AList.update h st l = l"
  by (induction l) (auto split: if_splits)

lemma up_simps [simp]:
  "up_contents (up_dispatch t u) = up_contents u" "up_futures (up_dispatch t u) = up_futures u"
  "up_streams (up_dispatch t u) = up_streams u" "up_bridge (up_dispatch t u) = up_bridge u"
  "up_tasks (up_dispatch t u) = up_tasks u @ [t]" "up_calls (up_dispatch t u) = up_calls u"
  "up_contents (up_call c u) = up_contents u" "up_futures (up_call c u) = up_futures u"
  "up_streams (up_call c u) = up_streams u" "up_bridge (up_call c u) = up_bridge u"
  "up_tasks (up_call c u) = up_tasks u" "up_calls (up_call c u) = up_calls u @ [c]"
  "up_contents (set_content i x u) = (up_contents u)[i := x]" "up_futures (set_content i x u) = up_futures u"
  "up_streams (set_content i x u) = up_streams u" "up_bridge (set_content i x u) = up_bridge u"
  "up_tasks (set_content i x u) = up_tasks u" "up_calls (set_content i x u) = up_calls u"
  "up_contents (cancel_forwarding q u) = up_contents u" "up_futures (cancel_forwarding q u) = up_futures u"
  "up_streams (cancel_forwarding q u) = up_streams u" "up_bridge (cancel_forwarding q u) = up_bridge u"
  "up_tasks (cancel_forwarding q u) = up_tasks u" "up_calls (cancel_forwarding q u) = up_calls u"
  by (simp_all add: up_dispatch_def up_call_def set_content_def cancel_forwarding_def split: option.split)

section \<open>Small steps keep the invariant\<close>

lemma named_simps [simp]:
  "named_contents es (set_content i x u) = named_contents es u"
  "named_contents es (up_call c u) = named_contents es u"
  "named_contents es (up_dispatch t u) = named_contents es u \<union> set (task_contents t)"
  "named_contents es (cancel_forwarding q u) = named_contents es u"
  by (auto simp: named_contents_def)

lemma held_simps [simp]:
  "held es (set_content i x u) = held es u"
  "held es (up_call c u) = held es u"
  "held es (up_dispatch t u) = held es u + mset (task_futures t)"
  "held es (cancel_forwarding q u) = held es u"
  by (simp_all add: held_def)

lemma awake_simps [simp]:
  "awake i (up_call c u) = awake i u" "awake i (cancel_forwarding q u) = awake i u"
  by (simp_all add: awake_def)

lemma awake_dispatch: "awake i u \<Longrightarrow> awake i (up_dispatch t u)"
  by (auto simp: awake_def)

lemma up_inv_call [pres]: "up_inv es u \<Longrightarrow> up_inv es (up_call c u)"
  by (simp add: up_inv_def)

lemma up_inv_cancel_forwarding [pres]: "up_inv es u \<Longrightarrow> up_inv es (cancel_forwarding q u)"
  by (simp add: up_inv_def)

lemma up_inv_dispatch:
  assumes "up_inv es u" and "task_futures t = []" and "\<forall>i \<in> set (task_contents t). i < length (up_contents u)"
  shows "up_inv es (up_dispatch t u)"
  by (rule up_invI) (use assms up_invD [OF assms(1)] in \<open>auto intro: awake_dispatch\<close>)

lemma up_inv_set_content:
  assumes "up_inv es u" and "cn_pending c = cn_pending (up_contents u ! i)"
    and "i < length (up_contents u) \<Longrightarrow> awake i (set_content i c u)"
  shows "up_inv es (set_content i c u)"
proof (rule up_invI)
  fix j
  assume "j < length (up_contents (set_content i c u))"
  with up_invD(8) [OF assms(1), of j] assms(3) show "awake j (set_content i c u)"
    by (cases "j = i") (auto simp: awake_def)
next
  fix j f
  assume j: "j < length (up_contents (set_content i c u))" "cn_pending (up_contents (set_content i c u) ! j) = Some f"
  with assms(2) have "j < length (up_contents u)" "cn_pending (up_contents u ! j) = Some f"
    by (cases "j = i"; simp)+
  then show "f < length (up_futures (set_content i c u))"
    and "f \<in># held es (set_content i c u) \<Longrightarrow> False"
    using up_invD(6,7) [OF assms(1)] by auto
qed (use up_invD [OF assms(1)] in auto)

lemma up_inv_feed:
  assumes "up_inv es u" and "cn_pending c = cn_pending (up_contents u ! i)" and "i < length (up_contents u)"
  shows "up_inv es (notify_if (cn_pending (up_contents u ! i) \<noteq> None) i (set_content i c u))"
proof (cases "cn_pending (up_contents u ! i)")
  case None
  with assms show ?thesis by (auto simp: notify_if_def awake_def intro: up_inv_set_content)
next
  case (Some f)
  have "up_inv es (up_dispatch (NotifyResponse i) u)"
    using assms by (auto intro: up_inv_dispatch)
  then have "up_inv es (set_content i c (up_dispatch (NotifyResponse i) u))"
    by (rule up_inv_set_content) (simp_all add: assms awake_def)
  moreover have "set_content i c (up_dispatch (NotifyResponse i) u) = up_dispatch (NotifyResponse i) (set_content i c u)"
    by (simp add: set_content_def up_dispatch_def)
  ultimately show ?thesis using Some by (simp add: notify_if_def)
qed

text \<open>Moving or dropping holders, with the contents, the futures and the bridge as they were.\<close>

lemma up_inv_move:
  assumes inv: "up_inv es u"
    and same: "up_contents v = up_contents u" "up_futures v = up_futures u" "up_bridge v = up_bridge u"
    and held: "held es' v \<subseteq># held es u" and named: "named_contents es' v \<subseteq> named_contents es u"
    and keys: "distinct (map fst (up_streams v))"
    and tasks: "\<And>i. NotifyResponse i \<in> set (up_tasks u) \<Longrightarrow> NotifyResponse i \<in> set (up_tasks v)"
  shows "up_inv es' v"
proof (rule up_invI)
  fix f
  show "count (held es' v) f \<le> 1"
    using mset_subset_eq_count [OF held, of f] up_invD(3) [OF inv, of f] by linarith
  assume "f \<in># held es' v"
  then have f: "f \<in># held es u" using held by (rule mset_subset_eqD [rotated])
  then show "f < length (up_futures v)" using up_invD(4) [OF inv] same by simp
  show "False" if "up_futures v ! f = FutDone r" for r
    using f that up_invD(5) [OF inv, of f r] same by simp
  show "False" if "i < length (up_contents v)" "cn_pending (up_contents v ! i) = Some f" for i
    using f that up_invD(7) [OF inv, of i f] same by simp
next
  fix i assume "i < length (up_contents v)"
  then show "awake i v" using up_invD(8) [OF inv, of i] tasks same by (auto simp: awake_def)
qed (use up_invD(1,6,9) [OF inv] named keys same in auto)

lemma up_inv_delete [pres]:
  assumes "up_inv es u"
  shows "up_inv es (u\<lparr>up_streams := AList.delete h (up_streams u)\<rparr>)"
  using assms
proof (rule up_inv_move)
  show "held es (u\<lparr>up_streams := AList.delete h (up_streams u)\<rparr>) \<subseteq># held es u"
    by (simp add: held_def streams_held_delete_le)
  show "named_contents es (u\<lparr>up_streams := AList.delete h (up_streams u)\<rparr>) \<subseteq> named_contents es u"
    by (auto simp: named_contents_def AList.delete_eq)
qed (use up_invD(2) [OF assms] in \<open>simp_all add: distinct_delete\<close>)

text \<open>The future of a live stream moves to a task, with the stream removed or kept.\<close>

lemma up_inv_future_to_task:
  assumes inv: "up_inv es u" and st: "map_of (up_streams u) h = Some st" "us_future st = Some f"
    and t: "task_futures t = [f]" "task_contents t = [us_content st]"
  shows "up_inv es (up_dispatch t (u\<lparr>up_streams := AList.delete h (up_streams u)\<rparr>))"
    and "up_inv es (up_dispatch t (u\<lparr>up_streams := AList.update h (st\<lparr>us_future := None\<rparr>) (up_streams u)\<rparr>))"
proof -
  have keys: "distinct (map fst (up_streams u))" by (rule up_invD(2) [OF inv])
  have streams: "streams_held (up_streams u) = {#f#} + streams_held (AList.delete h (up_streams u))"
    using streams_held_delete [OF keys st(1)] st(2) by (simp add: stream_futures_def)
  have i: "us_content st \<in> us_content ` snd ` set (up_streams u)"
    using map_of_SomeD [OF st(1)] by force
  from inv show "up_inv es (up_dispatch t (u\<lparr>up_streams := AList.delete h (up_streams u)\<rparr>))"
  proof (rule up_inv_move)
    show "held es (up_dispatch t (u\<lparr>up_streams := AList.delete h (up_streams u)\<rparr>)) \<subseteq># held es u"
      by (simp add: held_def streams t)
    show "named_contents es (up_dispatch t (u\<lparr>up_streams := AList.delete h (up_streams u)\<rparr>)) \<subseteq> named_contents es u"
      using i by (auto simp: named_contents_def t AList.delete_eq)
  qed (use keys in \<open>simp_all add: distinct_delete\<close>)
  from inv show "up_inv es (up_dispatch t (u\<lparr>up_streams := AList.update h (st\<lparr>us_future := None\<rparr>) (up_streams u)\<rparr>))"
  proof (rule up_inv_move)
    show "held es (up_dispatch t (u\<lparr>up_streams := AList.update h (st\<lparr>us_future := None\<rparr>) (up_streams u)\<rparr>)) \<subseteq># held es u"
      by (simp add: held_def streams t streams_held_update keys stream_futures_def)
    show "named_contents es (up_dispatch t (u\<lparr>up_streams := AList.update h (st\<lparr>us_future := None\<rparr>) (up_streams u)\<rparr>))
        \<subseteq> named_contents es u"
    proof -
      have "us_content ` snd ` set (AList.update h (st\<lparr>us_future := None\<rparr>) (up_streams u))
          \<subseteq> us_content ` snd ` insert (h, st\<lparr>us_future := None\<rparr>) (set (up_streams u))"
        by (intro image_mono set_update_streams)
      with i have "us_content ` snd ` set (AList.update h (st\<lparr>us_future := None\<rparr>) (up_streams u))
          \<subseteq> us_content ` snd ` set (up_streams u)" by (simp add: insert_absorb)
      with i show ?thesis by (simp add: named_contents_def t) blast
    qed
  qed (use keys in \<open>simp_all add: distinct_update\<close>)
qed

section \<open>Envoy's callbacks keep the invariant\<close>

lemma stream_content:
  assumes "up_inv es u" and "map_of (up_streams u) h = Some st"
  shows "us_content st < length (up_contents u)"
  using up_invD(1) [OF assms(1), of "us_content st"] map_of_SomeD [OF assms(2)]
  by (force simp: named_contents_def)

lemma content_reset_eq:
  "content_reset reason c = (cn_pending c \<noteq> None, c\<lparr>cn_end_stream := True, cn_reset := Some reason\<rparr>)"
  by (simp add: content_reset_def)

lemma up_inv_reset_content:
  assumes "up_inv es u" and "i < length (up_contents u)"
  shows "up_inv es (case content_reset reason (up_contents u ! i) of
           (pending, c) \<Rightarrow> notify_if pending i (set_content i c u))"
  using up_inv_feed [OF assms(1) _ assms(2), of "(up_contents u ! i)\<lparr>cn_end_stream := True, cn_reset := Some reason\<rparr>"]
  by (simp add: content_reset_eq)

lemma stream_reset_inv [pres]:
  assumes "up_inv es u" shows "up_inv es (asgi_stream_reset h reason u)"
proof (cases "map_of (up_streams u) h")
  case None
  with assms show ?thesis by (simp add: asgi_stream_reset_def)
next
  case (Some st)
  let ?u = "u\<lparr>up_streams := AList.delete h (up_streams u)\<rparr>"
  let ?v = "case us_future st of
      Some f \<Rightarrow> up_dispatch (SetFutureException f (asgi_reset_reason reason) (us_content st) (us_request st)) ?u
    | None \<Rightarrow> ?u"
  have "up_inv es ?v"
    using up_inv_delete [OF assms] up_inv_future_to_task(1) [OF assms Some]
    by (auto split: option.split)
  moreover have "up_contents ?v = up_contents u" by (simp split: option.split)
  ultimately show ?thesis
    using up_inv_reset_content [of es ?v "us_content st" "asgi_reset_reason reason"] stream_content [OF assms Some]
    by (simp add: asgi_stream_reset_def Some Let_def)
qed

lemma reset_call_inv [pres]:
  "up_inv es u \<Longrightarrow> up_inv es (asgi_reset_http_stream api h u)"
  by (auto simp: asgi_reset_http_stream_def Let_def intro: up_inv_call stream_reset_inv split: option.split)

lemma up_stream_headers_inv [pres]:
  assumes "up_inv es u" shows "up_inv es (asgi_stream_headers api h hs e u)"
proof (cases "map_of (up_streams u) h")
  case None
  with assms show ?thesis by (simp add: asgi_stream_headers_def reset_call_inv)
next
  case (Some st)
  show ?thesis
  proof (cases "us_future st")
    case None
    have "AList.update h st (up_streams u) = up_streams u"
      using Some by (rule update_same)
    with None Some assms show ?thesis
      by (cases st) (auto simp: asgi_stream_headers_def Let_def split: prod.split)
  next
    case f: (Some f)
    with up_inv_future_to_task(2) [OF assms Some f] Some show ?thesis
      by (auto simp: asgi_stream_headers_def Let_def split: prod.split)
  qed
qed

lemma up_stream_data_inv [pres]:
  assumes "up_inv es u" shows "up_inv es (asgi_stream_data h data e u)"
  using assms up_inv_feed [OF assms] stream_content [OF assms]
  by (auto simp: asgi_stream_data_def feed_response_data_def split: option.split)

lemma stream_trailers_inv [pres]:
  assumes "up_inv es u" shows "up_inv es (asgi_stream_trailers api h ts u)"
  using assms up_inv_feed [OF assms] stream_content [OF assms]
  by (auto simp: asgi_stream_trailers_def feed_response_trailers_def split: option.split)

lemma up_stream_complete_inv [pres]:
  "up_inv es u \<Longrightarrow> up_inv es (asgi_stream_complete h u)"
  by (simp add: asgi_stream_complete_def up_inv_delete)

text \<open>Processing the events of the bridge: \<open>es\<close> are those not processed yet.\<close>

lemma up_inv_requests [simp]:
  "up_inv es (u\<lparr>up_requests := qs\<rparr>) = up_inv es u" "up_inv es (u\<lparr>up_commits := n\<rparr>) = up_inv es u"
  "up_inv es (u\<lparr>up_cancelled := cs\<rparr>) = up_inv es u"
  by (simp_all add: up_inv_def held_def named_contents_def awake_def)

lemma start_future_to_task:
  assumes inv: "up_inv (AsgiStart ev # es) u" and t: "task_futures t = [sv_response_future ev]"
    "task_contents t = [sv_response_content ev]"
  shows "up_inv es (up_dispatch t u)"
  using inv
proof (rule up_inv_move)
  show "held es (up_dispatch t u) \<subseteq># held (AsgiStart ev # es) u" by (simp add: held_def t)
qed (use up_invD(2) [OF inv] in \<open>auto simp: named_contents_def t\<close>)

lemma start_future_to_stream:
  assumes inv: "up_inv (AsgiStart ev # es) u" and st: "us_future st = Some (sv_response_future ev)"
    "us_content st = sv_response_content ev"
  shows "up_inv es (u\<lparr>up_streams := AList.update h st (up_streams u)\<rparr>)"
  using inv
proof (rule up_inv_move)
  have keys: "distinct (map fst (up_streams u))" by (rule up_invD(2) [OF inv])
  show "held es (u\<lparr>up_streams := AList.update h st (up_streams u)\<rparr>) \<subseteq># held (AsgiStart ev # es) u"
    using streams_held_delete_le [of h "up_streams u"]
    by (simp add: held_def streams_held_update keys stream_futures_def st subset_mset.add_right_mono)
  show "distinct (map fst (up_streams (u\<lparr>up_streams := AList.update h st (up_streams u)\<rparr>)))"
    using keys by (simp add: distinct_update)
  have mono: "X \<subseteq> insert i Y \<Longrightarrow> A \<union> X \<union> B \<subseteq> insert i (A \<union> Y \<union> B)" for A B X Y :: "nat set" and i
    by blast
  have "us_content ` snd ` set (AList.update h st (up_streams u))
      \<subseteq> us_content ` snd ` insert (h, st) (set (up_streams u))"
    by (intro image_mono set_update_streams)
  then show "named_contents es (u\<lparr>up_streams := AList.update h st (up_streams u)\<rparr>)
      \<subseteq> named_contents (AsgiStart ev # es) u"
    using st(2) mono by (simp add: named_contents_def)
qed simp_all

lemma up_transport_step_inv [pres]:
  assumes "up_inv (e # es) u" shows "up_inv es (asgi_transport_step api e u)"
proof (cases e)
  case (AsgiStart ev)
  let ?i = "sv_response_content ev"
  obtain body end_stream req where b: "(case sv_body ev of Buffered b \<Rightarrow> (Some b, True, None)
      | FromIter q \<Rightarrow> (None, False, Some q)) = (body, end_stream, req)"
    by (cases "case sv_body ev of Buffered b \<Rightarrow> (Some b, True, None) | FromIter q \<Rightarrow> (None, False, Some q)") auto
  let ?c = "StartHttpStream (sv_cluster ev) (asgi_upstream_headers ev) body end_stream (sv_timeout_ms ev)"
  let ?u = "up_call ?c u"
  have u: "up_inv (AsgiStart ev # es) ?u" using assms AsgiStart by (simp add: up_inv_call)
  obtain ok h where r: "start_result api (up_calls ?u) = (ok, h)" by (cases "start_result api (up_calls ?u)")
  show ?thesis
  proof (cases ok)
    case False
    with start_future_to_task [OF u] AsgiStart b r show ?thesis by (auto simp: Let_def)
  next
    case True
    let ?v = "case req of Some q \<Rightarrow> up_dispatch (NotifyRequest q)
        (?u\<lparr>up_requests := (up_requests ?u)[q := (up_requests ?u ! q)\<lparr>qc_stream_handle := h\<rparr>]\<rparr>) | None \<Rightarrow> ?u"
    have v: "up_inv (AsgiStart ev # es) ?v"
      using u by (auto intro: up_inv_dispatch split: option.split)
    then have "?i < length (up_contents ?v)"
      by (auto dest!: up_invD(1) [where i = ?i] simp: named_contents_def)
    then have "awake ?i ?v" by (rule up_invD(8) [OF v])
    then have "up_inv (AsgiStart ev # es) (set_content ?i ((up_contents ?v ! ?i)\<lparr>cn_stream_handle := h\<rparr>) ?v)"
      by (intro up_inv_set_content [OF v]) (auto simp: awake_def)
    from start_future_to_stream [OF this, of "\<lparr>us_request = req, us_future = Some (sv_response_future ev), us_content = ?i\<rparr>" h]
    show ?thesis using AsgiStart b r True by (simp add: Let_def)
  qed
next
  case (AsgiSendData h data end_stream)
  with assms have "up_inv es u" by (simp add: up_inv_def held_def named_contents_def)
  with AsgiSendData show ?thesis by (simp add: up_inv_call)
next
  case (AsgiReset h exception)
  with assms have u: "up_inv es u" by (simp add: up_inv_def held_def named_contents_def)
  have "up_inv es (set_content (us_content st) (content_set_exception e (up_contents u ! us_content st)) u)"
    if "map_of (up_streams u) h = Some st" for e st
    using up_invD(8) [OF u stream_content [OF u that]] stream_content [OF u that]
    by (intro up_inv_set_content [OF u]) (auto simp: content_set_exception_def awake_def)
  with u AsgiReset show ?thesis by (auto intro: reset_call_inv split: option.split)
qed

lemma up_transport_steps_inv:
  "up_inv es u \<Longrightarrow> up_inv [] (fold (asgi_transport_step api) es u)"
  by (induction es arbitrary: u) (auto intro: up_transport_step_inv)

definition up_ok :: "asgi_upstream \<Rightarrow> bool" where
  "up_ok u \<longleftrightarrow> up_inv (bridge_events u) u"

lemma up_reset_call_bridge [simp]:
  "up_bridge (asgi_stream_reset h r u) = up_bridge u" "up_bridge (asgi_reset_http_stream api h u) = up_bridge u"
  by (auto simp: asgi_stream_reset_def asgi_reset_http_stream_def notify_if_def Let_def
      split: option.split prod.split)

lemma callback_bridge [simp]:
  "up_bridge (asgi_stream_headers api h hs e u) = up_bridge u"
  "up_bridge (asgi_stream_data h data e u) = up_bridge u"
  "up_bridge (asgi_stream_trailers api h ts u) = up_bridge u"
  "up_bridge (asgi_stream_complete h u) = up_bridge u"
  by (auto simp: asgi_stream_headers_def asgi_stream_data_def asgi_stream_trailers_def
      asgi_stream_complete_def notify_if_def Let_def split: option.split prod.split)

lemma up_transport_step_bridge [simp]: "up_bridge (asgi_transport_step api ev u) = up_bridge u"
  by (cases ev) (auto simp: Let_def split: option.split prod.split bool.split request_source.split)

lemma up_transport_steps_bridge: "up_bridge (fold (asgi_transport_step api) es u) = up_bridge u"
  by (induction es arbitrary: u) simp_all

lemma up_inv_bridge:
  "up_inv es u \<Longrightarrow> b \<noteq> Closed \<Longrightarrow> bridge_wf b \<Longrightarrow> up_inv es (u\<lparr>up_bridge := Some b\<rparr>)"
  by (auto simp: up_inv_def held_def named_contents_def awake_def)

lemma transport_events_ok [pres]:
  assumes "up_ok u" shows "up_ok (asgi_transport_events api u)"
proof -
  obtain b where b: "up_bridge u = Some b" "b \<noteq> Closed"
    using assms up_invD(9) by (fastforce simp: up_ok_def)
  then have p: "bridge_process b = (bridge_content b, Empty)" by (cases b) auto
  have "up_inv (bridge_content b) (u\<lparr>up_bridge := Some Empty\<rparr>)"
    using assms b by (intro up_inv_bridge) (auto simp: up_ok_def bridge_events_def bridge_wf_def)
  from up_transport_steps_inv [OF this] show ?thesis
    by (simp add: up_ok_def asgi_transport_events_def b p bridge_events_def up_transport_steps_bridge)
qed

lemma release_stream_streams:
  "asgi_release_stream st (u\<lparr>up_streams := ss\<rparr>) = (asgi_release_stream st u)\<lparr>up_streams := ss\<rparr>"
  by (simp add: asgi_release_stream_def notify_if_def up_dispatch_def set_content_def content_reset_eq
      split: option.split)

lemma release_stream_inv:
  assumes inv: "up_inv es (u\<lparr>up_streams := (h, st) # ss\<rparr>)"
  shows "up_inv es ((asgi_release_stream st u)\<lparr>up_streams := ss\<rparr>)"
proof -
  let ?w = "u\<lparr>up_streams := (h, st) # ss\<rparr>"
  have st: "map_of (up_streams ?w) h = Some st" by simp
  have "AList.delete h ((h, st) # ss) = ss" using up_invD(2) [OF inv] by auto
  then have del: "up_inv es (u\<lparr>up_streams := ss\<rparr>)" using up_inv_delete [OF inv, of h] by simp
  have "up_inv es (asgi_release_stream st (u\<lparr>up_streams := ss\<rparr>))"
  proof (cases "us_future st")
    case None
    have "us_content st < length (up_contents (u\<lparr>up_streams := ss\<rparr>))"
      using stream_content [OF inv st] by simp
    from up_inv_reset_content [OF del this] None show ?thesis by (simp add: asgi_release_stream_def)
  next
    case (Some f)
    from up_inv_future_to_task(1) [OF inv st Some] Some \<open>AList.delete h ((h, st) # ss) = ss\<close>
    show ?thesis by (simp add: asgi_release_stream_def)
  qed
  then show ?thesis by (simp add: release_stream_streams)
qed

lemma release_streams_inv:
  "up_inv es (u\<lparr>up_streams := ss\<rparr>) \<Longrightarrow>
     up_inv es ((fold (\<lambda>(h, st). asgi_release_stream st) ss u)\<lparr>up_streams := []\<rparr>)"
proof (induction ss arbitrary: u)
  case (Cons x ss)
  obtain h st where x: "x = (h, st)" by (cases x)
  from Cons.IH [OF release_stream_inv] Cons.prems x show ?case by simp
qed simp

lemma release_stream_bridge [simp]:
  "up_bridge (asgi_release_stream st u) = up_bridge u" "up_streams (asgi_release_stream st u) = up_streams u"
  by (auto simp: asgi_release_stream_def notify_if_def split: option.split prod.split)

lemma release_fold_same:
  "up_bridge (fold (\<lambda>(h, st). asgi_release_stream st) ss u) = up_bridge u
   \<and> up_streams (fold (\<lambda>(h, st). asgi_release_stream st) ss u) = up_streams u"
  by (induction ss arbitrary: u) (simp_all add: split_beta)

lemma release_streams_ok [pres]:
  assumes "up_ok u" shows "up_ok (asgi_release_streams u)"
proof -
  let ?v = "asgi_release_streams u"
  have same: "up_bridge ?v = up_bridge u" "up_streams ?v = []"
    by (simp_all add: asgi_release_streams_def release_fold_same)
  have "up_inv (bridge_events u) (?v\<lparr>up_streams := []\<rparr>)"
    unfolding asgi_release_streams_def
    using assms by (intro release_streams_inv) (simp add: up_ok_def)
  moreover have "?v\<lparr>up_streams := []\<rparr> = ?v" using same(2) by (cases "asgi_release_streams u") simp
  ultimately show ?thesis using same by (simp add: up_ok_def bridge_events_def)
qed

section \<open>The application keeps the invariant\<close>

lemma up_inv_new_future:
  assumes "up_inv es u" shows "up_inv es (u\<lparr>up_futures := up_futures u @ [st]\<rparr>)"
proof (rule up_invI)
  fix f
  assume "f \<in># held es (u\<lparr>up_futures := up_futures u @ [st]\<rparr>)"
  then have f: "f \<in># held es u" by (simp add: held_def)
  with up_invD(4,5) [OF assms] show "f < length (up_futures (u\<lparr>up_futures := up_futures u @ [st]\<rparr>))"
    and "up_futures (u\<lparr>up_futures := up_futures u @ [st]\<rparr>) ! f = FutDone r \<Longrightarrow> False" for r
    by (auto simp: nth_append less_SucI)
qed (use up_invD [OF assms] in \<open>auto simp: held_def named_contents_def awake_def less_SucI\<close>)

lemma up_inv_new_content:
  assumes "up_inv es u" shows "up_inv es (u\<lparr>up_contents := up_contents u @ [content_new]\<rparr>)"
proof (rule up_invI)
  let ?v = "u\<lparr>up_contents := up_contents u @ [content_new]\<rparr>"
  fix i
  show "awake i ?v" if "i < length (up_contents ?v)"
    using that up_invD(8) [OF assms, of i]
    by (auto simp: awake_def nth_append content_new_def less_Suc_eq)
  show "f < length (up_futures ?v)" and "f \<in># held es ?v \<Longrightarrow> False"
    if "i < length (up_contents ?v)" "cn_pending (up_contents ?v ! i) = Some f" for f
    using that up_invD(6,7) [OF assms, of i f]
    by (auto simp: nth_append content_new_def held_def less_Suc_eq)
  show "i < length (up_contents ?v)" if "i \<in> named_contents es ?v"
    using that up_invD(1) [OF assms, of i] by (simp add: named_contents_def less_SucI)
qed (use up_invD [OF assms] in \<open>auto simp: held_def\<close>)

lemma up_inv_start:
  assumes inv: "up_inv es u" and f: "sv_response_future ev < length (up_futures u)"
    "sv_response_future ev \<notin># held es u" "\<And>r. up_futures u ! sv_response_future ev \<noteq> FutDone r"
    "\<And>i. i < length (up_contents u) \<Longrightarrow> cn_pending (up_contents u ! i) \<noteq> Some (sv_response_future ev)"
    and i: "sv_response_content ev < length (up_contents u)"
  shows "up_inv (es @ [AsgiStart ev]) u"
proof (rule up_invI)
  have h: "held (es @ [AsgiStart ev]) u = add_mset (sv_response_future ev) (held es u)" by (simp add: held_def)
  fix g
  show "count (held (es @ [AsgiStart ev]) u) g \<le> 1"
    using up_invD(3) [OF inv, of g] f(2) by (auto simp: h count_eq_zero_iff)
  show "g < length (up_futures u)" and "up_futures u ! g = FutDone r \<Longrightarrow> False"
    if "g \<in># held (es @ [AsgiStart ev]) u" for r
    using that f up_invD(4,5) [OF inv] by (auto simp: h)
  show "False" if "j < length (up_contents u)" "cn_pending (up_contents u ! j) = Some g"
      "g \<in># held (es @ [AsgiStart ev]) u" for j
    using that f(4) [of j] up_invD(7) [OF inv, of j g] by (auto simp: h)
  show "g < length (up_contents u)" if "g \<in> named_contents (es @ [AsgiStart ev]) u"
  proof -
    from that have "g = sv_response_content ev \<or> g \<in> named_contents es u"
      by (auto simp: named_contents_def)
    with i up_invD(1) [OF inv] show ?thesis by blast
  qed
qed (use up_invD(2,6,8,9) [OF inv] in auto)

lemma up_offer_eq:
  assumes "up_bridge u = Some b" and "b \<noteq> Closed"
  shows "up_offer e u = u\<lparr>up_bridge := Some (snd (bridge_offer b e)), up_commits := up_commits u + 1\<rparr>"
    and "bridge_content (snd (bridge_offer b e)) = bridge_content b @ [e]"
    and "snd (bridge_offer b e) \<noteq> Closed" and "bridge_wf (snd (bridge_offer b e))"
  using assms by (cases b; simp add: up_offer_def bridge_offer_def bridge_wf_def)+

lemma up_inv_offer:
  assumes "up_ok u" and "up_inv (bridge_events u @ [e]) u"
  shows "up_ok (up_offer e u)"
proof -
  obtain b where b: "up_bridge u = Some b" "b \<noteq> Closed"
    using up_invD(9) [OF assms(2)] by blast
  note o = up_offer_eq [OF b, of e]
  have "up_inv (bridge_events u @ [e]) (u\<lparr>up_bridge := Some (snd (bridge_offer b e))\<rparr>)"
    by (rule up_inv_bridge [OF assms(2) o(3,4)])
  then show ?thesis
    using b by (simp add: up_ok_def o(1,2) bridge_events_def)
qed

lemma up_ok_offer_other:
  assumes "up_ok u" and "event_futures e = []" and "event_contents e = []"
  shows "up_ok (up_offer e u)"
proof (rule up_inv_offer [OF assms(1)])
  show "up_inv (bridge_events u @ [e]) u"
    using assms by (simp add: up_ok_def up_inv_def held_def named_contents_def)
qed

lemma execute_ok [pres]:
  assumes "up_ok u" shows "up_ok (snd (asgi_execute capi isset enabled cluster timeout_ms attr u))"
proof (cases isset)
  case False
  with assms show ?thesis by (simp add: asgi_execute_def)
next
  case True
  let ?f = "length (up_futures u)"
  let ?u1 = "u\<lparr>up_futures := up_futures u @ [FutPending]\<rparr>"
  have u1: "up_inv (bridge_events u) ?u1"
    using assms up_inv_new_future by (simp add: up_ok_def)
  show ?thesis
  proof (cases "asgi_prepare_request capi attr")
    case (Inl e)
    with u1 True show ?thesis
      by (simp add: asgi_execute_def up_create_future_def up_ok_def bridge_events_def)
  next
    case (Inr r)
    obtain m url hs bd where r: "r = (m, url, hs, bd)" by (cases r)
    obtain body qs where bq: "(case extract_bytes capi bd of Inr bs \<Rightarrow> (Buffered bs, ?u1)
        | Inl _ \<Rightarrow> (FromIter (length (up_requests ?u1)), ?u1\<lparr>up_requests := up_requests ?u1 @
            [\<lparr>qc_stream_handle = 0, qc_iter = bd, qc_task = False\<rparr>]\<rparr>)) = (body, ?u1\<lparr>up_requests := qs\<rparr>)"
    proof (cases "extract_bytes capi bd")
      case (Inl e)
      with that show ?thesis by simp
    next
      case (Inr bs)
      have "?u1 = ?u1\<lparr>up_requests := up_requests u\<rparr>" by simp
      with that [of "Buffered bs" "up_requests u"] Inr show ?thesis by simp
    qed
    let ?u2 = "?u1\<lparr>up_requests := qs, up_contents := up_contents u @ [content_new]\<rparr>"
    let ?ev = "\<lparr>sv_method = m, sv_url = url, sv_headers = hs, sv_body = body, sv_cluster = cluster,
        sv_timeout_ms = timeout_ms, sv_response_future = ?f, sv_response_content = length (up_contents u)\<rparr>"
    have u2: "up_inv (bridge_events u) ?u2"
      using up_inv_new_content [of _ "?u1\<lparr>up_requests := qs\<rparr>"] u1 by simp
    have new: "?f \<notin># held (bridge_events u) ?u2"
      using assms up_invD(4) [of "bridge_events u" u ?f] by (auto simp: up_ok_def held_def)
    have "cn_pending (up_contents ?u2 ! i) \<noteq> Some ?f" if "i < length (up_contents ?u2)" for i
      using that assms up_invD(6) [of "bridge_events u" u i ?f]
      by (auto simp: up_ok_def nth_append content_new_def less_Suc_eq)
    with new have "up_inv (bridge_events u @ [AsgiStart ?ev]) ?u2"
      by (intro up_inv_start [OF u2]) auto
    then have "up_ok (up_offer (AsgiStart ?ev) ?u2)"
      using u2 by (intro up_inv_offer) (simp_all add: up_ok_def bridge_events_def)
    with True Inr r bq show ?thesis
      by (simp add: asgi_execute_def up_create_future_def Let_def)
  qed
qed

text \<open>What is relied on of pyqwest: building errors, headers and responses does not fail.\<close>

definition client_ok :: "http_client_api \<Rightarrow> bool" where
  "client_ok capi \<longleftrightarrow> (\<forall>n v. headers_add capi n v = None)
     \<and> (\<forall>m. \<exists>e. read_error_new capi m = Inr e) \<and> (\<forall>s h c. response_new capi s h c = None)"

lemma maybe_copy_same:
  assumes "maybe_copy_trailers capi c = (r, c')"
  shows "cn_pending c' = cn_pending c" "cn_body c' = cn_body c" "cn_end_stream c' = cn_end_stream c"
    "content_error capi c' = content_error capi c"
  using assms
  by (auto simp: maybe_copy_trailers_def content_error_def Let_def split: option.splits prod.splits)

lemma maybe_copy_ok: "client_ok capi \<Longrightarrow> fst (maybe_copy_trailers capi c) = None"
  by (simp add: maybe_copy_trailers_def client_ok_def add_trailers_ok Let_def split: option.split)

lemma reset_reason_ok: "client_ok capi \<Longrightarrow> \<exists>e. asgi_map_reset_reason capi r = Inr e"
  by (cases r) (auto simp: client_ok_def)

lemma content_error_ok:
  assumes "client_ok capi" shows "content_error capi c \<noteq> Some (Inl e)"
  using reset_reason_ok [OF assms, of "the (cn_reset c)"]
  by (auto simp: content_error_def split: option.splits)

lemma up_inv_set_idle:
  assumes "up_inv es u" and "cn_pending (up_contents u ! i) = None" and "cn_pending c = None"
  shows "up_inv es (set_content i c u)"
  using assms by (intro up_inv_set_content) (auto simp: awake_def)

lemma up_inv_read:
  assumes inv: "up_inv es u" and i: "i < length (up_contents u)"
    and c: "cn_pending c = Some (length (up_futures u))" "cn_body c = []" "\<not> cn_end_stream c"
  shows "up_inv es (set_content i c (u\<lparr>up_futures := up_futures u @ [FutPending]\<rparr>))" (is "up_inv es ?v")
proof (rule up_invI)
  have h: "held es ?v = held es u" by (simp add: held_def)
  fix j
  assume j: "j < length (up_contents ?v)"
  show "awake j ?v"
    using j c i up_invD(8) [OF inv, of j] by (cases "j = i") (auto simp: awake_def)
  show "f < length (up_futures ?v)" and "f \<in># held es ?v \<Longrightarrow> False"
    if "cn_pending (up_contents ?v ! j) = Some f" for f
    using j that c i up_invD(4,6,7) [OF inv] unfolding h by (cases "j = i"; fastforce)+
next
  have inv': "up_inv es (u\<lparr>up_futures := up_futures u @ [FutPending]\<rparr>)"
    by (rule up_inv_new_future [OF inv])
  fix f assume "f \<in># held es ?v"
  then have "f \<in># held es (u\<lparr>up_futures := up_futures u @ [FutPending]\<rparr>)" by simp
  with up_invD(4,5) [OF inv'] show "f < length (up_futures ?v)"
    and "up_futures ?v ! f = FutDone r \<Longrightarrow> False" for r by auto
qed (use up_invD [OF inv] in \<open>auto simp: held_def named_contents_def\<close>)

lemma anext_ok [pres]:
  assumes "up_ok u" and i: "i < length (up_contents u)"
  shows "up_ok (snd (content_anext capi i u))"
proof (cases "cn_pending (up_contents u ! i)")
  case None
  obtain r c where c: "maybe_copy_trailers capi (up_contents u ! i) = (r, c)"
    by (cases "maybe_copy_trailers capi (up_contents u ! i)")
  note same = maybe_copy_same [OF c]
  have idle: "up_ok (set_content i x u)" if "cn_pending x = None" for x
    using assms None that up_inv_set_idle by (auto simp: up_ok_def bridge_events_def)
  have "up_ok (set_content i (c\<lparr>cn_pending := Some (length (up_futures u))\<rparr>)
      (u\<lparr>up_futures := up_futures u @ [FutPending]\<rparr>))" if "cn_body c = []" "\<not> cn_end_stream c"
    using assms that up_inv_read [OF _ i, of _ "c\<lparr>cn_pending := Some (length (up_futures u))\<rparr>"]
    by (simp add: up_ok_def bridge_events_def)
  with idle same None c show ?thesis
    by (auto simp: content_anext_def Let_def up_create_future_def split: option.split sum.split)
qed (use assms in \<open>simp add: content_anext_def\<close>)

lemma aclose_ok [pres]: "up_ok u \<Longrightarrow> up_ok (snd (content_aclose i u))"
  by (simp add: content_aclose_def up_ok_offer_other)

lemma forward_ok [pres]:
  "up_ok u \<Longrightarrow> forwarder_call h d u = Ret (r, v) \<Longrightarrow> up_ok v"
  by (cases "(h, d, u)" rule: forwarder_call.cases) (auto split: if_splits intro: up_ok_offer_other)

lemma up_inv_free_future:
  assumes inv: "up_inv es u" and f: "f \<notin># held es u \<or> (\<forall>r. s \<noteq> FutDone r)"
  shows "up_inv es (u\<lparr>up_futures := (up_futures u)[f := s]\<rparr>)" (is "up_inv es ?v")
proof (rule up_invI)
  have h: "held es ?v = held es u" by (simp add: held_def)
  fix g r assume "g \<in># held es ?v" "up_futures ?v ! g = FutDone r"
  with f up_invD(4,5) [OF inv, of g] show False by (cases "g = f") (auto simp: h)
qed (use up_invD [OF inv] in \<open>auto simp: held_def named_contents_def awake_def\<close>)

lemma cancel_ok [pres]: "up_ok u \<Longrightarrow> up_ok (u\<lparr>up_futures := (up_futures u)[f := FutCancelled]\<rparr>)"
  using up_inv_free_future [of _ u f FutCancelled] by (simp add: up_ok_def bridge_events_def)

section \<open>The event loop keeps the invariant\<close>

text \<open>Taking a task from the queue.\<close>

lemma up_inv_pop:
  assumes inv: "up_inv es u" and t: "up_tasks u = t # ts" "\<And>i. t \<noteq> NotifyResponse i"
  shows "up_inv es (u\<lparr>up_tasks := ts\<rparr>)"
  using inv
proof (rule up_inv_move)
  show "held es (u\<lparr>up_tasks := ts\<rparr>) \<subseteq># held es u" by (simp add: held_def t)
  show "named_contents es (u\<lparr>up_tasks := ts\<rparr>) \<subseteq> named_contents es u" by (auto simp: named_contents_def t)
qed (use up_invD(2) [OF inv] t in auto)

lemma up_inv_pop_future:
  assumes inv: "up_inv es u" and t: "up_tasks u = t # ts" "task_futures t = [f]"
  shows "f < length (up_futures u)" and "up_futures u ! f \<noteq> FutDone r"
    and "f \<notin># held es (u\<lparr>up_tasks := ts\<rparr>)"
proof -
  have h: "held es u = add_mset f (held es (u\<lparr>up_tasks := ts\<rparr>))" by (simp add: held_def t)
  then show "f < length (up_futures u)" "up_futures u ! f \<noteq> FutDone r"
    using up_invD(4,5) [OF inv, of f] by auto
  show "f \<notin># held es (u\<lparr>up_tasks := ts\<rparr>)"
    using up_invD(3) [OF inv, of f] by (auto simp: h count_eq_zero_iff)
qed

lemma up_inv_notified:
  assumes inv: "up_inv es u" and t: "up_tasks u = NotifyResponse i # ts"
    and c: "cn_pending c = None \<or> cn_pending c = cn_pending (up_contents u ! i) \<and> cn_body c = [] \<and> \<not> cn_end_stream c"
  shows "up_inv es (set_content i c (u\<lparr>up_tasks := ts\<rparr>))" (is "up_inv es ?v")
proof (rule up_invI)
  have h: "held es ?v = held es u" by (simp add: held_def t)
  fix j
  assume j: "j < length (up_contents ?v)"
  show "awake j ?v"
    using j c up_invD(8) [OF inv, of j] by (cases "j = i") (auto simp: awake_def t)
  show "f < length (up_futures ?v)" and "f \<in># held es ?v \<Longrightarrow> False"
    if "cn_pending (up_contents ?v ! j) = Some f" for f
    using j that c up_invD(6,7) [OF inv, of j f] unfolding h by (cases "j = i"; auto)+
next
  show "j < length (up_contents ?v)" if "j \<in> named_contents es ?v" for j
    using that up_invD(1) [OF inv, of j] by (auto simp: named_contents_def t)
qed (use up_invD [OF inv] in \<open>auto simp: held_def t\<close>)

lemma notify_ok:
  assumes ok: "client_ok capi" and inv: "up_inv es u" and t: "up_tasks u = NotifyResponse i # ts"
  shows "fst (content_notify capi i (u\<lparr>up_tasks := ts\<rparr>)) = None
    \<and> up_inv es (snd (content_notify capi i (u\<lparr>up_tasks := ts\<rparr>)))"
proof -
  let ?w = "u\<lparr>up_tasks := ts\<rparr>"
  obtain c where c: "maybe_copy_trailers capi (up_contents u ! i) = (None, c)"
    using maybe_copy_ok [OF ok] by (metis prod.collapse)
  note same = maybe_copy_same [OF c]
  have keep: "up_inv es (set_content i c ?w)" if "cn_pending c = None \<or> cn_body c = [] \<and> \<not> cn_end_stream c"
    using that same by (intro up_inv_notified [OF inv t]) auto
  have none: "up_inv es (set_content i x ?w)" if "cn_pending x = None" for x
    using that by (intro up_inv_notified [OF inv t]) auto
  have i: "i < length (up_contents u)"
    by (rule up_invD(1) [OF inv]) (simp add: named_contents_def t)
  have finished: "up_inv es ((set_content i x ?w)\<lparr>up_futures := (up_futures u)[f := s]\<rparr>)"
    if "cn_pending x = None" "cn_pending (up_contents u ! i) = Some f" for x f s
  proof -
    have "f \<notin># held es (set_content i x ?w)"
      using up_invD(7) [OF inv i that(2)] by (simp add: held_def t)
    from up_inv_free_future [OF none [OF that(1)] disjI1 [OF this]] show ?thesis by simp
  qed
  show ?thesis
    using c same keep none finished content_error_ok [OF ok]
    by (auto simp: content_notify_def complete_future_def Let_def split: option.splits sum.splits)
qed

lemma up_inv_awake_content:
  assumes "up_inv es u" and "i < length (up_contents u)" and "cn_pending c = cn_pending (up_contents u ! i)"
    and "cn_body c = cn_body (up_contents u ! i)" and "cn_end_stream c = cn_end_stream (up_contents u ! i)"
  shows "up_inv es (set_content i c u)"
  using assms up_invD(8) [OF assms(1,2)] by (intro up_inv_set_content) (auto simp: awake_def)

lemma received_headers_ok:
  assumes ok: "client_ok capi" and inv: "up_inv es u" and t: "up_tasks u = t # ts"
    "t = ReceivedHeaders status hs f i req e"
  shows "fst (received_headers capi status hs f i req e (u\<lparr>up_tasks := ts\<rparr>)) = None
    \<and> up_inv es (snd (received_headers capi status hs f i req e (u\<lparr>up_tasks := ts\<rparr>)))"
proof -
  let ?w = "u\<lparr>up_tasks := ts\<rparr>"
  have w: "up_inv es ?w" using up_inv_pop [OF inv t(1)] t(2) by simp
  note f = up_inv_pop_future [OF inv t(1), of f]
  have i: "i < length (up_contents u)"
    by (rule up_invD(1) [OF inv]) (simp add: named_contents_def t)
  let ?c = "(up_contents u ! i)\<lparr>cn_trailers := Some []\<rparr>"
  have c: "up_inv es (set_content i ?c ?w)"
    using i by (intro up_inv_awake_content [OF w]) auto
  have "up_inv es (?w\<lparr>up_futures := (up_futures u)[f := s]\<rparr>)" for s
    using up_inv_free_future [OF w, of f s] f(3) t by simp
  moreover have "up_inv es ((set_content i ?c ?w)\<lparr>up_futures := (up_futures u)[f := s]\<rparr>)" for s
    using up_inv_free_future [OF c, of f s] f(3) t by simp
  moreover have "add_trailers capi hs [] = (None, snd (add_trailers capi hs []))"
    using ok by (simp add: client_ok_def add_trailers_ok)
  moreover have "up_futures u ! f = FutPending" if "up_futures u ! f \<noteq> FutCancelled"
    using f(2) t that by (cases "up_futures u ! f") auto
  moreover have "response_new capi status h b = None" for h b using ok by (simp add: client_ok_def)
  ultimately show ?thesis
    using w by (auto simp: received_headers_def complete_future_def Let_def up_inv_cancel_forwarding split: prod.split)
qed

lemma set_future_exception_ok:
  assumes ok: "client_ok capi" and inv: "up_inv es u" and t: "up_tasks u = t # ts"
    "t = SetFutureException f reason i req"
  shows "fst (set_future_exception capi f reason i req (u\<lparr>up_tasks := ts\<rparr>)) = None
    \<and> up_inv es (snd (set_future_exception capi f reason i req (u\<lparr>up_tasks := ts\<rparr>)))"
proof -
  let ?w = "u\<lparr>up_tasks := ts\<rparr>"
  let ?c = "(up_contents u ! i)\<lparr>cn_exception := None\<rparr>"
  have w: "up_inv es ?w" using up_inv_pop [OF inv t(1)] t(2) by simp
  note f = up_inv_pop_future [OF inv t(1), of f]
  have i: "i < length (up_contents u)"
    by (rule up_invD(1) [OF inv]) (simp add: named_contents_def t)
  have c: "up_inv es (set_content i ?c ?w)"
    using i by (intro up_inv_awake_content [OF w]) auto
  then have s: "up_inv es ((set_content i ?c ?w)\<lparr>up_futures := (up_futures u)[f := s]\<rparr>)" for s
    using up_inv_free_future [OF c, of f s] f(3) t by simp
  obtain e where "asgi_map_reset_reason capi reason = Inr e" using reset_reason_ok [OF ok] by blast
  with c s show ?thesis
    by (auto simp: set_future_exception_def content_take_exception_def complete_future_def Let_def
        up_inv_cancel_forwarding split: option.split)
qed

lemma run_task_inv:
  assumes "client_ok capi" and "up_inv es u" and "up_tasks u = t # ts"
  shows "fst (run_task capi t (u\<lparr>up_tasks := ts\<rparr>)) = None
    \<and> up_inv es (snd (run_task capi t (u\<lparr>up_tasks := ts\<rparr>)))"
  using received_headers_ok [OF assms] set_future_exception_ok [OF assms] notify_ok [OF assms(1,2)]
    up_inv_pop [OF assms(2,3)] assms(3)
  by (cases t) (auto simp: start_forwarding_def)

lemma complete_future_bridge [simp]: "up_bridge (snd (complete_future f r u)) = up_bridge u"
  by (simp add: complete_future_def)

lemma run_task_bridge [simp]: "up_bridge (snd (run_task capi t u)) = up_bridge u"
proof (cases t)
  case (ReceivedHeaders status hs f i req e)
  then show ?thesis by (simp add: received_headers_def Let_def split: prod.split option.split)
next
  case (SetFutureException f reason i req)
  then show ?thesis
    by (auto simp: set_future_exception_def content_take_exception_def complete_future_def Let_def
        split: prod.split option.split sum.split)
next
  case (NotifyRequest q)
  then show ?thesis by (simp add: start_forwarding_def)
next
  case (NotifyResponse i)
  then show ?thesis by (simp add: content_notify_def Let_def split: prod.split option.split sum.split)
qed

lemma up_exec_ok [pres]:
  assumes "client_ok capi" and "up_ok u" shows "up_ok (up_exec capi eapi op u)"
proof (cases op)
  case UpRunTask
  show ?thesis
  proof (cases "up_tasks u")
    case (Cons t ts)
    with UpRunTask run_task_inv [OF assms(1) _ Cons] assms(2) show ?thesis
      by (simp add: up_ok_def bridge_events_def)
  qed (use UpRunTask assms in simp)
next
  case (UpForward q d)
  with assms forward_ok show ?thesis by (auto split: rust.split)
next
  case (UpHeaders h hs e)
  with assms up_stream_headers_inv show ?thesis by (simp add: up_ok_def bridge_events_def)
next
  case (UpData h d e)
  with assms up_stream_data_inv show ?thesis by (simp add: up_ok_def bridge_events_def)
next
  case (UpTrailers h ts)
  with assms stream_trailers_inv show ?thesis by (simp add: up_ok_def bridge_events_def)
next
  case (UpReset h r)
  with assms stream_reset_inv show ?thesis by (simp add: up_ok_def bridge_events_def)
next
  case (UpComplete h)
  with assms up_stream_complete_inv show ?thesis by (simp add: up_ok_def bridge_events_def split: option.split)
qed (use assms execute_ok anext_ok aclose_ok cancel_ok transport_events_ok release_streams_ok in auto)

interpretation upstream: machine_contract "up_exec capi eapi" "\<lambda>_. client_ok capi" up_ok for capi eapi
  by unfold_locales (rule up_exec_ok)

lemma up_new_ok: "up_ok (upstream_new True)"
  by (simp add: up_ok_def up_inv_def upstream_new_def bridge_events_def held_def streams_held_def
      named_contents_def bridge_new_def bridge_wf_def)

lemma sys_exec_up: "ys_up (fold (sys_exec capi eapi) ops y) = fold (up_exec capi eapi) ops (ys_up y)"
  by (induction ops arbitrary: y) (simp_all add: sys_exec_def Let_def)

lemma sys_run_ok: "client_ok capi \<Longrightarrow> up_ok (ys_up (fold (sys_exec capi eapi) ops sys_new))"
  unfolding sys_exec_up by (rule upstream.fold_inv) (auto simp: list_all_iff sys_new_def up_new_ok)

section \<open>No byte of a response is lost\<close>

definition body_of :: "asgi_upstream \<Rightarrow> nat \<Rightarrow> bytes" where
  "body_of u i = (if i < length (up_contents u) then cn_body (up_contents u ! i) else [])"

lemma body_of_set_content:
  "body_of (set_content i c u) j = (if j = i \<and> i < length (up_contents u) then cn_body c else body_of u j)"
  by (cases "j = i") (auto simp: body_of_def)

lemma body_of_simps [simp]:
  "body_of (up_dispatch t u) = body_of u" "body_of (up_call c u) = body_of u"
  "body_of (cancel_forwarding q u) = body_of u" "body_of (up_offer e u) = body_of u"
  "body_of (notify_if p i u) = body_of u" "body_of (u\<lparr>up_streams := ss\<rparr>) = body_of u"
  "body_of (u\<lparr>up_requests := qs\<rparr>) = body_of u" "body_of (u\<lparr>up_futures := fs\<rparr>) = body_of u"
  "body_of (u\<lparr>up_tasks := ts\<rparr>) = body_of u" "body_of (u\<lparr>up_bridge := b\<rparr>) = body_of u"
  "body_of (start_forwarding n u) = body_of u" "body_of (snd (complete_future f r u)) = body_of u"
  by (auto simp: body_of_def notify_if_def up_offer_def start_forwarding_def complete_future_def
      split: option.split prod.split)

lemma body_of_same [simp]:
  "cn_body c = cn_body (up_contents u ! i) \<Longrightarrow> body_of (set_content i c u) = body_of u"
  by (rule ext) (simp add: body_of_set_content, simp add: body_of_def)

lemma reset_body [simp]:
  "body_of (asgi_stream_reset h r u) = body_of u" "body_of (asgi_reset_http_stream api h u) = body_of u"
proof -
  have reset: "body_of (asgi_stream_reset h r u) = body_of u" for h r u
    by (auto simp: asgi_stream_reset_def content_reset_def Let_def split: option.split)
  then show "body_of (asgi_stream_reset h r u) = body_of u" "body_of (asgi_reset_http_stream api h u) = body_of u"
    by (auto simp: asgi_reset_http_stream_def Let_def split: option.split)
qed

lemma callback_body:
  "body_of (asgi_stream_headers api h hs e u) = body_of u"
  "body_of (asgi_stream_trailers api h ts u) = body_of u"
  "body_of (asgi_stream_complete h u) = body_of u"
  "body_of (asgi_release_stream st u) = body_of u"
  by (auto simp: asgi_stream_headers_def asgi_stream_trailers_def asgi_stream_complete_def
      asgi_release_stream_def feed_response_trailers_def content_reset_def Let_def
      split: option.split prod.split)

lemma transport_step_body: "body_of (asgi_transport_step api e u) = body_of u"
proof (cases e)
  case (AsgiStart ev)
  then show ?thesis
    by (auto simp: Let_def split: option.split prod.split bool.split request_source.split)
next
  case (AsgiReset h x)
  then show ?thesis
    by (auto simp: content_set_exception_def split: option.split)
qed simp

lemma transport_steps_body: "body_of (fold (asgi_transport_step api) es u) = body_of u"
  by (induction es arbitrary: u) (simp_all add: transport_step_body)

lemma release_body: "body_of (asgi_release_streams u) = body_of u"
proof -
  have "body_of (fold (\<lambda>(h, st). asgi_release_stream st) ss u) = body_of u"
    for ss :: "(u64 \<times> asgi_stream) list" and u
    by (induction ss arbitrary: u) (auto simp: callback_body)
  then show ?thesis by (simp add: asgi_release_streams_def)
qed

lemma execute_body: "body_of (snd (asgi_execute capi b e cl t attr u)) = body_of u"
proof -
  have new: "body_of (u\<lparr>up_contents := up_contents u @ [content_new]\<rparr>) = body_of u" for u
    by (auto simp: body_of_def fun_eq_iff nth_append content_new_def)
  show ?thesis
    by (simp add: asgi_execute_def up_create_future_def Let_def new split: prod.split sum.split)
qed

lemma data_body:
  assumes "up_ok u"
  shows "body_of (asgi_stream_data h data e u) i = body_of u i @ op_fed (UpData h data e) u i"
proof (cases "map_of (up_streams u) h")
  case (Some st)
  with assms have "us_content st < length (up_contents u)" by (simp add: up_ok_def stream_content)
  with Some show ?thesis
    by (auto simp: asgi_stream_data_def feed_response_data_def op_fed_def body_of_set_content)
      (simp add: body_of_def)
qed (simp add: asgi_stream_data_def op_fed_def)

lemma anext_body:
  assumes i: "i < length (up_contents u)"
  shows "body_of u j = (if j = i then returned_bytes (fst (content_anext capi i u)) else [])
      @ body_of (snd (content_anext capi i u)) j"
proof -
  obtain r c where c: "maybe_copy_trailers capi (up_contents u ! i) = (r, c)"
    by (cases "maybe_copy_trailers capi (up_contents u ! i)")
  note same = maybe_copy_same [OF c]
  show ?thesis
    using i same c
    by (auto simp: content_anext_def Let_def up_create_future_def body_of_set_content value_awaitable_def
        error_awaitable_def split: option.split sum.split)
      (auto simp: body_of_def)
qed

lemma notify_body:
  assumes "up_ok u" and t: "up_tasks u = NotifyResponse i # ts"
  shows "body_of u j = op_read capi UpRunTask u j @ body_of (snd (content_notify capi i (u\<lparr>up_tasks := ts\<rparr>))) j"
proof -
  have inv: "up_inv (bridge_events u) u" using assms by (simp add: up_ok_def)
  have i: "i < length (up_contents u)"
    by (rule up_invD(1) [OF inv]) (simp add: named_contents_def t)
  obtain r c where c: "maybe_copy_trailers capi (up_contents u ! i) = (r, c)"
    by (cases "maybe_copy_trailers capi (up_contents u ! i)")
  note same = maybe_copy_same [OF c]
  have f: "f < length (up_futures u)" if "cn_pending (up_contents u ! i) = Some f" for f
    using up_invD(6) [OF inv i that] .
  show ?thesis
    using i same c f t
    by (auto simp: content_notify_def op_read_def complete_future_def Let_def body_of_set_content
        split: option.split sum.split)
      (auto simp: body_of_def)
qed

lemma task_body:
  "body_of (snd (received_headers capi status hs f j req e u)) = body_of u"
  "body_of (snd (set_future_exception capi f r j req u)) = body_of u"
  by (auto simp: received_headers_def set_future_exception_def content_take_exception_def
      complete_future_def Let_def split: option.split prod.split sum.split)

lemma exec_body:
  assumes "up_ok u"
  shows "body_of u i @ op_fed op u i = op_read capi op u i @ body_of (up_exec capi eapi op u) i"
proof (cases op)
  case (UpData h d e)
  with data_body [OF assms, of h d e i] show ?thesis by (simp add: op_read_def)
next
  case (UpAnext j)
  with anext_body [of j u i capi] show ?thesis by (simp add: op_fed_def op_read_def)
next
  case UpRunTask
  show ?thesis
  proof (cases "up_tasks u")
    case Nil
    with UpRunTask show ?thesis by (simp add: op_fed_def op_read_def)
  next
    case (Cons t ts)
    show ?thesis
    proof (cases t)
      case (NotifyResponse j)
      with notify_body [OF assms, of j ts i capi] Cons UpRunTask show ?thesis by (simp add: op_fed_def)
    qed (use UpRunTask Cons in \<open>simp_all add: op_fed_def op_read_def task_body\<close>)
  qed
next
  case (UpProcess)
  then show ?thesis
    by (auto simp: op_fed_def op_read_def asgi_transport_events_def transport_steps_body split: option.split prod.split)
next
  case (UpForward q d)
  then show ?thesis
    by (cases d) (auto simp: op_fed_def op_read_def split: rust.split sum.split if_splits elim!: forwarder_call.elims)
qed (auto simp: op_fed_def op_read_def execute_body content_aclose_def callback_body release_body split: option.split)

definition body_inv :: "up_sys \<Rightarrow> bool" where
  "body_inv y \<longleftrightarrow> up_ok (ys_up y) \<and> (\<forall>i. ys_fed y i = ys_read y i @ body_of (ys_up y) i)"

lemma body_exec_inv:
  assumes "client_ok capi" and "body_inv y" shows "body_inv (sys_exec capi eapi op y)"
proof -
  have "ys_fed y i @ op_fed op (ys_up y) i
      = (ys_read y i @ op_read capi op (ys_up y) i) @ body_of (up_exec capi eapi op (ys_up y)) i" for i
    using assms exec_body [of "ys_up y" i op capi eapi] by (simp add: body_inv_def)
  with assms up_exec_ok show ?thesis by (simp add: body_inv_def sys_exec_def Let_def)
qed

interpretation upstream_body: machine_contract "sys_exec capi eapi" "\<lambda>_. client_ok capi" body_inv
  for capi eapi
  by unfold_locales (rule body_exec_inv)

lemma body_run_inv:
  assumes "client_ok capi" shows "body_inv (fold (sys_exec capi eapi) ops sys_new)"
proof (rule upstream_body.fold_inv)
  have "body_of (upstream_new True) = (\<lambda>_. [])"
    by (rule ext) (simp add: body_of_def upstream_new_def)
  with up_new_ok show "body_inv sys_new" by (simp add: body_inv_def sys_new_def)
qed (simp add: list_all_iff assms)

section \<open>No response future is forgotten\<close>

text \<open>Envoy never gives a handle to two streams of a request.\<close>

definition fresh_handles :: "envoy_api \<Rightarrow> bool" where
  "fresh_handles eapi \<longleftrightarrow>
     (\<forall>cs n h. n < length cs \<and> start_result eapi cs = (True, h) \<longrightarrow> start_result eapi (take n cs) \<noteq> (True, h))"

definition issued :: "envoy_api \<Rightarrow> envoy_call list \<Rightarrow> u64 set" where
  "issued eapi cs = {h. \<exists>n \<le> length cs. start_result eapi (take n cs) = (True, h)}"

definition handles_issued :: "envoy_api \<Rightarrow> asgi_upstream \<Rightarrow> bool" where
  "handles_issued eapi u \<longleftrightarrow> fst ` set (up_streams u) \<subseteq> issued eapi (up_calls u)"

lemma issued_append: "issued eapi cs \<subseteq> issued eapi (cs @ [c])"
proof
  fix h assume "h \<in> issued eapi cs"
  then obtain n where n: "n \<le> length cs" "start_result eapi (take n cs) = (True, h)"
    by (auto simp: issued_def)
  then have "take n (cs @ [c]) = take n cs" by simp
  with n show "h \<in> issued eapi (cs @ [c])" unfolding issued_def by (intro CollectI exI [of _ n]) simp
qed

lemma fresh_not_issued:
  assumes "fresh_handles eapi" and "start_result eapi (cs @ [c]) = (True, h)"
  shows "h \<notin> issued eapi cs"
proof
  assume "h \<in> issued eapi cs"
  then obtain n where n: "n \<le> length cs" "start_result eapi (take n cs) = (True, h)"
    by (auto simp: issued_def)
  then have "start_result eapi (take n (cs @ [c])) = (True, h)" by simp
  moreover have "n < length (cs @ [c])" using n by simp
  ultimately show False using assms unfolding fresh_handles_def by blast
qed

text \<open>What a step must do for every asked future to stay accounted for.\<close>

definition keeps :: "envoy_api \<Rightarrow> asgi_transport_event list \<Rightarrow> asgi_upstream \<Rightarrow> asgi_transport_event list
    \<Rightarrow> asgi_upstream \<Rightarrow> bool" where
  "keeps eapi es u es' v \<longleftrightarrow>
     held es' v = held es u \<and> up_futures v = up_futures u
     \<and> (handles_issued eapi u \<longrightarrow> handles_issued eapi v)"

lemma keeps_refl [simp]: "keeps eapi es u es u" by (simp add: keeps_def)

lemma keeps_trans: "keeps eapi es u es' v \<Longrightarrow> keeps eapi es' v es'' w \<Longrightarrow> keeps eapi es u es'' w"
  by (simp add: keeps_def)

lemma handles_issued_call: "handles_issued eapi u \<Longrightarrow> handles_issued eapi (up_call c u)"
  using issued_append [of eapi "up_calls u" c] by (auto simp: handles_issued_def)

lemma handles_issued_simps [simp]:
  "handles_issued eapi (up_dispatch t u) = handles_issued eapi u"
  "handles_issued eapi (set_content i c u) = handles_issued eapi u"
  by (simp_all add: handles_issued_def)

lemma handles_issued_streams:
  "handles_issued eapi u \<Longrightarrow> fst ` set ss \<subseteq> fst ` set (up_streams u) \<Longrightarrow> handles_issued eapi (u\<lparr>up_streams := ss\<rparr>)"
  by (simp add: handles_issued_def)

lemma delete_keys: "fst ` set (AList.delete h l) \<subseteq> fst ` set l"
  by (auto simp: AList.delete_eq)

lemma keeps_call: "keeps eapi es u es (up_call c u)"
  by (simp add: keeps_def handles_issued_call)

lemma keeps_content: "keeps eapi es u es (notify_if p i (set_content j c u))"
  by (simp add: keeps_def notify_if_def)

lemma keeps_delete_none:
  assumes "up_inv es u" and "map_of (up_streams u) h = Some st" and "us_future st = None"
  shows "keeps eapi es u es (u\<lparr>up_streams := AList.delete h (up_streams u)\<rparr>)"
  using assms streams_held_delete [OF up_invD(2) [OF assms(1)] assms(2)]
  by (simp add: keeps_def held_def stream_futures_def handles_issued_streams delete_keys)

lemma keeps_delete_some:
  assumes "up_inv es u" and "map_of (up_streams u) h = Some st" and "us_future st = Some f"
    and "task_futures t = [f]"
  shows "keeps eapi es u es (up_dispatch t (u\<lparr>up_streams := AList.delete h (up_streams u)\<rparr>))"
    and "keeps eapi es u es (up_dispatch t (u\<lparr>up_streams := AList.update h (st\<lparr>us_future := None\<rparr>) (up_streams u)\<rparr>))"
proof -
  have keys: "distinct (map fst (up_streams u))" by (rule up_invD(2) [OF assms(1)])
  have h: "h \<in> fst ` set (up_streams u)" using map_of_SomeD [OF assms(2)] by force
  show "keeps eapi es u es (up_dispatch t (u\<lparr>up_streams := AList.delete h (up_streams u)\<rparr>))"
    using streams_held_delete [OF keys assms(2)] assms(3,4)
    by (simp add: keeps_def held_def stream_futures_def handles_issued_streams delete_keys)
  have "fst ` set (AList.update h (st\<lparr>us_future := None\<rparr>) (up_streams u)) \<subseteq> fst ` set (up_streams u)"
    using h by (simp add: dom_update insert_absorb)
  then show "keeps eapi es u es (up_dispatch t (u\<lparr>up_streams := AList.update h (st\<lparr>us_future := None\<rparr>) (up_streams u)\<rparr>))"
    using streams_held_delete [OF keys assms(2)] assms(3,4)
    by (simp add: keeps_def held_def stream_futures_def streams_held_update keys handles_issued_streams)
qed

lemma keeps_stream_reset:
  assumes inv: "up_inv es u" shows "keeps eapi es u es (asgi_stream_reset h r u)"
proof (cases "map_of (up_streams u) h")
  case (Some st)
  let ?v = "case us_future st of
      Some f \<Rightarrow> up_dispatch (SetFutureException f (asgi_reset_reason r) (us_content st) (us_request st))
        (u\<lparr>up_streams := AList.delete h (up_streams u)\<rparr>)
    | None \<Rightarrow> u\<lparr>up_streams := AList.delete h (up_streams u)\<rparr>"
  have "keeps eapi es u es ?v"
    using keeps_delete_none [OF inv Some] keeps_delete_some(1) [OF inv Some] by (auto split: option.split)
  from keeps_trans [OF this keeps_content] Some show ?thesis
    by (simp add: asgi_stream_reset_def Let_def content_reset_eq)
qed (simp add: asgi_stream_reset_def)

lemma keeps_reset_call:
  assumes inv: "up_inv es u" shows "keeps eapi es u es (asgi_reset_http_stream api h u)"
  using keeps_trans [OF keeps_call keeps_stream_reset [OF up_inv_call [OF inv]]] keeps_call
  by (auto simp: asgi_reset_http_stream_def Let_def split: option.split)

lemma keeps_stream_headers:
  assumes inv: "up_inv es u" shows "keeps eapi es u es (asgi_stream_headers api h hs e u)"
proof (cases "map_of (up_streams u) h")
  case None
  with inv show ?thesis by (simp add: asgi_stream_headers_def keeps_reset_call)
next
  case (Some st)
  show ?thesis
  proof (cases "us_future st")
    case None
    with Some show ?thesis
      by (cases st) (auto simp: asgi_stream_headers_def Let_def update_same split: prod.split)
  next
    case f: (Some f)
    from keeps_delete_some(2) [OF inv Some f] Some f show ?thesis
      by (auto simp: asgi_stream_headers_def Let_def split: prod.split)
  qed
qed

lemma keeps_feed:
  "keeps eapi es u es (asgi_stream_data h d e u)" "keeps eapi es u es (asgi_stream_trailers api h ts u)"
  by (auto simp: asgi_stream_data_def asgi_stream_trailers_def feed_response_data_def
      feed_response_trailers_def keeps_content split: option.split)

lemma keeps_requests: "keeps eapi es u es (u\<lparr>up_requests := qs\<rparr>)"
  by (simp add: keeps_def held_def handles_issued_def)

lemma keeps_start_stream:
  assumes "up_inv (AsgiStart ev # es) u" and "us_future st = Some (sv_response_future ev)"
    and "h \<notin> fst ` set (up_streams u)" and "h \<in> issued eapi (up_calls u)"
  shows "keeps eapi (AsgiStart ev # es) u es (u\<lparr>up_streams := AList.update h st (up_streams u)\<rparr>)"
proof -
  have keys: "distinct (map fst (up_streams u))" by (rule up_invD(2) [OF assms(1)])
  show ?thesis
    using assms
    by (simp add: keeps_def held_def stream_futures_def streams_held_update keys handles_issued_def dom_update)
qed

lemma keeps_transport_step:
  assumes inv: "up_inv (e # es) u" and fresh: "fresh_handles eapi" and h: "handles_issued eapi u"
  shows "keeps eapi (e # es) u es (asgi_transport_step eapi e u)"
proof (cases e)
  case (AsgiStart ev)
  let ?i = "sv_response_content ev"
  obtain body end_stream req where b: "(case sv_body ev of Buffered b \<Rightarrow> (Some b, True, None)
      | FromIter q \<Rightarrow> (None, False, Some q)) = (body, end_stream, req)"
    by (cases "case sv_body ev of Buffered b \<Rightarrow> (Some b, True, None) | FromIter q \<Rightarrow> (None, False, Some q)") auto
  let ?c = "StartHttpStream (sv_cluster ev) (asgi_upstream_headers ev) body end_stream (sv_timeout_ms ev)"
  let ?u = "up_call ?c u"
  have u: "up_inv (AsgiStart ev # es) ?u" using inv AsgiStart by (simp add: up_inv_call)
  have ku: "keeps eapi (e # es) u (e # es) ?u" by (rule keeps_call)
  obtain ok hd where r: "start_result eapi (up_calls ?u) = (ok, hd)" by (cases "start_result eapi (up_calls ?u)")
  show ?thesis
  proof (cases ok)
    case False
    have "keeps eapi (AsgiStart ev # es) ?u es
        (up_dispatch (SetFutureException (sv_response_future ev) InvalidUpstream ?i req) ?u)"
      by (simp add: keeps_def held_def)
    with ku AsgiStart b r False show ?thesis
      by (auto simp: Let_def dest: keeps_trans)
  next
    case True
    let ?v = "case req of Some q \<Rightarrow> up_dispatch (NotifyRequest q)
        (?u\<lparr>up_requests := (up_requests ?u)[q := (up_requests ?u ! q)\<lparr>qc_stream_handle := hd\<rparr>]\<rparr>) | None \<Rightarrow> ?u"
    let ?w = "set_content ?i ((up_contents ?v ! ?i)\<lparr>cn_stream_handle := hd\<rparr>) ?v"
    have same: "up_calls ?w = up_calls ?u" "up_streams ?w = up_streams u" by (simp_all split: option.split)
    have kw: "keeps eapi (AsgiStart ev # es) ?u (AsgiStart ev # es) ?w"
      by (auto simp: keeps_def held_def handles_issued_def split: option.split)
    have v: "up_inv (AsgiStart ev # es) ?v"
      using u by (auto intro: up_inv_dispatch split: option.split)
    then have "?i < length (up_contents ?v)"
      by (auto dest!: up_invD(1) [where i = ?i] simp: named_contents_def)
    then have w: "up_inv (AsgiStart ev # es) ?w"
      by (intro up_inv_awake_content [OF v]) auto
    have "hd \<notin> fst ` set (up_streams u)"
      using fresh_not_issued [OF fresh, of "up_calls u" ?c hd] h r True by (auto simp: handles_issued_def)
    moreover have "hd \<in> issued eapi (up_calls ?u)"
      using r True by (auto simp: issued_def intro!: exI [of _ "length (up_calls ?u)"])
    ultimately have "keeps eapi (AsgiStart ev # es) ?w es (?w\<lparr>up_streams := AList.update hd
        \<lparr>us_request = req, us_future = Some (sv_response_future ev), us_content = ?i\<rparr> (up_streams ?w)\<rparr>)"
      using same by (intro keeps_start_stream [OF w]) simp_all
    with ku kw AsgiStart have "keeps eapi (e # es) u es (?w\<lparr>up_streams := AList.update hd
        \<lparr>us_request = req, us_future = Some (sv_response_future ev), us_content = ?i\<rparr> (up_streams ?w)\<rparr>)"
      by (blast intro: keeps_trans)
    then show ?thesis using AsgiStart b r True by (simp add: Let_def)
  qed
next
  case (AsgiSendData hd data end_stream)
  have "keeps eapi (e # es) u es u" using AsgiSendData by (simp add: keeps_def held_def)
  with AsgiSendData show ?thesis using keeps_call keeps_trans by auto
next
  case (AsgiReset hd exception)
  with inv have u: "up_inv es u" by (simp add: up_inv_def held_def named_contents_def)
  have k: "keeps eapi (e # es) u es u" using AsgiReset by (simp add: keeps_def held_def)
  show ?thesis
  proof (cases "map_of (up_streams u) hd")
    case None
    with AsgiReset k show ?thesis by simp
  next
    case (Some st)
    let ?v = "case exception of
        Some x \<Rightarrow> set_content (us_content st) (content_set_exception x (up_contents u ! us_content st)) u
      | None \<Rightarrow> u"
    have "up_inv es ?v"
      using u stream_content [OF u Some]
      by (auto simp: content_set_exception_def intro: up_inv_awake_content split: option.split)
    from keeps_reset_call [OF this] have "keeps eapi es ?v es (asgi_reset_http_stream eapi hd ?v)" .
    moreover have "keeps eapi (e # es) u es ?v" using k by (simp add: keeps_def split: option.split)
    ultimately show ?thesis using AsgiReset Some keeps_trans by auto
  qed
qed

lemma keeps_transport_steps:
  assumes "fresh_handles eapi"
  shows "up_inv es u \<Longrightarrow> handles_issued eapi u \<Longrightarrow> keeps eapi es u [] (fold (asgi_transport_step eapi) es u)"
proof (induction es arbitrary: u)
  case (Cons e es)
  have k: "keeps eapi (e # es) u es (asgi_transport_step eapi e u)"
    by (rule keeps_transport_step [OF Cons.prems(1) assms Cons.prems(2)])
  then have "handles_issued eapi (asgi_transport_step eapi e u)" using Cons.prems by (simp add: keeps_def)
  from keeps_trans [OF k Cons.IH [OF up_transport_step_inv [OF Cons.prems(1)] this]] show ?case by simp
qed simp

definition keeps_ok :: "envoy_api \<Rightarrow> asgi_upstream \<Rightarrow> asgi_upstream \<Rightarrow> bool" where
  "keeps_ok eapi u v \<longleftrightarrow> keeps eapi (bridge_events u) u (bridge_events v) v"

lemma keeps_transport_events:
  assumes ok: "up_ok u" and fresh: "fresh_handles eapi" and h: "handles_issued eapi u"
  shows "keeps_ok eapi u (asgi_transport_events eapi u)"
proof -
  obtain b where b: "up_bridge u = Some b" "b \<noteq> Closed"
    using ok up_invD(9) by (fastforce simp: up_ok_def)
  then have p: "bridge_process b = (bridge_content b, Empty)" by (cases b) auto
  let ?v = "u\<lparr>up_bridge := Some Empty\<rparr>"
  have v: "up_inv (bridge_content b) ?v"
    using ok b by (intro up_inv_bridge) (auto simp: up_ok_def bridge_events_def bridge_wf_def)
  have k: "keeps eapi (bridge_events u) u (bridge_content b) ?v"
    using b by (simp add: keeps_def held_def handles_issued_def bridge_events_def)
  then have "handles_issued eapi ?v" using h by (simp add: keeps_def)
  from keeps_trans [OF k keeps_transport_steps [OF fresh v this]] show ?thesis
    by (simp add: keeps_ok_def asgi_transport_events_def b p bridge_events_def up_transport_steps_bridge)
qed

lemma keeps_release_streams:
  assumes "up_inv es (u\<lparr>up_streams := ss\<rparr>)"
  shows "held es ((fold (\<lambda>(h, st). asgi_release_stream st) ss u)\<lparr>up_streams := []\<rparr>) = held es (u\<lparr>up_streams := ss\<rparr>)
    \<and> up_futures (fold (\<lambda>(h, st). asgi_release_stream st) ss u) = up_futures u"
  using assms
proof (induction ss arbitrary: u)
  case (Cons x ss)
  obtain h st where x: "x = (h, st)" by (cases x)
  have "held es ((asgi_release_stream st u)\<lparr>up_streams := ss\<rparr>) = held es (u\<lparr>up_streams := x # ss\<rparr>)"
    by (simp add: x asgi_release_stream_def content_reset_eq notify_if_def held_def streams_held_def
        stream_futures_def split: option.split)
  moreover have "up_futures (asgi_release_stream st u) = up_futures u"
    by (simp add: asgi_release_stream_def content_reset_eq notify_if_def split: option.split)
  ultimately show ?case
    using Cons.IH [OF release_stream_inv] Cons.prems x by simp
qed simp

text \<open>A future is accounted for: it exists, and while it is pending something holds it.\<close>

definition accounted :: "asgi_upstream \<Rightarrow> nat \<Rightarrow> bool" where
  "accounted u f \<longleftrightarrow>
     f < length (up_futures u) \<and> (up_futures u ! f = FutPending \<longrightarrow> f \<in># held (bridge_events u) u)"

definition asked_inv :: "envoy_api \<Rightarrow> up_sys \<Rightarrow> bool" where
  "asked_inv eapi y \<longleftrightarrow>
     up_ok (ys_up y) \<and> handles_issued eapi (ys_up y) \<and> (\<forall>f \<in> set (ys_asked y). accounted (ys_up y) f)"

text \<open>A step that keeps the holders and only adds futures, or completes them.\<close>

lemma accounted_mono:
  assumes "accounted u f" and "length (up_futures u) \<le> length (up_futures v)"
    and "\<And>g. g < length (up_futures u) \<Longrightarrow> up_futures v ! g = FutPending \<Longrightarrow> up_futures u ! g = FutPending"
    and "held (bridge_events u) u \<subseteq># held (bridge_events v) v"
  shows "accounted v f"
  using assms mset_subset_eqD [OF assms(4), of f] by (auto simp: accounted_def)

lemma held_offer:
  assumes "up_ok u"
  shows "held (bridge_events (up_offer e u)) (up_offer e u) = held (bridge_events u) u + mset (event_futures e)"
proof -
  obtain b where b: "up_bridge u = Some b" "b \<noteq> Closed"
    using assms up_invD(9) by (fastforce simp: up_ok_def)
  note o = up_offer_eq [OF b, of e]
  show ?thesis using b by (simp add: o(1,2) bridge_events_def held_def)
qed

lemma up_offer_same [simp]:
  "up_streams (up_offer e u) = up_streams u" "up_calls (up_offer e u) = up_calls u"
  "up_futures (up_offer e u) = up_futures u"
  by (simp_all add: up_offer_def split: option.split prod.split)

lemma forwarder_effects:
  "forwarder_call h d u = Ret (r, v) \<Longrightarrow> v = u \<or> (\<exists>e. v = up_offer e u \<and> event_futures e = [])"
  by (cases "(h, d, u)" rule: forwarder_call.cases) (fastforce split: if_splits)+

lemma execute_effects:
  assumes "up_ok u" and v_def: "v = snd (asgi_execute capi b e cl t attr u)"
  shows "up_streams v = up_streams u" and "up_calls v = up_calls u"
    and "length (up_futures u) \<le> length (up_futures v)"
    and "\<And>g. g < length (up_futures u) \<Longrightarrow> up_futures v ! g = up_futures u ! g"
    and "held (bridge_events u) u \<subseteq># held (bridge_events v) v"
    and "fst (asgi_execute capi b e cl t attr u) = Inr f \<Longrightarrow> accounted v f"
proof -
  have offer: "held (bridge_events (up_offer ev w)) (up_offer ev w)
      = held (bridge_events u) u + mset (event_futures ev)"
    if "up_bridge w = up_bridge u" "up_streams w = up_streams u" "up_tasks w = up_tasks u" for w ev
  proof -
    obtain b where b: "up_bridge u = Some b" "b \<noteq> Closed"
      using assms up_invD(9) by (fastforce simp: up_ok_def)
    with up_offer_eq [of w b ev] that show ?thesis by (simp add: bridge_events_def held_def)
  qed
  have held: "held (bridge_events u) u \<subseteq># held (bridge_events v) v
      \<and> (\<forall>f. fst (asgi_execute capi b e cl t attr u) = Inr f \<longrightarrow> accounted v f)"
  proof (cases "b \<and> (\<exists>r. asgi_prepare_request capi attr = Inr r)")
    case False
    then show ?thesis
      by (auto simp: v_def asgi_execute_def up_create_future_def held_def bridge_events_def split: sum.split)
  next
    case True
    then obtain m url hs bd where r: "asgi_prepare_request capi attr = Inr (m, url, hs, bd)" "b"
      by (metis prod_cases4)
    then show ?thesis
      using offer
      by (cases "extract_bytes capi bd")
        (auto simp: v_def asgi_execute_def up_create_future_def Let_def accounted_def)
  qed
  then show "held (bridge_events u) u \<subseteq># held (bridge_events v) v"
    and "fst (asgi_execute capi b e cl t attr u) = Inr f \<Longrightarrow> accounted v f" by blast+
qed (auto simp: v_def asgi_execute_def up_create_future_def Let_def nth_append split: prod.split sum.split)

lemma anext_effects:
  assumes v_def: "v = snd (content_anext capi i u)"
  shows "up_streams v = up_streams u" and "up_calls v = up_calls u" and "up_bridge v = up_bridge u"
    and "up_tasks v = up_tasks u" and "length (up_futures u) \<le> length (up_futures v)"
    and "g < length (up_futures u) \<Longrightarrow> up_futures v ! g = up_futures u ! g"
  by (auto simp: v_def content_anext_def Let_def up_create_future_def nth_append
      split: option.split sum.split prod.split)

lemma complete_future_simps [simp]:
  "up_streams (snd (complete_future f r u)) = up_streams u" "up_calls (snd (complete_future f r u)) = up_calls u"
  "up_tasks (snd (complete_future f r u)) = up_tasks u"
  "length (up_futures (snd (complete_future f r u))) = length (up_futures u)"
  by (simp_all add: complete_future_def)

lemma complete_future_nth [simp]:
  "up_futures (snd (complete_future f r u)) ! g =
     (if g = f \<and> f < length (up_futures u) \<and> up_futures u ! f = FutPending then FutDone r else up_futures u ! g)"
proof (cases "g = f \<and> f < length (up_futures u)")
  case True
  then show ?thesis by (simp add: complete_future_def)
next
  case False
  then have "(up_futures u)[f := x] ! g = up_futures u ! g" for x
    by (cases "g = f") (simp_all add: list_update_beyond)
  with False show ?thesis by (auto simp: complete_future_def)
qed

lemma complete_cancel_simps [simp]:
  fixes p :: "pyerr option \<times> asgi_upstream" and req :: "nat option"
  defines "q \<equiv> (case p of (Some e, u) \<Rightarrow> (Some e, u) | (None, u) \<Rightarrow> (None, cancel_forwarding req u))"
  shows "up_streams (snd q) = up_streams (snd p)" "up_calls (snd q) = up_calls (snd p)"
    "up_tasks (snd q) = up_tasks (snd p)" "up_futures (snd q) = up_futures (snd p)"
  by (auto simp: q_def split: prod.split option.split)

lemma run_task_effects:
  assumes v_def: "v = snd (run_task capi t u)"
  shows "up_streams v = up_streams u" and "up_calls v = up_calls u" and "up_tasks v = up_tasks u"
    and "length (up_futures v) = length (up_futures u)"
    and "up_futures v ! g = FutPending \<Longrightarrow> up_futures u ! g = FutPending"
proof -
  have "up_streams v = up_streams u \<and> up_calls v = up_calls u \<and> up_tasks v = up_tasks u
      \<and> length (up_futures v) = length (up_futures u)
      \<and> (up_futures v ! g = FutPending \<longrightarrow> up_futures u ! g = FutPending)"
  proof (cases t)
    case (ReceivedHeaders status hs f i req e)
    then show ?thesis
      unfolding v_def ReceivedHeaders run_task.simps received_headers_def
      by (simp add: Let_def split: prod.split option.split)
  next
    case (SetFutureException f reason i req)
    then show ?thesis
      unfolding v_def SetFutureException run_task.simps set_future_exception_def content_take_exception_def
      by (simp add: Let_def split: option.split sum.split)
  next
    case (NotifyRequest q)
    then show ?thesis by (simp add: v_def start_forwarding_def)
  next
    case (NotifyResponse i)
    then show ?thesis
      unfolding v_def NotifyResponse run_task.simps content_notify_def
      by (simp add: Let_def split: prod.split option.split sum.split)
  qed
  then show "up_streams v = up_streams u" and "up_calls v = up_calls u" and "up_tasks v = up_tasks u"
    and "length (up_futures v) = length (up_futures u)"
    and "up_futures v ! g = FutPending \<Longrightarrow> up_futures u ! g = FutPending" by blast+
qed

lemma run_task_completes:
  assumes ok: "client_ok capi" and f: "task_futures t = [f]" "f < length (up_futures u)"
  shows "up_futures (snd (run_task capi t u)) ! f \<noteq> FutPending"
proof (cases t)
  case (ReceivedHeaders status hs g i req e)
  moreover have "add_trailers capi hs [] = (None, snd (add_trailers capi hs []))"
    using ok by (simp add: client_ok_def add_trailers_ok)
  moreover have "response_new capi status h b = None" for h b using ok by (simp add: client_ok_def)
  ultimately show ?thesis
    using f by (auto simp: received_headers_def Let_def split: prod.split if_splits)
next
  case (SetFutureException g reason i req)
  moreover obtain e where "asgi_map_reset_reason capi reason = Inr e" using reset_reason_ok [OF ok] by blast
  ultimately show ?thesis
    using f by (auto simp: set_future_exception_def content_take_exception_def Let_def split: option.split if_splits)
qed (use f in auto)

lemma asked_keeps:
  assumes "asked_inv eapi y" and "up_ok v" and "keeps_ok eapi (ys_up y) v"
  shows "up_ok v \<and> handles_issued eapi v \<and> (\<forall>f \<in> set (ys_asked y). accounted v f)"
  using assms by (auto simp: asked_inv_def keeps_ok_def keeps_def accounted_def)

lemma run_task_accounted:
  assumes ok: "client_ok capi" and t: "up_tasks u = t # ts" and f: "accounted u f"
  shows "accounted (snd (run_task capi t (u\<lparr>up_tasks := ts\<rparr>))) f"
proof -
  let ?w = "u\<lparr>up_tasks := ts\<rparr>"
  let ?v = "snd (run_task capi t ?w)"
  note effects = run_task_effects [where capi = capi and t = t and u = ?w, OF refl]
  have h: "held (bridge_events u) u = held (bridge_events ?v) ?v + mset (task_futures t)"
    using effects(1,3) t by (simp add: held_def bridge_events_def)
  have len: "f < length (up_futures ?v)" using effects(4) f by (simp add: accounted_def)
  moreover have "f \<in># held (bridge_events ?v) ?v" if p: "up_futures ?v ! f = FutPending"
  proof -
    have "up_futures u ! f = FutPending" using effects(5) [of f] p by simp
    with f have "f \<in># held (bridge_events u) u" by (simp add: accounted_def)
    moreover have "f \<notin># mset (task_futures t)"
    proof
      assume "f \<in># mset (task_futures t)"
      then have "task_futures t = [f]" by (cases t) auto
      from run_task_completes [OF ok this, of ?w] len effects(4) p show False by simp
    qed
    ultimately show ?thesis by (simp add: h)
  qed
  ultimately show ?thesis by (simp add: accounted_def)
qed

lemma asked_exec_inv:
  assumes ok: "client_ok capi" and fresh: "fresh_handles eapi" and y: "asked_inv eapi y"
  shows "asked_inv eapi (sys_exec capi eapi op y)"
proof -
  let ?u = "ys_up y"
  let ?v = "up_exec capi eapi op ?u"
  have u: "up_ok ?u" "handles_issued eapi ?u" using y by (simp_all add: asked_inv_def)
  then have inv: "up_inv (bridge_events ?u) ?u" by (simp add: up_ok_def)
  have v: "up_ok ?v" by (rule up_exec_ok [OF ok u(1)])
  have kept: "asked_inv eapi (sys_exec capi eapi op y)" if "keeps_ok eapi ?u ?v" "op_asked capi op ?u = []"
    using asked_keeps [OF y v that(1)] that(2) by (simp add: asked_inv_def sys_exec_def Let_def)
  have mono: "asked_inv eapi (sys_exec capi eapi op y)"
    if "up_streams ?v = up_streams ?u" "up_calls ?v = up_calls ?u" "length (up_futures ?u) \<le> length (up_futures ?v)"
      "\<And>g. g < length (up_futures ?u) \<Longrightarrow> up_futures ?v ! g = FutPending \<Longrightarrow> up_futures ?u ! g = FutPending"
      "held (bridge_events ?u) ?u \<subseteq># held (bridge_events ?v) ?v"
      "\<forall>f \<in> set (op_asked capi op ?u). accounted ?v f"
    using y v that accounted_mono [of ?u _ ?v]
    by (auto simp: asked_inv_def sys_exec_def Let_def handles_issued_def)
  have same: "keeps_ok eapi ?u w" if "keeps eapi (bridge_events ?u) ?u (bridge_events ?u) w" "up_bridge w = up_bridge ?u" for w
    using that by (simp add: keeps_ok_def bridge_events_def)
  show ?thesis
  proof (cases op)
    case (UpExecute cl t attr)
    note e = execute_effects [where capi = capi and b = "up_bridge ?u \<noteq> None" and e = True and cl = cl
        and t = t and attr = attr, OF u(1) refl]
    have "\<forall>f \<in> set (op_asked capi op ?u). accounted ?v f"
      using e(6) UpExecute by (auto simp: op_asked_def split: sum.splits)
    with e(1-5) UpExecute show ?thesis by (intro mono) simp_all
  next
    case (UpAnext i)
    show ?thesis
    proof (cases "i < length (up_contents ?u)")
      case True
      note e = anext_effects [where capi = capi and i = i and u = ?u, OF refl]
      have "held (bridge_events ?v) ?v = held (bridge_events ?u) ?u"
        using True e(1,3,4) UpAnext by (simp add: held_def bridge_events_def)
      with e True UpAnext show ?thesis by (intro mono) (simp_all add: op_asked_def)
    next
      case False
      with UpAnext same show ?thesis by (intro kept) (simp_all add: op_asked_def)
    qed
  next
    case (UpAclose i)
    have "held (bridge_events ?v) ?v = held (bridge_events ?u) ?u"
      using UpAclose held_offer [OF u(1)] by (simp add: content_aclose_def)
    with UpAclose show ?thesis by (intro mono) (simp_all add: op_asked_def content_aclose_def split: if_splits)
  next
    case (UpForward q d)
    have "?v = ?u \<or> (\<exists>e. ?v = up_offer e ?u \<and> event_futures e = [])"
      using UpForward by (auto split: rust.split dest: forwarder_effects)
    then have "held (bridge_events ?v) ?v = held (bridge_events ?u) ?u \<and> up_streams ?v = up_streams ?u
        \<and> up_calls ?v = up_calls ?u \<and> up_futures ?v = up_futures ?u"
      using held_offer [OF u(1)] by auto
    then show ?thesis using UpForward by (intro mono) (simp_all add: op_asked_def)
  next
    case (UpCancel f)
    then show ?thesis
      by (intro mono) (auto simp: op_asked_def held_def bridge_events_def nth_list_update split: if_splits)
  next
    case UpRunTask
    show ?thesis
    proof (cases "up_tasks ?u")
      case Nil
      with UpRunTask same show ?thesis by (intro kept) (simp_all add: op_asked_def)
    next
      case (Cons t ts)
      note e = run_task_effects [where capi = capi and t = t and u = "?u\<lparr>up_tasks := ts\<rparr>", OF refl]
      have "handles_issued eapi ?v" using u(2) e(1,2) UpRunTask Cons by (simp add: handles_issued_def)
      moreover have "\<forall>f \<in> set (ys_asked y). accounted ?v f"
        using run_task_accounted [OF ok Cons] y UpRunTask Cons by (simp add: asked_inv_def)
      ultimately show ?thesis
        using v UpRunTask by (simp add: asked_inv_def sys_exec_def op_asked_def Let_def)
    qed
  next
    case UpProcess
    with keeps_transport_events [OF u(1) fresh u(2)] show ?thesis by (intro kept) (simp_all add: op_asked_def)
  next
    case (UpHeaders h hs e)
    with same keeps_stream_headers [OF inv] show ?thesis by (intro kept) (simp_all add: op_asked_def)
  next
    case (UpData h d e)
    with same keeps_feed(1) show ?thesis by (intro kept) (simp_all add: op_asked_def)
  next
    case (UpTrailers h ts)
    with same keeps_feed(2) show ?thesis by (intro kept) (simp_all add: op_asked_def)
  next
    case (UpReset h r)
    with same keeps_stream_reset [OF inv] show ?thesis by (intro kept) (simp_all add: op_asked_def)
  next
    case (UpComplete h)
    have "keeps eapi (bridge_events ?u) ?u (bridge_events ?u) ?v \<and> up_bridge ?v = up_bridge ?u"
    proof (cases "map_of (up_streams ?u) h")
      case None
      then have "asgi_stream_complete h ?u = ?u"
        by (simp add: asgi_stream_complete_def map_of_eq_None_iff)
      with None UpComplete show ?thesis by simp
    next
      case (Some st)
      with UpComplete keeps_delete_none [OF inv Some] show ?thesis by (simp add: asgi_stream_complete_def)
    qed
    with same UpComplete show ?thesis by (intro kept) (simp_all add: op_asked_def)
  next
    case UpDownComplete
    have s: "up_streams ?v = []" "up_bridge ?v = up_bridge ?u"
      using UpDownComplete by (simp_all add: asgi_release_streams_def release_fold_same)
    then have "held es (?v\<lparr>up_streams := []\<rparr>) = held es ?v" for es by (cases ?v) (simp add: held_def)
    with keeps_release_streams [where es = "bridge_events ?u" and u = "?u\<lparr>up_streams := []\<rparr>"
        and ss = "up_streams ?u"] inv UpDownComplete s
    have "keeps eapi (bridge_events ?u) ?u (bridge_events ?u) ?v"
      by (simp add: keeps_def asgi_release_streams_def handles_issued_def)
    with same s show ?thesis using UpDownComplete by (intro kept) (simp_all add: op_asked_def)
  qed
qed

interpretation upstream_asked: machine_contract "sys_exec capi eapi" "\<lambda>_. client_ok capi \<and> fresh_handles eapi"
  "asked_inv eapi" for capi eapi
  by unfold_locales (blast intro: asked_exec_inv)

lemma asked_run_inv:
  assumes "client_ok capi" and "fresh_handles eapi"
  shows "asked_inv eapi (fold (sys_exec capi eapi) ops sys_new)"
proof (rule upstream_asked.fold_inv)
  show "asked_inv eapi sys_new"
    using up_new_ok by (simp add: asked_inv_def sys_new_def handles_issued_def upstream_new_def)
qed (simp add: list_all_iff assms)

section \<open>Properties\<close>

text \<open>
  C17. Reading an upstream response loses nothing. For any interleaving of the application's
  reads (also concurrent and cancelled ones), the tasks of the event loop and Envoy's callbacks,
  the bytes Envoy delivered for a response are exactly the bytes its reads have returned, in
  order, followed by the bytes still buffered for the next read.
\<close>

theorem async_body_conserved:
  fixes capi :: http_client_api and eapi :: envoy_api and ops :: "up_op list"
  assumes "client_ok capi"
  defines "y \<equiv> fold (sys_exec capi eapi) ops sys_new"
  shows "ys_fed y i = ys_read y i @ body_of (ys_up y) i"
  using body_run_inv [OF assms(1)] by (simp add: y_def body_inv_def)

definition one_stream_api :: envoy_api where
  "one_stream_api = \<lparr>start_result = (\<lambda>cs. (length cs = 1, 7)), reset_reenters = (\<lambda>_. None),
     status_from_bytes = Some, name_from_bytes = Some, value_from_bytes = Some\<rparr>"

definition demo_ops :: "up_op list" where
  "demo_ops = [UpExecute ''c'' 0 demo_attr, UpProcess, UpHeaders 7 [('':status'', ''204'')] False, UpRunTask, UpRunTask,
     UpAnext 0, UpData 7 [''ab'', ''c''] False, UpRunTask, UpData 7 [''d''] True]"

lemma demo_client_ok: "client_ok demo_client_api"
  by (simp add: client_ok_def demo_client_api_def)

lemma one_stream_fresh: "fresh_handles one_stream_api"
  by (auto simp: fresh_handles_def one_stream_api_def)

theorem async_body_conserved_witness:
  "case fold (sys_exec demo_client_api one_stream_api) demo_ops sys_new of
     y \<Rightarrow> ys_fed y 0 = ''abc'' @ body_of (ys_up y) 0 \<and> ys_fed y 0 = ''abcd'' \<and> ys_read y 0 = ''abc''"
proof -
  have "case fold (sys_exec demo_client_api one_stream_api) demo_ops sys_new of
      y \<Rightarrow> ys_fed y 0 = ''abcd'' \<and> ys_read y 0 = ''abc''" by code_simp
  then show ?thesis
    using async_body_conserved [OF demo_client_ok, of one_stream_api demo_ops 0] by auto
qed

text \<open>
  C18. No read of an upstream response sleeps through its data: whenever a read is pending and
  data, the end, an error or a reset is there, a task that handles it is queued on the event
  loop; and no task the loop runs ever fails, in particular none completes a future twice.
\<close>

theorem async_reads_wake:
  fixes capi :: http_client_api and eapi :: envoy_api and ops :: "up_op list"
  assumes "client_ok capi"
  defines "u \<equiv> ys_up (fold (sys_exec capi eapi) ops sys_new)"
  shows "(\<forall>i c. (i, c) \<in> set (enumerate 0 (up_contents u)) \<longrightarrow>
        cn_pending c = None \<or> cn_body c = [] \<and> \<not> cn_end_stream c \<or> NotifyResponse i \<in> set (up_tasks u))
     \<and> (case up_tasks u of [] \<Rightarrow> True | t # ts \<Rightarrow> fst (run_task capi t (u\<lparr>up_tasks := ts\<rparr>)) = None)"
proof -
  have inv: "up_inv (bridge_events u) u"
    using sys_run_ok [OF assms(1)] by (simp add: u_def up_ok_def)
  have "cn_pending c = None \<or> cn_body c = [] \<and> \<not> cn_end_stream c \<or> NotifyResponse i \<in> set (up_tasks u)"
    if "(i, c) \<in> set (enumerate 0 (up_contents u))" for i c
    using that up_invD(8) [OF inv, of i] by (auto simp: in_set_enumerate_eq awake_def)
  moreover have "fst (run_task capi t (u\<lparr>up_tasks := ts\<rparr>)) = None" if "up_tasks u = t # ts" for t ts
    using run_task_inv [OF assms(1) inv that] by blast
  ultimately show ?thesis by (auto split: list.split)
qed

theorem async_reads_wake_witness:
  "case ys_up (fold (sys_exec demo_client_api one_stream_api) (take 7 demo_ops) sys_new) of
     u \<Rightarrow> map cn_pending (up_contents u) = [Some 1] \<and> map cn_body (up_contents u) = [''abc'']
       \<and> up_tasks u = [NotifyResponse 0]
       \<and> fst (run_task demo_client_api (NotifyResponse 0) (u\<lparr>up_tasks := []\<rparr>)) = None"
proof -
  have "case ys_up (fold (sys_exec demo_client_api one_stream_api) (take 7 demo_ops) sys_new) of
      u \<Rightarrow> map cn_pending (up_contents u) = [Some 1] \<and> map cn_body (up_contents u) = [''abc'']
        \<and> up_tasks u = [NotifyResponse 0]" by code_simp
  then show ?thesis
    using async_reads_wake [OF demo_client_ok, of one_stream_api "take 7 demo_ops"] by simp
qed

text \<open>
  C12. No request of the asynchronous client is forgotten: after any run, a response future that
  the application holds and that is still pending is held by exactly one of an event waiting in
  the bridge, a live stream, or a task queued to complete it. Once the downstream stream has
  completed no stream is live, so only a queued task or an event left in the bridge, which stays
  open, can hold it.
\<close>

theorem upstream_futures_answered:
  fixes capi :: http_client_api and eapi :: envoy_api and ops :: "up_op list"
  assumes "client_ok capi" and "fresh_handles eapi"
  defines "y \<equiv> fold (sys_exec capi eapi) ops sys_new"
  defines "z \<equiv> ys_up (sys_exec capi eapi UpDownComplete y)"
  shows "(\<forall>f \<in> set (ys_asked y). up_futures (ys_up y) ! f = FutPending
        \<longrightarrow> count (held (bridge_events (ys_up y)) (ys_up y)) f = 1)
     \<and> up_streams z = []
     \<and> (\<forall>f \<in> set (ys_asked y). up_futures z ! f = FutPending
        \<longrightarrow> f \<in> set (concat (map event_futures (bridge_events z)) @ concat (map task_futures (up_tasks z))))"
proof -
  have y: "asked_inv eapi y" unfolding y_def by (rule asked_run_inv [OF assms(1,2)])
  have z: "asked_inv eapi (sys_exec capi eapi UpDownComplete y)"
    by (rule asked_exec_inv [OF assms(1,2) y])
  have streams: "up_streams z = []"
    by (simp add: z_def sys_exec_def Let_def asgi_release_streams_def release_fold_same)
  have "count (held (bridge_events (ys_up y)) (ys_up y)) f = 1"
    if "f \<in> set (ys_asked y)" "up_futures (ys_up y) ! f = FutPending" for f
  proof -
    have "f \<in># held (bridge_events (ys_up y)) (ys_up y)"
      using y that by (simp add: asked_inv_def accounted_def)
    then have "count (held (bridge_events (ys_up y)) (ys_up y)) f > 0" by (simp add: count_greater_zero_iff)
    moreover have "count (held (bridge_events (ys_up y)) (ys_up y)) f \<le> 1"
      using y up_invD(3) by (simp add: asked_inv_def up_ok_def)
    ultimately show ?thesis by linarith
  qed
  moreover have "f \<in># held (bridge_events z) z" if "f \<in> set (ys_asked y)" "up_futures z ! f = FutPending" for f
    using z that by (simp add: z_def asked_inv_def accounted_def sys_exec_def op_asked_def Let_def)
  ultimately show ?thesis using streams by (fastforce simp: held_def streams_held_def)
qed

theorem upstream_futures_answered_witness:
  "case fold (sys_exec demo_client_api one_stream_api) (take 2 demo_ops) sys_new of
     y \<Rightarrow> ys_asked y = [0] \<and> up_futures (ys_up y) = [FutPending]
       \<and> count (held (bridge_events (ys_up y)) (ys_up y)) 0 = 1"
proof -
  have "case fold (sys_exec demo_client_api one_stream_api) (take 2 demo_ops) sys_new of
      y \<Rightarrow> ys_asked y = [0] \<and> up_futures (ys_up y) = [FutPending]" by code_simp
  then show ?thesis
    using upstream_futures_answered [OF demo_client_ok one_stream_fresh, of "take 2 demo_ops"] by simp
qed

end
