(* ===== verification/Asgi_Filter.thy ===== *)
theory Asgi_Filter
  imports Asgi_App Asgi_Client Trace_Context
begin

text \<open>
  The Envoy filter of an ASGI request, \<open>src/src/asgi/filter.rs\<close>: how it completes the receive
  and send futures of the application, which calls it makes on Envoy for the response, and the
  end of the stream. The upstream streams of the HTTP client are in theory \<open>Asgi_Transport\<close>.
  The last sections put the filter, the application's callables, the client and Envoy together.
\<close>

section \<open>State\<close>

text \<open>
  \<open>af_trailers\<close> is \<open>response_trailers\<close>, \<open>af_watermark\<close> the downstream level, \<open>af_calls\<close> the calls
  on Envoy that write the response. What the filter shares with the callables is \<open>asgi_link\<close>.
\<close>

record asgi_filter = asgi_link +
  af_request_closed :: bool
  af_trailers :: "headers option"
  af_watermark :: u64
  af_calls :: "envoy_call list"
  af_upstream :: asgi_upstream

definition asgi_filter_new :: "bool \<Rightarrow> asgi_filter" where
  "asgi_filter_new enable_http_client =
     \<lparr>ln_response_closed = False, ln_recv = bridge_new, ln_send = bridge_new, ln_futures = 0,
      ln_tasks = [], ln_commits = [], af_request_closed = False, af_trailers = None,
      af_watermark = 0, af_calls = [], af_upstream = upstream_new enable_http_client\<rparr>"

section \<open>The request\<close>

text \<open>
  \<open>on_request_headers\<close>: the header calls of the trace propagation, if it is on, then the job
  for the executor. The request that the scope is made of is read after those calls, hence a
  function of them; \<open>header\<close> gives the first value of a header.
\<close>

record asgi_job =
  aj_scope :: scope
  aj_request_closed :: bool
  aj_trailers_accepted :: bool

definition asgi_on_request_headers :: "bool \<Rightarrow> trace_sampler option \<Rightarrow> envoy_span option
    \<Rightarrow> (bytes \<Rightarrow> bytes option) \<Rightarrow> http_api \<Rightarrow> (header_call list \<Rightarrow> envoy_request) \<Rightarrow> bool \<Rightarrow> asgi_filter
    \<Rightarrow> (header_call list \<times> asgi_job \<times> asgi_filter) rust" where
  "asgi_on_request_headers big_endian trace_sampler active_span header api request end_of_stream s =
     (let s = (if end_of_stream then s\<lparr>af_request_closed := True\<rparr> else s);
          trailers_accepted = (case header ''te'' of Some v \<Rightarrow> v = ''trailers'' | None \<Rightarrow> False)
      in rust_map
           (\<lambda>calls. (calls, \<lparr>aj_scope = new_scope api (request calls), aj_request_closed = end_of_stream,
                       aj_trailers_accepted = trailers_accepted\<rparr>, s))
           (case trace_sampler of
              Some sampler \<Rightarrow> propagate_active_span big_endian active_span header sampler
            | None \<Rightarrow> Ret []))"

definition recv_step :: "drain \<Rightarrow> nat \<Rightarrow> asgi_filter \<times> envoy_body \<Rightarrow> asgi_filter \<times> envoy_body" where
  "recv_step drain fut p =
     (case p of (s, env) \<Rightarrow>
        (case read_request_body drain env of
           (body, env) \<Rightarrow> (handle_recv_future body (\<not> af_request_closed s) fut s, env)))"

definition handle_read :: "drain \<Rightarrow> asgi_filter \<Rightarrow> envoy_body \<Rightarrow> asgi_filter \<times> envoy_body" where
  "handle_read drain s env =
     (if af_request_closed s \<or> has_request_body env then
        (case bridge_process (ln_recv s) of
           (futures, b) \<Rightarrow> fold (recv_step drain) futures (s\<lparr>ln_recv := b\<rparr>, env))
      else (s, env))"

definition asgi_on_request_body :: "drain \<Rightarrow> bool \<Rightarrow> asgi_filter \<Rightarrow> envoy_body
    \<Rightarrow> asgi_filter \<times> envoy_body" where
  "asgi_on_request_body drain end_of_stream s env =
     handle_read drain (if end_of_stream then s\<lparr>af_request_closed := True\<rparr> else s) env"

definition asgi_on_request_trailers :: "drain \<Rightarrow> asgi_filter \<Rightarrow> envoy_body \<Rightarrow> asgi_filter \<times> envoy_body" where
  "asgi_on_request_trailers drain s env = handle_read drain (s\<lparr>af_request_closed := True\<rparr>) env"

section \<open>The end of the stream\<close>

text \<open>Closing a bridge drops what is in it, which fails the futures.\<close>

definition asgi_on_stream_complete :: "asgi_filter \<Rightarrow> asgi_filter" where
  "asgi_on_stream_complete s =
     (let s = s\<lparr>ln_response_closed := True\<rparr>;
          s = (case bridge_close (ln_recv s) of
                 (dropped, b) \<Rightarrow> fold drop_recv_future dropped (s\<lparr>ln_recv := b\<rparr>));
          s = (case bridge_close (ln_send s) of
                 (dropped, b) \<Rightarrow> fold drop_send_event dropped (s\<lparr>ln_send := b\<rparr>))
      in s\<lparr>af_upstream := asgi_release_streams (af_upstream s)\<rparr>)"

section \<open>The response\<close>

text \<open>
  A call that writes the response may end the stream, and then Envoy re-enters
  \<open>on_stream_complete\<close> before the call returns; \<open>ends\<close> says so, of the calls made so far.
\<close>

definition resp_call :: "(envoy_call list \<Rightarrow> bool) \<Rightarrow> envoy_call \<Rightarrow> asgi_filter \<Rightarrow> asgi_filter" where
  "resp_call ends c s =
     (let s = s\<lparr>af_calls := af_calls s @ [c]\<rparr> in
      if ends (af_calls s) then asgi_on_stream_complete s else s)"

definition complete_send :: "asgi_body \<Rightarrow> asgi_filter \<Rightarrow> asgi_filter" where
  "complete_send bd s = (case ab_future bd of Some fut \<Rightarrow> handle_send_future fut s | None \<Rightarrow> s)"

definition asgi_head :: "asgi_start \<Rightarrow> headers" where
  "asgi_head st = ('':status'', as_status st) # as_headers st"

fun asgi_send_step :: "(envoy_call list \<Rightarrow> bool) \<Rightarrow> send_event \<Rightarrow> asgi_filter \<Rightarrow> asgi_filter" where
  "asgi_send_step ends (SendStart st bd) s =
     (let s = (if as_trailers st then s\<lparr>af_trailers := Some []\<rparr> else s);
          headers = asgi_head st;
          end_stream = (ab_future bd = None \<and> af_trailers s = None);
          s = complete_send bd s
      in if end_stream then
           (if ab_body bd = [] then resp_call ends (SendResponseHeaders headers True) s
            else resp_call ends (SendResponseData (ab_body bd) True)
                   (resp_call ends (SendResponseHeaders headers False) s))
         else resp_call ends (SendResponseData (ab_body bd) False)
                (resp_call ends (SendResponseHeaders headers False) s))"
| "asgi_send_step ends (SendBody bd) s =
     (let end_stream = (ab_future bd = None \<and> af_trailers s = None); s = complete_send bd s
      in resp_call ends (SendResponseData (ab_body bd) end_stream) s)"
| "asgi_send_step ends (SendTrailers hs more_trailers) s =
     (case af_trailers s of
        None \<Rightarrow> s
      | Some trailers \<Rightarrow>
          (let s = s\<lparr>af_trailers := None\<rparr>; trailers = trailers @ hs in
           if more_trailers then s\<lparr>af_trailers := Some trailers\<rparr>
           else resp_call ends (SendResponseTrailers trailers) s))"
| "asgi_send_step ends SendException s =
     resp_call ends (SendResponse 500
         [(''content-type'', ''text/plain; charset=utf-8''), (''connection'', ''close'')]
         ''Internal Server Error'') s"

definition asgi_process_send_events :: "(envoy_call list \<Rightarrow> bool) \<Rightarrow> asgi_filter \<Rightarrow> asgi_filter" where
  "asgi_process_send_events ends s =
     (case bridge_process (ln_send s) of
        (events, b) \<Rightarrow> fold (asgi_send_step ends) events (s\<lparr>ln_send := b\<rparr>))"

section \<open>Scheduled events and watermarks\<close>

definition asgi_on_scheduled :: "(envoy_call list \<Rightarrow> bool) \<Rightarrow> envoy_api \<Rightarrow> drain \<Rightarrow> nat \<Rightarrow> asgi_filter
    \<Rightarrow> envoy_body \<Rightarrow> (asgi_filter \<times> envoy_body) rust" where
  "asgi_on_scheduled ends eapi drain event_id s env =
     (if event_id = EVENT_ID_REQUEST then Ret (handle_read drain s env)
      else if event_id = EVENT_ID_RESPONSE then
        Ret (if af_watermark s = 0 then asgi_process_send_events ends s else s, env)
      else if event_id = EVENT_ID_OUTGOING_REQUEST then
        Ret (s\<lparr>af_upstream := asgi_transport_events eapi (af_upstream s)\<rparr>, env)
      else Panic)"

definition asgi_above_high_watermark :: "asgi_filter \<Rightarrow> asgi_filter" where
  "asgi_above_high_watermark s = s\<lparr>af_watermark := af_watermark s + 1\<rparr>"

definition asgi_below_low_watermark :: "asgi_filter \<Rightarrow> asgi_filter" where
  "asgi_below_low_watermark s =
     (let level = af_watermark s - 1; s = s\<lparr>af_watermark := level\<rparr> in
      if level = 0 then commit EVENT_ID_RESPONSE s else s)"

section \<open>The filter, the application and Envoy together\<close>

text \<open>
  The filter serves one request whose headers have been seen: the job says whether the receive
  callable is the empty one and which trailers the sender may send. Envoy delivers the events
  that were committed in their order, shows a chunk as received during \<open>on_request_body\<close> and
  buffers what is left of it, sends no body after the end of the request, and lowers the
  watermark only after it raised it (fewer than \<open>2 ^ 64\<close> times). The application, on its event
  loop, calls the callables at any time; \<open>AsgiClient\<close> is a step of the HTTP client
  (theory \<open>Asgi_Client\<close>), whose event is committed with the bridge's content.

  History: the bytes of the request that arrived, the events that the callables put on the send
  bridge, and those of them that the filter processed.
\<close>

datatype asgi_op =
    AsgiBody "bytes list" bool | AsgiTrailers | AsgiScheduled | AsgiOutgoing | AsgiComplete
  | AsgiAbove | AsgiBelow
  | AppRecv | AppSend pydict | AppDone "pyerr + unit"
  | AsgiClient up_op

record asgi_sys =
  gs_filter :: asgi_filter
  gs_env :: envoy_body
  gs_sender :: asgi_sender
  gs_empty_recv :: bool
  gs_arrived :: bytes
  gs_sent :: "send_event list"
  gs_done :: "send_event list"

record asgi_env =
  ge_ends :: "envoy_call list \<Rightarrow> bool"
  ge_envoy :: envoy_api
  ge_client :: http_client_api
  ge_parse :: asgi_api
  ge_drain :: drain

text \<open>The state that \<open>on_request_headers\<close> and \<open>run_app\<close> leave (\<open>headers_start\<close> below).\<close>

definition asgi_sys_new :: "bool \<Rightarrow> bool \<Rightarrow> bool \<Rightarrow> asgi_sys" where
  "asgi_sys_new enable_http_client end_of_stream trailers_accepted =
     \<lparr>gs_filter = (asgi_filter_new enable_http_client)\<lparr>af_request_closed := end_of_stream\<rparr>,
      gs_env = \<lparr>buffered_body = None, received_body = None\<rparr>,
      gs_sender = asgi_sender_new trailers_accepted, gs_empty_recv = end_of_stream,
      gs_arrived = [], gs_sent = [], gs_done = []\<rparr>"

definition run_read :: "(asgi_filter \<Rightarrow> envoy_body \<Rightarrow> asgi_filter \<times> envoy_body) \<Rightarrow> asgi_sys \<Rightarrow> asgi_sys" where
  "run_read f g = (case f (gs_filter g) (gs_env g) of (s, env) \<Rightarrow> g\<lparr>gs_filter := s, gs_env := env\<rparr>)"

definition keep_body :: "asgi_sys \<Rightarrow> asgi_sys" where
  "keep_body g =
     g\<lparr>gs_env := \<lparr>buffered_body = Some (chunks (buffered_body (gs_env g)) @ chunks (received_body (gs_env g))),
                  received_body = None\<rparr>\<rparr>"

text \<open>An operation of the application, with what it added to the send bridge.\<close>

definition app_step :: "asgi_sender \<Rightarrow> asgi_filter \<Rightarrow> asgi_sys \<Rightarrow> asgi_sys" where
  "app_step sender s g =
     g\<lparr>gs_filter := s, gs_sender := sender,
       gs_sent := gs_sent g @ drop (length (bridge_content (ln_send (gs_filter g)))) (bridge_content (ln_send s))\<rparr>"

fun is_down_complete :: "up_op \<Rightarrow> bool" where
  "is_down_complete UpDownComplete = True"
| "is_down_complete _ = False"

definition asgi_exec :: "asgi_env \<Rightarrow> asgi_op \<Rightarrow> asgi_sys \<Rightarrow> asgi_sys" where
  "asgi_exec e op g =
     (let s = gs_filter g in
      case op of
        AsgiBody cs end_of_stream \<Rightarrow>
          if af_request_closed s then g
          else keep_body (run_read (asgi_on_request_body (ge_drain e) end_of_stream)
                 (g\<lparr>gs_env := (gs_env g)\<lparr>received_body := Some cs\<rparr>, gs_arrived := gs_arrived g @ concat cs\<rparr>))
      | AsgiTrailers \<Rightarrow> keep_body (run_read (asgi_on_request_trailers (ge_drain e)) g)
      | AsgiScheduled \<Rightarrow>
          (case ln_commits s of
             [] \<Rightarrow> g
           | event_id # rest \<Rightarrow>
               (case asgi_on_scheduled (ge_ends e) (ge_envoy e) (ge_drain e) event_id (s\<lparr>ln_commits := rest\<rparr>)
                       (gs_env g) of
                  Panic \<Rightarrow> g
                | Ret (s', env) \<Rightarrow>
                    keep_body (g\<lparr>gs_filter := s', gs_env := env,
                      gs_done := gs_done g @
                        (if event_id = EVENT_ID_RESPONSE \<and> af_watermark s = 0
                         then bridge_content (ln_send s) else [])\<rparr>)))
      | AsgiOutgoing \<Rightarrow>
          (case asgi_on_scheduled (ge_ends e) (ge_envoy e) (ge_drain e) EVENT_ID_OUTGOING_REQUEST s (gs_env g) of
             Panic \<Rightarrow> g | Ret (s', env) \<Rightarrow> g\<lparr>gs_filter := s', gs_env := env\<rparr>)
      | AsgiComplete \<Rightarrow> g\<lparr>gs_filter := asgi_on_stream_complete s\<rparr>
      | AsgiAbove \<Rightarrow> if af_watermark s + 1 = 0 then g else g\<lparr>gs_filter := asgi_above_high_watermark s\<rparr>
      | AsgiBelow \<Rightarrow> if af_watermark s = 0 then g else g\<lparr>gs_filter := asgi_below_low_watermark s\<rparr>
      | AppRecv \<Rightarrow>
          if gs_empty_recv g then g else app_step (gs_sender g) (snd (recv_call s)) g
      | AppSend event \<Rightarrow>
          (case asgi_send (ge_parse e) event (gs_sender g) s of (_, sender, s) \<Rightarrow> app_step sender s g)
      | AppDone result \<Rightarrow> app_step (gs_sender g) (app_done result s) g
      | AsgiClient uop \<Rightarrow>
          if is_down_complete uop then g
          else g\<lparr>gs_filter := s\<lparr>af_upstream := up_exec (ge_client e) (ge_envoy e) uop (af_upstream s)\<rparr>\<rparr>)"

text \<open>The run of a request, for any interleaving of the operations.\<close>

definition asgi_run :: "asgi_env \<Rightarrow> bool \<Rightarrow> bool \<Rightarrow> bool \<Rightarrow> asgi_op list \<Rightarrow> asgi_sys" where
  "asgi_run e enable_http_client end_of_stream trailers_accepted ops =
     fold (asgi_exec e) ops (asgi_sys_new enable_http_client end_of_stream trailers_accepted)"

lemma headers_start:
  assumes "asgi_on_request_headers big_endian sampler span header api request end_of_stream (asgi_filter_new c)
      = Ret (calls, job, s)"
    and "run_app dec hc (aj_scope job) root state (aj_request_closed job) (aj_trailers_accepted job) call
      = Inr (kind, sender)"
  shows "asgi_sys_new c end_of_stream (aj_trailers_accepted job) =
     \<lparr>gs_filter = s, gs_env = \<lparr>buffered_body = None, received_body = None\<rparr>, gs_sender = sender,
      gs_empty_recv = (kind = EmptyRecv), gs_arrived = [], gs_sent = [], gs_done = []\<rparr>"
proof -
  have "s = (asgi_filter_new c)\<lparr>af_request_closed := end_of_stream\<rparr> \<and> aj_request_closed job = end_of_stream"
    using assms(1)
    by (cases "case sampler of Some sm \<Rightarrow> propagate_active_span big_endian span header sm | None \<Rightarrow> Ret []")
      (auto simp: asgi_on_request_headers_def asgi_filter_new_def Let_def)
  moreover have "sender = asgi_sender_new (aj_trailers_accepted job) \<and> (kind = EmptyRecv) = aj_request_closed job"
    using assms(2) by (auto simp: run_app_def split: sum.splits option.splits if_splits simp: pbind_Inr_conv)
  ultimately show ?thesis by (simp add: asgi_sys_new_def)
qed

section \<open>What each step does\<close>

lemma drop_recv_fold:
  "fold drop_recv_future futs s = s\<lparr>ln_tasks := ln_tasks s @ map RecvDisconnect futs\<rparr>"
proof (induction futs arbitrary: s)
  case Nil
  then show ?case by simp
next
  case (Cons f futs)
  then show ?case by (simp add: drop_recv_future_def loop_dispatch_def)
qed

lemma drop_send_fold:
  "fold drop_send_event es s =
     s\<lparr>ln_tasks := ln_tasks s @ map SendDisconnect (List.map_filter event_future es)\<rparr>"
proof (induction es arbitrary: s)
  case Nil
  then show ?case by simp
next
  case (Cons e es)
  then show ?case
    by (simp add: drop_send_event_def loop_dispatch_def List.map_filter_simps split: option.split)
qed

lemma complete_eq:
  "asgi_on_stream_complete s =
     s\<lparr>ln_response_closed := True, ln_recv := Closed, ln_send := Closed,
       ln_tasks := ln_tasks s @ map RecvDisconnect (bridge_content (ln_recv s))
         @ map SendDisconnect (List.map_filter event_future (bridge_content (ln_send s))),
       af_upstream := asgi_release_streams (af_upstream s)\<rparr>"
  by (simp add: asgi_on_stream_complete_def Let_def bridge_close_def drop_recv_fold drop_send_fold)

text \<open>The futures that were completed, and those that wait in a bridge.\<close>

definition completed :: "loop_task list \<Rightarrow> nat list" where
  "completed ts = map (fst \<circ> task_outcome) ts"

definition waiting :: "'a asgi_link_scheme \<Rightarrow> nat list" where
  "waiting l = bridge_content (ln_recv l) @ List.map_filter event_future (bridge_content (ln_send l))"

definition futures_of :: "'a asgi_link_scheme \<Rightarrow> nat multiset" where
  "futures_of l = mset (completed (ln_tasks l)) + mset (waiting l)"

lemma completed_simps [simp]:
  "completed [] = []" "completed (xs @ ys) = completed xs @ completed ys"
  "completed [t] = [fst (task_outcome t)]"
  "completed (map RecvDisconnect fs) = fs" "completed (map SendDisconnect fs) = fs"
  by (simp_all add: completed_def comp_def)

text \<open>What a response event makes the filter call, given the trailers collected so far.\<close>

fun asgi_event_calls :: "headers option \<Rightarrow> send_event \<Rightarrow> envoy_call list" where
  "asgi_event_calls tr (SendStart st bd) =
     (let end_stream = (ab_future bd = None \<and> \<not> as_trailers st \<and> tr = None) in
      if end_stream \<and> ab_body bd = [] then [SendResponseHeaders (asgi_head st) True]
      else [SendResponseHeaders (asgi_head st) False, SendResponseData (ab_body bd) end_stream])"
| "asgi_event_calls tr (SendBody bd) = [SendResponseData (ab_body bd) (ab_future bd = None \<and> tr = None)]"
| "asgi_event_calls tr (SendTrailers hs more_trailers) =
     (case tr of
        Some ts \<Rightarrow> if more_trailers then [] else [SendResponseTrailers (ts @ hs)] | None \<Rightarrow> [])"
| "asgi_event_calls tr SendException =
     [SendResponse 500 [(''content-type'', ''text/plain; charset=utf-8''), (''connection'', ''close'')]
        ''Internal Server Error'']"

fun collected :: "headers option \<Rightarrow> send_event \<Rightarrow> headers option" where
  "collected tr (SendStart st bd) = (if as_trailers st then Some [] else tr)"
| "collected tr (SendTrailers hs more_trailers) =
     (case tr of Some ts \<Rightarrow> if more_trailers then Some (ts @ hs) else None | None \<Rightarrow> None)"
| "collected tr _ = tr"

text \<open>What a response event leaves as it was, unless the stream ended.\<close>

fun is_recv_result :: "loop_task \<Rightarrow> bool" where
  "is_recv_result (RecvResult f b m) = True"
| "is_recv_result _ = False"

definition calm :: "asgi_filter \<Rightarrow> asgi_filter \<Rightarrow> bool" where
  "calm s s' \<longleftrightarrow>
     af_watermark s' = af_watermark s \<and> af_request_closed s' = af_request_closed s
     \<and> ln_futures s' = ln_futures s \<and> ln_commits s' = ln_commits s
     \<and> filter is_recv_result (ln_tasks s') = filter is_recv_result (ln_tasks s)
     \<and> ((ln_recv s' = ln_recv s \<and> ln_send s' = ln_send s \<and> af_upstream s' = af_upstream s)
        \<or> (ln_recv s' = Closed \<and> ln_send s' = Closed
           \<and> (\<exists>n. af_upstream s' = (asgi_release_streams ^^ n) (af_upstream s))))"

lemma calm_refl [simp]: "calm s s" by (simp add: calm_def)

lemma calm_trans: "calm s s' \<Longrightarrow> calm s' s'' \<Longrightarrow> calm s s''"
  unfolding calm_def by (auto simp: funpow_add [symmetric, unfolded comp_def, THEN fun_cong])

lemma filter_recv_map [simp]:
  "filter is_recv_result (map RecvDisconnect fs) = []" "filter is_recv_result (map SendDisconnect fs) = []"
  by (induction fs) simp_all

lemma complete_calm: "calm s (asgi_on_stream_complete s)"
  unfolding calm_def complete_eq by (intro conjI disjI2 exI [of _ 1]; simp)

lemma complete_futures: "futures_of (asgi_on_stream_complete s) = futures_of s"
  by (simp add: complete_eq futures_of_def waiting_def)

lemma resp_call_effects:
  "af_calls (resp_call ends c s) = af_calls s @ [c] \<and> af_trailers (resp_call ends c s) = af_trailers s
   \<and> futures_of (resp_call ends c s) = futures_of s \<and> calm s (resp_call ends c s)"
proof -
  let ?s = "s\<lparr>af_calls := af_calls s @ [c]\<rparr>"
  have "calm s ?s" by (simp add: calm_def)
  then have "calm s (asgi_on_stream_complete ?s)" using calm_trans complete_calm by blast
  moreover have "futures_of ?s = futures_of s" by (simp add: futures_of_def waiting_def)
  ultimately show ?thesis
    using complete_futures [of ?s] by (simp add: resp_call_def Let_def) (simp add: complete_eq calm_def)
qed

lemma complete_send_effects:
  "af_calls (complete_send bd s) = af_calls s \<and> af_trailers (complete_send bd s) = af_trailers s
   \<and> futures_of (complete_send bd s) = futures_of s + mset (case ab_future bd of None \<Rightarrow> [] | Some f \<Rightarrow> [f])
   \<and> calm s (complete_send bd s)"
  by (simp add: complete_send_def handle_send_future_def loop_dispatch_def futures_of_def waiting_def calm_def
      split: option.split)

lemma calm_resp [intro!]: "calm s t \<Longrightarrow> calm s (resp_call ends c t)"
  using calm_trans resp_call_effects by blast

lemma calm_send [intro!]: "calm s t \<Longrightarrow> calm s (complete_send bd t)"
  using calm_trans complete_send_effects by blast

lemma calm_trailers [simp]: "calm s (s\<lparr>af_trailers := tr\<rparr>)" "futures_of (s\<lparr>af_trailers := tr\<rparr>) = futures_of s"
  by (simp_all add: calm_def futures_of_def waiting_def)

lemma step_parts [simp]:
  "af_calls (resp_call ends c s) = af_calls s @ [c]" "af_trailers (resp_call ends c s) = af_trailers s"
  "futures_of (resp_call ends c s) = futures_of s"
  "af_calls (complete_send bd s) = af_calls s" "af_trailers (complete_send bd s) = af_trailers s"
  "futures_of (complete_send bd s) = futures_of s + mset (case ab_future bd of None \<Rightarrow> [] | Some f \<Rightarrow> [f])"
  using resp_call_effects complete_send_effects by simp_all

definition step_spec :: "send_event \<Rightarrow> asgi_filter \<Rightarrow> asgi_filter \<Rightarrow> bool" where
  "step_spec e s s' \<longleftrightarrow>
     af_calls s' = af_calls s @ asgi_event_calls (af_trailers s) e
     \<and> af_trailers s' = collected (af_trailers s) e
     \<and> futures_of s' = futures_of s + mset (List.map_filter event_future [e]) \<and> calm s s'"

lemma asgi_send_step_effects: "step_spec e s (asgi_send_step ends e s)"
  by (cases e) (auto simp: step_spec_def Let_def List.map_filter_simps split: option.split)

fun events_calls :: "headers option \<Rightarrow> send_event list \<Rightarrow> envoy_call list" where
  "events_calls tr [] = []"
| "events_calls tr (e # es) = asgi_event_calls tr e @ events_calls (collected tr e) es"

lemma asgi_send_steps_effects:
  "af_calls (fold (asgi_send_step ends) es s) = af_calls s @ events_calls (af_trailers s) es
   \<and> af_trailers (fold (asgi_send_step ends) es s) = foldl collected (af_trailers s) es
   \<and> futures_of (fold (asgi_send_step ends) es s) = futures_of s + mset (List.map_filter event_future es)
   \<and> calm s (fold (asgi_send_step ends) es s)"
proof (induction es arbitrary: s)
  case Nil
  then show ?case by (simp add: List.map_filter_simps)
next
  case (Cons e es)
  let ?t = "asgi_send_step ends e s"
  have "step_spec e s ?t" by (rule asgi_send_step_effects)
  with Cons.IH [of ?t] calm_trans [of s ?t] show ?case
    by (simp add: step_spec_def List.map_filter_simps split: option.split)
qed

text \<open>Draining the send bridge.\<close>

lemma asgi_process_send_effects:
  fixes ends :: "envoy_call list \<Rightarrow> bool" and s :: asgi_filter
  defines "s' \<equiv> asgi_process_send_events ends s" and "es \<equiv> bridge_content (ln_send s)"
  shows "af_calls s' = af_calls s @ events_calls (af_trailers s) es"
    and "af_trailers s' = foldl collected (af_trailers s) es"
    and "futures_of s' = futures_of s"
    and "bridge_content (ln_send s') = []" and "ln_send s = Closed \<Longrightarrow> ln_send s' = Closed"
    and "calm (s\<lparr>ln_send := ln_send s'\<rparr>) s'"
proof -
  define b where "b = snd (bridge_process (ln_send s))"
  have p: "bridge_process (ln_send s) = (es, b)" "bridge_content b = []" "ln_send s = Closed \<longrightarrow> b = Closed"
    by (cases "ln_send s"; simp add: b_def es_def)+
  have s': "s' = fold (asgi_send_step ends) es (s\<lparr>ln_send := b\<rparr>)"
    by (simp add: s'_def asgi_process_send_events_def p)
  note e = asgi_send_steps_effects [of ends es "s\<lparr>ln_send := b\<rparr>", folded s']
  show "af_calls s' = af_calls s @ events_calls (af_trailers s) es"
    and "af_trailers s' = foldl collected (af_trailers s) es" using e by simp_all
  show "futures_of s' = futures_of s"
    using e p(2) by (simp add: futures_of_def waiting_def es_def List.map_filter_simps)
  have c: "calm (s\<lparr>ln_send := b\<rparr>) s'" using e by simp
  then show "bridge_content (ln_send s') = []" and "ln_send s = Closed \<Longrightarrow> ln_send s' = Closed"
    using p(2,3) by (auto simp: calm_def)
  show "calm (s\<lparr>ln_send := ln_send s'\<rparr>) s'" using c by (auto simp: calm_def)
qed

section \<open>What the callables do\<close>

text \<open>The order of the events of one sender; the flag of \<open>PhBody\<close> is whether trailers follow.\<close>

datatype send_phase = PhStart | PhBody bool | PhTrailers | PhDone

fun send_phase_step :: "send_phase \<Rightarrow> send_event \<Rightarrow> send_phase option" where
  "send_phase_step p SendException = Some p"
| "send_phase_step PhStart (SendStart st bd) =
     Some (if ab_future bd \<noteq> None then PhBody (as_trailers st)
           else if as_trailers st then PhTrailers else PhDone)"
| "send_phase_step (PhBody t) (SendBody bd) =
     Some (if ab_future bd \<noteq> None then PhBody t else if t then PhTrailers else PhDone)"
| "send_phase_step PhTrailers (SendTrailers hs more_trailers) =
     Some (if more_trailers then PhTrailers else PhDone)"
| "send_phase_step _ _ = None"

fun send_run :: "send_phase \<Rightarrow> send_event list \<Rightarrow> send_phase option" where
  "send_run p [] = Some p"
| "send_run p (e # es) = (case send_phase_step p e of Some q \<Rightarrow> send_run q es | None \<Rightarrow> None)"

lemma send_run_append:
  "send_run p (xs @ ys) = (case send_run p xs of Some q \<Rightarrow> send_run q ys | None \<Rightarrow> None)"
  by (induction xs arbitrary: p) (auto split: option.split)

text \<open>The sender's state agrees with the events it has sent.\<close>

definition sender_at :: "send_phase \<Rightarrow> asgi_sender \<Rightarrow> bool" where
  "sender_at p s \<longleftrightarrow>
     (case se_next s of
        NextStart \<Rightarrow> p = PhStart \<and> se_start s = None
      | NextBody t \<Rightarrow>
          (case se_start s of
             Some st \<Rightarrow> p = PhStart \<and> as_trailers st = (t \<and> se_trailers_accepted s)
           | None \<Rightarrow> p = PhBody (t \<and> se_trailers_accepted s))
      | NextTrailers \<Rightarrow> se_trailers_accepted s \<longrightarrow> p = PhTrailers
      | NextDone \<Rightarrow> True)"

definition send_effect :: "send_event list \<Rightarrow> 'a asgi_link_scheme \<Rightarrow> 'a asgi_link_scheme \<Rightarrow> bool" where
  "send_effect es l l' \<longleftrightarrow>
     (\<exists>n ts.
        l' = l\<lparr>ln_send := ln_send l', ln_futures := ln_futures l + n, ln_tasks := ln_tasks l @ ts,
               ln_commits := ln_commits l @ (if es = [] then [] else [EVENT_ID_RESPONSE])\<rparr>
        \<and> filter is_recv_result ts = []
        \<and> mset (completed ts) + mset (List.map_filter event_future es) = mset [ln_futures l..<ln_futures l + n])
     \<and> bridge_content (ln_send l') = bridge_content (ln_send l) @ es
     \<and> (ln_send l' = Closed \<longleftrightarrow> ln_send l = Closed)"

lemma send_effect_refl [simp]: "send_effect [] l l"
  unfolding send_effect_def
  by (intro conjI exI [of _ 0] exI [of _ "[]"]) (simp_all add: List.map_filter_simps)

lemma offer_closed [simp]: "bridge_offer Closed e = (False, Closed)"
  by (simp add: bridge_offer_def)

lemma offer_open:
  assumes "b \<noteq> Closed"
  obtains b' where "bridge_offer b e = (True, b')" "b' \<noteq> Closed" "bridge_content b' = bridge_content b @ [e]"
  using assms by (cases b) (auto simp: bridge_offer_def)

text \<open>Offering an event, with a future created for it just before if it has one.\<close>

lemma send_offer_effect:
  fixes l :: "'a asgi_link_scheme"
  assumes o: "send_offer e s (l\<lparr>ln_futures := ln_futures l + n\<rparr>) = (ok, s', l')"
    and n: "map_option (\<lambda>f. [f]) (event_future e) = (if n = 0 then None else Some [ln_futures l])" "n \<le> 1"
  shows "if ln_send l = Closed then \<not> ok \<and> s' = s\<lparr>se_closed := True\<rparr> \<and> send_effect [] l l'
    else ok \<and> s' = s \<and> send_effect [e] l l'"
proof -
  have n01: "n = 0 \<and> event_future e = None \<or> n = 1 \<and> event_future e = Some (ln_futures l)"
    using n by (cases "n = 0") auto
  show ?thesis
  proof (cases "ln_send l = Closed")
    case True
    have "send_effect [] l l'"
      unfolding send_effect_def
      using n01 o True
      by (intro conjI exI [of _ n] exI [of _ "case event_future e of Some f \<Rightarrow> [SendDisconnect f] | None \<Rightarrow> []"])
        (auto simp: send_offer_def drop_send_event_def loop_dispatch_def List.map_filter_simps)
    with True o show ?thesis by (auto simp: send_offer_def)
  next
    case False
    then obtain b' where b': "bridge_offer (ln_send l) e = (True, b')" "b' \<noteq> Closed"
      "bridge_content b' = bridge_content (ln_send l) @ [e]" by (rule offer_open)
    have "send_effect [e] l l'"
      unfolding send_effect_def
      using n01 o False b'
      by (intro conjI exI [of _ n] exI [of _ "[]"])
        (auto simp: send_offer_def commit_def List.map_filter_simps)
    with False o b' show ?thesis by (auto simp: send_offer_def)
  qed
qed

definition sender_step :: "send_event list \<Rightarrow> asgi_sender \<Rightarrow> asgi_sender \<Rightarrow> 'a asgi_link_scheme \<Rightarrow> bool" where
  "sender_step es s s' l \<longleftrightarrow>
     se_trailers_accepted s' = se_trailers_accepted s
     \<and> (if ln_send l = Closed then es = []
        else se_closed s' = se_closed s
             \<and> (\<forall>p. sender_at p s \<longrightarrow> (\<exists>q. send_run p es = Some q \<and> sender_at q s')))"

lemma sender_step_refl [simp]: "sender_step [] s s l"
  by (simp add: sender_step_def)

lemma send_chunk_effect:
  assumes c: "send_chunk t body more_body s l = (r, s', l')" and t: "se_next s = NextBody t"
  shows "\<exists>es. send_effect es l l' \<and> sender_step es s s' l"
proof -
  define n :: nat where "n = (if more_body then 1 else 0)"
  define bd where "bd = \<lparr>ab_body = body, ab_future = (if more_body then Some (ln_futures l) else None)\<rparr>"
  define s1 where "s1 = (if more_body then s else s\<lparr>se_next := (if t then NextTrailers else NextDone)\<rparr>)"
  define e where "e = (case se_start s of Some st \<Rightarrow> SendStart st bd | None \<Rightarrow> SendBody bd)"
  define s2 where "s2 = (if se_start s = None then s1 else s1\<lparr>se_start := None\<rparr>)"
  obtain ok where "send_offer e s2 (l\<lparr>ln_futures := ln_futures l + n\<rparr>) = (ok, s', l')"
    using c by (cases "send_offer e s2 (l\<lparr>ln_futures := ln_futures l + n\<rparr>)")
      (auto simp: send_chunk_def Let_def create_future_def n_def bd_def s1_def s2_def e_def
        split: option.splits if_splits)
  moreover have "map_option (\<lambda>f. [f]) (event_future e) = (if n = 0 then None else Some [ln_futures l])" "n \<le> 1"
    by (simp_all add: n_def e_def bd_def split: option.split)
  ultimately have "if ln_send l = Closed then \<not> ok \<and> s' = s2\<lparr>se_closed := True\<rparr> \<and> send_effect [] l l'
      else ok \<and> s' = s2 \<and> send_effect [e] l l'" by (rule send_offer_effect)
  moreover have "\<exists>q. send_run p [e] = Some q \<and> sender_at q s2" if "sender_at p s" for p
    using that t
    by (cases "se_start s") (auto simp: sender_at_def s2_def s1_def e_def bd_def)
  ultimately show ?thesis
    by (intro exI [of _ "if ln_send l = Closed then [] else [e]"])
      (auto simp: sender_step_def s2_def s1_def split: if_splits)
qed

lemma sender_at_done:
  "sender_step [] s (s\<lparr>se_next := NextDone\<rparr>) l"
  by (simp add: sender_step_def sender_at_def)

lemma send_trailers_effect:
  assumes c: "send_trailers_event api event s l = (r, s', l')" and t: "se_next s = NextTrailers"
  shows "\<exists>es. send_effect es l l' \<and> sender_step es s s' l"
proof (cases "flag event ''more_trailers''")
  case (Inl e)
  with c show ?thesis by (auto simp: send_trailers_event_def intro: exI [of _ "[]"])
next
  case (Inr m)
  define s1 where "s1 = (if m then s else s\<lparr>se_next := NextDone\<rparr>)"
  have s1: "sender_step [] s s1 l" by (simp add: s1_def sender_at_done)
  show ?thesis
  proof (cases "\<exists>hs. se_trailers_accepted s \<and> extract_headers_from_event api event = Inr hs")
    case False
    then have "s' = s1 \<and> l' = l"
      using c Inr by (auto simp: send_trailers_event_def Let_def s1_def split: sum.splits if_splits)
    with s1 show ?thesis by (auto intro: exI [of _ "[]"])
  next
    case True
    then obtain hs where hs: "se_trailers_accepted s" "extract_headers_from_event api event = Inr hs" by blast
    have l0: "l\<lparr>ln_futures := ln_futures l + 0\<rparr> = l" by simp
    obtain ok where "send_offer (SendTrailers hs m) s1 (l\<lparr>ln_futures := ln_futures l + 0\<rparr>) = (ok, s', l')"
      using c Inr hs l0 by (cases "send_offer (SendTrailers hs m) s1 l")
        (auto simp: send_trailers_event_def Let_def s1_def split: bool.splits if_splits)
    from send_offer_effect [OF this]
    have "if ln_send l = Closed then \<not> ok \<and> s' = s1\<lparr>se_closed := True\<rparr> \<and> send_effect [] l l'
        else ok \<and> s' = s1 \<and> send_effect [SendTrailers hs m] l l'" by simp
    then show ?thesis
      using t hs(1)
      by (intro exI [of _ "if ln_send l = Closed then [] else [SendTrailers hs m]"])
        (auto simp: sender_step_def sender_at_def s1_def split: if_splits)
  qed
qed

lemma send_start_effect:
  assumes "send_start api event s = Inr s'" and "se_next s = NextStart"
  shows "sender_step [] s s' l"
  using assms by (auto simp: send_start_def pbind_Inr_conv sender_step_def sender_at_def)

lemma asgi_send_effect:
  assumes c: "asgi_send api event s l = (r, s', l')"
  shows "\<exists>es. send_effect es l l' \<and> sender_step es s s' l \<and> (se_closed s \<longrightarrow> es = [] \<and> s' = s)"
proof (cases "\<exists>ty. \<not> se_closed s \<and> event_type event = Inr ty")
  case False
  with c have "s' = s \<and> l' = l" by (auto simp: asgi_send_def split: sum.splits if_splits)
  then show ?thesis by (auto intro: exI [of _ "[]"])
next
  case True
  then obtain ty where ty: "\<not> se_closed s" "event_type event = Inr ty" by blast
  have same: "\<exists>es. send_effect es l l \<and> sender_step es s s l" by (auto intro: exI [of _ "[]"])
  have "\<exists>es. send_effect es l l' \<and> sender_step es s s' l"
  proof (cases "se_next s")
    case NextStart
    then have "l' = l \<and> (s' = s \<or> send_start api event s = Inr s')"
      using c ty by (auto simp: asgi_send_def split: if_splits sum.splits)
    then have "l' = l \<and> sender_step [] s s' l" using send_start_effect NextStart by auto
    then show ?thesis by (intro exI [of _ "[]"]) simp
  next
    case (NextBody t)
    then show ?thesis
      using c ty same send_chunk_effect [OF _ NextBody]
      by (auto simp: asgi_send_def send_body_event_def split: if_splits sum.splits prod.splits)
  next
    case NextTrailers
    then show ?thesis
      using c ty same send_trailers_effect [OF _ NextTrailers]
      by (auto simp: asgi_send_def split: if_splits)
  next
    case NextDone
    then show ?thesis using c ty same by (auto simp: asgi_send_def)
  qed
  with ty show ?thesis by blast
qed

lemma app_done_effect:
  "\<exists>es. send_effect es l (app_done result l) \<and> list_all (\<lambda>e. e = SendException) es"
proof (cases "\<exists>e. result = Inl e \<and> e \<noteq> ClientDisconnectedError \<and> ln_send l \<noteq> Closed")
  case True
  then obtain b' where b': "bridge_offer (ln_send l) SendException = (True, b')" "b' \<noteq> Closed"
      "bridge_content b' = bridge_content (ln_send l) @ [SendException]" by (metis offer_open)
  have "send_effect [SendException] l (app_done result l)"
    unfolding send_effect_def
    using True b' by (intro conjI exI [of _ 0] exI [of _ "[]"])
      (auto simp: app_done_def commit_def List.map_filter_simps)
  then show ?thesis by (intro exI [of _ "[SendException]"]) simp
next
  case False
  then have "app_done result l = l" by (auto simp: app_done_def split: sum.splits)
  then show ?thesis by (intro exI [of _ "[]"]) simp
qed

lemma send_run_exceptions: "list_all (\<lambda>e. e = SendException) es \<Longrightarrow> send_run p es = Some p"
  by (induction es) simp_all

end
