(* ===== verification/Asgi_Request.thy ===== *)
theory Asgi_Request
  imports Asgi_Filter "HOL-Library.Sublist"
begin

text \<open>
  What holds of every run of an ASGI request (\<open>asgi_run\<close> of theory \<open>Asgi_Filter\<close>): the
  futures, the request body, the response, the wakeups, and the HTTP client inside the filter.
\<close>

section \<open>Reading\<close>

fun recv_body :: "loop_task \<Rightarrow> bytes" where
  "recv_body (RecvResult fut b more_body) = b"
| "recv_body _ = []"

fun last_recv :: "loop_task \<Rightarrow> bool" where
  "last_recv (RecvResult fut b more_body) = (\<not> more_body)"
| "last_recv _ = False"

definition recv_bytes :: "loop_task list \<Rightarrow> bytes" where
  "recv_bytes ts = concat (map recv_body ts)"

lemma recv_bytes_filter: "recv_bytes ts = recv_bytes (filter is_recv_result ts)"
proof (induction ts)
  case Nil
  then show ?case by simp
next
  case (Cons t ts)
  then show ?case by (cases t) (simp_all add: recv_bytes_def)
qed

lemma last_recv_filter: "list_ex last_recv ts = list_ex last_recv (filter is_recv_result ts)"
proof (induction ts)
  case Nil
  then show ?case by simp
next
  case (Cons t ts)
  then show ?case by (cases t) simp_all
qed

lemma recv_fold:
  "\<exists>ts env'. fold (recv_step drain) futs (s, env) = (s\<lparr>ln_tasks := ln_tasks s @ ts\<rparr>, env') \<and> completed ts = futs
     \<and> list_all (\<lambda>t. last_recv t = af_request_closed s) ts
     \<and> (drain_law drain \<longrightarrow> recv_bytes ts @ remaining_body env' = remaining_body env
          \<and> (if futs = [] then env' = env else remaining_body env' = []))"
proof (induction futs arbitrary: s env)
  case Nil
  then show ?case by (intro exI [of _ "[]"] exI [of _ env]) (simp add: recv_bytes_def)
next
  case (Cons f futs)
  obtain body env1 where r: "read_request_body drain env = (body, env1)" by (cases "read_request_body drain env")
  let ?t = "RecvResult f body (\<not> af_request_closed s)"
  let ?s = "s\<lparr>ln_tasks := ln_tasks s @ [?t]\<rparr>"
  from Cons.IH [of ?s env1] obtain ts env' where
    ts: "fold (recv_step drain) futs (?s, env1) = (?s\<lparr>ln_tasks := ln_tasks ?s @ ts\<rparr>, env')" "completed ts = futs"
      "list_all (\<lambda>t. last_recv t = af_request_closed s) ts"
      "drain_law drain \<longrightarrow> recv_bytes ts @ remaining_body env' = remaining_body env1
          \<and> (if futs = [] then env' = env1 else remaining_body env' = [])" by auto
  have "recv_step drain f (s, env) = (?s, env1)"
    by (simp add: recv_step_def r handle_recv_future_def loop_dispatch_def)
  moreover have "drain_law drain \<longrightarrow> body = remaining_body env \<and> remaining_body env1 = []"
    using read_request_body_spec [of drain env] r by (auto simp: remaining_body_def has_request_body_content)
  ultimately show ?case
    using ts by (intro exI [of _ "?t # ts"] exI [of _ env'])
      (auto simp: recv_bytes_def completed_def split: if_splits)
qed

lemma handle_read_effects:
  "\<exists>ts b env'. handle_read drain s env = (s\<lparr>ln_recv := b, ln_tasks := ln_tasks s @ ts\<rparr>, env')
     \<and> completed ts @ bridge_content b = bridge_content (ln_recv s)
     \<and> list_all (\<lambda>t. last_recv t = af_request_closed s) ts
     \<and> (if af_request_closed s \<or> remaining_body env \<noteq> [] then bridge_content b = []
        else ts = [] \<and> b = ln_recv s \<and> env' = env)
     \<and> (drain_law drain \<longrightarrow> recv_bytes ts @ remaining_body env' = remaining_body env
          \<and> (if ts = [] then env' = env else remaining_body env' = []))"
proof (cases "af_request_closed s \<or> has_request_body env")
  case True
  obtain b where b: "bridge_process (ln_recv s) = (bridge_content (ln_recv s), b)" "bridge_content b = []"
    by (cases "ln_recv s") auto
  let ?s = "s\<lparr>ln_recv := b\<rparr>"
  from recv_fold [of drain "bridge_content (ln_recv s)" ?s env] obtain ts env' where
    ts: "fold (recv_step drain) (bridge_content (ln_recv s)) (?s, env)
        = (?s\<lparr>ln_tasks := ln_tasks ?s @ ts\<rparr>, env')" "completed ts = bridge_content (ln_recv s)"
      "list_all (\<lambda>t. last_recv t = af_request_closed ?s) ts"
      "drain_law drain \<longrightarrow> recv_bytes ts @ remaining_body env' = remaining_body env
          \<and> (if bridge_content (ln_recv s) = [] then env' = env else remaining_body env' = [])" by blast
  have "handle_read drain s env = (s\<lparr>ln_recv := b, ln_tasks := ln_tasks s @ ts\<rparr>, env')"
    using True b(1) ts(1) by (simp add: handle_read_def)
  moreover have "(ts = []) = (bridge_content (ln_recv s) = [])" using ts(2) by (auto simp: completed_def)
  ultimately show ?thesis
    using True b(2) ts(2-4) by (intro exI [of _ ts] exI [of _ b] exI [of _ env']) (simp add: remaining_body_iff)
next
  case False
  then show ?thesis
    by (intro exI [of _ "[]"] exI [of _ "ln_recv s"] exI [of _ env])
      (simp add: handle_read_def remaining_body_iff recv_bytes_def)
qed

section \<open>The steps\<close>

text \<open>
  Every operation is one of a few kinds of step on the filter: it reads, it sends the response
  events, it ends the stream, it is a step of the application that adds events, or it changes
  only the watermark, the commits or the client.
\<close>

definition read_move :: "drain \<Rightarrow> asgi_sys \<Rightarrow> asgi_filter \<Rightarrow> envoy_body \<Rightarrow> asgi_sys \<Rightarrow> bool" where
  "read_move drain g s env g' \<longleftrightarrow>
     (\<exists>s' env'. handle_read drain s env = (s', env')
        \<and> gs_filter g' = s' \<and> remaining_body (gs_env g') = remaining_body env'
        \<and> received_body (gs_env g') = None
        \<and> gs_sent g' = gs_sent g \<and> gs_done g' = gs_done g \<and> gs_sender g' = gs_sender g)"

lemma keep_body_simps [simp]:
  "gs_filter (keep_body g) = gs_filter g" "gs_sent (keep_body g) = gs_sent g" "gs_done (keep_body g) = gs_done g"
  "gs_sender (keep_body g) = gs_sender g" "gs_arrived (keep_body g) = gs_arrived g"
  "remaining_body (gs_env (keep_body g)) = remaining_body (gs_env g)" "received_body (gs_env (keep_body g)) = None"
  by (simp_all add: keep_body_def remaining_body_def content_def chunks_def split: option.split)

lemma run_read_move:
  "read_move drain g s env (keep_body (run_read (\<lambda>s' env'. handle_read drain s env) g))"
  "gs_arrived (run_read f g) = gs_arrived g"
  by (auto simp: read_move_def run_read_def split: prod.split)

lemma exec_request_body:
  assumes "\<not> af_request_closed (gs_filter g)"
  shows "read_move (ge_drain e) g
      (if es then (gs_filter g)\<lparr>af_request_closed := True\<rparr> else gs_filter g)
      ((gs_env g)\<lparr>received_body := Some cs\<rparr>) (asgi_exec e (AsgiBody cs es) g)"
    and "gs_arrived (asgi_exec e (AsgiBody cs es) g) = gs_arrived g @ concat cs"
  using assms
  by (auto simp: read_move_def run_read_def asgi_exec_def Let_def asgi_on_request_body_def split: prod.split)

lemma exec_trailers:
  "read_move (ge_drain e) g ((gs_filter g)\<lparr>af_request_closed := True\<rparr>) (gs_env g) (asgi_exec e AsgiTrailers g)"
  "gs_arrived (asgi_exec e AsgiTrailers g) = gs_arrived g"
  by (auto simp: read_move_def run_read_def asgi_exec_def Let_def asgi_on_request_trailers_def split: prod.split)

lemma exec_scheduled:
  assumes "ln_commits (gs_filter g) = i # rest"
  shows "i = EVENT_ID_REQUEST \<Longrightarrow>
      read_move (ge_drain e) g ((gs_filter g)\<lparr>ln_commits := rest\<rparr>) (gs_env g) (asgi_exec e AsgiScheduled g)
      \<and> gs_arrived (asgi_exec e AsgiScheduled g) = gs_arrived g"
    and "i = EVENT_ID_RESPONSE \<Longrightarrow> asgi_exec e AsgiScheduled g =
      keep_body (if af_watermark (gs_filter g) = 0 then
          g\<lparr>gs_filter := asgi_process_send_events (ge_ends e) ((gs_filter g)\<lparr>ln_commits := rest\<rparr>),
            gs_done := gs_done g @ bridge_content (ln_send (gs_filter g))\<rparr>
        else g\<lparr>gs_filter := (gs_filter g)\<lparr>ln_commits := rest\<rparr>\<rparr>)"
    and "i \<noteq> EVENT_ID_REQUEST \<Longrightarrow> i \<noteq> EVENT_ID_RESPONSE \<Longrightarrow>
      asgi_exec e AsgiScheduled g = g \<or> (\<exists>s. s = (gs_filter g)\<lparr>ln_commits := rest,
        af_upstream := asgi_transport_events (ge_envoy e) (af_upstream (gs_filter g))\<rparr>
        \<and> asgi_exec e AsgiScheduled g = keep_body (g\<lparr>gs_filter := s\<rparr>))"
  using assms
  by (auto simp: read_move_def asgi_exec_def Let_def asgi_on_scheduled_def EVENT_ID_REQUEST_def
      EVENT_ID_RESPONSE_def EVENT_ID_OUTGOING_REQUEST_def split: prod.split)

text \<open>
  The cases of \<open>AsgiScheduled\<close>: nothing to do, a read, the response events (nothing is sent
  above the watermark), or a change of the commits and the client only.
\<close>

lemma exec_scheduled_cases:
  assumes "P g"
    and "\<And>rest. ln_commits (gs_filter g) = EVENT_ID_REQUEST # rest \<Longrightarrow> P (asgi_exec e AsgiScheduled g)"
    and "\<And>rest s. calm ((gs_filter g)\<lparr>ln_commits := rest, ln_send := ln_send s\<rparr>) s
      \<Longrightarrow> s = asgi_process_send_events (ge_ends e) ((gs_filter g)\<lparr>ln_commits := rest\<rparr>)
      \<Longrightarrow> asgi_exec e AsgiScheduled g = keep_body (g\<lparr>gs_filter := s,
            gs_done := gs_done g @ bridge_content (ln_send (gs_filter g))\<rparr>) \<Longrightarrow> P (asgi_exec e AsgiScheduled g)"
    and "\<And>rest u. u = af_upstream (gs_filter g) \<or> u = asgi_transport_events (ge_envoy e) (af_upstream (gs_filter g))
      \<Longrightarrow> asgi_exec e AsgiScheduled g
            = keep_body (g\<lparr>gs_filter := (gs_filter g)\<lparr>ln_commits := rest, af_upstream := u\<rparr>\<rparr>)
      \<Longrightarrow> P (asgi_exec e AsgiScheduled g)"
  shows "P (asgi_exec e AsgiScheduled g)"
proof (cases "ln_commits (gs_filter g)")
  case Nil
  with assms(1) show ?thesis by (simp add: asgi_exec_def Let_def)
next
  case (Cons i rest)
  let ?s = "(gs_filter g)\<lparr>ln_commits := rest\<rparr>"
  have same: "?s\<lparr>af_upstream := af_upstream (gs_filter g)\<rparr> = ?s" by simp
  consider "i = EVENT_ID_REQUEST" | (send) "i = EVENT_ID_RESPONSE" "af_watermark (gs_filter g) = 0"
    | (above) "i = EVENT_ID_RESPONSE" "af_watermark (gs_filter g) \<noteq> 0"
    | (other) "i \<noteq> EVENT_ID_REQUEST" "i \<noteq> EVENT_ID_RESPONSE" by blast
  then show ?thesis
  proof cases
    case 1
    with assms(2) Cons show ?thesis by blast
  next
    case send
    show ?thesis
      by (rule assms(3) [OF _ refl])
        (use asgi_process_send_effects(6) [where s = ?s and ends = "ge_ends e"] send in \<open>simp_all add: exec_scheduled(2) [OF Cons send(1)]\<close>)
  next
    case above
    with same show ?thesis
      by (intro assms(4) [of "af_upstream (gs_filter g)" rest]) (simp_all add: exec_scheduled(2) [OF Cons above(1)])
  next
    case other
    from exec_scheduled(3) [OF Cons other, of e] assms(1)
      assms(4) [of "asgi_transport_events (ge_envoy e) (af_upstream (gs_filter g))" rest] show ?thesis by auto
  qed
qed

lemma exec_outgoing:
  "asgi_exec e AsgiOutgoing g =
     g\<lparr>gs_filter := (gs_filter g)\<lparr>af_upstream := asgi_transport_events (ge_envoy e) (af_upstream (gs_filter g))\<rparr>\<rparr>"
  by (simp add: asgi_exec_def Let_def asgi_on_scheduled_def EVENT_ID_REQUEST_def
      EVENT_ID_RESPONSE_def EVENT_ID_OUTGOING_REQUEST_def)

text \<open>The application's steps on the send bridge.\<close>

definition send_move :: "send_event list \<Rightarrow> asgi_sys \<Rightarrow> asgi_sys \<Rightarrow> bool" where
  "send_move es g g' \<longleftrightarrow>
     send_effect es (gs_filter g) (gs_filter g') \<and> gs_sent g' = gs_sent g @ es \<and> gs_done g' = gs_done g
     \<and> gs_env g' = gs_env g \<and> gs_arrived g' = gs_arrived g"

lemma send_effect_same:
  assumes "send_effect es s s'"
  shows "af_calls s' = af_calls s \<and> af_trailers s' = af_trailers s \<and> af_request_closed s' = af_request_closed s
    \<and> af_upstream s' = af_upstream s \<and> ln_recv s' = ln_recv s
    \<and> filter is_recv_result (ln_tasks s') = filter is_recv_result (ln_tasks s)"
proof -
  obtain n ts b cs where "s' = s\<lparr>ln_send := b, ln_futures := n, ln_tasks := ln_tasks s @ ts, ln_commits := cs\<rparr>"
    "filter is_recv_result ts = []"
    using assms unfolding send_effect_def by blast
  then show ?thesis by simp
qed

lemma app_step_move:
  "send_effect es (gs_filter g) s \<Longrightarrow> send_move es g (app_step sender s g) \<and> gs_sender (app_step sender s g) = sender"
  by (auto simp: send_move_def app_step_def send_effect_def)

lemma exec_send:
  "\<exists>es. send_move es g (asgi_exec e (AppSend event) g)
     \<and> sender_step es (gs_sender g) (gs_sender (asgi_exec e (AppSend event) g)) (gs_filter g)
     \<and> (se_closed (gs_sender g) \<longrightarrow> es = [] \<and> gs_sender (asgi_exec e (AppSend event) g) = gs_sender g)"
proof -
  obtain r sender s where c: "asgi_send (ge_parse e) event (gs_sender g) (gs_filter g) = (r, sender, s)"
    by (cases "asgi_send (ge_parse e) event (gs_sender g) (gs_filter g)")
  have "asgi_exec e (AppSend event) g = app_step sender s g" by (simp add: asgi_exec_def c)
  with asgi_send_effect [OF c] app_step_move [where g = g and s = s and sender = sender] show ?thesis by metis
qed

lemma exec_app_done:
  "\<exists>es. send_move es g (asgi_exec e (AppDone r) g) \<and> gs_sender (asgi_exec e (AppDone r) g) = gs_sender g
     \<and> list_all (\<lambda>e. e = SendException) es"
proof -
  obtain es where es: "send_effect es (gs_filter g) (app_done r (gs_filter g))" "list_all (\<lambda>e. e = SendException) es"
    using app_done_effect by blast
  from app_step_move [OF es(1), of "gs_sender g"] es(2) show ?thesis
    by (intro exI [of _ es]) (simp add: asgi_exec_def)
qed

text \<open>\<open>recv_call\<close> creates a future and leaves it in the bridge, or completes it at once.\<close>

lemma recv_call_effects:
  fixes l :: "'a asgi_link_scheme"
  defines "l' \<equiv> snd (recv_call l)"
  shows "\<exists>b. l' = (if ln_recv l = Closed
      then l\<lparr>ln_futures := ln_futures l + 1, ln_tasks := ln_tasks l @ [RecvDisconnect (ln_futures l)]\<rparr>
      else l\<lparr>ln_futures := ln_futures l + 1, ln_recv := b, ln_commits := ln_commits l @ [EVENT_ID_REQUEST]\<rparr>)
    \<and> (ln_recv l \<noteq> Closed \<longrightarrow> b \<noteq> Closed \<and> bridge_content b = bridge_content (ln_recv l) @ [ln_futures l])"
proof (cases "ln_recv l = Closed")
  case True
  then show ?thesis
    by (cases l) (simp add: l'_def recv_call_def create_future_def drop_recv_future_def loop_dispatch_def)
next
  case False
  then obtain b where "bridge_offer (ln_recv l) (ln_futures l) = (True, b)" "b \<noteq> Closed"
      "bridge_content b = bridge_content (ln_recv l) @ [ln_futures l]" by (rule offer_open)
  with False show ?thesis
    by (intro exI [of _ b]) (simp add: l'_def recv_call_def create_future_def commit_def)
qed

lemma exec_recv:
  "asgi_exec e AppRecv g = (if gs_empty_recv g then g else g\<lparr>gs_filter := snd (recv_call (gs_filter g))\<rparr>)"
proof -
  have "ln_send (snd (recv_call (gs_filter g))) = ln_send (gs_filter g)"
    by (simp add: recv_call_def create_future_def commit_def drop_recv_future_def loop_dispatch_def
        split: prod.split bool.split)
  then show ?thesis by (simp add: asgi_exec_def Let_def app_step_def)
qed

section \<open>Futures and wakeups\<close>

text \<open>
  Every future that was created is completed once or waits in one bridge; and what waits while
  the filter could serve it has an event committed that makes the filter do so.
\<close>

definition filter_ok :: "asgi_filter \<Rightarrow> bool" where
  "filter_ok s \<longleftrightarrow>
     futures_of s = mset [0..<ln_futures s]
     \<and> set (ln_commits s) \<subseteq> {EVENT_ID_REQUEST, EVENT_ID_RESPONSE}
     \<and> (bridge_content (ln_send s) \<noteq> [] \<and> af_watermark s = 0 \<longrightarrow> EVENT_ID_RESPONSE \<in> set (ln_commits s))"

definition recv_awake :: "asgi_filter \<Rightarrow> envoy_body \<Rightarrow> bool" where
  "recv_awake s env \<longleftrightarrow>
     (bridge_content (ln_recv s) \<noteq> [] \<and> (af_request_closed s \<or> remaining_body env \<noteq> [])
        \<longrightarrow> EVENT_ID_REQUEST \<in> set (ln_commits s))"

definition tasks_inv :: "asgi_sys \<Rightarrow> bool" where
  "tasks_inv g \<longleftrightarrow> filter_ok (gs_filter g) \<and> recv_awake (gs_filter g) (gs_env g)"

lemma read_move_ok:
  assumes "read_move drain g s env g'" and "filter_ok s"
  shows "tasks_inv g'"
proof -
  obtain ts b env' where e: "handle_read drain s env = (s\<lparr>ln_recv := b, ln_tasks := ln_tasks s @ ts\<rparr>, env')"
    and r: "completed ts @ bridge_content b = bridge_content (ln_recv s)"
      "if af_request_closed s \<or> remaining_body env \<noteq> [] then bridge_content b = []
       else ts = [] \<and> b = ln_recv s \<and> env' = env"
    using handle_read_effects [of drain s env] by blast
  from e assms(1) have h: "gs_filter g' = s\<lparr>ln_recv := b, ln_tasks := ln_tasks s @ ts\<rparr>"
      "remaining_body (gs_env g') = remaining_body env'" by (auto simp: read_move_def)
  have "futures_of (gs_filter g') = futures_of s"
    by (simp add: h futures_of_def waiting_def flip: r(1))
  with assms(2) h r(2) show ?thesis
    by (auto simp: tasks_inv_def filter_ok_def recv_awake_def split: if_splits)
qed

lemma calm_ok:
  assumes "calm s s'" and "futures_of s' = futures_of s" and "filter_ok s"
  shows "filter_ok s' \<and> (recv_awake s env \<longrightarrow> recv_awake s' env)"
  using assms by (auto simp: calm_def filter_ok_def recv_awake_def)

lemma map_filter_append: "List.map_filter f (xs @ ys) = List.map_filter f xs @ List.map_filter f ys"
  by (simp add: List.map_filter_def)

lemma send_effect_ok:
  assumes "send_effect es s s'" and "filter_ok s"
  shows "filter_ok s' \<and> (recv_awake s env \<longrightarrow> recv_awake s' env)"
proof -
  obtain n ts b where s': "s' = s\<lparr>ln_send := b, ln_futures := ln_futures s + n, ln_tasks := ln_tasks s @ ts,
        ln_commits := ln_commits s @ (if es = [] then [] else [EVENT_ID_RESPONSE])\<rparr>"
      "bridge_content b = bridge_content (ln_send s) @ es"
    and m: "mset (completed ts) + mset (List.map_filter event_future es) = mset [ln_futures s..<ln_futures s + n]"
    using assms(1) by (auto simp: send_effect_def)
  have "futures_of s' = futures_of s + mset [ln_futures s..<ln_futures s + n]"
    by (simp add: s' futures_of_def waiting_def map_filter_append del: mset_upt flip: m)
  then have "futures_of s' = mset [0..<ln_futures s']"
    using assms(2) by (simp add: filter_ok_def s'(1) upt_add_eq_append [of 0] del: mset_upt)
  then show ?thesis
    using assms(2) s' by (auto simp: filter_ok_def recv_awake_def)
qed

lemma process_ok:
  assumes "filter_ok (s\<lparr>ln_commits := EVENT_ID_RESPONSE # ln_commits s\<rparr>)"
  shows "filter_ok (asgi_process_send_events ends s)
     \<and> (recv_awake s env \<longrightarrow> recv_awake (asgi_process_send_events ends s) env)"
  using assms asgi_process_send_effects(3,4,6) [of ends s]
  by (auto simp: filter_ok_def recv_awake_def calm_def futures_of_def waiting_def)

lemma recv_call_ok:
  assumes "filter_ok s"
  shows "filter_ok (snd (recv_call s)) \<and> recv_awake (snd (recv_call s)) env"
proof (cases "ln_recv s = Closed")
  case True
  with recv_call_effects [of s] have "snd (recv_call s)
      = s\<lparr>ln_futures := ln_futures s + 1, ln_tasks := ln_tasks s @ [RecvDisconnect (ln_futures s)]\<rparr>" by auto
  with True assms show ?thesis
    by (simp add: filter_ok_def recv_awake_def futures_of_def waiting_def del: mset_upt)
next
  case False
  with recv_call_effects [of s] obtain b where "snd (recv_call s)
      = s\<lparr>ln_futures := ln_futures s + 1, ln_recv := b, ln_commits := ln_commits s @ [EVENT_ID_REQUEST]\<rparr>"
    "bridge_content b = bridge_content (ln_recv s) @ [ln_futures s]" by auto
  with assms show ?thesis
    by (auto simp: filter_ok_def recv_awake_def futures_of_def waiting_def simp del: mset_upt)
qed

lemma filter_ok_upstream [simp]:
  "filter_ok (s\<lparr>af_upstream := u\<rparr>) = filter_ok s" "recv_awake (s\<lparr>af_upstream := u\<rparr>) env = recv_awake s env"
  "filter_ok (s\<lparr>af_request_closed := c\<rparr>) = filter_ok s"
  by (simp_all add: filter_ok_def recv_awake_def futures_of_def waiting_def)

lemma scheduled_tasks_inv:
  assumes "tasks_inv g" shows "tasks_inv (asgi_exec e AsgiScheduled g)"
proof (cases "ln_commits (gs_filter g)")
  case Nil
  with assms show ?thesis by (simp add: asgi_exec_def Let_def)
next
  case (Cons i rest)
  let ?s = "(gs_filter g)\<lparr>ln_commits := rest\<rparr>"
  have ids: "EVENT_ID_REQUEST \<noteq> EVENT_ID_RESPONSE" by (simp add: EVENT_ID_REQUEST_def EVENT_ID_RESPONSE_def)
  from assms Cons consider "i = EVENT_ID_REQUEST" | "i = EVENT_ID_RESPONSE"
    by (auto simp: tasks_inv_def filter_ok_def)
  then show ?thesis
  proof cases
    case 1
    have "filter_ok ?s"
      using assms Cons 1 ids by (auto simp: tasks_inv_def filter_ok_def futures_of_def waiting_def)
    with read_move_ok exec_scheduled(1) [OF Cons 1] show ?thesis by blast
  next
    case 2
    have p: "filter_ok (?s\<lparr>ln_commits := EVENT_ID_RESPONSE # ln_commits ?s\<rparr>)"
      using assms Cons 2 by (simp add: tasks_inv_def filter_ok_def futures_of_def waiting_def)
    have awake: "recv_awake ?s (gs_env g)"
      using assms Cons 2 ids by (auto simp: tasks_inv_def recv_awake_def)
    show ?thesis
    proof (cases "af_watermark (gs_filter g) = 0")
      case True
      with process_ok [OF p] awake show ?thesis
        by (simp add: exec_scheduled(2) [OF Cons 2] tasks_inv_def recv_awake_def)
    next
      case False
      then have "filter_ok ?s" using p by (simp add: filter_ok_def futures_of_def waiting_def)
      with awake False show ?thesis
        by (simp add: exec_scheduled(2) [OF Cons 2] tasks_inv_def recv_awake_def)
    qed
  qed
qed

lemma tasks_exec_inv:
  assumes inv: "tasks_inv g" shows "tasks_inv (asgi_exec e op g)"
proof -
  have s: "filter_ok (gs_filter g)" "recv_awake (gs_filter g) (gs_env g)" using inv by (simp_all add: tasks_inv_def)
  show ?thesis
  proof (cases op)
    case (AsgiBody cs es)
    show ?thesis
    proof (cases "af_request_closed (gs_filter g)")
      case True
      with inv AsgiBody show ?thesis by (simp add: asgi_exec_def Let_def)
    next
      case False
      from read_move_ok [OF exec_request_body(1) [OF False]] s AsgiBody show ?thesis by simp
    qed
  next
    case AsgiTrailers
    with read_move_ok [OF exec_trailers(1)] s show ?thesis by simp
  next
    case AsgiScheduled
    with scheduled_tasks_inv [OF inv] show ?thesis by simp
  next
    case AsgiOutgoing
    with s show ?thesis by (simp add: exec_outgoing tasks_inv_def)
  next
    case AsgiComplete
    with s calm_ok [OF complete_calm complete_futures] show ?thesis
      by (simp add: asgi_exec_def Let_def tasks_inv_def)
  next
    case AsgiAbove
    with s show ?thesis
      by (auto simp: asgi_exec_def Let_def tasks_inv_def filter_ok_def recv_awake_def
          asgi_above_high_watermark_def futures_of_def waiting_def)
  next
    case AsgiBelow
    with s show ?thesis
      by (auto simp: asgi_exec_def Let_def tasks_inv_def filter_ok_def recv_awake_def commit_def
          asgi_below_low_watermark_def futures_of_def waiting_def)
  next
    case AppRecv
    with inv recv_call_ok [OF s(1)] show ?thesis by (simp add: exec_recv tasks_inv_def)
  next
    case (AppSend event)
    from exec_send [of g e event] send_effect_ok [OF _ s(1)] s(2) AppSend show ?thesis
      by (auto simp: send_move_def tasks_inv_def)
  next
    case (AppDone r)
    from exec_app_done [of g e r] send_effect_ok [OF _ s(1)] s(2) AppDone show ?thesis
      by (auto simp: send_move_def tasks_inv_def)
  next
    case (AsgiClient uop)
    with s show ?thesis by (simp add: asgi_exec_def Let_def tasks_inv_def)
  qed
qed

interpretation asgi_tasks: machine_contract "asgi_exec e" "\<lambda>_. True" tasks_inv for e
  by unfold_locales (rule tasks_exec_inv)

lemma tasks_run_inv: "tasks_inv (asgi_run e c es ta ops)"
proof -
  have "tasks_inv (asgi_sys_new c es ta)"
    by (simp add: tasks_inv_def filter_ok_def recv_awake_def asgi_sys_new_def asgi_filter_new_def
        futures_of_def waiting_def bridge_new_def List.map_filter_simps)
  then show ?thesis unfolding asgi_run_def by (rule asgi_tasks.fold_inv [rotated]) (simp add: list_all_iff)
qed

section \<open>The request body\<close>

definition recv_inv :: "asgi_sys \<Rightarrow> bool" where
  "recv_inv g \<longleftrightarrow>
     received_body (gs_env g) = None
     \<and> gs_arrived g = recv_bytes (ln_tasks (gs_filter g)) @ remaining_body (gs_env g)
     \<and> (list_ex last_recv (ln_tasks (gs_filter g)) \<longrightarrow>
          af_request_closed (gs_filter g) \<and> remaining_body (gs_env g) = [])"

lemma recv_inv_same:
  assumes "recv_inv g" and "gs_arrived g' = gs_arrived g" and "remaining_body (gs_env g') = remaining_body (gs_env g)"
    and "filter is_recv_result (ln_tasks (gs_filter g')) = filter is_recv_result (ln_tasks (gs_filter g))"
    and "af_request_closed (gs_filter g') = af_request_closed (gs_filter g)"
    and "received_body (gs_env g') = None"
  shows "recv_inv g'"
  using assms recv_bytes_filter [of "ln_tasks (gs_filter g')"] recv_bytes_filter [of "ln_tasks (gs_filter g)"]
    last_recv_filter [of "ln_tasks (gs_filter g')"] last_recv_filter [of "ln_tasks (gs_filter g)"]
  by (simp add: recv_inv_def)

text \<open>A read after \<open>new\<close> bytes arrived and the request possibly ended.\<close>

lemma read_move_recv:
  assumes "read_move drain g s env g'" and "drain_law drain"
    and "gs_arrived g' = recv_bytes (ln_tasks s) @ remaining_body env"
    and "list_ex last_recv (ln_tasks s) \<Longrightarrow> af_request_closed s \<and> remaining_body env = []"
  shows "recv_inv g'"
proof -
  obtain ts b env' where e: "handle_read drain s env = (s\<lparr>ln_recv := b, ln_tasks := ln_tasks s @ ts\<rparr>, env')"
    and r: "list_all (\<lambda>t. last_recv t = af_request_closed s) ts"
      "recv_bytes ts @ remaining_body env' = remaining_body env"
      "if ts = [] then env' = env else remaining_body env' = []"
    using handle_read_effects [of drain s env] assms(2) by blast
  from e assms(1) have h: "gs_filter g' = s\<lparr>ln_recv := b, ln_tasks := ln_tasks s @ ts\<rparr>"
      "remaining_body (gs_env g') = remaining_body env'" "received_body (gs_env g') = None"
    by (auto simp: read_move_def)
  have "list_ex last_recv ts \<Longrightarrow> af_request_closed s \<and> ts \<noteq> []"
    using r(1) by (auto simp: list_ex_iff list_all_iff)
  with assms(3,4) h r(2,3) show ?thesis
    by (auto simp: recv_inv_def recv_bytes_def split: if_splits)
qed

lemma recv_exec_inv:
  assumes law: "drain_law (ge_drain e)" and inv: "recv_inv g"
  shows "recv_inv (asgi_exec e op g)"
proof -
  let ?s = "gs_filter g"
  have here: "gs_arrived g = recv_bytes (ln_tasks ?s) @ remaining_body (gs_env g)"
      "list_ex last_recv (ln_tasks ?s) \<Longrightarrow> af_request_closed ?s \<and> remaining_body (gs_env g) = []"
    and none: "received_body (gs_env g) = None"
    using inv by (simp_all add: recv_inv_def)
  show ?thesis
  proof (cases op)
    case (AsgiBody cs es)
    show ?thesis
    proof (cases "af_request_closed ?s")
      case True
      with inv AsgiBody show ?thesis by (simp add: asgi_exec_def Let_def)
    next
      case False
      then have no: "\<not> list_ex last_recv (ln_tasks ?s)" using here(2) by blast
      have arrived: "remaining_body ((gs_env g)\<lparr>received_body := Some cs\<rparr>) = remaining_body (gs_env g) @ concat cs"
        using none by (simp add: remaining_body_def content_def chunks_def)
      show ?thesis unfolding AsgiBody
        by (rule read_move_recv [OF exec_request_body(1) [OF False] law])
          (use no in \<open>simp_all add: exec_request_body(2) [OF False] here(1) arrived split: if_splits\<close>)
    qed
  next
    case AsgiTrailers
    show ?thesis unfolding AsgiTrailers
      by (rule read_move_recv [OF exec_trailers(1) law]) (simp_all add: exec_trailers(2) here)
  next
    case AsgiScheduled
    show ?thesis unfolding AsgiScheduled
    proof (rule exec_scheduled_cases [where g = g and e = e and P = recv_inv])
      show "recv_inv g" by (rule inv)
    next
      fix rest assume "ln_commits ?s = EVENT_ID_REQUEST # rest"
      note x = exec_scheduled(1) [OF this refl, of e]
      show "recv_inv (asgi_exec e AsgiScheduled g)"
        by (rule read_move_recv [OF x [THEN conjunct1] law]) (simp_all add: x here)
    next
      fix rest s
      assume c: "calm (?s\<lparr>ln_commits := rest, ln_send := ln_send s\<rparr>) s"
        and x: "asgi_exec e AsgiScheduled g = keep_body (g\<lparr>gs_filter := s,
          gs_done := gs_done g @ bridge_content (ln_send ?s)\<rparr>)"
      show "recv_inv (asgi_exec e AsgiScheduled g)"
        by (rule recv_inv_same [OF inv]) (use c in \<open>simp_all add: x calm_def\<close>)
    next
      fix rest u
      assume x: "asgi_exec e AsgiScheduled g
        = keep_body (g\<lparr>gs_filter := ?s\<lparr>ln_commits := rest, af_upstream := u\<rparr>\<rparr>)"
      show "recv_inv (asgi_exec e AsgiScheduled g)"
        by (rule recv_inv_same [OF inv]) (simp_all add: x)
    qed
  next
    case AsgiOutgoing
    show ?thesis by (rule recv_inv_same [OF inv]) (simp_all add: AsgiOutgoing exec_outgoing none)
  next
    case AsgiComplete
    show ?thesis
      by (rule recv_inv_same [OF inv])
        (use complete_calm [of ?s] in \<open>simp_all add: AsgiComplete asgi_exec_def Let_def calm_def none\<close>)
  next
    case AsgiAbove
    show ?thesis
      by (rule recv_inv_same [OF inv]) (simp_all add: AsgiAbove asgi_exec_def Let_def asgi_above_high_watermark_def none)
  next
    case AsgiBelow
    show ?thesis
      by (rule recv_inv_same [OF inv])
        (simp_all add: AsgiBelow asgi_exec_def Let_def asgi_below_low_watermark_def commit_def none)
  next
    case AppRecv
    show ?thesis
      by (rule recv_inv_same [OF inv])
        (use recv_call_effects [of ?s] in \<open>auto simp: AppRecv exec_recv none split: if_splits\<close>)
  next
    case (AppSend event)
    from exec_send [of g e event] obtain es where "send_move es g (asgi_exec e op g)" using AppSend by blast
    then show ?thesis
      by (intro recv_inv_same [OF inv]) (auto simp: send_move_def none dest: send_effect_same)
  next
    case (AppDone r)
    from exec_app_done [of g e r] obtain es where "send_move es g (asgi_exec e op g)" using AppDone by blast
    then show ?thesis
      by (intro recv_inv_same [OF inv]) (auto simp: send_move_def none dest: send_effect_same)
  next
    case (AsgiClient uop)
    show ?thesis by (rule recv_inv_same [OF inv]) (simp_all add: AsgiClient asgi_exec_def Let_def none)
  qed
qed

interpretation asgi_recv: machine_contract "asgi_exec e" "\<lambda>_. drain_law (ge_drain e)" recv_inv for e
  by unfold_locales (rule recv_exec_inv)

lemma recv_run_inv:
  assumes "drain_law (ge_drain e)" shows "recv_inv (asgi_run e c es ta ops)"
proof -
  have "recv_inv (asgi_sys_new c es ta)"
    by (simp add: recv_inv_def asgi_sys_new_def asgi_filter_new_def recv_bytes_def remaining_body_def
        content_def chunks_def)
  with assms show ?thesis unfolding asgi_run_def by (intro asgi_recv.fold_inv) (simp_all add: list_all_iff)
qed

section \<open>The response\<close>

fun phase_of :: "send_phase \<Rightarrow> phase" where
  "phase_of PhStart = Waiting"
| "phase_of (PhBody t) = Streaming"
| "phase_of PhTrailers = Streaming"
| "phase_of PhDone = Ended"

fun sent_body :: "send_event \<Rightarrow> bytes" where
  "sent_body (SendStart st bd) = ab_body bd"
| "sent_body (SendBody bd) = ab_body bd"
| "sent_body _ = []"

fun sent_trailers :: "send_event \<Rightarrow> headers" where
  "sent_trailers (SendTrailers hs more_trailers) = hs"
| "sent_trailers _ = []"

fun call_trailers :: "envoy_call \<Rightarrow> headers" where
  "call_trailers (SendResponseTrailers ts) = ts"
| "call_trailers _ = []"

text \<open>What the filter has called after it processed the events \<open>es\<close>, which end in phase \<open>q\<close>.\<close>

definition response_at :: "send_phase \<Rightarrow> send_event list \<Rightarrow> envoy_call list \<Rightarrow> headers option \<Rightarrow> bool" where
  "response_at q es calls tr \<longleftrightarrow>
     (let cs = response_calls calls; ts = concat (map sent_trailers es) in
      send_run PhStart es = Some q
      \<and> call_run Waiting cs = Some (phase_of q)
      \<and> concat (map call_data cs) = concat (map sent_body es)
      \<and> concat (map call_trailers cs) = (if q = PhDone then ts else [])
      \<and> tr = (case q of PhBody t \<Rightarrow> if t then Some [] else None | PhTrailers \<Rightarrow> Some ts | _ \<Rightarrow> None)
      \<and> (case q of PhStart \<Rightarrow> ts = [] | PhBody t \<Rightarrow> ts = [] | _ \<Rightarrow> True)
      \<and> length (filter is_local_reply calls) = length (filter (\<lambda>e. e = SendException) es))"

lemma response_step:
  assumes "response_at q es calls tr" and "send_phase_step q e = Some q'"
  shows "response_at q' (es @ [e]) (calls @ asgi_event_calls tr e) (collected tr e)"
  using assms
  by (cases "(q, e)" rule: send_phase_step.cases)
    (auto simp: response_at_def Let_def send_run_append response_calls_def call_run_append
      simp del: concat_eq_Nil_conv Nil_eq_concat_conv split: if_splits)

lemma response_steps:
  assumes "response_at q es calls tr" and "send_run q es' = Some q'"
  shows "response_at q' (es @ es') (calls @ events_calls tr es') (foldl collected tr es')"
  using assms
proof (induction es' arbitrary: q es calls tr)
  case Nil
  then show ?case by simp
next
  case (Cons e es')
  then obtain r where r: "send_phase_step q e = Some r" "send_run r es' = Some q'"
    by (auto split: option.splits)
  from Cons.IH [OF response_step [OF Cons.prems(1) r(1)] r(2)] show ?case by simp
qed

definition response_inv :: "asgi_sys \<Rightarrow> bool" where
  "response_inv g \<longleftrightarrow>
     (\<exists>q. response_at q (gs_done g) (af_calls (gs_filter g)) (af_trailers (gs_filter g)))
     \<and> (if ln_send (gs_filter g) = Closed then prefix (gs_done g) (gs_sent g)
        else gs_sent g = gs_done g @ bridge_content (ln_send (gs_filter g))
             \<and> (\<exists>p. send_run PhStart (gs_sent g) = Some p \<and> sender_at p (gs_sender g)))"

text \<open>A step that writes nothing of the response, and may end the stream.\<close>

lemma response_inv_same:
  assumes "response_inv g" and "gs_done g' = gs_done g" and "gs_sent g' = gs_sent g" and "gs_sender g' = gs_sender g"
    and "af_calls (gs_filter g') = af_calls (gs_filter g)" and "af_trailers (gs_filter g') = af_trailers (gs_filter g)"
    and "ln_send (gs_filter g') = ln_send (gs_filter g) \<or> ln_send (gs_filter g') = Closed"
  shows "response_inv g'"
  using assms by (auto simp: response_inv_def split: if_splits)

lemma response_inv_move:
  assumes "response_inv g" and "send_move es g g'"
    and "ln_send (gs_filter g) \<noteq> Closed \<Longrightarrow>
      (\<forall>p. sender_at p (gs_sender g) \<longrightarrow> (\<exists>q. send_run p es = Some q \<and> sender_at q (gs_sender g')))"
  shows "response_inv g'"
proof -
  have same: "af_calls (gs_filter g') = af_calls (gs_filter g)" "af_trailers (gs_filter g') = af_trailers (gs_filter g)"
    "bridge_content (ln_send (gs_filter g')) = bridge_content (ln_send (gs_filter g)) @ es"
    "ln_send (gs_filter g') = Closed \<longleftrightarrow> ln_send (gs_filter g) = Closed"
    "gs_sent g' = gs_sent g @ es" "gs_done g' = gs_done g"
    using assms(2) send_effect_same [of es "gs_filter g" "gs_filter g'"]
    by (simp_all add: send_move_def send_effect_def)
  show ?thesis
  proof (cases "ln_send (gs_filter g) = Closed")
    case True
    with same(3,4) have "es = []" by simp
    with True same assms(1) show ?thesis by (simp add: response_inv_def)
  next
    case False
    with assms(1) obtain p where p: "send_run PhStart (gs_sent g) = Some p" "sender_at p (gs_sender g)"
      by (auto simp: response_inv_def)
    from assms(3) [OF False] p obtain q where "send_run p es = Some q" "sender_at q (gs_sender g')" by blast
    moreover from this p(1) have "send_run PhStart (gs_sent g') = Some q" by (simp add: same(5) send_run_append)
    ultimately show ?thesis
      using False same assms(1) unfolding response_inv_def by auto
  qed
qed

lemma read_move_same:
  assumes "read_move drain g s env g'"
  shows "\<exists>b ts. gs_filter g' = s\<lparr>ln_recv := b, ln_tasks := ts\<rparr>" and "gs_done g' = gs_done g"
    and "gs_sent g' = gs_sent g" and "gs_sender g' = gs_sender g"
  using assms handle_read_effects [of drain s env] by (fastforce simp: read_move_def)+

lemma response_scheduled:
  assumes inv: "response_inv g"
  shows "response_inv (asgi_exec e AsgiScheduled g)"
proof (rule exec_scheduled_cases [where g = g and e = e and P = response_inv])
  show "response_inv g" by (rule inv)
next
  fix rest assume "ln_commits (gs_filter g) = EVENT_ID_REQUEST # rest"
  note x = exec_scheduled(1) [OF this refl, of e, THEN conjunct1]
  obtain b ts where "gs_filter (asgi_exec e AsgiScheduled g)
      = (gs_filter g)\<lparr>ln_commits := rest, ln_recv := b, ln_tasks := ts\<rparr>" using read_move_same(1) [OF x] by auto
  with read_move_same(2-4) [OF x] show "response_inv (asgi_exec e AsgiScheduled g)"
    by (intro response_inv_same [OF inv]) simp_all
next
  fix rest s
  let ?es = "bridge_content (ln_send (gs_filter g))"
  assume s: "s = asgi_process_send_events (ge_ends e) ((gs_filter g)\<lparr>ln_commits := rest\<rparr>)"
    and x: "asgi_exec e AsgiScheduled g = keep_body (g\<lparr>gs_filter := s, gs_done := gs_done g @ ?es\<rparr>)"
  obtain q where q: "response_at q (gs_done g) (af_calls (gs_filter g)) (af_trailers (gs_filter g))"
    using inv by (auto simp: response_inv_def)
  have run: "\<exists>r. send_run q ?es = Some r"
  proof (cases "ln_send (gs_filter g) = Closed")
    case False
    with inv have "send_run PhStart (gs_done g @ ?es) \<noteq> None" by (auto simp: response_inv_def)
    with q show ?thesis by (auto simp: response_at_def Let_def send_run_append)
  qed simp
  then obtain r where r: "send_run q ?es = Some r" by blast
  note p = asgi_process_send_effects [where s = "(gs_filter g)\<lparr>ln_commits := rest\<rparr>" and ends = "ge_ends e", folded s]
  show "response_inv (asgi_exec e AsgiScheduled g)"
    using response_steps [OF q r] p(1,2,4,5) inv
    by (auto simp: x response_inv_def split: if_splits)
next
  fix rest u
  assume x: "asgi_exec e AsgiScheduled g
    = keep_body (g\<lparr>gs_filter := (gs_filter g)\<lparr>ln_commits := rest, af_upstream := u\<rparr>\<rparr>)"
  show "response_inv (asgi_exec e AsgiScheduled g)"
    by (rule response_inv_same [OF inv]) (simp_all add: x)
qed

lemma response_exec_inv:
  assumes inv: "response_inv g" shows "response_inv (asgi_exec e op g)"
proof -
  have read: "response_inv (asgi_exec e op g)"
    if m: "read_move (ge_drain e) g (if c then (gs_filter g)\<lparr>af_request_closed := True\<rparr> else gs_filter g) env
      (asgi_exec e op g)" for c env
    using read_move_same [OF m] by (intro response_inv_same [OF inv]) (auto split: if_splits)
  show ?thesis
  proof (cases op)
    case (AsgiBody cs es)
    show ?thesis
    proof (cases "af_request_closed (gs_filter g)")
      case True
      with inv AsgiBody show ?thesis by (simp add: asgi_exec_def Let_def)
    next
      case False
      with AsgiBody exec_request_body(1) read show ?thesis by blast
    qed
  next
    case AsgiTrailers
    with exec_trailers(1) [of e g] show ?thesis by (intro read [where c = True]) simp_all
  next
    case AsgiScheduled
    with response_scheduled [OF inv] show ?thesis by simp
  next
    case AsgiOutgoing
    show ?thesis by (rule response_inv_same [OF inv]) (simp_all add: AsgiOutgoing exec_outgoing)
  next
    case AsgiComplete
    show ?thesis
      by (rule response_inv_same [OF inv]) (simp_all add: AsgiComplete asgi_exec_def Let_def complete_eq)
  next
    case AsgiAbove
    show ?thesis
      by (rule response_inv_same [OF inv]) (simp_all add: AsgiAbove asgi_exec_def Let_def asgi_above_high_watermark_def)
  next
    case AsgiBelow
    show ?thesis
      by (rule response_inv_same [OF inv])
        (simp_all add: AsgiBelow asgi_exec_def Let_def asgi_below_low_watermark_def commit_def)
  next
    case AppRecv
    show ?thesis
      by (rule response_inv_same [OF inv])
        (use recv_call_effects [of "gs_filter g"] in \<open>auto simp: AppRecv exec_recv split: if_splits\<close>)
  next
    case (AppSend event)
    from exec_send [of g e event] AppSend show ?thesis
      by (auto simp: sender_step_def intro!: response_inv_move [OF inv])
  next
    case (AppDone r)
    from exec_app_done [of g e r] AppDone send_run_exceptions show ?thesis
      by (force intro!: response_inv_move [OF inv])
  next
    case (AsgiClient uop)
    show ?thesis by (rule response_inv_same [OF inv]) (simp_all add: AsgiClient asgi_exec_def Let_def)
  qed
qed

interpretation asgi_response: machine_contract "asgi_exec e" "\<lambda>_. True" response_inv for e
  by unfold_locales (rule response_exec_inv)

lemma response_run_inv: "response_inv (asgi_run e c es ta ops)"
proof -
  have "response_inv (asgi_sys_new c es ta)"
    by (simp add: response_inv_def response_at_def asgi_sys_new_def asgi_filter_new_def bridge_new_def
        response_calls_def sender_at_def asgi_sender_new_def)
  then show ?thesis unfolding asgi_run_def by (rule asgi_response.fold_inv [rotated]) (simp add: list_all_iff)
qed

section \<open>The client inside the filter\<close>

definition client_run :: "asgi_env \<Rightarrow> bool \<Rightarrow> asgi_sys \<Rightarrow> bool" where
  "client_run e c g \<longleftrightarrow>
     (\<exists>uops. af_upstream (gs_filter g) = fold (up_exec (ge_client e) (ge_envoy e)) uops (upstream_new c))"

lemma client_run_step:
  assumes "client_run e c g"
    and "af_upstream (gs_filter g') = fold (up_exec (ge_client e) (ge_envoy e)) us (af_upstream (gs_filter g))"
  shows "client_run e c g'"
proof -
  obtain uops where "af_upstream (gs_filter g) = fold (up_exec (ge_client e) (ge_envoy e)) uops (upstream_new c)"
    using assms(1) by (auto simp: client_run_def)
  with assms(2) show ?thesis unfolding client_run_def by (intro exI [of _ "uops @ us"]) simp
qed

lemma release_steps: "(asgi_release_streams ^^ n) u = fold (up_exec capi eapi) (replicate n UpDownComplete) u"
proof -
  have "asgi_release_streams = up_exec capi eapi UpDownComplete" by (rule ext) simp
  then show ?thesis by simp
qed

lemma calm_client: "calm s s' \<Longrightarrow> \<exists>us. af_upstream s' = fold (up_exec capi eapi) us (af_upstream s)"
  unfolding calm_def by (metis fold_simps(1) id_apply release_steps fold_Nil)

lemma client_exec:
  assumes inv: "client_run e c g" shows "client_run e c (asgi_exec e op g)"
proof -
  have same: "client_run e c g'" if "af_upstream (gs_filter g') = af_upstream (gs_filter g)" for g'
    by (rule client_run_step [OF inv, of _ "[]"]) (simp add: that)
  have read: "client_run e c (asgi_exec e op g)"
    if m: "read_move (ge_drain e) g s env (asgi_exec e op g)" and "af_upstream s = af_upstream (gs_filter g)" for s env
    using read_move_same(1) [OF m] that(2) by (auto intro: same)
  show ?thesis
  proof (cases op)
    case (AsgiBody cs es)
    show ?thesis
    proof (cases "af_request_closed (gs_filter g)")
      case True
      with inv AsgiBody show ?thesis by (simp add: asgi_exec_def Let_def)
    next
      case False
      from exec_request_body(1) [OF False, of e es cs] show ?thesis
        unfolding AsgiBody [symmetric] by (rule read) simp
    qed
  next
    case AsgiTrailers
    from exec_trailers(1) [of e g] show ?thesis unfolding AsgiTrailers [symmetric] by (rule read) simp
  next
    case AsgiScheduled
    show ?thesis unfolding AsgiScheduled
    proof (rule exec_scheduled_cases [where g = g and e = e and P = "client_run e c"])
      show "client_run e c g" by (rule inv)
    next
      fix rest assume "ln_commits (gs_filter g) = EVENT_ID_REQUEST # rest"
      note x = exec_scheduled(1) [OF this refl, of e, THEN conjunct1]
      from read_move_same(1) [OF x] show "client_run e c (asgi_exec e AsgiScheduled g)" by (auto intro: same)
    next
      fix rest s
      assume m: "calm ((gs_filter g)\<lparr>ln_commits := rest, ln_send := ln_send s\<rparr>) s"
        and x: "asgi_exec e AsgiScheduled g = keep_body (g\<lparr>gs_filter := s,
          gs_done := gs_done g @ bridge_content (ln_send (gs_filter g))\<rparr>)"
      from calm_client [OF m, of "ge_client e" "ge_envoy e"]
      show "client_run e c (asgi_exec e AsgiScheduled g)" by (auto simp: x intro: client_run_step [OF inv])
    next
      fix rest u
      assume u: "u = af_upstream (gs_filter g) \<or> u = asgi_transport_events (ge_envoy e) (af_upstream (gs_filter g))"
        and x: "asgi_exec e AsgiScheduled g
          = keep_body (g\<lparr>gs_filter := (gs_filter g)\<lparr>ln_commits := rest, af_upstream := u\<rparr>\<rparr>)"
      from u show "client_run e c (asgi_exec e AsgiScheduled g)"
        by (auto simp: x intro: same client_run_step [OF inv, of _ "[UpProcess]"])
    qed
  next
    case AsgiOutgoing
    show ?thesis
      by (rule client_run_step [OF inv, of _ "[UpProcess]"]) (simp add: AsgiOutgoing exec_outgoing)
  next
    case AsgiComplete
    show ?thesis
      by (rule client_run_step [OF inv, of _ "[UpDownComplete]"])
        (simp add: AsgiComplete asgi_exec_def Let_def complete_eq)
  next
    case AsgiAbove
    show ?thesis by (rule same) (simp add: AsgiAbove asgi_exec_def Let_def asgi_above_high_watermark_def)
  next
    case AsgiBelow
    show ?thesis by (rule same) (simp add: AsgiBelow asgi_exec_def Let_def asgi_below_low_watermark_def commit_def)
  next
    case AppRecv
    show ?thesis
      by (rule same) (use recv_call_effects [of "gs_filter g"] in \<open>auto simp: AppRecv exec_recv split: if_splits\<close>)
  next
    case (AppSend event)
    with exec_send [of g e event] show ?thesis by (auto simp: send_move_def dest: send_effect_same intro: same)
  next
    case (AppDone r)
    with exec_app_done [of g e r] show ?thesis by (auto simp: send_move_def dest: send_effect_same intro: same)
  next
    case (AsgiClient uop)
    show ?thesis
      by (rule client_run_step [OF inv, of _ "if is_down_complete uop then [] else [uop]"])
        (simp add: AsgiClient asgi_exec_def Let_def)
  qed
qed

interpretation asgi_client: machine_contract "asgi_exec e" "\<lambda>_. True" "client_run e c" for e c
  by unfold_locales (rule client_exec)

lemma client_run_all: "client_run e c (asgi_run e c es ta ops)"
proof -
  have "client_run e c (asgi_sys_new c es ta)"
    unfolding client_run_def
    by (intro exI [of _ "[]"]) (simp add: asgi_sys_new_def asgi_filter_new_def)
  then show ?thesis unfolding asgi_run_def by (rule asgi_client.fold_inv [rotated]) (simp add: list_all_iff)
qed

text \<open>Every delivery of a committed event takes it off the list and adds none.\<close>

lemma scheduled_commits:
  assumes "tasks_inv g"
  shows "ln_commits (gs_filter (asgi_exec e AsgiScheduled g)) = tl (ln_commits (gs_filter g))"
proof (cases "ln_commits (gs_filter g)")
  case Nil
  then show ?thesis by (simp add: asgi_exec_def Let_def)
next
  case (Cons i rest)
  with assms consider "i = EVENT_ID_REQUEST" | "i = EVENT_ID_RESPONSE" by (auto simp: tasks_inv_def filter_ok_def)
  then show ?thesis
  proof cases
    case 1
    from read_move_same(1) [OF exec_scheduled(1) [OF Cons 1, of e, THEN conjunct1]] Cons show ?thesis by auto
  next
    case 2
    have "ln_commits (asgi_process_send_events (ge_ends e) ((gs_filter g)\<lparr>ln_commits := rest\<rparr>)) = rest"
      using asgi_process_send_effects(6) [where s = "(gs_filter g)\<lparr>ln_commits := rest\<rparr>" and ends = "ge_ends e"]
      by (simp add: calm_def)
    with Cons show ?thesis by (simp add: exec_scheduled(2) [OF Cons 2])
  qed
qed

lemma scheduled_all:
  "tasks_inv g \<Longrightarrow>
     ln_commits (gs_filter (fold (asgi_exec e) (replicate n AsgiScheduled) g)) = drop n (ln_commits (gs_filter g))"
proof (induction n arbitrary: g)
  case 0
  then show ?case by simp
next
  case (Suc n)
  from Suc.IH [OF tasks_exec_inv [OF Suc.prems], of e AsgiScheduled] scheduled_commits [OF Suc.prems, of e]
  show ?case by (simp add: drop_Suc)
qed

lemma sys_up_fold: "ys_up (fold (sys_exec capi eapi) ops y) = fold (up_exec capi eapi) ops (ys_up y)"
  by (induction ops arbitrary: y) (simp_all add: sys_exec_def Let_def)

section \<open>Properties\<close>

text \<open>
  C5. No future of an ASGI request is lost and none is completed twice. In every run, each
  future that a receive or a send call created has been completed by exactly one task, or waits
  in exactly one bridge; and as soon as the stream completes, each has been completed exactly
  once.
\<close>

theorem asgi_futures_completed_once:
  "case gs_filter (asgi_run e c es ta ops) of s \<Rightarrow>
     mset (completed (ln_tasks s)) + mset (waiting s) = mset [0..<ln_futures s]
     \<and> mset (completed (ln_tasks (asgi_on_stream_complete s))) = mset [0..<ln_futures s]"
proof -
  let ?s = "gs_filter (asgi_run e c es ta ops)"
  have "futures_of ?s = mset [0..<ln_futures ?s]"
    using tasks_run_inv [of e c es ta ops] by (simp add: tasks_inv_def filter_ok_def)
  moreover have "waiting (asgi_on_stream_complete ?s) = []"
    by (simp add: waiting_def complete_eq List.map_filter_simps)
  ultimately show ?thesis using complete_futures [of ?s] by (simp add: futures_of_def)
qed

text \<open>
  C8. No request stalls. After any run, once Envoy has delivered the events committed so far,
  no receive call waits although the request ended or body is there, and no response event
  waits although the downstream is below its watermark. The events the filter is scheduled for
  are always ones it handles.
\<close>

theorem asgi_no_stall:
  fixes e :: asgi_env and c es ta :: bool and ops :: "asgi_op list"
  defines "g \<equiv> asgi_run e c es ta ops"
  defines "g' \<equiv> fold (asgi_exec e) (replicate (length (ln_commits (gs_filter g))) AsgiScheduled) g"
  shows "case gs_filter g' of s \<Rightarrow>
     ln_commits s = [] \<and> set (ln_commits (gs_filter g)) \<subseteq> {EVENT_ID_REQUEST, EVENT_ID_RESPONSE}
     \<and> (if af_request_closed s \<or> has_request_body (gs_env g') then bridge_content (ln_recv s) = [] else True)
     \<and> (if af_watermark s = 0 then bridge_content (ln_send s) = [] else True)"
proof -
  have g: "tasks_inv g" by (simp add: g_def tasks_run_inv)
  have "tasks_inv g'"
    unfolding g'_def by (rule asgi_tasks.fold_inv [OF _ g]) (simp add: list_all_iff)
  moreover have "ln_commits (gs_filter g') = []" unfolding g'_def by (subst scheduled_all [OF g]) simp
  ultimately show ?thesis
    using g by (auto simp: tasks_inv_def filter_ok_def recv_awake_def remaining_body_iff)
qed

text \<open>
  C14. The request body reaches the application unchanged. For any chunking by Envoy and any
  interleaving of receive calls, the bodies of the receive events that were answered, in order,
  followed by the bytes still in Envoy's buffers, are exactly the bytes that arrived; and once a
  receive event said that no more body follows, the request had ended and its whole body had
  been handed over.
\<close>

theorem asgi_body_delivered:
  assumes "drain_law (ge_drain e)"
  shows "case asgi_run e c es ta ops of g \<Rightarrow>
     gs_arrived g = recv_bytes (ln_tasks (gs_filter g)) @ remaining_body (gs_env g)
     \<and> (if list_ex last_recv (ln_tasks (gs_filter g))
        then af_request_closed (gs_filter g) \<and> gs_arrived g = recv_bytes (ln_tasks (gs_filter g)) else True)"
  using recv_run_inv [OF assms, of c es ta ops] by (simp add: recv_inv_def)

definition demo_env :: asgi_env where
  "demo_env = \<lparr>ge_ends = list_ex (\<lambda>c. call_data c \<noteq> []), ge_envoy = one_stream_api, ge_client = demo_client_api,
     ge_parse = \<lparr>header_name = Inr, header_value = Inr, status_from_u16 = Some \<circ> decimal\<rparr>,
     ge_drain = (\<lambda>n b. Some [drop n (content b)])\<rparr>"

lemma demo_drain: "drain_law (ge_drain demo_env)"
  by (simp add: demo_env_def drain_law_def)

theorem asgi_body_delivered_witness:
  "case asgi_run demo_env False False False
       [AppRecv, AsgiBody [''ab'', ''c''] False, AppRecv, AppRecv, AsgiScheduled, AsgiBody [''d''] True] of
     g \<Rightarrow> gs_arrived g = ''abcd'' \<and> recv_bytes (ln_tasks (gs_filter g)) = ''abcd''
       \<and> ln_tasks (gs_filter g) = [RecvResult 0 ''abc'' True, RecvResult 1 ''d'' False, RecvResult 2 [] False]"
proof -
  let ?g = "asgi_run demo_env False False False
       [AppRecv, AsgiBody [''ab'', ''c''] False, AppRecv, AppRecv, AsgiScheduled, AsgiBody [''d''] True]"
  have "ln_tasks (gs_filter ?g) = [RecvResult 0 ''abc'' True, RecvResult 1 ''d'' False, RecvResult 2 [] False]"
    by code_simp
  moreover from this have "gs_arrived ?g = recv_bytes (ln_tasks (gs_filter ?g))"
    using asgi_body_delivered [OF demo_drain, of False False False
       "[AppRecv, AsgiBody [''ab'', ''c''] False, AppRecv, AppRecv, AsgiScheduled, AsgiBody [''d''] True]"] by auto
  ultimately show ?thesis by (simp add: recv_bytes_def)
qed


text \<open>
  An application that completes its response and then fails: the filter still asks Envoy for a
  local reply, also after Envoy reported the stream as complete.
\<close>

lemma asgi_exception_after_end:
  "case asgi_run demo_env False True False
       [AppSend [(''type'', PyStr ''http.response.start''), (''status'', PyInt 200)],
        AppSend [(''type'', PyStr ''http.response.body''), (''body'', PyBytes ''x'')],
        AppDone (Inl (AppError 1)), AsgiScheduled] of
     g \<Rightarrow> af_calls (gs_filter g) =
       [SendResponseHeaders [('':status'', ''200'')] False, SendResponseData ''x'' True,
        SendResponse 500 [(''content-type'', ''text/plain; charset=utf-8''), (''connection'', ''close'')]
          ''Internal Server Error'']
     \<and> ge_ends demo_env (take 2 (af_calls (gs_filter g))) \<and> ln_response_closed (gs_filter g)"
  by code_simp

text \<open>
  The result of the application: an exception other than the one for a lost client is
  scheduled on the filter, which then answers with a 500; a normal return sends nothing, whether
  or not a response was completed.
\<close>

theorem asgi_app_result:
  fixes s :: asgi_filter
  shows "let s0 = s\<lparr>ln_send := Empty\<rparr>; s1 = app_done result s0; s2 = asgi_process_send_events ends s1 in
     case result of
       Inl err \<Rightarrow>
         if err = ClientDisconnectedError then s1 = s0
         else ln_commits s1 = ln_commits s @ [EVENT_ID_RESPONSE]
            \<and> af_calls s2 = af_calls s @ [SendResponse 500
                [(''content-type'', ''text/plain; charset=utf-8''), (''connection'', ''close'')]
                ''Internal Server Error'']
     | Inr _ \<Rightarrow> s1 = s0"
  by (auto simp: Let_def app_done_def bridge_offer_def commit_def asgi_process_send_events_def split: sum.split)


end
