(* ===== verification/Ws_Stream.thy ===== *)
theory Ws_Stream
  imports Prelude
begin

text \<open>
  \<open>src/src/asgi/websocket/stream.rs\<close>: the byte stream that the WebSocket library reads and
  writes, between it and the read buffer of an Envoy network filter. The library is not part of
  the program, so what it does with the stream is a parameter: an interaction of reads and
  writes, a value of type \<open>io\<close>.
\<close>

section \<open>Envoy's side of a connection\<close>

text \<open>
  The chunks in Envoy's read buffer and the calls that the filter made to write to the
  connection or to close it. Draining removes bytes at the front of the buffer.
\<close>

datatype close_type = AbortReset | FlushWrite

datatype net_call = NetWrite bytes bool | NetClose close_type | NetCloseDetails close_type bytes

record envoy_net =
  en_chunks :: "bytes list"
  en_calls :: "net_call list"

type_synonym net_drain = "nat \<Rightarrow> bytes list \<Rightarrow> bytes list"

definition net_drain_law :: "net_drain \<Rightarrow> bool" where
  "net_drain_law drain \<longleftrightarrow> (\<forall>n cs. concat (drain n cs) = drop n (concat cs))"

definition drain_read_buffer :: "net_drain \<Rightarrow> nat \<Rightarrow> 'a envoy_net_scheme \<Rightarrow> 'a envoy_net_scheme" where
  "drain_read_buffer drain n env = env\<lparr>en_chunks := drain n (en_chunks env)\<rparr>"

definition net_call :: "net_call \<Rightarrow> 'a envoy_net_scheme \<Rightarrow> 'a envoy_net_scheme" where
  "net_call c env = env\<lparr>en_calls := en_calls env @ [c]\<rparr>"

definition total_size :: "'a envoy_net_scheme \<Rightarrow> nat" where
  "total_size env = length (concat (en_chunks env))"

section \<open>The stream\<close>

record env_stream =
  es_read_buffer :: bytes
  es_total_read :: nat
  es_write_buffer :: bytes
  es_closed :: bool

definition stream_new :: env_stream where
  "stream_new = \<lparr>es_read_buffer = [], es_total_read = 0, es_write_buffer = [], es_closed = False\<rparr>"

text \<open>The loop of \<open>read_from_buffered\<close>: skip what was read before, take the rest.\<close>

fun buffered_loop :: "nat \<Rightarrow> bytes list \<Rightarrow> bytes \<Rightarrow> bytes" where
  "buffered_loop to_skip [] read_buffer = read_buffer"
| "buffered_loop to_skip (buf # buffers) read_buffer =
     (if to_skip = 0 then buffered_loop 0 buffers (read_buffer @ buf)
      else if length buf \<le> to_skip then buffered_loop (to_skip - length buf) buffers read_buffer
      else buffered_loop 0 buffers (read_buffer @ drop to_skip buf))"

text \<open>The subtraction of sizes panics when more was read than there is.\<close>

definition read_from_buffered :: "'a envoy_net_scheme \<Rightarrow> env_stream \<Rightarrow> env_stream rust" where
  "read_from_buffered env s =
     (if total_size env < es_total_read s then Panic
      else (let to_read = total_size env - es_total_read s in
        Ret (s\<lparr>es_read_buffer := buffered_loop (es_total_read s) (en_chunks env) (es_read_buffer s),
               es_total_read := es_total_read s + to_read\<rparr>)))"

definition read_from :: "net_drain \<Rightarrow> env_stream \<Rightarrow> 'a envoy_net_scheme
    \<Rightarrow> env_stream \<times> 'a envoy_net_scheme" where
  "read_from drain s env =
     (if total_size env = 0 then (s, env)
      else (s\<lparr>es_read_buffer := fold (\<lambda>buf rb. rb @ buf) (en_chunks env) (es_read_buffer s),
              es_total_read := es_total_read s + total_size env\<rparr>,
            drain_read_buffer drain (total_size env) env))"

definition READ_BLOCK_SIZE :: nat where
  "READ_BLOCK_SIZE = 256 * 1024"

fun block_loop :: "nat \<Rightarrow> bytes list \<Rightarrow> bytes \<Rightarrow> bytes" where
  "block_loop remaining [] read_buffer = read_buffer"
| "block_loop remaining (buf # buffers) read_buffer =
     (if remaining = 0 then read_buffer
      else (let n = min (length buf) remaining in
        block_loop (remaining - n) buffers (read_buffer @ take n buf)))"

definition read_block :: "net_drain \<Rightarrow> env_stream \<Rightarrow> 'a envoy_net_scheme
    \<Rightarrow> nat \<times> env_stream \<times> 'a envoy_net_scheme" where
  "read_block drain s env =
     (if total_size env = 0 then (0, s, env)
      else (let to_read = min (total_size env) READ_BLOCK_SIZE in
        (to_read,
         s\<lparr>es_read_buffer := block_loop to_read (en_chunks env) (es_read_buffer s),
           es_total_read := es_total_read s + to_read\<rparr>,
         drain_read_buffer drain to_read env)))"

definition write_to :: "env_stream \<Rightarrow> 'a envoy_net_scheme \<Rightarrow> env_stream \<times> 'a envoy_net_scheme" where
  "write_to s env =
     (if es_write_buffer s = [] then (s, env)
      else (s\<lparr>es_write_buffer := []\<rparr>, net_call (NetWrite (es_write_buffer s) False) env))"

section \<open>The standard library's traits\<close>

datatype io_error = WouldBlock | BrokenPipe

text \<open>\<open>Read::read\<close> into a buffer of \<open>n\<close> bytes: the bytes put in front of it.\<close>

definition stream_read :: "nat \<Rightarrow> env_stream \<Rightarrow> (io_error + bytes) \<times> env_stream" where
  "stream_read n s =
     (if es_read_buffer s = [] then ((if es_closed s then Inr [] else Inl WouldBlock), s)
      else if length (es_read_buffer s) \<le> n then (Inr (es_read_buffer s), s\<lparr>es_read_buffer := []\<rparr>)
      else (Inr (take n (es_read_buffer s)), s\<lparr>es_read_buffer := drop n (es_read_buffer s)\<rparr>))"

definition stream_write :: "bytes \<Rightarrow> env_stream \<Rightarrow> (io_error + nat) \<times> env_stream" where
  "stream_write buf s =
     (if es_closed s then (Inl BrokenPipe, s)
      else (Inr (length buf), s\<lparr>es_write_buffer := es_write_buffer s @ buf\<rparr>))"

text \<open>What a client of the stream does until it returns; \<open>flush\<close> always succeeds.\<close>

datatype 'r io =
    IoReturn 'r
  | IoRead nat "io_error + bytes \<Rightarrow> 'r io"
  | IoWrite bytes "io_error + nat \<Rightarrow> 'r io"
  | IoFlush "'r io"

primrec run_io :: "'r io \<Rightarrow> env_stream \<Rightarrow> 'r \<times> env_stream" where
  "run_io (IoReturn r) s = (r, s)"
| "run_io (IoRead n k) s = run_io (k (fst (stream_read n s))) (snd (stream_read n s))"
| "run_io (IoWrite bs k) s = run_io (k (fst (stream_write bs s))) (snd (stream_write bs s))"
| "run_io (IoFlush k) s = run_io k s"

section \<open>What the operations do\<close>

text \<open>The bytes in Envoy's read buffer, whatever the chunks.\<close>

definition unread :: "'a envoy_net_scheme \<Rightarrow> bytes" where
  "unread env = concat (en_chunks env)"

lemma unread_drain [simp]: "net_drain_law drain \<Longrightarrow> unread (drain_read_buffer drain n env) = drop n (unread env)"
  by (simp add: unread_def drain_read_buffer_def net_drain_law_def)

lemma unread_net_call [simp]: "unread (net_call c env) = unread env"
  by (simp add: unread_def net_call_def)

lemma total_size_unread: "total_size env = length (unread env)"
  by (simp add: total_size_def unread_def)

lemma buffered_loop_eq: "buffered_loop n bufs rb = rb @ drop n (concat bufs)"
  by (induction n bufs rb rule: buffered_loop.induct) auto

lemma fold_put: "fold (\<lambda>buf rb. rb @ buf) bufs rb = rb @ concat bufs"
  by (induction bufs arbitrary: rb) auto

lemma block_loop_eq: "block_loop n bufs rb = rb @ take n (concat bufs)"
  by (induction n bufs rb rule: block_loop.induct) (auto simp: Let_def min_def)

lemma read_from_buffered_eq:
  "es_total_read s \<le> total_size env \<Longrightarrow> read_from_buffered env s =
     Ret (s\<lparr>es_read_buffer := es_read_buffer s @ drop (es_total_read s) (unread env),
            es_total_read := total_size env\<rparr>)"
  by (simp add: read_from_buffered_def buffered_loop_eq unread_def)

lemma read_from_eq:
  "net_drain_law drain \<Longrightarrow> read_from drain s env = (s', env') \<Longrightarrow>
     es_read_buffer s' = es_read_buffer s @ unread env \<and> unread env' = []
     \<and> es_write_buffer s' = es_write_buffer s \<and> es_closed s' = es_closed s"
  by (auto simp: read_from_def fold_put total_size_unread simp flip: unread_def split: if_splits)

lemma read_block_eq:
  "net_drain_law drain \<Longrightarrow> read_block drain s env = (n, s', env') \<Longrightarrow>
     n = min (length (unread env)) READ_BLOCK_SIZE
     \<and> es_read_buffer s' = es_read_buffer s @ take n (unread env)
     \<and> unread env' = drop n (unread env)
     \<and> es_write_buffer s' = es_write_buffer s \<and> es_closed s' = es_closed s"
  by (auto simp: read_block_def block_loop_eq total_size_unread Let_def simp flip: unread_def split: if_splits)

text \<open>For evaluation: small buffers are within a block.\<close>

lemma read_block_code [code]:
  "read_block drain s env =
     (if total_size env = 0 then (0, s, env)
      else (let to_read = (if total_size env < 16 then total_size env else min (total_size env) READ_BLOCK_SIZE) in
        (to_read,
         s\<lparr>es_read_buffer := block_loop to_read (en_chunks env) (es_read_buffer s),
           es_total_read := es_total_read s + to_read\<rparr>,
         drain_read_buffer drain to_read env)))"
  by (simp add: read_block_def READ_BLOCK_SIZE_def Let_def)

lemma stream_read_spec:
  "stream_read n s = (r, s') \<Longrightarrow>
     case r of
       Inr bs \<Rightarrow> es_read_buffer s = bs @ es_read_buffer s' \<and> length bs \<le> n
         \<and> (if bs = [] \<and> 0 < n then es_closed s else True)
     | Inl e \<Rightarrow> e = WouldBlock \<and> es_read_buffer s = [] \<and> \<not> es_closed s \<and> s' = s"
  by (auto simp: stream_read_def split: if_splits)

lemma stream_read_same:
  "es_write_buffer (snd (stream_read n s)) = es_write_buffer s"
  "es_closed (snd (stream_read n s)) = es_closed s"
  "es_total_read (snd (stream_read n s)) = es_total_read s"
  by (simp_all add: stream_read_def)

lemma stream_write_same:
  "es_read_buffer (snd (stream_write bs s)) = es_read_buffer s"
  "es_closed (snd (stream_write bs s)) = es_closed s"
  "es_total_read (snd (stream_write bs s)) = es_total_read s"
  by (simp_all add: stream_write_def)

lemmas stream_same = stream_read_same stream_write_same

lemma run_io_same:
  "es_closed (snd (run_io p s)) = es_closed s \<and> es_total_read (snd (run_io p s)) = es_total_read s"
  by (induction p arbitrary: s) (simp_all add: stream_same)

text \<open>Running an interaction only takes bytes off the front of the stream.\<close>

lemma run_io_takes: "\<exists>taken. es_read_buffer s = taken @ es_read_buffer (snd (run_io p s))"
proof (induction p arbitrary: s)
  case (IoRead n k)
  obtain got s' where r: "stream_read n s = (got, s')" by (cases "stream_read n s")
  obtain b where "es_read_buffer s = b @ es_read_buffer s'"
    using stream_read_spec [OF r] by (cases got) auto
  moreover obtain taken where "es_read_buffer s' = taken @ es_read_buffer (snd (run_io (k got) s'))"
    using IoRead.IH by blast
  ultimately show ?case using r by simp
next
  case (IoWrite bs k)
  from IoWrite.IH [of _ "snd (stream_write bs s)"] show ?case by (simp add: stream_same)
qed simp_all

lemma run_io_length: "length (es_read_buffer (snd (run_io p s))) \<le> length (es_read_buffer s)"
  using run_io_takes [of s p] by (metis le_add2 length_append)

section \<open>A connection over the stream\<close>

text \<open>
  The operations of the stream in the order in which the filter may call them: while the
  handshake lasts Envoy's buffer is read without draining it; when it ends, the buffer is read
  and drained; afterwards every read drains. \<open>sy_got\<close> and \<open>sy_put\<close> are the bytes that reads
  returned to the library and that it wrote, \<open>sy_panic\<close> tells that an operation panicked.
\<close>

record stream_sys = envoy_net +
  sy_stream :: env_stream
  sy_handshake :: bool
  sy_arrived :: bytes
  sy_got :: bytes
  sy_put :: bytes
  sy_panic :: bool

definition stream_sys_new :: stream_sys where
  "stream_sys_new = \<lparr>en_chunks = [], en_calls = [], sy_stream = stream_new, sy_handshake = True,
     sy_arrived = [], sy_got = [], sy_put = [], sy_panic = False\<rparr>"

datatype stream_op =
    Arrive "bytes list"
  | ReadBuffered
  | EndHandshake
  | ReadFrom
  | ReadBlock
  | WriteTo
  | LibRead nat
  | LibWrite bytes

definition sy_buffered :: "stream_sys \<Rightarrow> stream_sys" where
  "sy_buffered y =
     (case read_from_buffered y (sy_stream y) of
        Panic \<Rightarrow> y\<lparr>sy_panic := True\<rparr>
      | Ret s \<Rightarrow> y\<lparr>sy_stream := s\<rparr>)"

fun stream_exec :: "net_drain \<Rightarrow> stream_op \<Rightarrow> stream_sys \<Rightarrow> stream_sys" where
  "stream_exec drain (Arrive cs) y = y\<lparr>en_chunks := en_chunks y @ cs, sy_arrived := sy_arrived y @ concat cs\<rparr>"
| "stream_exec drain ReadBuffered y = (if sy_handshake y then sy_buffered y else y)"
| "stream_exec drain EndHandshake y =
     (if sy_handshake y then
        (let y = sy_buffered y in drain_read_buffer drain (total_size y) (y\<lparr>sy_handshake := False\<rparr>))
      else y)"
| "stream_exec drain ReadFrom y =
     (if sy_handshake y then y
      else (case read_from drain (sy_stream y) y of (s, y) \<Rightarrow> y\<lparr>sy_stream := s\<rparr>))"
| "stream_exec drain ReadBlock y =
     (if sy_handshake y then y
      else (case read_block drain (sy_stream y) y of (_, s, y) \<Rightarrow> y\<lparr>sy_stream := s\<rparr>))"
| "stream_exec drain WriteTo y = (case write_to (sy_stream y) y of (s, y) \<Rightarrow> y\<lparr>sy_stream := s\<rparr>)"
| "stream_exec drain (LibRead n) y =
     (case stream_read n (sy_stream y) of
        (Inr bs, s) \<Rightarrow> y\<lparr>sy_stream := s, sy_got := sy_got y @ bs\<rparr>
      | (Inl _, s) \<Rightarrow> y\<lparr>sy_stream := s\<rparr>)"
| "stream_exec drain (LibWrite bs) y =
     (case stream_write bs (sy_stream y) of
        (Inr n, s) \<Rightarrow> y\<lparr>sy_stream := s, sy_put := sy_put y @ take n bs\<rparr>
      | (Inl _, s) \<Rightarrow> y\<lparr>sy_stream := s\<rparr>)"

fun net_data :: "net_call \<Rightarrow> bytes" where
  "net_data (NetWrite bs e) = bs"
| "net_data _ = []"

definition stream_inv :: "stream_sys \<Rightarrow> bool" where
  "stream_inv y \<longleftrightarrow>
     \<not> sy_panic y \<and> \<not> es_closed (sy_stream y)
     \<and> sy_put y = concat (map net_data (en_calls y)) @ es_write_buffer (sy_stream y)
     \<and> (if sy_handshake y
        then sy_arrived y = unread y \<and> es_total_read (sy_stream y) \<le> length (sy_arrived y)
          \<and> take (es_total_read (sy_stream y)) (sy_arrived y) = sy_got y @ es_read_buffer (sy_stream y)
        else sy_arrived y = sy_got y @ es_read_buffer (sy_stream y) @ unread y)"

lemma sy_buffered_eq:
  assumes "stream_inv y" "sy_handshake y"
  shows "\<exists>s. sy_buffered y = y\<lparr>sy_stream := s\<rparr> \<and> es_total_read s = length (unread y)
    \<and> sy_got y @ es_read_buffer s = sy_arrived y \<and> es_write_buffer s = es_write_buffer (sy_stream y) \<and> \<not> es_closed s"
proof -
  from assms have "es_total_read (sy_stream y) \<le> total_size y"
    by (auto simp: stream_inv_def total_size_unread)
  moreover have "sy_got y @ es_read_buffer (sy_stream y) @ drop (es_total_read (sy_stream y)) (unread y) = sy_arrived y"
    using assms unfolding stream_inv_def by simp (metis append.assoc append_take_drop_id)
  ultimately show ?thesis
    using assms
    by (intro exI [of _ "(sy_stream y)\<lparr>es_read_buffer := es_read_buffer (sy_stream y)
          @ drop (es_total_read (sy_stream y)) (unread y), es_total_read := total_size y\<rparr>"])
      (auto simp: sy_buffered_def read_from_buffered_eq stream_inv_def total_size_unread)
qed

lemma unread_same [simp]:
  "unread (y\<lparr>sy_stream := s\<rparr>) = unread y" "unread (y\<lparr>sy_handshake := h\<rparr>) = unread y"
  "unread (y\<lparr>sy_got := b\<rparr>) = unread y" "unread (y\<lparr>sy_put := b\<rparr>) = unread y"
  "unread (y\<lparr>sy_arrived := b\<rparr>) = unread y"
  "unread (y\<lparr>en_chunks := en_chunks y @ cs\<rparr>) = unread y @ concat cs"
  by (simp_all add: unread_def)

lemma drain_same [simp]:
  "sy_stream (drain_read_buffer drain n y) = sy_stream y" "sy_handshake (drain_read_buffer drain n y) = sy_handshake y"
  "sy_got (drain_read_buffer drain n y) = sy_got y" "sy_put (drain_read_buffer drain n y) = sy_put y"
  "sy_arrived (drain_read_buffer drain n y) = sy_arrived y" "sy_panic (drain_read_buffer drain n y) = sy_panic y"
  "en_calls (drain_read_buffer drain n y) = en_calls y"
  by (simp_all add: drain_read_buffer_def)

lemma env_stream_exec_inv [pres]:
  assumes "net_drain_law drain" "stream_inv y"
  shows "stream_inv (stream_exec drain op y)"
proof (cases op)
  case (Arrive cs)
  with assms show ?thesis by (auto simp: stream_inv_def)
next
  case ReadBuffered
  with assms sy_buffered_eq [of y] show ?thesis by (auto simp: stream_inv_def)
next
  case EndHandshake
  with assms sy_buffered_eq [of y] show ?thesis
    by (auto simp: stream_inv_def Let_def total_size_unread)
next
  case ReadFrom
  with assms show ?thesis
    by (auto simp: stream_inv_def read_from_def fold_put total_size_unread simp flip: unread_def)
next
  case ReadBlock
  with assms show ?thesis
    by (auto simp: stream_inv_def read_block_def block_loop_eq total_size_unread Let_def simp flip: unread_def)
next
  case WriteTo
  with assms show ?thesis
    by (auto simp: stream_inv_def write_to_def net_call_def) (simp_all add: unread_def)
next
  case (LibRead n)
  with assms show ?thesis
    by (auto simp: stream_inv_def stream_read_def)
next
  case (LibWrite bs)
  with assms show ?thesis by (auto simp: stream_inv_def stream_write_def)
qed

interpretation stream_machine: machine_contract "stream_exec drain" "\<lambda>_. net_drain_law drain" stream_inv for drain
  by unfold_locales (rule env_stream_exec_inv)

lemma stream_new_inv: "stream_inv stream_sys_new"
  by (simp add: stream_inv_def stream_sys_new_def stream_new_def unread_def)

text \<open>A buffer that drains into one chunk.\<close>

definition front_drain :: net_drain where
  "front_drain n cs = [drop n (concat cs)]"

lemma front_drain_law: "net_drain_law front_drain"
  by (simp add: net_drain_law_def front_drain_def)

section \<open>Properties\<close>

text \<open>
  C16. The stream loses, repeats and reorders nothing, across the switch from the handshake (whose
  bytes stay in Envoy's buffer) to the connection. At any time the bytes that arrived are those
  the library's reads returned, then those in the stream, then those Envoy still buffers that
  were not read; what the library wrote is what was written to Envoy, then the write buffer; and
  no operation panics.
\<close>

theorem ws_stream_conserves:
  assumes "net_drain_law drain"
  shows "case fold (stream_exec drain) ops stream_sys_new of y \<Rightarrow>
     \<not> sy_panic y
     \<and> sy_arrived y = sy_got y @ es_read_buffer (sy_stream y)
         @ drop (if sy_handshake y then es_total_read (sy_stream y) else 0) (unread y)
     \<and> sy_put y = concat (map net_data (en_calls y)) @ es_write_buffer (sy_stream y)"
proof -
  let ?y = "fold (stream_exec drain) ops stream_sys_new"
  have "stream_inv ?y"
    using stream_machine.fold_inv [of drain ops] assms stream_new_inv by (simp add: list_all_iff)
  then show ?thesis
    unfolding stream_inv_def by (cases "sy_handshake ?y") (simp, metis append.assoc append_take_drop_id, simp)
qed

theorem ws_stream_conserves_witness:
  "case fold (stream_exec front_drain)
       [Arrive [''GE'', ''T''], ReadBuffered, LibRead 2, Arrive [''ab''], EndHandshake, LibRead 9,
        Arrive [''xyz''], ReadFrom, LibRead 1] stream_sys_new of
     y \<Rightarrow> sy_got y = ''GETabx'' \<and> es_read_buffer (sy_stream y) = ''yz'' \<and> sy_arrived y = ''GETabxyz''"
proof -
  let ?ops = "[Arrive [''GE'', ''T''], ReadBuffered, LibRead 2, Arrive [''ab''], EndHandshake, LibRead 9,
        Arrive [''xyz''], ReadFrom, LibRead 1]"
  define y where "y = fold (stream_exec front_drain) ?ops stream_sys_new"
  have "sy_got y = ''GETabx''" unfolding y_def by code_simp
  moreover have "es_read_buffer (sy_stream y) = ''yz''" unfolding y_def by code_simp
  moreover have "unread y = []" unfolding y_def by code_simp
  ultimately show ?thesis
    using ws_stream_conserves [OF front_drain_law, of ?ops] unfolding y_def [symmetric] by simp
qed

text \<open>
  C30. A block read takes at most 256 KiB from Envoy, in order, and drains exactly what it takes:
  the rest stays in Envoy's buffer, which is what makes Envoy hold the client back. It takes
  nothing only when there is nothing.
\<close>

theorem ws_read_block_bounds:
  assumes "net_drain_law drain"
  shows "case read_block drain s env of (n, s', env') \<Rightarrow>
     n \<le> 262144 \<and> (n = 0 \<longleftrightarrow> total_size env = 0)
     \<and> es_read_buffer s' = es_read_buffer s @ take n (unread env)
     \<and> unread env' = drop n (unread env) \<and> total_size env = n + total_size env'"
proof -
  obtain n s' env' where r: "read_block drain s env = (n, s', env')" by (cases "read_block drain s env") auto
  from read_block_eq [OF assms r] r show ?thesis
    by (auto simp: READ_BLOCK_SIZE_def total_size_unread min_def split: if_splits)
qed

theorem ws_read_block_bounds_witness:
  "read_block front_drain stream_new \<lparr>en_chunks = [''ab'', ''c''], en_calls = []\<rparr>
     = (3, \<lparr>es_read_buffer = ''abc'', es_total_read = 3, es_write_buffer = [], es_closed = False\<rparr>,
        \<lparr>en_chunks = [[]], en_calls = []\<rparr>)
   \<and> net_drain_law front_drain"
proof -
  note law = front_drain_law
  from ws_read_block_bounds [OF law, where s = stream_new and env = "\<lparr>en_chunks = [''ab'', ''c''], en_calls = []\<rparr>"] law
  show ?thesis
    by (simp add: read_block_def total_size_def unread_def READ_BLOCK_SIZE_def stream_new_def drain_read_buffer_def
        front_drain_def)
qed

end
