(* ===== verification/Ws_App.thy ===== *)
theory Ws_App
  imports Ws_Stream Asgi_Shared Event_Bridge Request_Scope
begin

text \<open>
  \<open>src/src/asgi/websocket/executor.rs\<close>: the Python side of a WebSocket connection. The receive
  and send callables, the handler of the finished application, and how the executor completes or
  fails the futures the application waits for.
\<close>

section \<open>Events\<close>

definition WS_EVENT_ID_REQUEST :: nat where "WS_EVENT_ID_REQUEST = 1"
definition WS_EVENT_ID_RESPONSE :: nat where "WS_EVENT_ID_RESPONSE = 2"

text \<open>A future is known by a number. A close code is its number.\<close>

datatype ws_body = WsBytes bytes | WsText bytes

record accept_event =
  ae_subprotocol :: "bytes option"
  ae_headers :: headers
  ae_future :: nat

datatype ws_send_event =
    WsAccept accept_event
  | WsSendMessage ws_body nat
  | WsClose nat bytes
  | WsException
  | WsAbort

text \<open>The tasks that complete the futures on their event loop, one per dispatch.\<close>

datatype ws_task =
    WsConnected nat
  | WsReceived nat ws_body
  | WsDisconnected nat nat bytes
  | WsRecvDropped nat
  | WsSent nat
  | WsSendDropped nat

section \<open>What the filter and the callables share\<close>

text \<open>
  On top of Envoy's connection: the two bridges, the futures created so far, the tasks dispatched
  to the event loop, and the events committed to the scheduler of the filter.
\<close>

record ws_link = envoy_net +
  wl_recv :: "nat bridge"
  wl_send :: "ws_send_event bridge"
  wl_futures :: nat
  wl_tasks :: "ws_task list"
  wl_commits :: "nat list"

definition ws_dispatch :: "ws_task \<Rightarrow> 'a ws_link_scheme \<Rightarrow> 'a ws_link_scheme" where
  "ws_dispatch t l = l\<lparr>wl_tasks := wl_tasks l @ [t]\<rparr>"

definition ws_commit :: "nat \<Rightarrow> 'a ws_link_scheme \<Rightarrow> 'a ws_link_scheme" where
  "ws_commit event_id l = l\<lparr>wl_commits := wl_commits l @ [event_id]\<rparr>"

definition ws_create_future :: "'a ws_link_scheme \<Rightarrow> nat \<times> 'a ws_link_scheme" where
  "ws_create_future l = (wl_futures l, l\<lparr>wl_futures := wl_futures l + 1\<rparr>)"

text \<open>Dropping a receive future, or an event with a send future in it, completes the future.\<close>

definition ws_drop_recv :: "nat \<Rightarrow> 'a ws_link_scheme \<Rightarrow> 'a ws_link_scheme" where
  "ws_drop_recv fut l = ws_dispatch (WsRecvDropped fut) l"

fun ws_event_future :: "ws_send_event \<Rightarrow> nat option" where
  "ws_event_future (WsAccept a) = Some (ae_future a)"
| "ws_event_future (WsSendMessage body fut) = Some fut"
| "ws_event_future _ = None"

definition ws_drop_event :: "ws_send_event \<Rightarrow> 'a ws_link_scheme \<Rightarrow> 'a ws_link_scheme" where
  "ws_drop_event e l =
     (case ws_event_future e of Some fut \<Rightarrow> ws_dispatch (WsSendDropped fut) l | None \<Rightarrow> l)"

section \<open>Receive\<close>

definition ws_recv_call :: "'a ws_link_scheme \<Rightarrow> returned \<times> 'a ws_link_scheme" where
  "ws_recv_call l =
     (case ws_create_future l of (fut, l) \<Rightarrow>
        (AwaitsFuture fut,
         case bridge_offer (wl_recv l) fut of
           (True, b) \<Rightarrow> ws_commit WS_EVENT_ID_REQUEST (l\<lparr>wl_recv := b\<rparr>)
         | (False, b) \<Rightarrow> ws_drop_recv fut (l\<lparr>wl_recv := b\<rparr>)))"

section \<open>Send\<close>

datatype ws_send_state = WsStarted | WsSendAccepted | WsSendClosed

text \<open>\<open>close_allowed\<close> is the library's \<open>CloseCode::is_allowed\<close>.\<close>

record ws_api = header_api +
  close_allowed :: "nat \<Rightarrow> bool"

definition ws_error :: "bytes \<Rightarrow> pyerr + returned" where
  "ws_error msg = Inr (Awaits (error_awaitable (RuntimeError msg)))"

text \<open>A value that is absent or \<open>None\<close>.\<close>

definition get_some :: "pydict \<Rightarrow> bytes \<Rightarrow> pyval option" where
  "get_some event key = (case dict_get event key of Some PyNone \<Rightarrow> None | r \<Rightarrow> r)"

text \<open>Sending to the bridge: a closed one hands the event back, and dropping it fails its future.\<close>

definition ws_offer :: "ws_send_event \<Rightarrow> 'a ws_link_scheme \<Rightarrow> 'a ws_link_scheme" where
  "ws_offer e l =
     (case bridge_offer (wl_send l) e of
        (True, b) \<Rightarrow> ws_commit WS_EVENT_ID_RESPONSE (l\<lparr>wl_send := b\<rparr>)
      | (False, b) \<Rightarrow> ws_drop_event e (l\<lparr>wl_send := b\<rparr>))"

definition ws_send_accept :: "'b ws_api_scheme \<Rightarrow> pydict \<Rightarrow> 'a ws_link_scheme
    \<Rightarrow> (pyerr + returned) \<times> ws_send_state \<times> 'a ws_link_scheme" where
  "ws_send_accept api event l =
     (case pbind (extract_headers_from_event api event) (\<lambda>hs.
           pbind (case get_some event ''subprotocol'' of
                    Some v \<Rightarrow> pbind (cast_str v) (\<lambda>s. Inr (Some s))
                  | None \<Rightarrow> Inr None) (\<lambda>sub. Inr (hs, sub))) of
        Inl e \<Rightarrow> (Inl e, WsStarted, l)
      | Inr (hs, sub) \<Rightarrow>
          (case ws_create_future l of (fut, l) \<Rightarrow>
             (Inr (AwaitsFuture fut), WsSendAccepted,
              ws_offer (WsAccept \<lparr>ae_subprotocol = sub, ae_headers = hs, ae_future = fut\<rparr>) l)))"

definition ws_message_body :: "pydict \<Rightarrow> pyerr + ws_body" where
  "ws_message_body event =
     (case get_some event ''bytes'' of
        Some v \<Rightarrow> pbind (cast_bytes v) (\<lambda>b. Inr (WsBytes b))
      | None \<Rightarrow>
          (case get_some event ''text'' of
             Some v \<Rightarrow> pbind (cast_str v) (\<lambda>s. Inr (WsText s))
           | None \<Rightarrow> Inl (RuntimeError (''websocket.send event must have either '' @ quoted ''bytes''
               @ '' or '' @ quoted ''text'' @ '' field.''))))"

definition ws_send_message :: "pydict \<Rightarrow> 'a ws_link_scheme
    \<Rightarrow> (pyerr + returned) \<times> 'a ws_link_scheme" where
  "ws_send_message event l =
     (case ws_message_body event of
        Inl e \<Rightarrow> (Inl e, l)
      | Inr body \<Rightarrow>
          (case ws_create_future l of (fut, l) \<Rightarrow>
             (Inr (AwaitsFuture fut), ws_offer (WsSendMessage body fut) l)))"

text \<open>The state is closed before the reason is read.\<close>

definition ws_send_close :: "'b ws_api_scheme \<Rightarrow> pydict \<Rightarrow> ws_send_state \<Rightarrow> 'a ws_link_scheme
    \<Rightarrow> (pyerr + returned) \<times> ws_send_state \<times> 'a ws_link_scheme" where
  "ws_send_close api event st l =
     (case (case dict_get event ''code'' of Some v \<Rightarrow> extract_u16 v | None \<Rightarrow> Inr 1000) of
        Inl e \<Rightarrow> (Inl e, st, l)
      | Inr code \<Rightarrow>
          if \<not> close_allowed api code then
            (Inr (Awaits (error_awaitable
               (ValueError (''invalid WebSocket close code: '' @ decimal code)))), st, l)
          else
            (case (case get_some event ''reason'' of Some v \<Rightarrow> cast_str v | None \<Rightarrow> Inr []) of
               Inl e \<Rightarrow> (Inl e, WsSendClosed, l)
             | Inr reason \<Rightarrow>
                 (Inr (Awaits EmptyAwaitable), WsSendClosed, ws_offer (WsClose code reason) l)))"

text \<open>A closed callable answers first, so the arm \<open>unreachable!\<close> of an accept is not reached.\<close>

definition ws_send :: "'b ws_api_scheme \<Rightarrow> pydict \<Rightarrow> ws_send_state \<Rightarrow> 'a ws_link_scheme
    \<Rightarrow> (pyerr + returned) \<times> ws_send_state \<times> 'a ws_link_scheme" where
  "ws_send api event st l =
     (if st = WsSendClosed then (Inr (Awaits (error_awaitable ClientDisconnectedError)), st, l)
      else (case event_type event of
        Inl e \<Rightarrow> (Inl e, st, l)
      | Inr ty \<Rightarrow>
          if ty = ''websocket.accept'' then
            (if st = WsStarted then ws_send_accept api event l
             else (ws_error ''WebSocket connection has already been accepted.'', st, l))
          else if ty = ''websocket.send'' then
            (if st = WsStarted then
               (ws_error (''Expected ASGI message '' @ quoted ''websocket.accept'' @ '', but got ''
                  @ quoted ''websocket.send'' @ ''.''), st, l)
             else (case ws_send_message event l of (r, l) \<Rightarrow> (r, st, l)))
          else if ty = ''websocket.close'' then ws_send_close api event st l
          else (ws_error (''Unexpected ASGI message of type '' @ quoted ty @ ''.''), st, l)))"

section \<open>The application's end\<close>

text \<open>\<open>AppFutureHandler\<close>, with the result of the finished task.\<close>

definition ws_app_done :: "pyerr + unit \<Rightarrow> 'a ws_link_scheme \<Rightarrow> 'a ws_link_scheme" where
  "ws_app_done result l =
     (case result of
        Inl e \<Rightarrow> if e = ClientDisconnectedError then l else ws_offer WsException l
      | Inr _ \<Rightarrow> ws_offer WsAbort l)"

section \<open>Completing futures\<close>

text \<open>The \<open>handle_\<close> functions of the executor, on Envoy's thread.\<close>

definition ws_handle_connect :: "nat \<Rightarrow> 'a ws_link_scheme \<Rightarrow> 'a ws_link_scheme" where
  "ws_handle_connect fut l = ws_dispatch (WsConnected fut) l"

definition ws_handle_message :: "ws_body \<Rightarrow> nat \<Rightarrow> 'a ws_link_scheme \<Rightarrow> 'a ws_link_scheme" where
  "ws_handle_message body fut l = ws_dispatch (WsReceived fut body) l"

definition ws_handle_disconnect :: "nat \<Rightarrow> bytes \<Rightarrow> nat \<Rightarrow> 'a ws_link_scheme \<Rightarrow> 'a ws_link_scheme" where
  "ws_handle_disconnect code reason fut l = ws_dispatch (WsDisconnected fut code reason) l"

definition ws_handle_send :: "nat \<Rightarrow> 'a ws_link_scheme \<Rightarrow> 'a ws_link_scheme" where
  "ws_handle_send fut l = ws_dispatch (WsSent fut) l"

text \<open>What the tasks do to the future on the event loop: the value or the exception it gets.\<close>

definition ws_disconnect_event :: "nat \<Rightarrow> bytes \<Rightarrow> pyval" where
  "ws_disconnect_event code reason =
     PyDict [(''type'', PyStr ''websocket.disconnect''), (''code'', PyInt (int code)), (''reason'', PyStr reason)]"

fun ws_task_outcome :: "ws_task \<Rightarrow> nat \<times> (pyerr + pyval)" where
  "ws_task_outcome (WsConnected fut) = (fut, Inr (PyDict [(''type'', PyStr ''websocket.connect'')]))"
| "ws_task_outcome (WsReceived fut body) =
     (fut, Inr (PyDict [(''type'', PyStr ''websocket.receive''),
        (case body of WsBytes b \<Rightarrow> (''bytes'', PyBytes b) | WsText s \<Rightarrow> (''text'', PyStr s))]))"
| "ws_task_outcome (WsDisconnected fut code reason) = (fut, Inr (ws_disconnect_event code reason))"
| "ws_task_outcome (WsRecvDropped fut) = (fut, Inr (ws_disconnect_event 1005 []))"
| "ws_task_outcome (WsSent fut) = (fut, Inr PyNone)"
| "ws_task_outcome (WsSendDropped fut) = (fut, Inl ClientDisconnectedError)"

section \<open>Starting the application\<close>

text \<open>
  \<open>run_app\<close>, on the event loop: the scope with the subprotocols, then the call of the
  application, each of which may fail; the failure goes back to the loop, which only reports it.
\<close>

definition ws_run_app :: "(bytes \<Rightarrow> bytes) \<Rightarrow> (string \<Rightarrow> bytes) \<Rightarrow> scope \<Rightarrow> bytes list \<Rightarrow> bytes
    \<Rightarrow> pydict option \<Rightarrow> (pydict \<Rightarrow> pyerr option) \<Rightarrow> pyerr + ws_send_state" where
  "ws_run_app decode_binary hc sc subprotocols root_path state call =
     pbind (new_scope_dict decode_binary hc sc ''websocket''
              [(''version'', PyStr ''3.0''), (''spec_version'', PyStr ''2.5'')] []
              (Some root_path) state) (\<lambda>scope_dict.
       let scope_dict = dict_set ''subprotocols'' (PyList (map PyStr subprotocols)) scope_dict in
       case call scope_dict of
         Some e \<Rightarrow> Inl e
       | None \<Rightarrow> Inr WsStarted)"

text \<open>
  The rest of \<open>run_app\<close>: the task of the coroutine and the handler of its end; what was done, and the
  error of the call that failed.
\<close>

datatype ws_task_action = WsCreateTask | WsAddHandler

definition ws_start_task :: "pyerr + unit \<Rightarrow> pyerr + unit \<Rightarrow> ws_task_action list \<times> (pyerr + unit)" where
  "ws_start_task create_task add_callback =
     (case create_task of
        Inl e \<Rightarrow> ([], Inl e)
      | Inr _ \<Rightarrow> (case add_callback of Inl e \<Rightarrow> ([WsCreateTask], Inl e) | Inr _ \<Rightarrow> ([WsCreateTask, WsAddHandler], Inr ())))"

text \<open>No application task runs without its handler unless the error is reported.\<close>

lemma ws_start_task_handled:
  "case ws_start_task c a of (done, r) \<Rightarrow> isl r \<longleftrightarrow> WsAddHandler \<notin> set done"
  by (simp add: ws_start_task_def split: sum.split)

end
