(* ===== verification/Loops.thy ===== *)
theory Loops
  imports Prelude
begin

text \<open>
  Rust's \<open>loop { .. }\<close> when the body may panic, return from the function, go on, or contain a
  loop that does not end: \<open>None\<close> is not ending. The rule gives the result of a loop whose body
  keeps an invariant and descends.
\<close>

datatype ('a, 'b) flow = Again 'a | Leave 'b | Crash

partial_function (option) rust_loop :: "('a \<Rightarrow> ('a, 'b) flow option) \<Rightarrow> 'a \<Rightarrow> 'b rust option" where
  "rust_loop body x =
     (case body x of
        None \<Rightarrow> None
      | Some r \<Rightarrow> (case r of Again y \<Rightarrow> rust_loop body y | Leave y \<Rightarrow> Some (Ret y) | Crash \<Rightarrow> Some Panic))"

declare rust_loop.simps [code]

text \<open>What the body must do with a state that satisfies \<open>P\<close> for the loop to return \<open>Q\<close>.\<close>

fun flow_ok :: "('a \<Rightarrow> bool) \<Rightarrow> ('b \<Rightarrow> bool) \<Rightarrow> ('a, 'b) flow option \<Rightarrow> bool" where
  "flow_ok P Q None = False"
| "flow_ok P Q (Some (Again y)) = P y"
| "flow_ok P Q (Some (Leave y)) = Q y"
| "flow_ok P Q (Some Crash) = False"

lemma flow_ok_cases:
  assumes "flow_ok P Q r"
  obtains y where "r = Some (Again y)" "P y" | y where "r = Some (Leave y)" "Q y"
  using assms by (cases "(P, Q, r)" rule: flow_ok.cases) auto

lemma rust_loop_total:
  assumes "wf R"
    and "\<And>x. P x \<Longrightarrow> flow_ok (\<lambda>y. P y \<and> (y, x) \<in> R) Q (body x)"
    and "P x"
  shows "\<exists>y. rust_loop body x = Some (Ret y) \<and> Q y"
  using assms(1,3)
proof (induction x rule: wf_induct_rule)
  case (less x)
  from assms(2) [OF less.prems] show ?case
  proof (cases rule: flow_ok_cases)
    case (1 y)
    with less.IH [of y] show ?thesis by (simp add: rust_loop.simps [of body x])
  next
    case (2 y)
    then show ?thesis by (simp add: rust_loop.simps [of body x])
  qed
qed

end
