(* ===== verification/Ws_Filter.thy ===== *)
theory Ws_Filter
  imports Ws_App Loops
begin

text \<open>
  The Envoy network filter of a WebSocket connection, \<open>src/src/asgi/websocket/mod.rs\<close>: the
  handshake, reading and sending messages, closing. The WebSocket library (the crate
  tungstenite) and Envoy are parameters. The last section puts the filter, the application's
  callables and Envoy together.
\<close>

section \<open>The library\<close>

text \<open>The \<open>http\<close> crate's types. A header map is the list of its names, each with its values.\<close>

type_synonym header_map = "(bytes \<times> bytes list) list"

record ws_request =
  hq_version :: http_version
  hq_method :: bytes
  hq_path_and_query :: "bytes option"
  hq_headers :: header_map

text \<open>A response and the headers appended to it, in order.\<close>

record ws_response =
  rs_status :: nat
  rs_headers :: headers

type_synonym close_frame = "nat \<times> bytes"

text \<open>\<open>OtherMessage\<close> is a ping, a pong or a raw frame.\<close>

datatype ws_message = Binary bytes | Text bytes | CloseMessage "close_frame option" | OtherMessage

datatype ws_err = WsIo io_error | WsProtocol | WsUtf8 | WsCapacity | WsConnectionClosed | WsAlreadyClosed | WsOtherError

text \<open>\<open>single_round\<close>: the stage that finishes reads the request; \<open>HsWritten\<close> is the other stage.\<close>

datatype 'h hs_round = HsWouldBlock 'h | HsIncomplete 'h | HsRequest ws_request bytes | HsWritten | HsError

text \<open>
  \<open>'h\<close> is the state of the handshake, \<open>'x\<close> the negotiated extensions, \<open>'w\<close> the state of the
  WebSocket besides its stream. \<open>lib_header_value\<close> is \<open>HeaderValue::from_bytes\<close>.
\<close>

record ('h, 'x, 'w) ws_lib =
  lib_start :: 'h
  lib_round :: "'h \<Rightarrow> 'h hs_round io"
  lib_create_response :: "ws_request \<Rightarrow> ws_response option"
  lib_negotiate :: "bool \<Rightarrow> header_map \<Rightarrow> ws_response \<Rightarrow> 'x option \<times> ws_response"
  lib_no_extensions :: 'x
  lib_header_value :: "bytes \<Rightarrow> bytes option"
  lib_write_response :: "ws_response \<Rightarrow> bytes option"
  lib_websocket :: "'x \<Rightarrow> nat \<Rightarrow> 'w"
  lib_read :: "'w \<Rightarrow> ((ws_err + ws_message) \<times> 'w) io"
  lib_send :: "ws_message \<Rightarrow> 'w \<Rightarrow> ((ws_err + unit) \<times> 'w) io"
  lib_close :: "close_frame \<Rightarrow> 'w \<Rightarrow> ((ws_err + unit) \<times> 'w) io"

text \<open>What Envoy tells of the connection; \<open>pe_lossy\<close> is \<open>String::from_utf8_lossy\<close>.\<close>

record ws_peer =
  pe_is_ssl :: bool
  pe_remote_address :: "bytes \<times> nat"
  pe_local_address :: "bytes \<times> nat"
  pe_ssl_subject :: "bytes option"
  pe_lossy :: "bytes \<Rightarrow> bytes"

record ('h, 'x, 'w) ws_env = "('h, 'x, 'w) ws_lib" +
  we_drain :: net_drain
  we_peer :: ws_peer

section \<open>State\<close>

datatype ('h, 'x, 'w) ws_state =
    StartHandshake 'h env_stream
  | FinishHandshake env_stream ws_response 'x
  | WsAccepted 'w env_stream
  | NotWebSocket
  | WsDone

text \<open>
  \<open>wf_reads\<close> and \<open>wf_sends\<close> are histories: what the library's \<open>read\<close> returned to the filter and
  the messages the filter gave to its \<open>send\<close>.
\<close>

record ('h, 'x, 'w) ws_filter = ws_link +
  wf_state :: "('h, 'x, 'w) ws_state"
  wf_close_frame :: "close_frame option"
  wf_watermark :: u64
  wf_max_message_size :: nat
  wf_compression :: bool
  wf_reads :: "(ws_err + ws_message) list"
  wf_sends :: "ws_message list"

definition ws_filter_new :: "('h, 'x, 'w, 'a) ws_lib_scheme \<Rightarrow> nat \<Rightarrow> bool \<Rightarrow> ('h, 'x, 'w) ws_filter" where
  "ws_filter_new lib max_message_size compression =
     \<lparr>en_chunks = [], en_calls = [], wl_recv = bridge_new, wl_send = bridge_new, wl_futures = 0,
      wl_tasks = [], wl_commits = [], wf_state = StartHandshake (lib_start lib) stream_new,
      wf_close_frame = None, wf_watermark = 0, wf_max_message_size = max_message_size,
      wf_compression = compression, wf_reads = [], wf_sends = []\<rparr>"

section \<open>The request\<close>

text \<open>\<open>HeaderValue::to_str\<close> wants visible ASCII, spaces or tabs; \<open>str::trim\<close> on such a text.\<close>

definition header_to_str :: "bytes \<Rightarrow> bytes option" where
  "header_to_str v = (if list_all (\<lambda>c. c = CHR 0x09 \<or> in_range 32 126 c) v then Some v else None)"

definition is_blank :: "char \<Rightarrow> bool" where
  "is_blank c \<longleftrightarrow> c = CHR 0x20 \<or> in_range 9 13 c"

definition str_trim :: "bytes \<Rightarrow> bytes" where
  "str_trim s = rev (dropWhile is_blank (rev (dropWhile is_blank s)))"

definition get_all :: "bytes \<Rightarrow> header_map \<Rightarrow> bytes list" where
  "get_all n headers = concat (map snd (filter (\<lambda>h. fst h = n) headers))"

definition parse_subprotocols :: "header_map \<Rightarrow> bytes list" where
  "parse_subprotocols headers =
     filter (\<lambda>p. p \<noteq> [])
       (map str_trim
         (concat (map (split_on CHR '','')
           (List.map_filter header_to_str (get_all ''sec-websocket-protocol'' headers)))))"

text \<open>The owning iterator of a header map names each header once, then only its values.\<close>

fun header_entries :: "header_map \<Rightarrow> (bytes option \<times> bytes) list" where
  "header_entries [] = []"
| "header_entries ((n, []) # hs) = header_entries hs"
| "header_entries ((n, v # vs) # hs) = (Some n, v) # map (Pair None) vs @ header_entries hs"

fun name_headers :: "bytes option \<Rightarrow> (bytes option \<times> bytes) list \<Rightarrow> headers rust" where
  "name_headers current_name [] = Ret []"
| "name_headers current_name ((name, val) # es) =
     (let current_name = (case name of Some n \<Rightarrow> Some n | None \<Rightarrow> current_name) in
      case current_name of
        None \<Rightarrow> Panic
      | Some n \<Rightarrow> rust_map (\<lambda>hs. (n, val) # hs) (name_headers current_name es))"

definition address_to_scope :: "bytes \<times> nat \<Rightarrow> (bytes \<times> int) option" where
  "address_to_scope a =
     (if fst a = [] then None else Some (strip_port (fst a), int (snd a)))"

definition ws_new_scope :: "ws_peer \<Rightarrow> ws_request \<Rightarrow> scope rust" where
  "ws_new_scope peer request =
     rust_map (\<lambda>headers.
       \<lparr>sc_http_version = hq_version request,
        sc_method = hq_method request,
        sc_scheme = (if pe_is_ssl peer then ''wss'' else ''ws''),
        sc_raw_path = (case hq_path_and_query request of Some pq \<Rightarrow> pq | None \<Rightarrow> []),
        sc_headers = headers,
        sc_client = address_to_scope (pe_remote_address peer),
        sc_server = map_option (\<lambda>(host, port). (host, Some port)) (address_to_scope (pe_local_address peer)),
        sc_tls_info = (if pe_is_ssl peer then
            Some \<lparr>tls_version = None, client_cert_name = map_option (pe_lossy peer) (pe_ssl_subject peer)\<rparr>
          else None)\<rparr>)
     (name_headers None (header_entries (hq_headers request)))"

section \<open>Closing\<close>

definition ws_close_recv :: "'a ws_link_scheme \<Rightarrow> 'a ws_link_scheme" where
  "ws_close_recv s =
     (case bridge_close (wl_recv s) of (dropped, b) \<Rightarrow> fold ws_drop_recv dropped (s\<lparr>wl_recv := b\<rparr>))"

definition ws_close_send :: "'a ws_link_scheme \<Rightarrow> 'a ws_link_scheme" where
  "ws_close_send s =
     (case bridge_close (wl_send s) of (dropped, b) \<Rightarrow> fold ws_drop_event dropped (s\<lparr>wl_send := b\<rparr>))"

definition ws_cleanup :: "'a ws_link_scheme \<Rightarrow> 'a ws_link_scheme" where
  "ws_cleanup s = ws_close_send (ws_close_recv s)"

definition ws_disconnect_all :: "close_frame \<Rightarrow> 'a ws_link_scheme \<Rightarrow> 'a ws_link_scheme" where
  "ws_disconnect_all frame s =
     (case bridge_process (wl_recv s) of
        (futures, b) \<Rightarrow> fold (ws_handle_disconnect (fst frame) (snd frame)) futures (s\<lparr>wl_recv := b\<rparr>))"

text \<open>The WebSocket with its stream, next to the rest of the filter.\<close>

type_synonym ('h, 'x, 'w) ws_conn = "('w \<times> env_stream) \<times> ('h, 'x, 'w) ws_filter"

text \<open>\<open>websocket.read()\<close>, then \<open>write_to\<close> for what reading made the library write.\<close>

definition read_message :: "('h, 'x, 'w, 'a) ws_lib_scheme \<Rightarrow> ('h, 'x, 'w) ws_conn
    \<Rightarrow> (ws_err + ws_message) \<times> ('h, 'x, 'w) ws_conn" where
  "read_message lib p =
     (case p of ((w, st), s) \<Rightarrow>
        (case run_io (lib_read lib w) st of ((message, w), st) \<Rightarrow>
           (case write_to st (s\<lparr>wf_reads := wf_reads s @ [message]\<rparr>) of (st, s) \<Rightarrow>
              (message, ((w, st), s)))))"

definition finish_close_step :: "('h, 'x, 'w, 'a) ws_lib_scheme \<Rightarrow> ('h, 'x, 'w) ws_conn
    \<Rightarrow> (('h, 'x, 'w) ws_conn, ('h, 'x, 'w) ws_conn) flow option" where
  "finish_close_step lib p =
     (case read_message lib p of (message, p) \<Rightarrow>
        Some (case message of
                Inl e \<Rightarrow>
                  Leave (if e = WsIo WouldBlock \<or> e = WsAlreadyClosed then p
                         else if e = WsConnectionClosed then apsnd (net_call (NetClose FlushWrite)) p
                         else apsnd (net_call (NetClose AbortReset)) p)
              | Inr _ \<Rightarrow> Again p))"

definition finish_close :: "('h, 'x, 'w, 'a) ws_env_scheme \<Rightarrow> ('h, 'x, 'w) ws_conn
    \<Rightarrow> ('h, 'x, 'w) ws_conn rust option" where
  "finish_close e p =
     (case p of ((w, st), s) \<Rightarrow>
        (case read_from (we_drain e) st s of (st, s) \<Rightarrow>
           rust_loop (finish_close_step e) ((w, st), s)))"

text \<open>A computation that may panic or not end, then one that uses its result.\<close>

definition and_then :: "'a rust option \<Rightarrow> ('a \<Rightarrow> 'b rust option) \<Rightarrow> 'b rust option" where
  "and_then m f =
     (case m of None \<Rightarrow> None | Some Panic \<Rightarrow> Some Panic | Some (Ret x) \<Rightarrow> f x)"

definition ws_close :: "('h, 'x, 'w, 'a) ws_env_scheme \<Rightarrow> close_frame \<Rightarrow> ('h, 'x, 'w) ws_conn
    \<Rightarrow> ('h, 'x, 'w) ws_conn rust option" where
  "ws_close e frame p =
     (case p of ((w, st), s) \<Rightarrow>
        (case run_io (lib_close e frame w) st of ((_, w), st) \<Rightarrow>
           and_then (finish_close e ((w, st), s)) (\<lambda>(ws, s). Some (Ret (ws, ws_disconnect_all frame s)))))"

section \<open>Reading\<close>

text \<open>The test at the end of the loop's body.\<close>

definition end_of_turn :: "('h, 'x, 'w) ws_conn \<Rightarrow> (('h, 'x, 'w) ws_conn, ('h, 'x, 'w) ws_conn) flow" where
  "end_of_turn p = (if bridge_is_empty (wl_recv (snd p)) then Leave p else Again p)"

definition deliver_message :: "ws_body \<Rightarrow> ('h, 'x, 'w) ws_conn
    \<Rightarrow> (('h, 'x, 'w) ws_conn, ('h, 'x, 'w) ws_conn) flow" where
  "deliver_message body p =
     (case p of (ws, s) \<Rightarrow>
        (case bridge_get (wl_recv s) of
           Panic \<Rightarrow> Crash
         | Ret (None, b) \<Rightarrow> end_of_turn (ws, s\<lparr>wl_recv := b\<rparr>)
         | Ret (Some fut, b) \<Rightarrow> end_of_turn (ws, ws_handle_message body fut (s\<lparr>wl_recv := b\<rparr>))))"

fun leave_with :: "'b rust option \<Rightarrow> ('a, 'b) flow option" where
  "leave_with None = None"
| "leave_with (Some Panic) = Some Crash"
| "leave_with (Some (Ret y)) = Some (Leave y)"

definition error_code :: "ws_err \<Rightarrow> nat" where
  "error_code e =
     (case e of WsProtocol \<Rightarrow> 1002 | WsUtf8 \<Rightarrow> 1007 | WsCapacity \<Rightarrow> 1009 | _ \<Rightarrow> 1011)"

definition ws_read_step :: "('h, 'x, 'w, 'a) ws_env_scheme \<Rightarrow> ('h, 'x, 'w) ws_conn
    \<Rightarrow> (('h, 'x, 'w) ws_conn, ('h, 'x, 'w) ws_conn) flow option" where
  "ws_read_step e p =
     (case read_message e p of (message, ws, s) \<Rightarrow>
        (case message of
           Inr (Binary bytes) \<Rightarrow> Some (deliver_message (WsBytes bytes) (ws, s))
         | Inr (Text text) \<Rightarrow> Some (deliver_message (WsText text) (ws, s))
         | Inr (CloseMessage frame) \<Rightarrow>
             (let frame = (case frame of Some f \<Rightarrow> f | None \<Rightarrow> (1005, [])) in
              leave_with (and_then (finish_close e (ws, s\<lparr>wf_close_frame := Some frame\<rparr>))
                (\<lambda>(ws, s). Some (Ret (ws, ws_cleanup (ws_disconnect_all frame s))))))
         | Inr OtherMessage \<Rightarrow> Some (Again (ws, s))
         | Inl err \<Rightarrow>
             if err = WsIo WouldBlock then
               (case read_block (we_drain e) (snd ws) s of (n, st, s) \<Rightarrow>
                  if n = 0 then Some (Leave ((fst ws, st), s)) else Some (end_of_turn ((fst ws, st), s)))
             else
               (let frame = (error_code err, []) in
                leave_with (and_then (ws_close e frame (ws, s\<lparr>wf_close_frame := Some frame\<rparr>))
                  (\<lambda>(ws, s). Some (Ret (ws, ws_cleanup s)))))))"

text \<open>The first part of \<open>read_web_socket\<close>: a close is under way.\<close>

definition ws_finish_closing :: "('h, 'x, 'w, 'a) ws_env_scheme \<Rightarrow> ('h, 'x, 'w) ws_conn
    \<Rightarrow> ('h, 'x, 'w) ws_conn rust option" where
  "ws_finish_closing e p =
     (case p of (ws, s) \<Rightarrow>
        (case wf_close_frame s of
           Some frame \<Rightarrow>
             and_then (finish_close e (ws, ws_disconnect_all frame s))
               (\<lambda>(ws, s). Some (Ret (ws, ws_close_recv (ws_close_send s))))
         | None \<Rightarrow> Some (Ret (ws, s))))"

definition read_web_socket :: "('h, 'x, 'w, 'a) ws_env_scheme \<Rightarrow> ('h, 'x, 'w) ws_filter
    \<Rightarrow> ('h, 'x, 'w) ws_filter rust option" where
  "read_web_socket e s =
     (case wf_state s of
        WsAccepted w st \<Rightarrow>
          and_then (ws_finish_closing e ((w, st), s)) (\<lambda>p.
          and_then (if bridge_is_empty (wl_recv (snd p)) then Some (Ret p) else rust_loop (ws_read_step e) p)
            (\<lambda>((w, st), s). Some (Ret (s\<lparr>wf_state := WsAccepted w st\<rparr>))))
      | _ \<Rightarrow> Some Panic)"

section \<open>Sending\<close>

definition forbidden_response :: ws_response where
  "forbidden_response = \<lparr>rs_status = 403, rs_headers = []\<rparr>"

definition failed_response :: ws_response where
  "failed_response = \<lparr>rs_status = 500, rs_headers = [(''content-length'', ''21'')]\<rparr>"

definition append_header :: "bytes \<times> bytes \<Rightarrow> ws_response \<Rightarrow> ws_response" where
  "append_header h r = r\<lparr>rs_headers := rs_headers r @ [h]\<rparr>"

definition accept_response :: "('h, 'x, 'w, 'a) ws_lib_scheme \<Rightarrow> accept_event \<Rightarrow> ws_response \<Rightarrow> ws_response" where
  "accept_response lib a response =
     fold append_header (ae_headers a)
       (case ae_subprotocol a of
          Some subprotocol \<Rightarrow>
            (case lib_header_value lib subprotocol of
               Some val \<Rightarrow> append_header (''sec-websocket-protocol'', val) response
             | None \<Rightarrow> response)
        | None \<Rightarrow> response)"

text \<open>The first event, before the handshake's response; the state is \<open>Done\<close> until it is known.\<close>

definition ws_first_event :: "('h, 'x, 'w, 'a) ws_env_scheme \<Rightarrow> env_stream \<Rightarrow> ws_response \<Rightarrow> 'x
    \<Rightarrow> ws_send_event \<Rightarrow> ('h, 'x, 'w) ws_filter \<Rightarrow> ('h, 'x, 'w) ws_filter rust" where
  "ws_first_event e stream response extensions event s =
     (case event of
        WsClose code reason \<Rightarrow>
          (case lib_write_response e forbidden_response of
             None \<Rightarrow> Panic
           | Some buffer \<Rightarrow> Ret ((net_call (NetWrite buffer True) s)\<lparr>wf_close_frame := Some (code, reason)\<rparr>))
      | WsAbort \<Rightarrow> Ret (net_call (NetClose FlushWrite) s)
      | WsException \<Rightarrow>
          (case lib_write_response e failed_response of
             None \<Rightarrow> Panic
           | Some buffer \<Rightarrow> Ret ((net_call (NetWrite (buffer @ ''Internal Server Error'') True) s)
               \<lparr>wf_close_frame := Some (1011, [])\<rparr>))
      | WsSendMessage body fut \<Rightarrow> Panic
      | WsAccept a \<Rightarrow>
          (case lib_write_response e (accept_response e a response) of
             None \<Rightarrow> Panic
           | Some buffer \<Rightarrow>
               (let s = net_call (NetWrite buffer False) s;
                    s = s\<lparr>wf_state := WsAccepted (lib_websocket e extensions (wf_max_message_size s)) stream\<rparr>
                in Ret (ws_handle_send (ae_future a) (ws_commit WS_EVENT_ID_REQUEST s)))))"

definition ws_start_close :: "('h, 'x, 'w, 'a) ws_env_scheme \<Rightarrow> close_frame \<Rightarrow> 'w \<Rightarrow> env_stream
    \<Rightarrow> ('h, 'x, 'w) ws_filter \<Rightarrow> ('h, 'x, 'w) ws_filter" where
  "ws_start_close e frame w st s =
     (case run_io (lib_close e frame w) st of ((_, w), st) \<Rightarrow>
        (case write_to st s of (st, s) \<Rightarrow> s\<lparr>wf_state := WsAccepted w st, wf_close_frame := Some frame\<rparr>))"

fun body_message :: "ws_body \<Rightarrow> ws_message" where
  "body_message (WsText text) = Text text"
| "body_message (WsBytes bytes) = Binary bytes"

definition ws_send_step :: "('h, 'x, 'w, 'a) ws_env_scheme \<Rightarrow> ws_send_event \<Rightarrow> ('h, 'x, 'w) ws_filter
    \<Rightarrow> ('h, 'x, 'w) ws_filter rust" where
  "ws_send_step e event s =
     (case wf_state s of
        WsAccepted w st \<Rightarrow>
          (case event of
             WsSendMessage body fut \<Rightarrow>
               if wf_close_frame s \<noteq> None then Ret (ws_drop_event event s)
               else (case run_io (lib_send e (body_message body) w) st of ((r, w), st) \<Rightarrow>
                 (case r of
                    Inl _ \<Rightarrow> Panic
                  | Inr _ \<Rightarrow>
                      (case write_to st (s\<lparr>wf_sends := wf_sends s @ [body_message body]\<rparr>) of (st, s) \<Rightarrow>
                         Ret (ws_handle_send fut (s\<lparr>wf_state := WsAccepted w st\<rparr>)))))
           | WsClose code reason \<Rightarrow> Ret (ws_start_close e (code, reason) w st s)
           | WsException \<Rightarrow> Ret (ws_start_close e (1011, []) w st s)
           | WsAbort \<Rightarrow> Ret (if wf_close_frame s = None then net_call (NetClose FlushWrite) s else s)
           | WsAccept a \<Rightarrow> Panic)
      | _ \<Rightarrow> Ret (ws_drop_event event s))"

fun rust_fold :: "('a \<Rightarrow> 's \<Rightarrow> 's rust) \<Rightarrow> 'a list \<Rightarrow> 's \<Rightarrow> 's rust" where
  "rust_fold f [] s = Ret s"
| "rust_fold f (x # xs) s = rust_bind (f x s) (rust_fold f xs)"

definition ws_process_send_events :: "('h, 'x, 'w, 'a) ws_env_scheme \<Rightarrow> ('h, 'x, 'w) ws_filter
    \<Rightarrow> ('h, 'x, 'w) ws_filter rust" where
  "ws_process_send_events e s =
     (case wf_state s of
        FinishHandshake stream response extensions \<Rightarrow>
          (case bridge_get (wl_send s) of
             Ret (Some event, b) \<Rightarrow>
               ws_first_event e stream response extensions event (s\<lparr>wf_state := WsDone, wl_send := b\<rparr>)
           | _ \<Rightarrow> Panic)
      | _ \<Rightarrow>
          (case bridge_process (wl_send s) of
             (events, b) \<Rightarrow> rust_fold (ws_send_step e) events (s\<lparr>wl_send := b\<rparr>)))"

section \<open>The callbacks\<close>

datatype data_status = Continue | StopIteration

text \<open>What \<open>on_read\<close> gives to the executor: the scope and the subprotocols.\<close>

type_synonym ws_job = "scope \<times> bytes list"

definition unexpected_body :: net_call where
  "unexpected_body = NetCloseDetails AbortReset ''Unexpected body during handshake''"

text \<open>The end of the handshake's reading, and one round of it; the state is \<open>NotWebSocket\<close> meanwhile.\<close>

definition ws_request_read :: "('h, 'x, 'w, 'a) ws_env_scheme \<Rightarrow> ws_request \<Rightarrow> bytes \<Rightarrow> env_stream
    \<Rightarrow> ('h, 'x, 'w) ws_filter \<Rightarrow> (data_status \<times> ws_job option \<times> ('h, 'x, 'w) ws_filter) rust" where
  "ws_request_read e request tail stream s =
     (case lib_create_response e request of
        None \<Rightarrow> Ret (Continue, None, s)
      | Some response \<Rightarrow>
          if tail \<noteq> [] then Ret (StopIteration, None, net_call unexpected_body s)
          else (case lib_negotiate e (wf_compression s) (hq_headers request) response of (ext, response) \<Rightarrow>
            let extensions = (case ext of Some x \<Rightarrow> x | None \<Rightarrow> lib_no_extensions e);
                s = s\<lparr>wf_state := FinishHandshake stream response extensions\<rparr>;
                s = drain_read_buffer (we_drain e) (total_size s) s;
                subprotocols = parse_subprotocols (hq_headers request)
            in rust_map (\<lambda>scope. (StopIteration, Some (scope, subprotocols), s))
                 (ws_new_scope (we_peer e) request)))"

definition handshake_round :: "('h, 'x, 'w, 'a) ws_env_scheme \<Rightarrow> ('h, 'x, 'w) ws_filter \<Rightarrow> 'h \<times> env_stream
    \<Rightarrow> ('h \<times> env_stream, data_status \<times> ws_job option \<times> ('h, 'x, 'w) ws_filter) flow option" where
  "handshake_round e s p =
     (case p of (mach, st) \<Rightarrow>
        (case run_io (lib_round e mach) st of (r, st) \<Rightarrow>
           (case r of
              HsWouldBlock m \<Rightarrow> Some (Leave (StopIteration, None, s\<lparr>wf_state := StartHandshake m st\<rparr>))
            | HsIncomplete m \<Rightarrow> Some (Again (m, st))
            | HsRequest request tail \<Rightarrow> leave_with (Some (ws_request_read e request tail st s))
            | HsWritten \<Rightarrow> Some Crash
            | HsError \<Rightarrow> Some (Leave (Continue, None, s)))))"

definition ws_on_read :: "('h, 'x, 'w, 'a) ws_env_scheme \<Rightarrow> ('h, 'x, 'w) ws_filter
    \<Rightarrow> (data_status \<times> ws_job option \<times> ('h, 'x, 'w) ws_filter) rust option" where
  "ws_on_read e s =
     (case wf_state s of
        NotWebSocket \<Rightarrow> Some (Ret (Continue, None, s))
      | WsAccepted w st \<Rightarrow> and_then (read_web_socket e s) (\<lambda>s. Some (Ret (StopIteration, None, s)))
      | FinishHandshake st response extensions \<Rightarrow>
          Some (Ret (StopIteration, None, net_call unexpected_body s))
      | WsDone \<Rightarrow> Some (Ret (StopIteration, None, s))
      | StartHandshake mach st \<Rightarrow>
          (case read_from_buffered s st of
             Panic \<Rightarrow> Some Panic
           | Ret st \<Rightarrow> rust_loop (handshake_round e (s\<lparr>wf_state := NotWebSocket\<rparr>)) (mach, st)))"

definition ws_on_scheduled :: "('h, 'x, 'w, 'a) ws_env_scheme \<Rightarrow> nat \<Rightarrow> ('h, 'x, 'w) ws_filter
    \<Rightarrow> ('h, 'x, 'w) ws_filter rust option" where
  "ws_on_scheduled e event_id s =
     (if event_id = WS_EVENT_ID_REQUEST then
        (case wf_state s of
           FinishHandshake st response extensions \<Rightarrow>
             (case bridge_get (wl_recv s) of
                Ret (Some fut, b) \<Rightarrow> Some (Ret (ws_handle_connect fut (s\<lparr>wl_recv := b\<rparr>)))
              | _ \<Rightarrow> Some Panic)
         | WsAccepted w st \<Rightarrow> read_web_socket e s
         | _ \<Rightarrow> Some (Ret s))
      else if wf_watermark s = 0 then Some (ws_process_send_events e s)
      else Some (Ret s))"

definition ws_above_high_watermark :: "('h, 'x, 'w) ws_filter \<Rightarrow> ('h, 'x, 'w) ws_filter" where
  "ws_above_high_watermark s = s\<lparr>wf_watermark := wf_watermark s + 1\<rparr>"

definition ws_below_low_watermark :: "('h, 'x, 'w) ws_filter \<Rightarrow> ('h, 'x, 'w) ws_filter" where
  "ws_below_low_watermark s =
     (let s = s\<lparr>wf_watermark := wf_watermark s - 1\<rparr> in
      if wf_watermark s = 0 then ws_commit WS_EVENT_ID_RESPONSE s else s)"

section \<open>The whole connection\<close>

text \<open>
  The filter, the send callable once the application runs, and Envoy: what arrived from the
  client, what Envoy gave to the next filters after a \<open>Continue\<close>, the job for the executor. The
  histories \<open>wx_sent\<close> and \<open>wx_done\<close> are the events the send bridge accepted and those the
  filter took from it. A callback that panics or does not end stops everything.
\<close>

datatype ws_mode = WsRunning | WsDestroyed | WsPanicked | WsDiverged

record ('h, 'x, 'w) ws_sys =
  wx_filter :: "('h, 'x, 'w) ws_filter"
  wx_mode :: ws_mode
  wx_job :: "ws_job option"
  wx_sender :: ws_send_state
  wx_arrived :: bytes
  wx_forwarded :: bytes
  wx_sent :: "ws_send_event list"
  wx_done :: "ws_send_event list"

definition ws_sys_new :: "('h, 'x, 'w, 'a) ws_lib_scheme \<Rightarrow> nat \<Rightarrow> bool \<Rightarrow> ('h, 'x, 'w) ws_sys" where
  "ws_sys_new lib max_message_size compression =
     \<lparr>wx_filter = ws_filter_new lib max_message_size compression, wx_mode = WsRunning, wx_job = None,
      wx_sender = WsStarted, wx_arrived = [], wx_forwarded = [], wx_sent = [], wx_done = []\<rparr>"

text \<open>
  Envoy reports data until the filter closed the connection, the watermark of its write buffer
  once something was written (not so often that the counter wraps), and a low watermark after a
  high one. The application's calls need a job; they may come after the connection is gone.
\<close>

datatype ws_op =
    NetRead "bytes list"
  | NetScheduled
  | NetAbove
  | NetBelow
  | NetDestroy
  | WsRecv
  | WsSend pydict
  | WsAppDone "pyerr + unit"

fun is_close :: "net_call \<Rightarrow> bool" where
  "is_close (NetWrite bs e) = False"
| "is_close _ = True"

fun is_write :: "net_call \<Rightarrow> bool" where
  "is_write (NetWrite bs e) = True"
| "is_write _ = False"

definition ws_finish :: "('h, 'x, 'w) ws_filter rust option \<Rightarrow> ('h, 'x, 'w) ws_sys \<Rightarrow> ('h, 'x, 'w) ws_sys" where
  "ws_finish r g =
     (case r of
        None \<Rightarrow> g\<lparr>wx_mode := WsDiverged\<rparr>
      | Some Panic \<Rightarrow> g\<lparr>wx_mode := WsPanicked\<rparr>
      | Some (Ret s) \<Rightarrow> g\<lparr>wx_filter := s\<rparr>)"

definition net_read :: "('h, 'x, 'w, 'a) ws_env_scheme \<Rightarrow> bytes list \<Rightarrow> ('h, 'x, 'w) ws_sys \<Rightarrow> ('h, 'x, 'w) ws_sys" where
  "net_read e cs g =
     (let g = g\<lparr>wx_arrived := wx_arrived g @ concat cs\<rparr>;
          s = wx_filter g
      in case ws_on_read e (s\<lparr>en_chunks := en_chunks s @ cs\<rparr>) of
           None \<Rightarrow> g\<lparr>wx_mode := WsDiverged\<rparr>
         | Some Panic \<Rightarrow> g\<lparr>wx_mode := WsPanicked\<rparr>
         | Some (Ret (StopIteration, job, s)) \<Rightarrow>
             g\<lparr>wx_filter := s, wx_job := (case job of Some j \<Rightarrow> Some j | None \<Rightarrow> wx_job g)\<rparr>
         | Some (Ret (Continue, job, s)) \<Rightarrow>
             g\<lparr>wx_filter := s\<lparr>en_chunks := []\<rparr>, wx_forwarded := wx_forwarded g @ concat (en_chunks s)\<rparr>)"

text \<open>The events a callback took from the bridge: those that are gone from its front.\<close>

definition taken_events :: "('h, 'x, 'w) ws_filter \<Rightarrow> ('h, 'x, 'w) ws_filter rust option \<Rightarrow> ws_send_event list" where
  "taken_events s r =
     (case r of
        Some (Ret s') \<Rightarrow>
          take (length (bridge_content (wl_send s)) - length (bridge_content (wl_send s'))) (bridge_content (wl_send s))
      | _ \<Rightarrow> [])"

definition net_scheduled :: "('h, 'x, 'w, 'a) ws_env_scheme \<Rightarrow> ('h, 'x, 'w) ws_sys \<Rightarrow> ('h, 'x, 'w) ws_sys" where
  "net_scheduled e g =
     (case wl_commits (wx_filter g) of
        [] \<Rightarrow> g
      | i # rest \<Rightarrow>
          (let s = (wx_filter g)\<lparr>wl_commits := rest\<rparr>; r = ws_on_scheduled e i s
           in ws_finish r (if i = WS_EVENT_ID_REQUEST then g
                else g\<lparr>wx_done := wx_done g @ taken_events s r\<rparr>)))"

text \<open>A call of the application: the events it added to the send bridge.\<close>

definition app_call :: "('h, 'x, 'w) ws_filter \<Rightarrow> ws_send_state \<Rightarrow> ('h, 'x, 'w) ws_sys \<Rightarrow> ('h, 'x, 'w) ws_sys" where
  "app_call s sender g =
     g\<lparr>wx_filter := s, wx_sender := sender,
       wx_sent := wx_sent g @ drop (length (bridge_content (wl_send (wx_filter g)))) (bridge_content (wl_send s))\<rparr>"

definition ws_exec :: "('h, 'x, 'w, 'a) ws_env_scheme \<Rightarrow> ws_api \<Rightarrow> ws_op \<Rightarrow> ('h, 'x, 'w) ws_sys \<Rightarrow> ('h, 'x, 'w) ws_sys" where
  "ws_exec e api op g =
     (let s = wx_filter g; running = (wx_mode g = WsRunning);
          app = (wx_job g \<noteq> None \<and> (running \<or> wx_mode g = WsDestroyed))
      in case op of
        NetRead cs \<Rightarrow> if running \<and> \<not> list_ex is_close (en_calls s) then net_read e cs g else g
      | NetScheduled \<Rightarrow> if running then net_scheduled e g else g
      | NetAbove \<Rightarrow>
          if running \<and> list_ex is_write (en_calls s) \<and> wf_watermark s + 1 \<noteq> 0
          then g\<lparr>wx_filter := ws_above_high_watermark s\<rparr> else g
      | NetBelow \<Rightarrow>
          if running \<and> wf_watermark s \<noteq> 0 then g\<lparr>wx_filter := ws_below_low_watermark s\<rparr> else g
      | NetDestroy \<Rightarrow> if running then g\<lparr>wx_filter := ws_cleanup s, wx_mode := WsDestroyed\<rparr> else g
      | WsRecv \<Rightarrow> if app then app_call (snd (ws_recv_call s)) (wx_sender g) g else g
      | WsSend event \<Rightarrow>
          if app then (case ws_send api event (wx_sender g) s of (_, sender, s) \<Rightarrow> app_call s sender g) else g
      | WsAppDone result \<Rightarrow> if app then app_call (ws_app_done result s) (wx_sender g) g else g)"

definition ws_run :: "('h, 'x, 'w, 'a) ws_env_scheme \<Rightarrow> ws_api \<Rightarrow> nat \<Rightarrow> bool \<Rightarrow> ws_op list \<Rightarrow> ('h, 'x, 'w) ws_sys" where
  "ws_run e api max_message_size compression ops =
     fold (ws_exec e api) ops (ws_sys_new e max_message_size compression)"

end
