(* ===== verification/Ws_Connection.thy ===== *)
theory Ws_Connection
  imports Ws_Filter "HOL-Library.Multiset" "HOL-Library.Sublist"
begin

text \<open>
  What holds of every run of a WebSocket connection (\<open>ws_run\<close> of theory \<open>Ws_Filter\<close>): the
  futures, the messages in both directions, the handshake, and that no callback panics or runs
  forever.
\<close>

section \<open>What is asked of the library\<close>

text \<open>
  \<open>weight\<close> is the number of bytes the library has buffered itself, \<open>active\<close> tells that neither
  side has started to close. A round of the handshake that wants to go on has read something,
  and reading the request writes nothing; a message takes bytes; reading keeps the connection
  active unless it returns a close or an error; sending on an active connection succeeds.
\<close>

fun is_data :: "ws_message \<Rightarrow> bool" where
  "is_data (Binary b) = True"
| "is_data (Text t) = True"
| "is_data _ = False"

fun is_close_message :: "ws_message \<Rightarrow> bool" where
  "is_close_message (CloseMessage frame) = True"
| "is_close_message _ = False"

definition round_law :: "('h, 'x, 'w, 'a) ws_lib_scheme \<Rightarrow> bool" where
  "round_law lib \<longleftrightarrow>
     (\<forall>m st. case run_io (lib_round lib m) st of (r, st') \<Rightarrow>
        r \<noteq> HsWritten \<and> es_write_buffer st' = es_write_buffer st
        \<and> (\<forall>m'. r = HsIncomplete m' \<longrightarrow> length (es_read_buffer st') < length (es_read_buffer st)))"

definition read_law :: "('w \<Rightarrow> nat) \<Rightarrow> ('w \<Rightarrow> bool) \<Rightarrow> ('h, 'x, 'w, 'a) ws_lib_scheme \<Rightarrow> bool" where
  "read_law weight active lib \<longleftrightarrow>
     (\<forall>w st. case run_io (lib_read lib w) st of ((r, w'), st') \<Rightarrow>
        (\<forall>m. r = Inr m \<longrightarrow>
           weight w' + length (es_read_buffer st') < weight w + length (es_read_buffer st)
           \<and> (active w \<and> \<not> is_close_message m \<longrightarrow> active w'))
        \<and> (r = Inl (WsIo WouldBlock) \<and> active w \<longrightarrow> active w'))"

definition send_law :: "('w \<Rightarrow> bool) \<Rightarrow> ('h, 'x, 'w, 'a) ws_lib_scheme \<Rightarrow> bool" where
  "send_law active lib \<longleftrightarrow>
     (\<forall>x n. active (lib_websocket lib x n))
     \<and> (\<forall>m w st. active w \<and> \<not> es_closed st \<longrightarrow>
          (case run_io (lib_send lib m w) st of ((r, w'), st') \<Rightarrow> r = Inr () \<and> active w'))"

definition ws_law :: "('w \<Rightarrow> nat) \<Rightarrow> ('w \<Rightarrow> bool) \<Rightarrow> ('h, 'x, 'w, 'a) ws_env_scheme \<Rightarrow> bool" where
  "ws_law weight active e \<longleftrightarrow>
     net_drain_law (we_drain e) \<and> round_law e \<and> read_law weight active e \<and> send_law active e"

section \<open>Futures in order\<close>

fun task_future :: "ws_task \<Rightarrow> nat" where
  "task_future (WsConnected fut) = fut"
| "task_future (WsReceived fut body) = fut"
| "task_future (WsDisconnected fut code reason) = fut"
| "task_future (WsRecvDropped fut) = fut"
| "task_future (WsSent fut) = fut"
| "task_future (WsSendDropped fut) = fut"

fun is_send_task :: "ws_task \<Rightarrow> bool" where
  "is_send_task (WsSent fut) = True"
| "is_send_task (WsSendDropped fut) = True"
| "is_send_task _ = False"

text \<open>The receive futures in the order in which they were or will be completed; the send futures.\<close>

definition recv_order :: "'a ws_link_scheme \<Rightarrow> nat list" where
  "recv_order s = map task_future (filter (\<lambda>t. \<not> is_send_task t) (wl_tasks s)) @ bridge_content (wl_recv s)"

definition event_futures :: "ws_send_event list \<Rightarrow> nat list" where
  "event_futures es = List.map_filter ws_event_future es"

definition send_order :: "'a ws_link_scheme \<Rightarrow> nat list" where
  "send_order s = map task_future (filter is_send_task (wl_tasks s)) @ event_futures (bridge_content (wl_send s))"

lemma event_futures_simps [simp]:
  "event_futures [] = []"
  "event_futures (x # xs) = (case ws_event_future x of Some f \<Rightarrow> f # event_futures xs | None \<Rightarrow> event_futures xs)"
  "event_futures (xs @ ys) = event_futures xs @ event_futures ys"
  by (simp_all add: event_futures_def List.map_filter_def split: option.split)

text \<open>The tasks that complete futures without a message.\<close>

definition received :: "ws_task list \<Rightarrow> ws_body list" where
  "received ts = List.map_filter (\<lambda>t. case t of WsReceived fut body \<Rightarrow> Some body | _ \<Rightarrow> None) ts"

lemma received_simps [simp]:
  "received [] = []"
  "received (t # ts) = (case t of WsReceived fut body \<Rightarrow> body # received ts | _ \<Rightarrow> received ts)"
  "received (ts @ us) = received ts @ received us"
  by (simp_all add: received_def List.map_filter_def split: ws_task.split)

lemma ws_drop_recv_fold:
  "fold ws_drop_recv fs s = s\<lparr>wl_tasks := wl_tasks s @ map WsRecvDropped fs\<rparr>"
  by (induction fs arbitrary: s) (simp_all add: ws_drop_recv_def ws_dispatch_def)

lemma drop_event_fold:
  "fold ws_drop_event es s = s\<lparr>wl_tasks := wl_tasks s @ map WsSendDropped (event_futures es)\<rparr>"
  by (induction es arbitrary: s) (simp_all add: ws_drop_event_def ws_dispatch_def split: option.split)

lemma disconnect_fold:
  "fold (ws_handle_disconnect code reason) fs s =
     s\<lparr>wl_tasks := wl_tasks s @ map (\<lambda>f. WsDisconnected f code reason) fs\<rparr>"
  by (induction fs arbitrary: s) (simp_all add: ws_handle_disconnect_def ws_dispatch_def)

lemma close_recv_eq:
  "ws_close_recv s = s\<lparr>wl_recv := Closed, wl_tasks := wl_tasks s @ map WsRecvDropped (bridge_content (wl_recv s))\<rparr>"
  by (simp add: ws_close_recv_def bridge_close_def ws_drop_recv_fold)

lemma close_send_eq:
  "ws_close_send s = s\<lparr>wl_send := Closed,
     wl_tasks := wl_tasks s @ map WsSendDropped (event_futures (bridge_content (wl_send s)))\<rparr>"
  by (simp add: ws_close_send_def bridge_close_def drop_event_fold)

lemma disconnect_all_eq:
  "ws_disconnect_all frame s = s\<lparr>wl_recv := (if wl_recv s = Closed then Closed else Empty),
     wl_tasks := wl_tasks s @ map (\<lambda>f. WsDisconnected f (fst frame) (snd frame)) (bridge_content (wl_recv s))\<rparr>"
  by (cases "bridge_process (wl_recv s)")
    (use bridge_process_content [of "wl_recv s"] bridge_process_snd [of "wl_recv s"] in
      \<open>simp add: ws_disconnect_all_def disconnect_fold\<close>)

lemma filter_map_tasks [simp]:
  "filter is_send_task (map WsRecvDropped fs) = []"
  "filter is_send_task (map (\<lambda>f. WsDisconnected f code reason) fs) = []"
  "filter is_send_task (map WsSendDropped fs) = map WsSendDropped fs"
  "filter (\<lambda>t. \<not> is_send_task t) (map WsRecvDropped fs) = map WsRecvDropped fs"
  "filter (\<lambda>t. \<not> is_send_task t) (map (\<lambda>f. WsDisconnected f code reason) fs)
     = map (\<lambda>f. WsDisconnected f code reason) fs"
  "filter (\<lambda>t. \<not> is_send_task t) (map WsSendDropped fs) = []"
  "received (map WsRecvDropped fs) = []"
  "received (map (\<lambda>f. WsDisconnected f code reason) fs) = []"
  "received (map WsSendDropped fs) = []"
  by (induction fs) simp_all

lemma task_future_comp [simp]:
  "task_future \<circ> WsRecvDropped = id" "task_future \<circ> WsSendDropped = id"
  "task_future \<circ> (\<lambda>f. WsDisconnected f code reason) = id"
  by auto

section \<open>Reading\<close>

fun message_body :: "ws_message \<Rightarrow> ws_body option" where
  "message_body (Binary b) = Some (WsBytes b)"
| "message_body (Text t) = Some (WsText t)"
| "message_body _ = None"

definition data_bodies :: "(ws_err + ws_message) list \<Rightarrow> ws_body list" where
  "data_bodies rs = List.map_filter (\<lambda>r. case r of Inr m \<Rightarrow> message_body m | Inl e \<Rightarrow> None) rs"

lemma data_bodies_simps [simp]:
  "data_bodies [] = []"
  "data_bodies (Inl e # rs) = data_bodies rs"
  "data_bodies (Inr m # rs) = (case message_body m of Some b \<Rightarrow> b # data_bodies rs | None \<Rightarrow> data_bodies rs)"
  "data_bodies (rs @ rs') = data_bodies rs @ data_bodies rs'"
  by (simp_all add: data_bodies_def List.map_filter_def split: option.split)

definition in_order :: "('h, 'x, 'w) ws_filter \<Rightarrow> bool" where
  "in_order s \<longleftrightarrow>
     prefix (received (wl_tasks s)) (data_bodies (wf_reads s))
     \<and> (wf_close_frame s = None \<longrightarrow> received (wl_tasks s) = data_bodies (wf_reads s))"

text \<open>What reading keeps: a preorder on the states of the filter.\<close>

definition reads_as :: "('h, 'x, 'w) ws_filter \<Rightarrow> ('h, 'x, 'w) ws_filter \<Rightarrow> bool" where
  "reads_as s s' \<longleftrightarrow>
     recv_order s' = recv_order s \<and> send_order s' = send_order s \<and> wl_futures s' = wl_futures s
     \<and> wl_commits s' = wl_commits s \<and> wf_watermark s' = wf_watermark s \<and> wf_sends s' = wf_sends s
     \<and> (wl_send s' = wl_send s \<or> wl_send s' = Closed \<and> wf_close_frame s' \<noteq> None)
     \<and> (wf_close_frame s' = None \<longrightarrow> wf_close_frame s = None)
     \<and> (bridge_wf (wl_recv s) \<longrightarrow> bridge_wf (wl_recv s'))
     \<and> (in_order s \<longrightarrow> in_order s')"

lemma reads_as_refl [simp]: "reads_as s s"
  by (simp add: reads_as_def)

lemma reads_as_trans [trans]: "reads_as s t \<Longrightarrow> reads_as t u \<Longrightarrow> reads_as s u"
  unfolding reads_as_def by auto

lemma close_ops_read:
  "wf_close_frame s \<noteq> None \<Longrightarrow> reads_as s (ws_close_recv s)"
  "wf_close_frame s \<noteq> None \<Longrightarrow> reads_as s (ws_close_send s)"
  "wf_close_frame s \<noteq> None \<Longrightarrow> reads_as s (ws_disconnect_all frame s)"
  "wf_close_frame s \<noteq> None \<Longrightarrow> reads_as s (net_call c s)"
  by (auto simp: reads_as_def close_recv_eq close_send_eq disconnect_all_eq net_call_def recv_order_def
      send_order_def in_order_def bridge_wf_def)

section \<open>The WebSocket under the read loop\<close>

text \<open>The state of the stream and the library between two operations of a loop.\<close>

definition conn_ok :: "('w \<Rightarrow> bool) \<Rightarrow> ('h, 'x, 'w) ws_conn \<Rightarrow> bool" where
  "conn_ok active p \<longleftrightarrow>
     (case p of ((w, st), s) \<Rightarrow> \<not> es_closed st \<and> (wf_close_frame s = None \<longrightarrow> active w))"

definition flushed :: "('h, 'x, 'w) ws_conn \<Rightarrow> bool" where
  "flushed p \<longleftrightarrow> es_write_buffer (snd (fst p)) = []"

lemma write_to_eq:
  "write_to st s = (st', s') \<Longrightarrow>
     (\<exists>cs. s' = s\<lparr>en_calls := en_calls s @ cs\<rparr> \<and> list_all is_write cs)
     \<and> st' = st\<lparr>es_write_buffer := []\<rparr>"
  by (cases s; cases st)
    (auto simp: write_to_def net_call_def split: if_splits intro: exI [of _ "[]"] exI [of _ "[NetWrite b False]" for b])

lemma read_message_eq:
  assumes "read_message lib ((w, st), s) = (message, p')"
  obtains w' st1 cs where
    "run_io (lib_read lib w) st = ((message, w'), st1)" "list_all is_write cs"
    "p' = ((w', st1\<lparr>es_write_buffer := []\<rparr>),
       s\<lparr>wf_reads := wf_reads s @ [message], en_calls := en_calls s @ cs\<rparr>)"
proof -
  obtain m w' st1 where r: "run_io (lib_read lib w) st = ((m, w'), st1)" by (metis prod.collapse)
  obtain st2 s2 where wt: "write_to st1 (s\<lparr>wf_reads := wf_reads s @ [m]\<rparr>) = (st2, s2)" by (metis prod.collapse)
  from assms r wt have "m = message" "p' = ((w', st2), s2)" by (simp_all add: read_message_def)
  with write_to_eq [OF wt] r that show thesis by auto
qed

lemma reads_note:
  "wf_close_frame s \<noteq> None \<or> (\<forall>m. message = Inr m \<longrightarrow> message_body m = None) \<Longrightarrow>
     reads_as s (s\<lparr>wf_reads := wf_reads s @ [message], en_calls := cs\<rparr>)"
  by (cases message)
    (auto simp: reads_as_def recv_order_def send_order_def in_order_def split: option.split)

lemma reads_drain [simp]:
  "reads_as s (s\<lparr>en_chunks := cs\<rparr>)" "reads_as s (s\<lparr>en_calls := c\<rparr>)"
  by (simp_all add: reads_as_def recv_order_def send_order_def in_order_def)

lemma reads_call: "reads_as s s' \<Longrightarrow> reads_as s (net_call c s')"
  unfolding net_call_def by (erule reads_as_trans) simp

lemma drain_filter_eq: "drain_read_buffer d n s = s\<lparr>en_chunks := d n (en_chunks s)\<rparr>"
  by (simp add: drain_read_buffer_def)

text \<open>What \<open>finish_close\<close> keeps: it only reads, and it leaves the bridges alone.\<close>

definition closes_as :: "('h, 'x, 'w) ws_filter \<Rightarrow> ('h, 'x, 'w) ws_conn \<Rightarrow> bool" where
  "closes_as s p \<longleftrightarrow>
     (case p of ((w, st), s') \<Rightarrow>
        reads_as s s' \<and> wl_recv s' = wl_recv s \<and> wl_send s' = wl_send s
        \<and> wf_close_frame s' = wf_close_frame s \<and> \<not> es_closed st)"

lemma finish_close_step_ok:
  assumes "read_law weight active e" "wf_close_frame s \<noteq> None" "closes_as s p"
  shows "flow_ok (\<lambda>q. closes_as s q \<and> (q, p) \<in> measure (\<lambda>((w, st), s). weight w + length (es_read_buffer st)))
     (\<lambda>q. closes_as s q \<and> flushed q) (finish_close_step e p)"
proof -
  obtain w st s1 where p: "p = ((w, st), s1)" by (metis prod.collapse)
  obtain message p' where m: "read_message e ((w, st), s1) = (message, p')" by (metis prod.collapse)
  from read_message_eq [OF m] obtain w' st1 cs where
    r: "run_io (lib_read e w) st = ((message, w'), st1)" and
    p': "p' = ((w', st1\<lparr>es_write_buffer := []\<rparr>), s1\<lparr>wf_reads := wf_reads s1 @ [message], en_calls := en_calls s1 @ cs\<rparr>)"
    by metis
  from assms p have s1: "reads_as s s1" "wf_close_frame s1 \<noteq> None" "\<not> es_closed st"
    "wl_recv s1 = wl_recv s" "wl_send s1 = wl_send s" "wf_close_frame s1 = wf_close_frame s"
    by (auto simp: closes_as_def)
  have st1: "\<not> es_closed st1" using run_io_same [of "lib_read e w" st] r s1(3) by simp
  have q: "closes_as s p'" "flushed p'"
    using reads_as_trans [OF s1(1) reads_note [of s1 message]] s1 st1 by (auto simp: p' closes_as_def flushed_def)
  have calls: "closes_as s (apsnd (net_call c) p')" "flushed (apsnd (net_call c) p')" for c
    using q by (auto simp: p' closes_as_def flushed_def reads_call) (simp_all add: net_call_def)
  from assms(1) r have "\<forall>m. message = Inr m \<longrightarrow>
      weight w' + length (es_read_buffer st1) < weight w + length (es_read_buffer st)"
    unfolding read_law_def by (metis (mono_tags, lifting) case_prod_conv)
  with q calls m show ?thesis
    by (auto simp: p finish_close_step_def p' split: sum.split)
qed

lemma finish_close_total:
  assumes "net_drain_law (we_drain e)" "read_law weight active e" "wf_close_frame s \<noteq> None" "\<not> es_closed st"
  shows "\<exists>p. finish_close e ((w, st), s) = Some (Ret p) \<and> closes_as s p \<and> flushed p"
proof -
  obtain st1 s1 where r: "read_from (we_drain e) st s = (st1, s1)" by (metis prod.collapse)
  have "closes_as s ((w, st1), s1)"
    using assms read_from_eq [OF assms(1) r] r
    by (auto simp: closes_as_def read_from_def drain_filter_eq split: if_splits)
  with rust_loop_total [where P = "closes_as s", OF wf_measure finish_close_step_ok [OF assms(2,3)]] r
  show ?thesis by (simp add: finish_close_def)
qed

text \<open>A close frame is set, then the close is finished and the bridges are closed.\<close>

lemma reads_frame: "reads_as s (s\<lparr>wf_close_frame := Some f\<rparr>)"
  by (auto simp: reads_as_def recv_order_def send_order_def in_order_def)

lemma cleanup_reads:
  "wf_close_frame s \<noteq> None \<Longrightarrow> reads_as s (ws_cleanup s) \<and> wl_recv (ws_cleanup s) = Closed
     \<and> wl_send (ws_cleanup s) = Closed \<and> wf_close_frame (ws_cleanup s) = wf_close_frame s"
  unfolding ws_cleanup_def
  by (rule conjI, rule reads_as_trans [OF close_ops_read(1) close_ops_read(2)])
    (simp_all add: close_recv_eq close_send_eq)

text \<open>What a callback leaves after a close: nothing waits any more.\<close>

definition closed_as :: "('h, 'x, 'w) ws_filter \<Rightarrow> ('h, 'x, 'w) ws_conn \<Rightarrow> bool" where
  "closed_as s p \<longleftrightarrow>
     (case p of ((w, st), s') \<Rightarrow> reads_as s s' \<and> wl_recv s' = Closed \<and> wl_send s' = Closed
        \<and> wf_close_frame s' \<noteq> None \<and> \<not> es_closed st \<and> es_write_buffer st = [])"

lemma finish_then_close:
  assumes "net_drain_law (we_drain e)" "read_law weight active e" "reads_as s s1" "\<not> es_closed st"
    and f: "\<And>s2. wf_close_frame s2 \<noteq> None \<Longrightarrow>
      reads_as s2 (f s2) \<and> wl_recv (f s2) = Closed \<and> wl_send (f s2) = Closed \<and> wf_close_frame (f s2) \<noteq> None"
    and frame: "wf_close_frame s1 \<noteq> None"
  shows "\<exists>p. and_then (finish_close e ((w, st), s1)) (\<lambda>(ws, s). Some (Ret (ws, f s))) = Some (Ret p) \<and> closed_as s p"
proof -
  obtain p where p: "finish_close e ((w, st), s1) = Some (Ret p)" "closes_as s1 p" "flushed p"
    using finish_close_total [OF assms(1,2) frame assms(4), of w] by blast
  obtain w' st' s2 where p_eq: "p = ((w', st'), s2)" by (metis prod.collapse)
  with p(2) frame have s2: "reads_as s s2" "wf_close_frame s2 \<noteq> None" "\<not> es_closed st'"
    using reads_as_trans [OF assms(3)] by (auto simp: closes_as_def)
  with f [OF s2(2)] p(3) have "closed_as s ((w', st'), f s2)"
    using reads_as_trans [OF s2(1)] by (simp add: closed_as_def p_eq flushed_def)
  with p(1) show ?thesis by (simp add: and_then_def p_eq)
qed

lemma disconnect_cleanup:
  assumes "wf_close_frame s \<noteq> None"
  shows "reads_as s (ws_cleanup (ws_disconnect_all frame s))
    \<and> wl_recv (ws_cleanup (ws_disconnect_all frame s)) = Closed
    \<and> wl_send (ws_cleanup (ws_disconnect_all frame s)) = Closed
    \<and> wf_close_frame (ws_cleanup (ws_disconnect_all frame s)) \<noteq> None"
proof -
  have "wf_close_frame (ws_disconnect_all frame s) \<noteq> None" using assms by (simp add: disconnect_all_eq)
  from cleanup_reads [OF this] this close_ops_read(3) [OF assms, of frame] show ?thesis
    using reads_as_trans by auto
qed

lemma and_then_assoc: "and_then (and_then m f) g = and_then m (\<lambda>x. and_then (f x) g)"
  by (simp add: and_then_def split: option.split rust.split)

lemma and_then_Ret [simp]: "and_then (Some (Ret x)) f = f x"
  by (simp add: and_then_def)

lemma ws_close_total:
  assumes "net_drain_law (we_drain e)" "read_law weight active e" "reads_as s s1" "\<not> es_closed st"
    "wf_close_frame s1 \<noteq> None"
  shows "\<exists>p. and_then (ws_close e frame ((w, st), s1)) (\<lambda>(ws, s). Some (Ret (ws, ws_cleanup s))) = Some (Ret p)
    \<and> closed_as s p"
proof -
  obtain r w' st' where c: "run_io (lib_close e frame w) st = ((r, w'), st')" by (metis prod.collapse)
  have "\<not> es_closed st'" using run_io_same [of "lib_close e frame w" st] c assms(4) by simp
  from finish_then_close [where f = "\<lambda>s. ws_cleanup (ws_disconnect_all frame s)" and w = w',
      OF assms(1-3) this disconnect_cleanup assms(5)] c
  show ?thesis by (simp add: ws_close_def and_then_assoc case_prod_beta')
qed

text \<open>The bridge of the receive futures.\<close>

lemma bridge_front:
  assumes "bridge_wf b" "bridge_content b \<noteq> []"
  obtains f b' where "bridge_get b = Ret (Some f, b')" "bridge_content b = f # bridge_content b'" "bridge_wf b'"
proof -
  have "\<exists>f b'. bridge_get b = Ret (Some f, b') \<and> bridge_content b = f # bridge_content b' \<and> bridge_wf b'"
    using assms by (cases b) (auto simp: bridge_wf_def split: list.splits)
  with that show thesis by blast
qed

lemma bridge_is_empty_content: "bridge_wf b \<Longrightarrow> bridge_is_empty b \<longleftrightarrow> bridge_content b = []"
  by (cases b) (auto simp: bridge_wf_def)

text \<open>The invariant of the read loop, and what it leaves.\<close>

definition reading :: "('w \<Rightarrow> bool) \<Rightarrow> ('h, 'x, 'w) ws_filter \<Rightarrow> ('h, 'x, 'w) ws_conn \<Rightarrow> bool" where
  "reading active s p \<longleftrightarrow>
     (case p of ((w, st), s') \<Rightarrow>
        reads_as s s' \<and> in_order s' \<and> wl_send s' = wl_send s \<and> wf_close_frame s' = None \<and> active w \<and> \<not> es_closed st
        \<and> bridge_wf (wl_recv s'))"

definition has_read :: "('w \<Rightarrow> bool) \<Rightarrow> ('h, 'x, 'w) ws_filter \<Rightarrow> ('h, 'x, 'w) ws_conn \<Rightarrow> bool" where
  "has_read active s p \<longleftrightarrow>
     flushed p \<and> (closed_as s p \<or> reading active s p
       \<and> (bridge_content (wl_recv (snd p)) = [] \<or> unread (snd p) = []))"

lemma end_of_turn_ok:
  assumes "reading active s p" "flushed p" "(p, q) \<in> R"
  shows "flow_ok (\<lambda>p. (reading active s p \<and> bridge_content (wl_recv (snd p)) \<noteq> []) \<and> (p, q) \<in> R)
    (has_read active s) (Some (end_of_turn p))"
proof -
  have "bridge_wf (wl_recv (snd p))" using assms(1) by (auto simp: reading_def)
  with assms show ?thesis
    by (simp add: end_of_turn_def has_read_def bridge_is_empty_content)
qed

text \<open>One message or one block of bytes.\<close>

lemma deliver_ok:
  assumes "reading active s ((w, st), s1)" "bridge_content (wl_recv s1) \<noteq> []" "active w'" "\<not> es_closed st'"
    and "message_body m = Some body" "es_write_buffer st' = []"
    and "\<And>s'. unread s' = unread s1 \<Longrightarrow> (((w', st'), s'), q) \<in> R"
  shows "flow_ok (\<lambda>p. (reading active s p \<and> bridge_content (wl_recv (snd p)) \<noteq> []) \<and> (p, q) \<in> R) (has_read active s)
    (Some (deliver_message body
       ((w', st'), s1\<lparr>wf_reads := wf_reads s1 @ [Inr m], en_calls := en_calls s1 @ cs\<rparr>)))"
proof -
  from assms(1) have s1: "reads_as s s1" "in_order s1" "wl_send s1 = wl_send s" "wf_close_frame s1 = None"
    "bridge_wf (wl_recv s1)" by (auto simp: reading_def)
  obtain f b' where b: "bridge_get (wl_recv s1) = Ret (Some f, b')"
    "bridge_content (wl_recv s1) = f # bridge_content b'" "bridge_wf b'"
    by (rule bridge_front [OF s1(5) assms(2)])
  let ?s = "s1\<lparr>wl_recv := b', wl_tasks := wl_tasks s1 @ [WsReceived f body],
     wf_reads := wf_reads s1 @ [Inr m], en_calls := en_calls s1 @ cs\<rparr>"
  have "reads_as s1 ?s \<and> in_order ?s"
    using s1(2,4) b(2,3) assms(5) by (simp add: reads_as_def in_order_def recv_order_def send_order_def)
  then have rd: "reading active s ((w', st'), ?s)"
    using reads_as_trans [OF s1(1), of ?s] s1(3,4) b(3) assms(3,4) by (simp add: reading_def)
  have R: "(((w', st'), ?s), q) \<in> R" by (rule assms(7)) (simp add: unread_def)
  have "deliver_message body ((w', st'), s1\<lparr>wf_reads := wf_reads s1 @ [Inr m], en_calls := en_calls s1 @ cs\<rparr>)
      = end_of_turn ((w', st'), ?s)"
    using b(1) by (cases s1) (simp add: deliver_message_def ws_handle_message_def ws_dispatch_def)
  then show ?thesis using end_of_turn_ok [OF rd _ R] assms(6) by (simp only: flushed_def fst_conv snd_conv)
qed

lemma leave_with_ok:
  "\<exists>p. r = Some (Ret p) \<and> closed_as s p \<Longrightarrow> flow_ok P (has_read active s) (leave_with r)"
  by (auto simp: has_read_def closed_as_def flushed_def)

definition read_measure :: "('w \<Rightarrow> nat) \<Rightarrow> (('h, 'x, 'w) ws_conn \<times> ('h, 'x, 'w) ws_conn) set" where
  "read_measure weight = measures [\<lambda>(ws, s). length (unread s), \<lambda>((w, st), s). weight w + length (es_read_buffer st)]"

lemma wf_read_measure: "wf (read_measure weight)"
  by (simp add: read_measure_def)

lemma ws_read_step_ok:
  assumes law: "net_drain_law (we_drain e)" "read_law weight active e"
    and p: "reading active s p" "bridge_content (wl_recv (snd p)) \<noteq> []"
  shows "flow_ok (\<lambda>q. (reading active s q \<and> bridge_content (wl_recv (snd q)) \<noteq> []) \<and> (q, p) \<in> read_measure weight)
     (has_read active s) (ws_read_step e p)"
proof -
  obtain w st s1 where p_eq: "p = ((w, st), s1)" by (metis prod.collapse)
  obtain message p' where m: "read_message e ((w, st), s1) = (message, p')" by (metis prod.collapse)
  from read_message_eq [OF m] obtain w' st1 cs where
    r: "run_io (lib_read e w) st = ((message, w'), st1)" and
    p': "p' = ((w', st1\<lparr>es_write_buffer := []\<rparr>), s1\<lparr>wf_reads := wf_reads s1 @ [message], en_calls := en_calls s1 @ cs\<rparr>)"
    by metis
  let ?st = "st1\<lparr>es_write_buffer := []\<rparr>"
    and ?s = "s1\<lparr>wf_reads := wf_reads s1 @ [message], en_calls := en_calls s1 @ cs\<rparr>"
  from p p_eq have s1: "reads_as s s1" "in_order s1" "wl_send s1 = wl_send s" "wf_close_frame s1 = None" "active w"
    "\<not> es_closed st" "bridge_wf (wl_recv s1)" "bridge_content (wl_recv s1) \<noteq> []" by (auto simp: reading_def)
  have st: "\<not> es_closed ?st" using run_io_same [of "lib_read e w" st] r s1(6) by simp
  from law(2) r have law': "\<forall>m. message = Inr m \<longrightarrow>
      weight w' + length (es_read_buffer st1) < weight w + length (es_read_buffer st)
      \<and> (\<not> is_close_message m \<longrightarrow> active w')" "message = Inl (WsIo WouldBlock) \<longrightarrow> active w'"
    using s1(5) unfolding read_law_def by (metis (mono_tags, lifting) case_prod_conv)+
  have smaller: "(((w', ?st), s'), p) \<in> read_measure weight" if "message = Inr m" "unread s' = unread s1" for m s'
    using law'(1) that by (simp add: read_measure_def p_eq)
  have step: "ws_read_step e p = (case message of
           Inr (Binary bytes) \<Rightarrow> Some (deliver_message (WsBytes bytes) ((w', ?st), ?s))
         | Inr (Text text) \<Rightarrow> Some (deliver_message (WsText text) ((w', ?st), ?s))
         | Inr (CloseMessage frame) \<Rightarrow>
             (let frame = (case frame of Some f \<Rightarrow> f | None \<Rightarrow> (1005, [])) in
              leave_with (and_then (finish_close e ((w', ?st), ?s\<lparr>wf_close_frame := Some frame\<rparr>))
                (\<lambda>(ws, s). Some (Ret (ws, ws_cleanup (ws_disconnect_all frame s))))))
         | Inr OtherMessage \<Rightarrow> Some (Again ((w', ?st), ?s))
         | Inl err \<Rightarrow>
             if err = WsIo WouldBlock then
               (case read_block (we_drain e) ?st ?s of (n, st, s) \<Rightarrow>
                  if n = 0 then Some (Leave ((w', st), s)) else Some (end_of_turn ((w', st), s)))
             else
               (let frame = (error_code err, []) in
                leave_with (and_then (ws_close e frame ((w', ?st), ?s\<lparr>wf_close_frame := Some frame\<rparr>))
                  (\<lambda>(ws, s). Some (Ret (ws, ws_cleanup s))))))"
    by (cases message) (simp_all add: ws_read_step_def m p' p_eq split: ws_message.split prod.split)
  note frame = reads_as_trans [OF _ reads_frame]
  have other: "reads_as s ?s" "in_order ?s" if "\<forall>m. message = Inr m \<longrightarrow> message_body m = None"
    using reads_as_trans [OF s1(1) reads_note [of s1 message]] that reads_note [of s1 message] s1(2)
    by (auto simp: reads_as_def)
  show ?thesis
  proof (cases message)
    case (Inr m)
    show ?thesis
    proof (cases m)
      case (Binary b)
      show ?thesis
        unfolding step Inr Binary sum.case ws_message.case
        by (rule deliver_ok [OF p(1) [unfolded p_eq] s1(8)]) (use law'(1) st smaller Inr Binary in auto)
    next
      case (Text t)
      show ?thesis
        unfolding step Inr Text sum.case ws_message.case
        by (rule deliver_ok [OF p(1) [unfolded p_eq] s1(8)]) (use law'(1) st smaller Inr Text in auto)
    next
      case (CloseMessage frame)
      define f where "f = (case frame of Some f \<Rightarrow> f | None \<Rightarrow> (1005, []))"
      have "reads_as s (?s\<lparr>wf_close_frame := Some f\<rparr>)" by (rule frame) (use other Inr CloseMessage in simp)
      then show ?thesis
        unfolding step Inr CloseMessage sum.case ws_message.case Let_def f_def [symmetric]
        by (intro leave_with_ok finish_then_close [OF law _ st disconnect_cleanup]) (simp_all add: Inr CloseMessage)
    next
      case OtherMessage
      have "reading active s ((w', ?st), ?s)"
        using other s1 law'(1) st Inr OtherMessage by (simp add: reading_def)
      with smaller s1(8) Inr OtherMessage show ?thesis by (simp add: step unread_def)
    qed
  next
    case (Inl err)
    show ?thesis
    proof (cases "err = WsIo WouldBlock")
      case True
      obtain n st2 s2 where rb: "read_block (we_drain e) ?st ?s = (n, st2, s2)" by (metis prod.collapse)
      from read_block_eq [OF law(1) rb] have n: "n = min (length (unread ?s)) READ_BLOCK_SIZE"
        "unread s2 = drop n (unread ?s)" "\<not> es_closed st2" "es_write_buffer st2 = []" using st by auto
      have s2: "\<exists>c. s2 = ?s\<lparr>en_chunks := c\<rparr>" using rb
        by (auto simp: read_block_def drain_filter_eq Let_def split: if_splits intro: exI [of _ "en_chunks s1"])
      have "reads_as ?s s2" "in_order ?s \<longrightarrow> in_order s2" using s2 by (auto simp: in_order_def)
      then have rd: "reading active s ((w', st2), s2)"
        using reads_as_trans [OF other(1)] other(2) s1 s2 law'(2) n(3) Inl True by (auto simp: reading_def)
      have fl: "flushed ((w', st2), s2)" using n(4) by (simp add: flushed_def)
      have same: "unread ?s = unread s1" by (simp add: unread_def)
      show ?thesis
      proof (cases "n = 0")
        case z: True
        then have "unread s2 = []" using n(1,2) same by (auto simp: READ_BLOCK_SIZE_def min_def split: if_splits)
        with rd fl z show ?thesis by (simp add: step Inl True rb [unfolded Inl True] has_read_def)
      next
        case False
        then have "(((w', st2), s2), p) \<in> read_measure weight"
          using n(1,2) by (auto simp: read_measure_def p_eq same)
        with end_of_turn_ok [OF rd fl] False show ?thesis by (simp add: step Inl True rb [unfolded Inl True])
      qed
    next
      case False
      define f where "f = (error_code err, [] :: bytes)"
      have "reads_as s (?s\<lparr>wf_close_frame := Some f\<rparr>)" by (rule frame) (use other Inl in simp)
      from ws_close_total [OF law this st, of f w'] False show ?thesis
        unfolding step Inl sum.case Let_def f_def [symmetric] by (simp add: leave_with_ok Inl)
    qed
  qed
qed

lemma read_loop_total:
  assumes "net_drain_law (we_drain e)" "read_law weight active e"
    and "reading active s p" "bridge_content (wl_recv (snd p)) \<noteq> []"
  shows "\<exists>q. rust_loop (ws_read_step e) p = Some (Ret q) \<and> has_read active s q"
  using rust_loop_total [where P = "\<lambda>p. reading active s p \<and> bridge_content (wl_recv (snd p)) \<noteq> []",
      OF wf_read_measure ws_read_step_ok [OF assms(1,2)]] assms(3,4) by blast

text \<open>The state of an accepted connection between callbacks.\<close>

fun accepted_ok :: "('w \<Rightarrow> bool) \<Rightarrow> ('h, 'x, 'w) ws_filter \<Rightarrow> ('h, 'x, 'w) ws_state \<Rightarrow> bool" where
  "accepted_ok active s (WsAccepted w st) \<longleftrightarrow>
     \<not> es_closed st \<and> es_write_buffer st = [] \<and> (wf_close_frame s = None \<longrightarrow> active w)"
| "accepted_ok active s _ \<longleftrightarrow> False"

lemma accepted_cases:
  assumes "accepted_ok active s (wf_state s)"
  obtains w st where "wf_state s = WsAccepted w st" "\<not> es_closed st" "es_write_buffer st = []"
    "wf_close_frame s = None \<longrightarrow> active w"
  using assms by (cases "wf_state s") auto

lemma in_order_state [simp]: "in_order (s\<lparr>wf_state := x\<rparr>) = in_order s"
  by (simp add: in_order_def)

lemma reads_state: "reads_as s s' \<Longrightarrow> reads_as s (s'\<lparr>wf_state := x\<rparr>)"
  by (simp add: reads_as_def recv_order_def send_order_def)

text \<open>
  Reading an accepted connection returns. It either leaves the connection open, and then no
  receive call waits unless Envoy has no bytes left, or it closes both bridges.
\<close>

lemma read_web_socket_total:
  assumes law: "net_drain_law (we_drain e)" "read_law weight active e"
    and acc: "accepted_ok active s (wf_state s)" and wf: "bridge_wf (wl_recv s)" and io: "in_order s"
  shows "\<exists>s'. read_web_socket e s = Some (Ret s') \<and> accepted_ok active s' (wf_state s') \<and> reads_as s s'
    \<and> (if wf_close_frame s' = None
       then wl_send s' = wl_send s \<and> (bridge_content (wl_recv s') = [] \<or> unread s' = [])
       else wl_recv s' = Closed \<and> wl_send s' = Closed)
    \<and> (wf_close_frame s = None \<and> bridge_content (wl_recv s) = [] \<longrightarrow> s' = s)"
proof -
  obtain w st where st: "wf_state s = WsAccepted w st" "\<not> es_closed st" "es_write_buffer st = []"
    "wf_close_frame s = None \<longrightarrow> active w" using acc by (rule accepted_cases)
  show ?thesis
  proof (cases "wf_close_frame s")
    case None
    show ?thesis
    proof (cases "bridge_content (wl_recv s) = []")
      case True
      have same: "s\<lparr>wf_state := WsAccepted w st\<rparr> = s" using st(1) by (cases s) simp
      from True None st wf show ?thesis
        by (simp add: read_web_socket_def ws_finish_closing_def bridge_is_empty_content same)
    next
      case False
      have "reading active s ((w, st), s)" using st None wf io by (simp add: reading_def)
      from read_loop_total [OF law this] False obtain w' st' s' where
        l: "rust_loop (ws_read_step e) ((w, st), s) = Some (Ret ((w', st'), s'))" "has_read active s ((w', st'), s')"
        by (metis prod.collapse snd_conv)
      from l(2) reads_state [of s s'] show ?thesis
        by (intro exI [of _ "s'\<lparr>wf_state := WsAccepted w' st'\<rparr>"])
          (use st(1) None False l(1) wf in \<open>auto simp: read_web_socket_def ws_finish_closing_def
            bridge_is_empty_content has_read_def closed_as_def reading_def flushed_def unread_def\<close>)
    qed
  next
    case (Some frame)
    let ?s = "ws_disconnect_all frame s"
    have "reads_as s ?s" "wf_close_frame ?s \<noteq> None"
      using close_ops_read(3) [of s frame] Some by (auto simp: disconnect_all_eq)
    moreover have "reads_as t (ws_close_recv (ws_close_send t)) \<and> wl_recv (ws_close_recv (ws_close_send t)) = Closed
        \<and> wl_send (ws_close_recv (ws_close_send t)) = Closed \<and> wf_close_frame (ws_close_recv (ws_close_send t)) \<noteq> None"
      if "wf_close_frame t \<noteq> None" for t :: "('h, 'x, 'w) ws_filter"
      using reads_as_trans [OF close_ops_read(2) [OF that] close_ops_read(1)] that
      by (simp add: close_recv_eq close_send_eq)
    ultimately obtain w' st' s' where
      c: "and_then (finish_close e ((w, st), ?s)) (\<lambda>(ws, s). Some (Ret (ws, ws_close_recv (ws_close_send s))))
            = Some (Ret ((w', st'), s'))" "closed_as s ((w', st'), s')"
      using finish_then_close [where f = "\<lambda>s. ws_close_recv (ws_close_send s)" and w = w, OF law _ st(2)]
      by (metis (no_types, lifting) prod.collapse)
    from c(2) reads_state [of s s'] show ?thesis
      by (intro exI [of _ "s'\<lparr>wf_state := WsAccepted w' st'\<rparr>"])
        (use st(1) Some c(1) in \<open>auto simp: read_web_socket_def ws_finish_closing_def closed_as_def\<close>)
  qed
qed

section \<open>Sending\<close>

definition messages :: "ws_send_event list \<Rightarrow> ws_message list" where
  "messages es = List.map_filter (\<lambda>e. case e of WsSendMessage body fut \<Rightarrow> Some (body_message body) | _ \<Rightarrow> None) es"

lemma messages_simps [simp]:
  "messages [] = []"
  "messages (ev # es) = (case ev of WsSendMessage body fut \<Rightarrow> body_message body # messages es | _ \<Rightarrow> messages es)"
  "messages (es @ es') = messages es @ messages es'"
  by (simp_all add: messages_def List.map_filter_def split: ws_send_event.split)

text \<open>The messages of the events done so far that were given to the library.\<close>

fun is_accepted :: "('h, 'x, 'w) ws_state \<Rightarrow> bool" where
  "is_accepted (WsAccepted w st) = True"
| "is_accepted _ = False"

definition sent_in_order :: "ws_send_event list \<Rightarrow> ('h, 'x, 'w) ws_filter \<Rightarrow> bool" where
  "sent_in_order done s \<longleftrightarrow>
     prefix (wf_sends s) (messages done)
     \<and> (wf_close_frame s = None \<and> is_accepted (wf_state s) \<longrightarrow> wf_sends s = messages done)"

definition sends_as :: "ws_send_event list \<Rightarrow> ('h, 'x, 'w) ws_filter \<Rightarrow> ('h, 'x, 'w) ws_filter \<Rightarrow> bool" where
  "sends_as es s s' \<longleftrightarrow>
     (\<exists>ts. wl_tasks s' = wl_tasks s @ ts \<and> list_all is_send_task ts \<and> map task_future ts = event_futures es)
     \<and> wl_recv s' = wl_recv s \<and> wl_send s' = wl_send s \<and> wl_futures s' = wl_futures s
     \<and> wl_commits s' = wl_commits s \<and> wf_watermark s' = wf_watermark s \<and> wf_reads s' = wf_reads s
     \<and> en_chunks s' = en_chunks s \<and> (wf_close_frame s' = None \<longrightarrow> wf_close_frame s = None)
     \<and> (\<forall>done. sent_in_order done s \<longrightarrow> sent_in_order (done @ es) s')"

lemma sends_as_Nil [simp]: "sends_as [] s s"
  by (simp add: sends_as_def)

lemma sends_as_Cons:
  assumes "sends_as [ev] s t" "sends_as es t u"
  shows "sends_as (ev # es) s u"
proof -
  obtain ts where ts: "wl_tasks t = wl_tasks s @ ts" "list_all is_send_task ts"
    "map task_future ts = event_futures [ev]" using assms(1) unfolding sends_as_def by blast
  obtain us where us: "wl_tasks u = wl_tasks t @ us" "list_all is_send_task us"
    "map task_future us = event_futures es" using assms(2) unfolding sends_as_def by blast
  have "wl_tasks u = wl_tasks s @ (ts @ us)" "list_all is_send_task (ts @ us)"
    "map task_future (ts @ us) = event_futures (ev # es)"
    using ts us event_futures_simps(3) [of "[ev]" es] by simp_all
  moreover have "sent_in_order (done @ ev # es) u" if "sent_in_order done s" for "done"
  proof -
    have "sent_in_order (done @ [ev]) t" using assms(1) that by (simp add: sends_as_def)
    then have "sent_in_order ((done @ [ev]) @ es) u" using assms(2) by (simp only: sends_as_def)
    then show ?thesis by simp
  qed
  ultimately show ?thesis using assms unfolding sends_as_def by metis
qed

fun is_accept :: "ws_send_event \<Rightarrow> bool" where
  "is_accept (WsAccept a) = True"
| "is_accept _ = False"

lemma drop_event_sends:
  "\<not> is_accepted (wf_state s) \<or> wf_close_frame s \<noteq> None \<Longrightarrow> sends_as [ev] s (ws_drop_event ev s)"
  by (cases ev) (auto simp: sends_as_def ws_drop_event_def ws_dispatch_def sent_in_order_def)

lemma start_close_ok:
  assumes "accepted_ok active s (WsAccepted w st)" "event_futures [ev] = []" "messages [ev] = []"
  shows "accepted_ok active (ws_start_close e frame w st s) (wf_state (ws_start_close e frame w st s))
    \<and> sends_as [ev] s (ws_start_close e frame w st s)"
proof -
  obtain r w' st' where c: "run_io (lib_close e frame w) st = ((r, w'), st')" by (metis prod.collapse)
  obtain st2 s2 where wt: "write_to st' s = (st2, s2)" by (metis prod.collapse)
  have "\<not> es_closed st'" using run_io_same [of "lib_close e frame w" st] c assms(1) by simp
  with write_to_eq [OF wt] assms show ?thesis
    by (auto simp: ws_start_close_def c wt sends_as_def sent_in_order_def split: ws_send_event.splits)
qed

lemma send_lawD:
  assumes "send_law active lib" "active w" "\<not> es_closed st" "run_io (lib_send lib m w) st = ((r, w'), st')"
  shows "r = Inr () \<and> active w'"
proof -
  have "active w \<and> \<not> es_closed st \<longrightarrow> (case run_io (lib_send lib m w) st of ((r, w'), st') \<Rightarrow> r = Inr () \<and> active w')"
    using assms(1) unfolding send_law_def by (elim conjE allE)
  with assms(2-4) show ?thesis by simp
qed

lemma ws_send_step_ok:
  assumes "send_law active e" "accepted_ok active s (wf_state s)" "\<not> is_accept ev"
  shows "\<exists>s'. ws_send_step e ev s = Ret s' \<and> accepted_ok active s' (wf_state s') \<and> sends_as [ev] s s'"
proof -
  obtain w st where st: "wf_state s = WsAccepted w st" "\<not> es_closed st" "es_write_buffer st = []"
    "wf_close_frame s = None \<longrightarrow> active w" using assms(2) by (rule accepted_cases)
  show ?thesis
  proof (cases ev)
    case (WsSendMessage body fut)
    show ?thesis
    proof (cases "wf_close_frame s = None")
      case True
      obtain r w' st' where c: "run_io (lib_send e (body_message body) w) st = ((r, w'), st')" by (metis prod.collapse)
      let ?s = "s\<lparr>wf_sends := wf_sends s @ [body_message body]\<rparr>"
      obtain st2 s2 where wt: "write_to st' ?s = (st2, s2)" by (metis prod.collapse)
      have "r = Inr () \<and> active w'" using st(4) True by (intro send_lawD [OF assms(1) _ st(2) c]) simp
      moreover have "\<not> es_closed st'" using run_io_same [of "lib_send e (body_message body) w" st] c st(2) by simp
      ultimately show ?thesis
        using write_to_eq [OF wt] True st(1)
        by (auto simp: ws_send_step_def WsSendMessage c wt ws_handle_send_def ws_dispatch_def sends_as_def
            sent_in_order_def)
    next
      case False
      with drop_event_sends [of s ev] assms(2) st(1) show ?thesis
        by (auto simp: ws_send_step_def WsSendMessage ws_drop_event_def ws_dispatch_def)
    qed
  next
    case (WsClose code reason)
    with start_close_ok [of active s w st ev e "(code, reason)"] assms(2) st(1) show ?thesis
      by (simp add: ws_send_step_def)
  next
    case WsException
    with start_close_ok [of active s w st ev e "(1011, [])"] assms(2) st(1) show ?thesis
      by (simp add: ws_send_step_def)
  next
    case WsAbort
    with assms(2) st(1) show ?thesis
      by (auto simp: ws_send_step_def net_call_def sends_as_def sent_in_order_def)
  next
    case (WsAccept a)
    with assms(3) show ?thesis by simp
  qed
qed

lemma send_fold_ok:
  assumes "send_law active e" "accepted_ok active s (wf_state s)" "list_all (\<lambda>ev. \<not> is_accept ev) es"
  shows "\<exists>s'. rust_fold (ws_send_step e) es s = Ret s' \<and> accepted_ok active s' (wf_state s') \<and> sends_as es s s'"
  using assms(2,3)
proof (induction es arbitrary: s)
  case Nil
  then show ?case by simp
next
  case (Cons ev es)
  from Cons.prems obtain t where t: "ws_send_step e ev s = Ret t" "accepted_ok active t (wf_state t)" "sends_as [ev] s t"
    using ws_send_step_ok [OF assms(1)] by fastforce
  with Cons.IH [OF t(2)] Cons.prems(2) obtain u where
    "rust_fold (ws_send_step e) es t = Ret u" "accepted_ok active u (wf_state u)" "sends_as es t u" by auto
  with t sends_as_Cons [OF t(3)] show ?case by auto
qed

lemma drop_fold_ok:
  assumes "\<not> is_accepted (wf_state s)"
  shows "\<exists>s'. rust_fold (ws_send_step e) es s = Ret s' \<and> wf_state s' = wf_state s
    \<and> wf_close_frame s' = wf_close_frame s \<and> wf_sends s' = wf_sends s \<and> en_calls s' = en_calls s \<and> sends_as es s s'"
  using assms
proof (induction es arbitrary: s)
  case Nil
  then show ?case by simp
next
  case (Cons ev es)
  let ?t = "ws_drop_event ev s"
  have t: "ws_send_step e ev s = Ret ?t" "wf_state ?t = wf_state s" "wf_close_frame ?t = wf_close_frame s"
    "wf_sends ?t = wf_sends s" "en_calls ?t = en_calls s"
    using Cons.prems
    by (auto simp: ws_send_step_def ws_drop_event_def ws_dispatch_def split: ws_state.split option.split)
  with Cons.IH [of ?t] Cons.prems sends_as_Cons [OF drop_event_sends] show ?case by fastforce
qed

section \<open>The first event\<close>

lemma first_event_cases:
  assumes "messages [ev] = []"
  obtains r where "ws_first_event e st response x ev s = Panic" "lib_write_response e r = None"
  | a buffer w where "ev = WsAccept a" "w = lib_websocket e x (wf_max_message_size s)"
      "ws_first_event e st response x ev s = Ret (s\<lparr>en_calls := en_calls s @ [NetWrite buffer False],
         wl_tasks := wl_tasks s @ [WsSent (ae_future a)], wl_commits := wl_commits s @ [WS_EVENT_ID_REQUEST],
         wf_state := WsAccepted w st\<rparr>)"
  | c frame where "event_futures [ev] = []" "\<not> is_accept ev"
      "ws_first_event e st response x ev s = Ret (s\<lparr>en_calls := en_calls s @ [c], wf_close_frame := frame\<rparr>)"
proof (cases ev)
  case (WsAccept a)
  show thesis
  proof (cases "lib_write_response e (accept_response e a response)")
    case None
    with that(1) WsAccept show thesis by (simp add: ws_first_event_def)
  next
    case (Some buffer)
    show thesis
      by (rule that(2) [OF WsAccept refl])
        (cases s, simp add: ws_first_event_def WsAccept Some net_call_def ws_commit_def ws_handle_send_def ws_dispatch_def)
  qed
next
  case (WsSendMessage body fut)
  with assms show thesis by simp
next
  case (WsClose code reason)
  show thesis
  proof (cases "lib_write_response e forbidden_response")
    case None
    with that(1) WsClose show thesis by (simp add: ws_first_event_def)
  next
    case (Some buffer)
    show thesis
      by (rule that(3) [where c = "NetWrite buffer True" and frame = "Some (code, reason)"])
        (simp_all add: ws_first_event_def WsClose Some net_call_def)
  qed
next
  case WsException
  show thesis
  proof (cases "lib_write_response e failed_response")
    case None
    with that(1) WsException show thesis by (simp add: ws_first_event_def)
  next
    case (Some buffer)
    show thesis
      by (rule that(3) [where c = "NetWrite (buffer @ ''Internal Server Error'') True" and frame = "Some (1011, [])"])
        (simp_all add: ws_first_event_def WsException Some net_call_def)
  qed
next
  case WsAbort
  show thesis
    by (rule that(3) [where c = "NetClose FlushWrite" and frame = "wf_close_frame s"])
      (simp_all add: ws_first_event_def WsAbort net_call_def)
qed

section \<open>The handshake\<close>

text \<open>The headers of the request keep their order; no entry comes without a name.\<close>

lemma name_headers_rest:
  "name_headers (Some n) (map (Pair None) vs @ es) = rust_map (\<lambda>hs. map (Pair n) vs @ hs) (name_headers (Some n) es)"
  by (cases "name_headers (Some n) es"; induction vs) (simp_all add: Let_def)

lemma header_entries_any: "name_headers c (header_entries hs) = Ret (concat (map (\<lambda>(n, vs). map (Pair n) vs) hs))"
  by (induction hs arbitrary: c rule: header_entries.induct) (simp_all add: Let_def name_headers_rest)

lemma ws_new_scope_Ret: "\<exists>sc. ws_new_scope peer request = Ret sc"
  by (simp add: ws_new_scope_def header_entries_any)

text \<open>What \<open>on_read\<close> does while the handshake lasts.\<close>

definition stream_ok :: "env_stream \<Rightarrow> bool" where
  "stream_ok st \<longleftrightarrow> \<not> es_closed st \<and> es_write_buffer st = []"

definition handshake_result :: "('h, 'x, 'w, 'a) ws_env_scheme \<Rightarrow> ('h, 'x, 'w) ws_filter
    \<Rightarrow> data_status \<times> ws_job option \<times> ('h, 'x, 'w) ws_filter \<Rightarrow> bool" where
  "handshake_result e s p \<longleftrightarrow>
     (case p of (status, job, s') \<Rightarrow>
        (\<exists>m st. status = StopIteration \<and> job = None \<and> s' = s\<lparr>wf_state := StartHandshake m st\<rparr>
           \<and> stream_ok st \<and> es_total_read st = length (unread s))
        \<or> status = Continue \<and> job = None \<and> s' = s
        \<or> status = StopIteration \<and> job = None \<and> s' = net_call unexpected_body s
        \<or> (\<exists>st r x cs j. status = StopIteration \<and> job = Some j
           \<and> s' = s\<lparr>wf_state := FinishHandshake st r x, en_chunks := cs\<rparr> \<and> stream_ok st))"

lemma handshake_round_ok:
  fixes s :: "('h, 'x, 'w) ws_filter"
  assumes "round_law e" "stream_ok (snd p)" "es_total_read (snd p) = length (unread s)"
  shows "flow_ok (\<lambda>q. (stream_ok (snd q) \<and> es_total_read (snd q) = length (unread s))
       \<and> (q, p) \<in> measure (\<lambda>p. length (es_read_buffer (snd p))))
     (handshake_result e s) (handshake_round e s p)"
proof -
  obtain m st where p: "p = (m, st)" by (cases p)
  obtain r st' where r: "run_io (lib_round e m) st = (r, st')" by (metis prod.collapse)
  have "case run_io (lib_round e m) st of (r, st') \<Rightarrow> r \<noteq> HsWritten \<and> es_write_buffer st' = es_write_buffer st
        \<and> (\<forall>m'. r = HsIncomplete m' \<longrightarrow> length (es_read_buffer st') < length (es_read_buffer st))"
    using assms(1) unfolding round_law_def by (elim allE)
  with r have law: "r \<noteq> HsWritten" "es_write_buffer st' = es_write_buffer st"
    "\<And>m'. r = HsIncomplete m' \<Longrightarrow> length (es_read_buffer st') < length (es_read_buffer st)" by auto
  have st: "stream_ok st'" "es_total_read st' = length (unread s)"
    using run_io_same [of "lib_round e m" st] r law(2) assms(2,3) p by (auto simp: stream_ok_def)
  show ?thesis
  proof (cases r)
    case (HsRequest request tail)
    obtain sc where "ws_new_scope (we_peer e) request = Ret sc" using ws_new_scope_Ret by blast
    then show ?thesis
      using st(1) by (auto simp: p handshake_round_def r HsRequest ws_request_read_def handshake_result_def
          drain_read_buffer_def Let_def split: option.split prod.split)
  qed (use law st in \<open>auto simp: p handshake_round_def r handshake_result_def\<close>)
qed

lemma on_read_handshake:
  assumes "round_law e" "wf_state s = StartHandshake m st" "stream_ok st" "es_total_read st \<le> length (unread s)"
  shows "\<exists>p. ws_on_read e s = Some (Ret p) \<and> handshake_result e (s\<lparr>wf_state := NotWebSocket\<rparr>) p"
proof -
  let ?s = "s\<lparr>wf_state := NotWebSocket\<rparr>"
  have u: "unread ?s = unread s" by (simp add: unread_def)
  let ?st = "st\<lparr>es_read_buffer := es_read_buffer st @ drop (es_total_read st) (unread s), es_total_read := total_size s\<rparr>"
  have b: "read_from_buffered s st = Ret ?st"
    using assms(4) by (simp add: read_from_buffered_eq total_size_unread)
  have "\<exists>p. rust_loop (handshake_round e ?s) (m, ?st) = Some (Ret p) \<and> handshake_result e ?s p"
    by (rule rust_loop_total [where P = "\<lambda>q. stream_ok (snd q) \<and> es_total_read (snd q) = length (unread ?s)",
          OF wf_measure [of "\<lambda>p. length (es_read_buffer (snd p))"] handshake_round_ok])
      (use assms(1,3) in \<open>auto simp: stream_ok_def u total_size_unread\<close>)
  with assms(2) b show ?thesis by (simp add: ws_on_read_def)
qed

end
