(* ===== verification/Ws_Runs.thy ===== *)
theory Ws_Runs
  imports Ws_Connection
begin

text \<open>
  The invariants of the runs of a WebSocket connection (\<open>ws_run\<close> of theory \<open>Ws_Filter\<close>) and its
  properties.
\<close>

section \<open>What the application may send\<close>

text \<open>The events of a send callable in the order in which it may send them.\<close>

fun send_phase :: "ws_send_state \<Rightarrow> ws_send_event list \<Rightarrow> ws_send_state option" where
  "send_phase st [] = Some st"
| "send_phase st (WsAccept a # es) = (if st = WsStarted then send_phase WsSendAccepted es else None)"
| "send_phase st (WsSendMessage body fut # es) = (if st = WsSendAccepted then send_phase st es else None)"
| "send_phase st (WsClose code reason # es) = (if st = WsSendClosed then None else send_phase WsSendClosed es)"
| "send_phase st (WsException # es) = send_phase st es"
| "send_phase st (WsAbort # es) = send_phase st es"

lemma send_phase_append:
  "send_phase st (xs @ ys) = (case send_phase st xs of None \<Rightarrow> None | Some q \<Rightarrow> send_phase q ys)"
  by (induction st xs rule: send_phase.induct) simp_all

lemma send_phase_no_accept:
  "send_phase st es = Some q \<Longrightarrow> st \<noteq> WsStarted \<Longrightarrow> list_all (\<lambda>ev. \<not> is_accept ev) es \<and> q \<noteq> WsStarted"
  by (induction st es rule: send_phase.induct) (auto split: if_splits)

lemma send_phase_first: "send_phase WsStarted (ev # es) = Some q \<Longrightarrow> messages [ev] = []"
  by (cases ev) auto

section \<open>Invariants\<close>

definition order_ok :: "('h, 'x, 'w) ws_filter \<Rightarrow> bool" where
  "order_ok s \<longleftrightarrow>
     sorted_wrt (<) (recv_order s) \<and> sorted_wrt (<) (send_order s)
     \<and> mset (recv_order s) + mset (send_order s) = mset [0..<wl_futures s]
     \<and> bridge_wf (wl_recv s) \<and> bridge_wf (wl_send s)
     \<and> set (wl_commits s) \<subseteq> {WS_EVENT_ID_REQUEST, WS_EVENT_ID_RESPONSE} \<and> in_order s"

definition protocol_ok :: "('h, 'x, 'w) ws_sys \<Rightarrow> bool" where
  "protocol_ok g \<longleftrightarrow>
     (\<exists>q. send_phase WsStarted (wx_sent g) = Some q
        \<and> (wl_send (wx_filter g) \<noteq> Closed \<longrightarrow> q = wx_sender g \<or> wx_sender g = WsSendClosed))
     \<and> (wl_send (wx_filter g) \<noteq> Closed \<longrightarrow> wx_sent g = wx_done g @ bridge_content (wl_send (wx_filter g)))
     \<and> prefix (wx_done g) (wx_sent g) \<and> sent_in_order (wx_done g) (wx_filter g)"

text \<open>Nothing has happened yet on the application's side.\<close>

definition untouched :: "('h, 'x, 'w) ws_sys \<Rightarrow> bool" where
  "untouched g \<longleftrightarrow>
     (case wx_filter g of s \<Rightarrow>
        wx_job g = None \<and> wl_recv s = Empty \<and> wl_send s = Empty \<and> wl_futures s = 0 \<and> wl_tasks s = []
        \<and> wl_commits s = [] \<and> wf_close_frame s = None \<and> wf_watermark s = 0 \<and> wf_reads s = [] \<and> wf_sends s = []
        \<and> wx_sent g = [] \<and> wx_done g = [] \<and> wx_sender g = WsStarted)"

text \<open>Events that wait will be looked at: a commit is under way or a low watermark will come.\<close>

definition awake :: "('h, 'x, 'w) ws_filter \<Rightarrow> bool" where
  "awake s \<longleftrightarrow>
     (wf_watermark s = 0 \<and> bridge_content (wl_send s) \<noteq> [] \<longrightarrow> WS_EVENT_ID_RESPONSE \<in> set (wl_commits s))"

definition state_ok :: "('w \<Rightarrow> bool) \<Rightarrow> ('h, 'x, 'w) ws_sys \<Rightarrow> bool" where
  "state_ok active g \<longleftrightarrow>
     (case wx_filter g of s \<Rightarrow>
        (case wf_state s of
           StartHandshake m st \<Rightarrow>
             untouched g \<and> en_calls s = [] \<and> unread s = wx_arrived g \<and> wx_forwarded g = [] \<and> stream_ok st
             \<and> es_total_read st \<le> length (unread s)
         | NotWebSocket \<Rightarrow>
             untouched g \<and> (en_calls s = [] \<and> unread s = [] \<or> en_calls s = [unexpected_body])
         | FinishHandshake st response x \<Rightarrow>
             stream_ok st \<and> wf_close_frame s = None \<and> \<not> list_ex is_write (en_calls s) \<and> wf_watermark s = 0
             \<and> wl_recv s \<noteq> Closed \<and> wl_send s \<noteq> Closed \<and> wx_done g = [] \<and> wf_sends s = []
             \<and> count_list (wl_commits s) WS_EVENT_ID_REQUEST = length (bridge_content (wl_recv s))
             \<and> count_list (wl_commits s) WS_EVENT_ID_RESPONSE = length (bridge_content (wl_send s))
         | WsAccepted w st \<Rightarrow>
             accepted_ok active s (wf_state s) \<and> awake s
             \<and> (\<exists>q. send_phase WsStarted (wx_done g) = Some q \<and> q \<noteq> WsStarted)
             \<and> (bridge_content (wl_recv s) \<noteq> [] \<longrightarrow> WS_EVENT_ID_REQUEST \<in> set (wl_commits s) \<or> unread s = [])
         | WsDone \<Rightarrow> awake s))"

definition passed_on :: "('h, 'x, 'w) ws_sys \<Rightarrow> bool" where
  "passed_on g \<longleftrightarrow>
     (wf_state (wx_filter g) = NotWebSocket \<and> en_calls (wx_filter g) = [] \<longrightarrow> wx_forwarded g = wx_arrived g)
     \<and> (wf_state (wx_filter g) \<noteq> NotWebSocket \<longrightarrow> wx_forwarded g = [])"

definition ws_inv :: "('w \<Rightarrow> bool) \<Rightarrow> ('h, 'x, 'w, 'a) ws_env_scheme \<Rightarrow> ('h, 'x, 'w) ws_sys \<Rightarrow> bool" where
  "ws_inv active e g \<longleftrightarrow>
     order_ok (wx_filter g) \<and> protocol_ok g
     \<and> (case wx_mode g of
          WsRunning \<Rightarrow> state_ok active g \<and> passed_on g
        | WsDestroyed \<Rightarrow> passed_on g \<and> wl_recv (wx_filter g) = Closed \<and> wl_send (wx_filter g) = Closed
        | WsPanicked \<Rightarrow> (\<exists>r. lib_write_response e r = None)
        | WsDiverged \<Rightarrow> False)"

lemma ws_sys_new_inv: "ws_inv active e (ws_sys_new e n c)"
  by (simp add: ws_inv_def ws_sys_new_def ws_filter_new_def order_ok_def protocol_ok_def state_ok_def
      passed_on_def untouched_def recv_order_def send_order_def in_order_def sent_in_order_def bridge_new_def
      stream_ok_def stream_new_def unread_def bridge_wf_def)

lemma reads_order: "reads_as s s' \<Longrightarrow> order_ok s \<Longrightarrow> order_ok s'"
  by (auto simp: order_ok_def reads_as_def bridge_wf_def)

lemma order_chunks [simp]:
  "order_ok (s\<lparr>en_chunks := cs\<rparr>) = order_ok s" "order_ok (s\<lparr>en_calls := c\<rparr>) = order_ok s"
  "order_ok (s\<lparr>wf_state := x\<rparr>) = order_ok s" "order_ok (s\<lparr>wf_watermark := u\<rparr>) = order_ok s"
  by (simp_all add: order_ok_def recv_order_def send_order_def in_order_def)

section \<open>Reading preserves the invariant\<close>

lemma reads_protocol:
  assumes "reads_as s s'" "protocol_ok g" "wx_filter g = s" "is_accepted (wf_state s') \<longrightarrow> is_accepted (wf_state s)"
    and "wx_sent g' = wx_sent g" "wx_done g' = wx_done g" "wx_sender g' = wx_sender g" "wx_filter g' = s'"
  shows "protocol_ok g'"
proof -
  have r: "wl_send s' = wl_send s \<or> wl_send s' = Closed" "wf_sends s' = wf_sends s"
    "wf_close_frame s' = None \<longrightarrow> wf_close_frame s = None"
    using assms(1) by (simp_all add: reads_as_def) blast
  then have "sent_in_order (wx_done g) s \<Longrightarrow> sent_in_order (wx_done g) s'"
    using assms(4) by (simp add: sent_in_order_def)
  moreover have "wl_send s' \<noteq> Closed \<Longrightarrow> wl_send s \<noteq> Closed \<and> wl_send s' = wl_send s" using r(1) by auto
  ultimately show ?thesis
    using assms(2) unfolding protocol_ok_def assms(3,5-8) by metis
qed

text \<open>A callback that reads an accepted connection.\<close>

lemma read_accepted_inv:
  fixes g :: "('h, 'x, 'w) ws_sys" and e :: "('h, 'x, 'w) ws_env"
  assumes law: "ws_law weight active e"
    and inv: "order_ok s" "protocol_ok (g\<lparr>wx_filter := s\<rparr>)" "accepted_ok active s (wf_state s)" "awake s"
      "\<exists>q. send_phase WsStarted (wx_done g) = Some q \<and> q \<noteq> WsStarted"
  shows "\<exists>s'. read_web_socket e s = Some (Ret s') \<and> order_ok s' \<and> protocol_ok (g\<lparr>wx_filter := s'\<rparr>)
    \<and> state_ok active (g\<lparr>wx_filter := s'\<rparr>) \<and> is_accepted (wf_state s')"
proof -
  have l: "net_drain_law (we_drain e)" "read_law weight active e" using law by (simp_all add: ws_law_def)
  have "bridge_wf (wl_recv s)" "in_order s" using inv(1) by (simp_all add: order_ok_def)
  from read_web_socket_total [OF l inv(3) this] obtain s' where
    s': "read_web_socket e s = Some (Ret s')" "accepted_ok active s' (wf_state s')" "reads_as s s'"
      "if wf_close_frame s' = None
       then wl_send s' = wl_send s \<and> (bridge_content (wl_recv s') = [] \<or> unread s' = [])
       else wl_recv s' = Closed \<and> wl_send s' = Closed" by blast
  obtain w st where acc: "wf_state s' = WsAccepted w st" using s'(2) by (rule accepted_cases)
  obtain w0 st0 where "wf_state s = WsAccepted w0 st0" using inv(3) by (rule accepted_cases)
  then have "protocol_ok (g\<lparr>wx_filter := s'\<rparr>)" by (intro reads_protocol [OF s'(3) inv(2)]) simp_all
  moreover have "awake s'"
    using inv(4) s'(3) by (auto simp: awake_def reads_as_def)
  then have "state_ok active (g\<lparr>wx_filter := s'\<rparr>)"
    using inv(5) s'(2,4) by (simp add: state_ok_def acc split: if_splits) blast
  ultimately show ?thesis using reads_order [OF s'(3) inv(1)] s'(1) acc by (intro exI [of _ s']) simp
qed

lemma protocol_filter:
  "wl_send s = wl_send (wx_filter g) \<Longrightarrow> wf_sends s = wf_sends (wx_filter g)
     \<Longrightarrow> wf_close_frame s = wf_close_frame (wx_filter g)
     \<Longrightarrow> is_accepted (wf_state s) \<longrightarrow> is_accepted (wf_state (wx_filter g))
     \<Longrightarrow> protocol_ok g \<Longrightarrow> protocol_ok (g\<lparr>wx_filter := s\<rparr>)"
  by (simp add: protocol_ok_def sent_in_order_def)

lemma protocol_other [simp]:
  "protocol_ok (g\<lparr>wx_arrived := a\<rparr>) = protocol_ok g" "protocol_ok (g\<lparr>wx_job := j\<rparr>) = protocol_ok g"
  "protocol_ok (g\<lparr>wx_forwarded := b\<rparr>) = protocol_ok g" "protocol_ok (g\<lparr>wx_mode := m\<rparr>) = protocol_ok g"
  by (simp_all add: protocol_ok_def)

text \<open>
  An operation of the filter that leaves the bridges, the futures and the commits alone: it may
  set the state, the buffer, the calls.
\<close>

lemma order_same:
  assumes "order_ok s" "wl_recv t = wl_recv s" "wl_send t = wl_send s" "wl_tasks t = wl_tasks s"
    "wl_futures t = wl_futures s" "wl_commits t = wl_commits s" "wf_reads t = wf_reads s"
    "wf_close_frame t = wf_close_frame s"
  shows "order_ok t"
  using assms by (simp add: order_ok_def recv_order_def send_order_def in_order_def)

lemma unread_chunks [simp]:
  "unread (s\<lparr>en_chunks := cs\<rparr>) = concat cs" "unread (s\<lparr>wl_commits := is\<rparr>) = unread s"
  "unread (s\<lparr>wf_watermark := u\<rparr>) = unread s" "unread (s\<lparr>wl_recv := b\<rparr>) = unread s"
  "unread (s\<lparr>wl_send := b'\<rparr>) = unread s" "unread (s\<lparr>wl_futures := n\<rparr>) = unread s"
  "unread (s\<lparr>wl_tasks := ts\<rparr>) = unread s"
  by (simp_all add: unread_def)

lemma ws_inv_runI:
  "wx_mode g = WsRunning \<Longrightarrow> order_ok (wx_filter g) \<Longrightarrow> protocol_ok g \<Longrightarrow> state_ok active g \<Longrightarrow> passed_on g
     \<Longrightarrow> ws_inv active e g"
  by (simp add: ws_inv_def)

lemma untouched_ok: "untouched (g\<lparr>wx_job := None\<rparr>) \<Longrightarrow> order_ok (wx_filter g) \<and> protocol_ok g"
  by (simp add: untouched_def order_ok_def protocol_ok_def recv_order_def send_order_def in_order_def
      sent_in_order_def bridge_wf_def)

lemma net_read_handshake:
  assumes law: "round_law e" and inv: "ws_inv active e g" "wx_mode g = WsRunning"
    and st: "wf_state (wx_filter g) = StartHandshake m st"
  shows "ws_inv active e (net_read e cs g)"
proof -
  define s where "s = (wx_filter g)\<lparr>en_chunks := en_chunks (wx_filter g) @ cs\<rparr>"
  have g: "untouched g" "en_calls (wx_filter g) = []" "unread (wx_filter g) = wx_arrived g" "wx_forwarded g = []"
    "stream_ok st" "es_total_read st \<le> length (unread (wx_filter g))" "order_ok (wx_filter g)" "protocol_ok g"
    using inv st by (auto simp: ws_inv_def state_ok_def)
  have u: "unread s = wx_arrived g @ concat cs" using g(3) by (simp add: s_def unread_def)
  have "\<exists>p. ws_on_read e s = Some (Ret p) \<and> handshake_result e (s\<lparr>wf_state := NotWebSocket\<rparr>) p"
    by (rule on_read_handshake [OF law, of _ m st]) (use st g u in \<open>auto simp: s_def\<close>)
  then obtain status job s' where r: "ws_on_read e s = Some (Ret (status, job, s'))"
    "handshake_result e (s\<lparr>wf_state := NotWebSocket\<rparr>) (status, job, s')" by auto
  have u': "unread (s\<lparr>wf_state := x\<rparr>) = wx_arrived g @ concat cs" for x using u by (simp add: unread_def)
  have read: "net_read e cs g = (case (status, job, s') of
        (StopIteration, job, s) \<Rightarrow> g\<lparr>wx_arrived := wx_arrived g @ concat cs, wx_filter := s,
          wx_job := (case job of Some j \<Rightarrow> Some j | None \<Rightarrow> wx_job g)\<rparr>
      | (Continue, job, s) \<Rightarrow> g\<lparr>wx_arrived := wx_arrived g @ concat cs, wx_filter := s\<lparr>en_chunks := []\<rparr>,
          wx_forwarded := wx_forwarded g @ unread s\<rparr>)"
    using r(1) by (simp add: net_read_def Let_def s_def unread_def split: data_status.split option.split)
  from r(2) consider
    (wait) m' st' where "status = StopIteration" "job = None" "s' = s\<lparr>wf_state := StartHandshake m' st'\<rparr>"
      "stream_ok st'" "es_total_read st' = length (unread s)"
    | (pass) "status = Continue" "job = None" "s' = s\<lparr>wf_state := NotWebSocket\<rparr>"
    | (junk) "status = StopIteration" "job = None" "s' = net_call unexpected_body (s\<lparr>wf_state := NotWebSocket\<rparr>)"
    | (go) st' r x cs' j where "status = StopIteration" "job = Some j"
      "s' = s\<lparr>wf_state := FinishHandshake st' r x, en_chunks := cs'\<rparr>" "stream_ok st'"
    unfolding handshake_result_def by (auto simp: u u')
  then show ?thesis
  proof cases
    case wait
    with g(1) have "untouched ((net_read e cs g)\<lparr>wx_job := None\<rparr>)" by (simp add: read untouched_def s_def)
    from untouched_ok [OF this] wait g st u u' inv(2) show ?thesis
      by (intro ws_inv_runI) (simp_all add: read state_ok_def passed_on_def, simp_all add: s_def untouched_def)
  next
    case pass
    with g(1) have "untouched ((net_read e cs g)\<lparr>wx_job := None\<rparr>)" by (simp add: read untouched_def s_def)
    from untouched_ok [OF this] pass g st u u' inv(2) show ?thesis
      by (intro ws_inv_runI) (simp_all add: read state_ok_def passed_on_def, simp_all add: s_def untouched_def)
  next
    case junk
    with g(1) have "untouched ((net_read e cs g)\<lparr>wx_job := None\<rparr>)" by (simp add: read untouched_def s_def net_call_def)
    from untouched_ok [OF this] junk g st u u' inv(2) show ?thesis
      by (intro ws_inv_runI) (simp_all add: read state_ok_def passed_on_def net_call_def,
          simp_all add: s_def untouched_def)
  next
    case go
    with g(1) have "untouched ((net_read e cs g)\<lparr>wx_job := None\<rparr>)" by (simp add: read untouched_def s_def)
    from untouched_ok [OF this] go g st u u' inv(2) show ?thesis
      by (intro ws_inv_runI) (simp_all add: read state_ok_def passed_on_def, simp_all add: s_def untouched_def)
  qed
qed

lemma net_read_inv:
  fixes g :: "('h, 'x, 'w) ws_sys" and e :: "('h, 'x, 'w) ws_env"
  assumes law: "ws_law weight active e" and inv: "ws_inv active e g" "wx_mode g = WsRunning"
    and quiet: "\<not> list_ex is_close (en_calls (wx_filter g))"
  shows "ws_inv active e (net_read e cs g)"
proof -
  define s where "s = (wx_filter g)\<lparr>en_chunks := en_chunks (wx_filter g) @ cs\<rparr>"
  have g: "order_ok (wx_filter g)" "protocol_ok g" "state_ok active g" "passed_on g"
    using inv by (simp_all add: ws_inv_def)
  have s: "order_ok s" "protocol_ok (g\<lparr>wx_filter := s\<rparr>)" "wf_state s = wf_state (wx_filter g)"
    using g by (auto simp: s_def protocol_filter)
  show ?thesis
  proof (cases "wf_state (wx_filter g)")
    case (StartHandshake m st)
    show ?thesis
      by (rule net_read_handshake [OF _ inv StartHandshake]) (use law in \<open>simp add: ws_law_def\<close>)
  next
    case NotWebSocket
    with g(3) quiet have "en_calls (wx_filter g) = []" "unread (wx_filter g) = []" "untouched g"
      by (auto simp: state_ok_def unexpected_body_def)
    with NotWebSocket g inv(2) show ?thesis
      by (intro ws_inv_runI)
        (auto simp: net_read_def Let_def ws_on_read_def state_ok_def passed_on_def untouched_def protocol_filter unread_def)
  next
    case (FinishHandshake st r x)
    with g inv(2) show ?thesis
      by (intro ws_inv_runI) (auto simp: net_read_def Let_def ws_on_read_def state_ok_def passed_on_def
          net_call_def unexpected_body_def protocol_filter)
  next
    case WsDone
    with g inv(2) show ?thesis
      by (intro ws_inv_runI) (auto simp: net_read_def Let_def ws_on_read_def state_ok_def passed_on_def
          awake_def protocol_filter)
  next
    case (WsAccepted w st)
    have "accepted_ok active s (wf_state s)" "awake s" "\<exists>q. send_phase WsStarted (wx_done g) = Some q \<and> q \<noteq> WsStarted"
      using g(3) WsAccepted by (auto simp: state_ok_def awake_def s_def)
    from read_accepted_inv [OF law s(1,2) this] obtain s' where
      s': "read_web_socket e s = Some (Ret s')" "order_ok s'" "protocol_ok (g\<lparr>wx_filter := s'\<rparr>)"
        "state_ok active (g\<lparr>wx_filter := s'\<rparr>)" "is_accepted (wf_state s')" by blast
    obtain w' st' where w': "wf_state s' = WsAccepted w' st'" using s'(5) by (cases "wf_state s'") auto
    have "net_read e cs g = g\<lparr>wx_arrived := wx_arrived g @ concat cs, wx_filter := s'\<rparr>"
      using s'(1) WsAccepted by (cases g) (simp add: net_read_def Let_def ws_on_read_def s_def)
    moreover have "protocol_ok (g\<lparr>wx_arrived := a, wx_filter := s'\<rparr>)" for a
      using s'(3) by (simp add: protocol_ok_def)
    ultimately show ?thesis
      using s' w' inv(2) g(4) WsAccepted by (intro ws_inv_runI) (simp_all add: state_ok_def passed_on_def)
  qed
qed

section \<open>The scheduled events preserve it\<close>

lemma sends_order:
  assumes "sends_as es (s\<lparr>wl_send := b\<rparr>) s'" "order_ok s" "bridge_content (wl_send s) = es"
    "bridge_content b = []" "bridge_wf b"
  shows "order_ok s'"
proof -
  obtain ts where ts: "wl_tasks s' = wl_tasks s @ ts" "list_all is_send_task ts" "map task_future ts = event_futures es"
    using assms(1) unfolding sends_as_def by auto
  have f: "filter is_send_task ts = ts" "filter (\<lambda>t. \<not> is_send_task t) ts = []" "received ts = []"
    using ts(2) by (induction ts) (auto split: ws_task.splits)
  have "recv_order s' = recv_order s" "send_order s' = send_order s"
    using assms ts f by (simp_all add: recv_order_def send_order_def sends_as_def)
  moreover have "in_order s \<Longrightarrow> in_order s'"
    using assms(1) ts(1) f(3) by (auto simp: in_order_def sends_as_def)
  ultimately show ?thesis using assms by (simp add: order_ok_def sends_as_def)
qed

lemma process_empties: "bridge_process b = (es, b') \<Longrightarrow> es = bridge_content b \<and> bridge_content b' = []
    \<and> (bridge_wf b \<longrightarrow> bridge_wf b') \<and> (b' = Closed \<longleftrightarrow> b = Closed)"
  by (cases b) (auto simp: bridge_wf_def)

lemma sends_protocol:
  assumes "sends_as es ((wx_filter g)\<lparr>wl_commits := cs, wl_send := b\<rparr>) s'" "protocol_ok g"
    and "bridge_content (wl_send (wx_filter g)) = es" "bridge_content b = []"
    and "b = Closed \<longleftrightarrow> wl_send (wx_filter g) = Closed"
  shows "protocol_ok (g\<lparr>wx_filter := s', wx_done := wx_done g @ es\<rparr>)"
proof -
  have b: "wl_send s' = b" using assms(1) by (simp add: sends_as_def)
  have "sent_in_order (wx_done g) ((wx_filter g)\<lparr>wl_commits := cs, wl_send := b\<rparr>)"
    using assms(2) by (simp add: protocol_ok_def sent_in_order_def)
  then have "sent_in_order (wx_done g @ es) s'" using assms(1) by (simp add: sends_as_def)
  moreover have "prefix (wx_done g @ es) (wx_sent g)"
    using assms(2,3) by (cases "wl_send (wx_filter g) = Closed") (auto simp: protocol_ok_def)
  ultimately show ?thesis using assms b by (auto simp: protocol_ok_def)
qed

lemma ids_distinct [simp]: "WS_EVENT_ID_RESPONSE \<noteq> WS_EVENT_ID_REQUEST" "WS_EVENT_ID_REQUEST \<noteq> WS_EVENT_ID_RESPONSE"
  by (simp_all add: WS_EVENT_ID_REQUEST_def WS_EVENT_ID_RESPONSE_def)

lemma order_commits [simp]:
  "set cs \<subseteq> {WS_EVENT_ID_REQUEST, WS_EVENT_ID_RESPONSE} \<Longrightarrow> order_ok s \<Longrightarrow> order_ok (s\<lparr>wl_commits := cs\<rparr>)"
  by (simp add: order_ok_def recv_order_def send_order_def in_order_def)

lemma scheduled_request_inv:
  fixes g :: "('h, 'x, 'w) ws_sys" and e :: "('h, 'x, 'w) ws_env"
  assumes law: "ws_law weight active e" and inv: "ws_inv active e g" "wx_mode g = WsRunning"
    and c: "wl_commits (wx_filter g) = WS_EVENT_ID_REQUEST # rest"
  shows "ws_inv active e (net_scheduled e g)"
proof -
  define s where "s = (wx_filter g)\<lparr>wl_commits := rest\<rparr>"
  have g: "order_ok (wx_filter g)" "protocol_ok g" "state_ok active g" "passed_on g"
    using inv by (simp_all add: ws_inv_def)
  have s: "order_ok s" "protocol_ok (g\<lparr>wx_filter := s\<rparr>)" "wf_state s = wf_state (wx_filter g)"
    using g c by (auto simp: s_def order_ok_def recv_order_def send_order_def in_order_def protocol_filter)
  have step: "net_scheduled e g = ws_finish (ws_on_scheduled e WS_EVENT_ID_REQUEST s) g"
    by (simp add: net_scheduled_def c s_def Let_def)
  show ?thesis
  proof (cases "wf_state (wx_filter g)")
    case (FinishHandshake st r x)
    with g(3) c have n: "count_list rest WS_EVENT_ID_REQUEST + 1 = length (bridge_content (wl_recv s))"
      "wl_recv s \<noteq> Closed" by (auto simp: state_ok_def s_def)
    have "bridge_wf (wl_recv s)" using s(1) by (simp add: order_ok_def)
    moreover have "bridge_content (wl_recv s) \<noteq> []" using n(1) by auto
    ultimately obtain f b where b: "bridge_get (wl_recv s) = Ret (Some f, b)"
      "bridge_content (wl_recv s) = f # bridge_content b" "bridge_wf b" by (rule bridge_front)
    have "b \<noteq> Closed" using b(1) n(2) by (cases "wl_recv s") (auto split: list.splits if_splits)
    let ?s = "s\<lparr>wl_recv := b, wl_tasks := wl_tasks s @ [WsConnected f]\<rparr>"
    have "ws_on_scheduled e WS_EVENT_ID_REQUEST s = Some (Ret ?s)"
      using FinishHandshake b(1) s(3) by (simp add: ws_on_scheduled_def ws_handle_connect_def ws_dispatch_def)
    moreover have "order_ok ?s"
      using s(1) b(2,3) by (simp add: order_ok_def recv_order_def send_order_def in_order_def)
    moreover have "protocol_ok (g\<lparr>wx_filter := ?s\<rparr>)" by (rule protocol_filter) (use g(2) in \<open>auto simp: s_def\<close>)
    moreover have "state_ok active (g\<lparr>wx_filter := ?s\<rparr>)"
      using g(3) FinishHandshake c n b(2) \<open>b \<noteq> Closed\<close> by (auto simp: state_ok_def s_def)
    moreover have "passed_on (g\<lparr>wx_filter := ?s\<rparr>)" using g(4) by (simp add: passed_on_def s_def)
    ultimately show ?thesis using inv(2) step by (intro ws_inv_runI) (simp_all add: ws_finish_def)
  next
    case (WsAccepted w st)
    have "accepted_ok active s (wf_state s)" "awake s" "\<exists>q. send_phase WsStarted (wx_done g) = Some q \<and> q \<noteq> WsStarted"
      using g(3) WsAccepted c by (auto simp: state_ok_def awake_def s_def)
    from read_accepted_inv [OF law s(1,2) this] obtain s' where
      s': "read_web_socket e s = Some (Ret s')" "order_ok s'" "protocol_ok (g\<lparr>wx_filter := s'\<rparr>)"
        "state_ok active (g\<lparr>wx_filter := s'\<rparr>)" "is_accepted (wf_state s')" by blast
    obtain w' st' where w': "wf_state s' = WsAccepted w' st'" using s'(5) by (cases "wf_state s'") auto
    have "net_scheduled e g = g\<lparr>wx_filter := s'\<rparr>"
      using s'(1) WsAccepted s(3) by (simp add: step ws_on_scheduled_def ws_finish_def)
    then show ?thesis
      using s' w' inv(2) g(4) WsAccepted by (intro ws_inv_runI) (simp_all add: passed_on_def)
  next
    case WsDone
    then have "net_scheduled e g = g\<lparr>wx_filter := s\<rparr>" using s(3) by (simp add: step ws_on_scheduled_def ws_finish_def)
    moreover have "awake s" using g(3) c WsDone by (auto simp: state_ok_def awake_def s_def)
    ultimately show ?thesis
      using s g inv(2) WsDone by (intro ws_inv_runI) (simp_all add: passed_on_def state_ok_def)
  next
    case (StartHandshake m st)
    with g(3) c show ?thesis by (simp add: state_ok_def untouched_def)
  next
    case NotWebSocket
    with g(3) c show ?thesis by (simp add: state_ok_def untouched_def)
  qed
qed

lemma taken_all:
  "bridge_content (wl_send s') = [] \<Longrightarrow> taken_events s (Some (Ret s')) = bridge_content (wl_send s)"
  by (simp add: taken_events_def)

text \<open>The first event takes the filter out of the handshake.\<close>

lemma first_event_inv:
  fixes g :: "('h, 'x, 'w) ws_sys" and e :: "('h, 'x, 'w) ws_env"
  assumes law: "send_law active e" and inv: "ws_inv active e g" "wx_mode g = WsRunning"
    and c: "wl_commits (wx_filter g) = WS_EVENT_ID_RESPONSE # rest"
    and st: "wf_state (wx_filter g) = FinishHandshake st response x"
  shows "ws_inv active e (net_scheduled e g)"
proof -
  define s where "s = (wx_filter g)\<lparr>wl_commits := rest\<rparr>"
  have g: "order_ok (wx_filter g)" "protocol_ok g" "state_ok active g" "passed_on g"
    using inv by (simp_all add: ws_inv_def)
  from g(3) st c have f: "stream_ok st" "wf_close_frame s = None" "wf_watermark s = 0" "wl_send s \<noteq> Closed"
    "wx_done g = []" "wf_sends s = []" "count_list rest WS_EVENT_ID_RESPONSE + 1 = length (bridge_content (wl_send s))"
    "count_list rest WS_EVENT_ID_REQUEST = length (bridge_content (wl_recv s))"
    by (auto simp: state_ok_def s_def)
  have "bridge_wf (wl_send s)" using g(1) by (simp add: order_ok_def s_def)
  moreover have "bridge_content (wl_send s) \<noteq> []" using f(7) by auto
  ultimately obtain ev b where b: "bridge_get (wl_send s) = Ret (Some ev, b)"
    "bridge_content (wl_send s) = ev # bridge_content b" "bridge_wf b" by (rule bridge_front)
  have open_b: "b \<noteq> Closed" using b(1) f(4) by (cases "wl_send s") (auto split: list.splits if_splits)
  have sent: "wx_sent g = ev # bridge_content b" using g(2) f(4,5) b(2) by (simp add: protocol_ok_def s_def)
  obtain q where q: "send_phase WsStarted (ev # bridge_content b) = Some q" "q = wx_sender g \<or> wx_sender g = WsSendClosed"
    using g(2) f(4) unfolding protocol_ok_def sent by (auto simp: s_def)
  have ev: "messages [ev] = []" by (rule send_phase_first [OF q(1)])
  let ?s0 = "s\<lparr>wf_state := WsDone, wl_send := b\<rparr>"
  have r: "ws_on_scheduled e WS_EVENT_ID_RESPONSE s = Some (ws_first_event e st response x ev ?s0)"
    using st f(3) b(1) by (simp add: ws_on_scheduled_def ws_process_send_events_def s_def)
  define rr where "rr = Some (ws_first_event e st response x ev ?s0)"
  have step: "net_scheduled e g = ws_finish rr (g\<lparr>wx_done := wx_done g @ taken_events s rr\<rparr>)"
    by (simp add: net_scheduled_def c s_def [symmetric] r rr_def Let_def)
  have wake: "bridge_content b \<noteq> [] \<longrightarrow> WS_EVENT_ID_RESPONSE \<in> set rest"
    using f(7) b(2) by (cases "WS_EVENT_ID_RESPONSE \<in> set rest") (auto simp: count_list_0_iff)
  have taken: "taken_events s (Some (Ret s')) = [ev]" if "wl_send s' = b" for s' :: "('h, 'x, 'w) ws_filter"
    using that b(2) by (simp add: taken_events_def)
  have fwd: "wx_forwarded g = []" using g(4) st by (simp add: passed_on_def)
  have set_rest: "set rest \<subseteq> {WS_EVENT_ID_REQUEST, WS_EVENT_ID_RESPONSE}" using g(1) c by (simp add: order_ok_def)
  from ev show ?thesis
  proof (cases rule: first_event_cases [where ev = ev and st = st and response = response and x = x and s = ?s0 and e = e])
    case (1 r)
    then have "net_scheduled e g = g\<lparr>wx_mode := WsPanicked\<rparr>"
      by (simp add: step rr_def ws_finish_def taken_events_def)
    with g 1(2) show ?thesis by (auto simp: ws_inv_def)
  next
    case (2 a buffer w)
    let ?t = "?s0\<lparr>en_calls := en_calls ?s0 @ [NetWrite buffer False], wl_tasks := wl_tasks ?s0 @ [WsSent (ae_future a)],
       wl_commits := wl_commits ?s0 @ [WS_EVENT_ID_REQUEST], wf_state := WsAccepted w st\<rparr>"
    have n: "net_scheduled e g = g\<lparr>wx_filter := ?t, wx_done := [ev]\<rparr>"
      using taken [of ?t] f(5) by (simp add: step rr_def 2(3) ws_finish_def)
    have "order_ok ?t"
      using g(1) b(2,3) 2(1) set_rest
      by (simp add: order_ok_def recv_order_def send_order_def in_order_def s_def)
    moreover have "protocol_ok (g\<lparr>wx_filter := ?t, wx_done := [ev]\<rparr>)"
      using q sent 2(1) f(6) open_b by (auto simp: protocol_ok_def sent_in_order_def)
    moreover have "state_ok active (g\<lparr>wx_filter := ?t, wx_done := [ev]\<rparr>)"
      using wake f(1,2) 2(1,2) law by (auto simp: state_ok_def awake_def stream_ok_def send_law_def s_def)
    ultimately show ?thesis
      unfolding n using inv(2) fwd by (intro ws_inv_runI) (simp_all add: passed_on_def)
  next
    case (3 c frame)
    let ?t = "?s0\<lparr>en_calls := en_calls ?s0 @ [c], wf_close_frame := frame\<rparr>"
    have n: "net_scheduled e g = g\<lparr>wx_filter := ?t, wx_done := [ev]\<rparr>"
      using taken [of ?t] f(5) by (simp add: step rr_def 3(3) ws_finish_def)
    have "order_ok ?t"
      using g(1) b(2,3) 3(1) set_rest f(2)
      by (auto simp: order_ok_def recv_order_def send_order_def in_order_def s_def split: option.splits)
    moreover have "protocol_ok (g\<lparr>wx_filter := ?t, wx_done := [ev]\<rparr>)"
      using q sent f(6) open_b by (auto simp: protocol_ok_def sent_in_order_def)
    moreover have "state_ok active (g\<lparr>wx_filter := ?t, wx_done := [ev]\<rparr>)"
      using wake by (auto simp: state_ok_def awake_def s_def)
    ultimately show ?thesis
      unfolding n using inv(2) fwd by (intro ws_inv_runI) (simp_all add: passed_on_def)
  qed
qed

text \<open>Once the connection is accepted, no other accept waits.\<close>

lemma events_no_accept:
  assumes "ws_inv active e g" "wx_mode g = WsRunning" "wf_state (wx_filter g) = WsAccepted w st"
  obtains q q' where "send_phase WsStarted (wx_done g) = Some q" "q \<noteq> WsStarted"
    "send_phase q (bridge_content (wl_send (wx_filter g))) = Some q'" "q' \<noteq> WsStarted"
    "list_all (\<lambda>ev. \<not> is_accept ev) (bridge_content (wl_send (wx_filter g)))"
proof -
  have g: "protocol_ok g" "state_ok active g" using assms(1,2) by (simp_all add: ws_inv_def)
  obtain q where q: "send_phase WsStarted (wx_done g) = Some q" "q \<noteq> WsStarted"
    using g(2) assms(3) by (auto simp: state_ok_def)
  obtain q' where q': "send_phase q (bridge_content (wl_send (wx_filter g))) = Some q'"
  proof (cases "wl_send (wx_filter g) = Closed")
    case True
    with that show thesis by simp
  next
    case False
    with g(1) q(1) that show thesis by (auto simp: protocol_ok_def send_phase_append split: option.splits)
  qed
  from send_phase_no_accept [OF q' q(2)] q q' that show thesis by blast
qed

lemma scheduled_response_inv:
  fixes g :: "('h, 'x, 'w) ws_sys" and e :: "('h, 'x, 'w) ws_env"
  assumes law: "ws_law weight active e" and inv: "ws_inv active e g" "wx_mode g = WsRunning"
    and c: "wl_commits (wx_filter g) = WS_EVENT_ID_RESPONSE # rest"
  shows "ws_inv active e (net_scheduled e g)"
proof -
  define s where "s = (wx_filter g)\<lparr>wl_commits := rest\<rparr>"
  have g: "order_ok (wx_filter g)" "protocol_ok g" "state_ok active g" "passed_on g"
    using inv by (simp_all add: ws_inv_def)
  have s: "order_ok s" "protocol_ok (g\<lparr>wx_filter := s\<rparr>)" "wf_state s = wf_state (wx_filter g)"
    using g c by (auto simp: s_def order_ok_def recv_order_def send_order_def in_order_def protocol_filter)
  have send: "send_law active e" using law by (simp add: ws_law_def)
  define r where "r = ws_on_scheduled e WS_EVENT_ID_RESPONSE s"
  have step: "net_scheduled e g = ws_finish r (g\<lparr>wx_done := wx_done g @ taken_events s r\<rparr>)"
    by (simp add: net_scheduled_def c s_def Let_def r_def)
  obtain es b where b: "bridge_process (wl_send s) = (es, b)" by (metis prod.collapse)
  note b' = process_empties [OF b]
  have wf: "bridge_wf b" using s(1) b' by (simp add: order_ok_def)
  consider (first) st response x where "wf_state s = FinishHandshake st response x"
    | (none) "\<exists>m st. wf_state s = StartHandshake m st" | (not) "wf_state s = NotWebSocket"
    | (above) "wf_watermark s \<noteq> 0" "wf_state s = WsDone \<or> is_accepted (wf_state s)"
    | (acc) "wf_watermark s = 0" "is_accepted (wf_state s)" | (over) "wf_watermark s = 0" "wf_state s = WsDone"
    by (cases "wf_state s") auto
  then show ?thesis
  proof cases
    case first
    show ?thesis by (rule first_event_inv [OF send inv c]) (use first s(3) in simp)
  next
    case none
    with g(3) c s(3) show ?thesis by (auto simp: state_ok_def untouched_def)
  next
    case not
    with g(3) c s(3) show ?thesis by (simp add: state_ok_def untouched_def)
  next
    case above
    have "r = Some (Ret s)" using above(1) by (simp add: r_def ws_on_scheduled_def)
    then have n: "net_scheduled e g = g\<lparr>wx_filter := s\<rparr>"
      unfolding step by (cases g) (simp add: ws_finish_def taken_events_def)
    have "state_ok active (g\<lparr>wx_filter := s\<rparr>)"
      using above g(3) c s(3) by (cases "wf_state s") (auto simp: state_ok_def awake_def s_def)
    moreover have "passed_on (g\<lparr>wx_filter := s\<rparr>)" using g(4) by (simp add: passed_on_def s_def)
    ultimately show ?thesis using s inv(2) unfolding n by (intro ws_inv_runI) simp_all
  next
    case acc
    obtain w st where ws: "wf_state s = WsAccepted w st" using acc(2) by (cases "wf_state s") auto
    let ?s0 = "s\<lparr>wl_send := b\<rparr>"
    have q: "\<exists>q. send_phase WsStarted (wx_done g) = Some q \<and> q \<noteq> WsStarted" "accepted_ok active ?s0 (wf_state ?s0)"
      using g(3) ws s(3) by (auto simp: state_ok_def s_def)
    obtain q q' where q1: "send_phase WsStarted (wx_done g) = Some q" "q \<noteq> WsStarted" and
      q2: "send_phase q es = Some q'" and na: "list_all (\<lambda>ev. \<not> is_accept ev) es" "q' \<noteq> WsStarted"
      by (rule events_no_accept [OF inv, of w st]) (use ws s(3) b' in \<open>simp_all add: s_def\<close>)
    from send_fold_ok [OF send q(2) na(1)] obtain s' where
      s': "rust_fold (ws_send_step e) es ?s0 = Ret s'" "accepted_ok active s' (wf_state s')" "sends_as es ?s0 s'" by blast
    obtain w' st' where w': "wf_state s' = WsAccepted w' st'" using s'(2) by (rule accepted_cases)
    have sb: "wl_send s' = b" "wl_recv s' = wl_recv s" "wl_commits s' = rest" "unread s' = unread s"
      using s'(3) by (simp_all add: sends_as_def s_def unread_def)
    have "r = Some (Ret s')" using acc(1) ws b s'(1) by (simp add: r_def ws_on_scheduled_def ws_process_send_events_def)
    then have n: "net_scheduled e g = g\<lparr>wx_filter := s', wx_done := wx_done g @ es\<rparr>"
      using taken_all [of s' s] sb(1) b' by (simp add: step ws_finish_def)
    have "order_ok s'" by (rule sends_order [OF s'(3) s(1)]) (use b' wf in simp_all)
    moreover have "protocol_ok (g\<lparr>wx_filter := s', wx_done := wx_done g @ es\<rparr>)"
      by (rule sends_protocol [where cs = rest and b = b, OF _ g(2)]) (use s'(3) b' in \<open>auto simp: s_def\<close>)
    moreover have "send_phase WsStarted (wx_done g @ es) = Some q'" using q1 q2 by (simp add: send_phase_append)
    then have "state_ok active (g\<lparr>wx_filter := s', wx_done := wx_done g @ es\<rparr>)"
      using s'(2) sb b' na(2) g(3) ws s(3) c by (auto simp: state_ok_def awake_def w' s_def unread_def)
    moreover have "passed_on (g\<lparr>wx_filter := s', wx_done := wx_done g @ es\<rparr>)"
      using g(4) ws s(3) w' by (simp add: passed_on_def)
    ultimately show ?thesis using inv(2) unfolding n by (intro ws_inv_runI) simp_all
  next
    case over
    let ?s0 = "s\<lparr>wl_send := b\<rparr>"
    from drop_fold_ok [of ?s0 e es] over(2) obtain s' where
      s': "rust_fold (ws_send_step e) es ?s0 = Ret s'" "wf_state s' = WsDone" "en_calls s' = en_calls s" "sends_as es ?s0 s'"
      by auto
    have sb: "wl_send s' = b" using s'(4) by (simp add: sends_as_def)
    have "r = Some (Ret s')" using over b s'(1) by (simp add: r_def ws_on_scheduled_def ws_process_send_events_def)
    then have n: "net_scheduled e g = g\<lparr>wx_filter := s', wx_done := wx_done g @ es\<rparr>"
      using taken_all [of s' s] sb b' by (simp add: step ws_finish_def)
    have "order_ok s'" by (rule sends_order [OF s'(4) s(1)]) (use b' wf in simp_all)
    moreover have "protocol_ok (g\<lparr>wx_filter := s', wx_done := wx_done g @ es\<rparr>)"
      by (rule sends_protocol [where cs = rest and b = b, OF _ g(2)]) (use s'(4) b' in \<open>auto simp: s_def\<close>)
    moreover have "state_ok active (g\<lparr>wx_filter := s', wx_done := wx_done g @ es\<rparr>)"
      using s'(2) sb b' by (simp add: state_ok_def awake_def)
    moreover have "passed_on (g\<lparr>wx_filter := s', wx_done := wx_done g @ es\<rparr>)"
      using g(4) over(2) s(3) s'(2) by (simp add: passed_on_def)
    ultimately show ?thesis using inv(2) unfolding n by (intro ws_inv_runI) simp_all
  qed
qed

lemma net_scheduled_inv:
  fixes g :: "('h, 'x, 'w) ws_sys" and e :: "('h, 'x, 'w) ws_env"
  assumes "ws_law weight active e" "ws_inv active e g" "wx_mode g = WsRunning"
  shows "ws_inv active e (net_scheduled e g)"
proof (cases "wl_commits (wx_filter g)")
  case Nil
  with assms show ?thesis by (simp add: net_scheduled_def)
next
  case (Cons i rest)
  with assms(2) have "i = WS_EVENT_ID_REQUEST \<or> i = WS_EVENT_ID_RESPONSE" by (auto simp: ws_inv_def order_ok_def)
  with Cons scheduled_request_inv [OF assms] scheduled_response_inv [OF assms] show ?thesis by auto
qed

section \<open>The application's calls preserve it\<close>

text \<open>
  A call offers one event to the send bridge at most, after creating the future in it. The state
  of the callable may close on the way.
\<close>

definition offers :: "ws_send_event option \<Rightarrow> ('h, 'x, 'w) ws_filter \<Rightarrow> ('h, 'x, 'w) ws_filter \<Rightarrow> bool" where
  "offers ev s s' \<longleftrightarrow>
     (case ev of
        None \<Rightarrow> s' = s
      | Some ev \<Rightarrow>
          (let t = (case ws_event_future ev of Some f \<Rightarrow> s\<lparr>wl_futures := f + 1\<rparr> | None \<Rightarrow> s)
           in (ws_event_future ev = None \<or> ws_event_future ev = Some (wl_futures s)) \<and> s' = ws_offer ev t))"

lemma offer_cases:
  assumes "bridge_wf (wl_send s)"
  obtains "wl_send s = Closed" "ws_offer ev s = ws_drop_event ev s"
  | b where "wl_send s \<noteq> Closed" "b \<noteq> Closed" "bridge_content b = bridge_content (wl_send s) @ [ev]" "bridge_wf b"
      "ws_offer ev s = s\<lparr>wl_send := b, wl_commits := wl_commits s @ [WS_EVENT_ID_RESPONSE]\<rparr>"
proof (cases "wl_send s = Closed")
  case True
  have "s\<lparr>wl_send := Closed\<rparr> = s" using True by (cases s) simp
  with True that(1) show thesis by (simp add: ws_offer_def)
next
  case False
  obtain ok b where o: "bridge_offer (wl_send s) ev = (ok, b)" by (cases "bridge_offer (wl_send s) ev")
  with False assms bridge_offer_iff [of "wl_send s" ev] have "ok" by simp
  with o False assms bridge_offer_content [OF False, of ev] bridge_offer_wf [OF assms, of ev]
    bridge_offer_Closed_iff [of "wl_send s" ev] that(2) [of b]
  show thesis by (simp add: ws_offer_def ws_commit_def)
qed

text \<open>What a call of the send callable does: an event that its state allows, or none.\<close>

definition send_allowed :: "ws_send_event option \<Rightarrow> ws_send_state \<Rightarrow> ws_send_state \<Rightarrow> bool" where
  "send_allowed ev st st' \<longleftrightarrow>
     (case ev of None \<Rightarrow> st' = st \<or> st' = WsSendClosed | Some ev \<Rightarrow> send_phase st [ev] = Some st')"

lemma ws_send_effect:
  assumes "ws_send api event st s = (r, st', s')"
  shows "\<exists>ev. offers ev s s' \<and> send_allowed ev st st' \<and> (st = WsSendClosed \<longrightarrow> ev = None \<and> st' = st)"
proof -
  have none: "s' = s \<Longrightarrow> st' = st \<or> st \<noteq> WsSendClosed \<and> st' = WsSendClosed \<Longrightarrow> ?thesis"
    by (intro exI [of _ None]) (auto simp: offers_def send_allowed_def)
  have future: ?thesis if "s' = ws_offer ev (s\<lparr>wl_futures := Suc (wl_futures s)\<rparr>)"
      "ws_event_future ev = Some (wl_futures s)" "send_phase st [ev] = Some st'" "st \<noteq> WsSendClosed" for ev
    using that by (intro exI [of _ "Some ev"]) (auto simp: offers_def send_allowed_def)
  have acc: "?thesis" if "st = WsStarted" "ws_send_accept api event s = (r, st', s')"
  proof -
    from that(2) consider "s' = s" "st' = WsStarted"
      | sub hs where "s' = ws_offer (WsAccept \<lparr>ae_subprotocol = sub, ae_headers = hs, ae_future = wl_futures s\<rparr>)
            (s\<lparr>wl_futures := Suc (wl_futures s)\<rparr>)" "st' = WsSendAccepted"
      using that(1) by (auto simp: ws_send_accept_def ws_create_future_def split: sum.splits prod.splits)
    then show ?thesis using none future that(1) by cases auto
  qed
  have msg: "?thesis" if "st = WsSendAccepted" "ws_send_message event s = (r, s')" "st' = st"
  proof -
    from that(2) consider "s' = s"
      | body where "s' = ws_offer (WsSendMessage body (wl_futures s)) (s\<lparr>wl_futures := Suc (wl_futures s)\<rparr>)"
      by (auto simp: ws_send_message_def ws_create_future_def split: sum.splits prod.splits)
    then show ?thesis using none future that(1,3) by cases auto
  qed
  have close: "?thesis" if "st \<noteq> WsSendClosed" "ws_send_close api event st s = (r, st', s')"
  proof -
    from that(2) consider "s' = s" "st' = st \<or> st' = WsSendClosed"
      | code reason where "s' = ws_offer (WsClose code reason) s" "st' = WsSendClosed"
      by (auto simp: ws_send_close_def split: sum.splits option.splits if_splits)
    then show ?thesis
    proof cases
      case 1
      with that(1) none show ?thesis by auto
    next
      case (2 code reason)
      with that(1) show ?thesis
        by (intro exI [of _ "Some (WsClose code reason)"]) (auto simp: offers_def send_allowed_def)
    qed
  qed
  from assms consider "s' = s" "st' = st" | "st = WsStarted" "ws_send_accept api event s = (r, st', s')"
    | "st = WsSendAccepted" "ws_send_message event s = (r, s')" "st' = st"
    | "st \<noteq> WsSendClosed" "ws_send_close api event st s = (r, st', s')"
    by (cases st) (auto simp: ws_send_def split: sum.splits if_splits prod.splits)
  then show ?thesis by cases (use none acc msg close in blast)+
qed

lemma order_below:
  assumes "order_ok s" "f \<in> set (recv_order s) \<union> set (send_order s)"
  shows "f < wl_futures s"
proof -
  have "f \<in># mset (recv_order s) + mset (send_order s)" using assms(2) by auto
  with assms(1) have "f \<in># mset [0..<wl_futures s]" by (simp add: order_ok_def)
  then show ?thesis by simp
qed

lemma order_future:
  assumes "order_ok s" and "wl_futures s' = wl_futures s + 1"
    and "recv_order s' = recv_order s @ [wl_futures s] \<and> send_order s' = send_order s
      \<or> recv_order s' = recv_order s \<and> send_order s' = send_order s @ [wl_futures s]"
    and "bridge_wf (wl_recv s')" "bridge_wf (wl_send s')" "in_order s'"
    and "set (wl_commits s') \<subseteq> {WS_EVENT_ID_REQUEST, WS_EVENT_ID_RESPONSE}"
  shows "order_ok s'"
proof -
  have "sorted_wrt (<) (recv_order s')" "sorted_wrt (<) (send_order s')"
    using assms(1,3) order_below [OF assms(1)] by (auto simp: order_ok_def sorted_wrt_append)
  moreover have "mset (recv_order s') + mset (send_order s') = mset [0..<wl_futures s']"
    using assms(1-3) by (auto simp: order_ok_def)
  ultimately show ?thesis using assms(4-7) by (simp add: order_ok_def)
qed

lemma app_running:
  assumes "ws_inv active e g" "wx_job g \<noteq> None" "wx_mode g = WsRunning"
  shows "(\<exists>st r x. wf_state (wx_filter g) = FinishHandshake st r x) \<or> wf_state (wx_filter g) = WsDone
    \<or> (\<exists>w st. wf_state (wx_filter g) = WsAccepted w st)"
  using assms by (cases "wf_state (wx_filter g)") (auto simp: ws_inv_def state_ok_def untouched_def)

lemma recv_call_cases:
  assumes "bridge_wf (wl_recv s)"
  obtains "wl_recv s = Closed" "snd (ws_recv_call s) = s\<lparr>wl_futures := wl_futures s + 1,
      wl_tasks := wl_tasks s @ [WsRecvDropped (wl_futures s)]\<rparr>"
  | b where "wl_recv s \<noteq> Closed" "b \<noteq> Closed" "bridge_wf b"
      "bridge_content b = bridge_content (wl_recv s) @ [wl_futures s]"
      "snd (ws_recv_call s) = s\<lparr>wl_futures := wl_futures s + 1, wl_recv := b,
         wl_commits := wl_commits s @ [WS_EVENT_ID_REQUEST]\<rparr>"
proof (cases "wl_recv s = Closed")
  case True
  then show thesis
    by (intro that(1)) (cases s, simp_all add: ws_recv_call_def ws_create_future_def ws_drop_recv_def ws_dispatch_def)
next
  case False
  obtain ok b where o: "bridge_offer (wl_recv s) (wl_futures s) = (ok, b)"
    by (cases "bridge_offer (wl_recv s) (wl_futures s)")
  with False assms bridge_offer_iff [of "wl_recv s" "wl_futures s"] have "ok" by simp
  with o False assms bridge_offer_content [OF False, of "wl_futures s"] bridge_offer_wf [OF assms, of "wl_futures s"]
    bridge_offer_Closed_iff [of "wl_recv s" "wl_futures s"] that(2) [of b]
  show thesis by (simp add: ws_recv_call_def ws_create_future_def ws_commit_def)
qed

text \<open>What a call may change without disturbing the state of the connection.\<close>

lemma app_call_inv:
  assumes "ws_inv active e g" "wx_job g \<noteq> None" "wx_mode g = WsRunning \<or> wx_mode g = WsDestroyed"
    and "wf_state t = wf_state (wx_filter g)" "wf_close_frame t = wf_close_frame (wx_filter g)"
    "en_calls t = en_calls (wx_filter g)" "wf_watermark t = wf_watermark (wx_filter g)"
    "wf_sends t = wf_sends (wx_filter g)" "unread t = unread (wx_filter g)"
    and "wl_recv t = wl_recv (wx_filter g)
          \<and> count_list (wl_commits t) WS_EVENT_ID_REQUEST = count_list (wl_commits (wx_filter g)) WS_EVENT_ID_REQUEST
        \<or> wl_recv t \<noteq> Closed \<and> length (bridge_content (wl_recv t)) = length (bridge_content (wl_recv (wx_filter g))) + 1
          \<and> count_list (wl_commits t) WS_EVENT_ID_REQUEST = count_list (wl_commits (wx_filter g)) WS_EVENT_ID_REQUEST + 1"
    and "wl_send t = wl_send (wx_filter g)
          \<and> count_list (wl_commits t) WS_EVENT_ID_RESPONSE = count_list (wl_commits (wx_filter g)) WS_EVENT_ID_RESPONSE
        \<or> wl_send t \<noteq> Closed \<and> length (bridge_content (wl_send t)) = length (bridge_content (wl_send (wx_filter g))) + 1
          \<and> count_list (wl_commits t) WS_EVENT_ID_RESPONSE = count_list (wl_commits (wx_filter g)) WS_EVENT_ID_RESPONSE + 1"
    and "wx_mode g = WsDestroyed \<Longrightarrow> wl_recv t = Closed \<and> wl_send t = Closed"
    and "order_ok t" "protocol_ok (app_call t sn g)"
  shows "ws_inv active e (app_call t sn g)"
proof -
  have p: "passed_on (app_call t sn g)" if "passed_on g"
    using that assms(4,6) by (simp add: passed_on_def app_call_def)
  have mem: "x \<in> set xs \<longleftrightarrow> count_list xs x > 0" for x :: nat and xs by (metis count_list_0_iff gr0I less_not_refl)
  have resp: "bridge_content (wl_send t) \<noteq> [] \<Longrightarrow> WS_EVENT_ID_RESPONSE \<notin> set (wl_commits t)
      \<Longrightarrow> bridge_content (wl_send (wx_filter g)) \<noteq> [] \<and> WS_EVENT_ID_RESPONSE \<notin> set (wl_commits (wx_filter g))"
    using assms(11) unfolding mem by auto
  have req: "bridge_content (wl_recv t) \<noteq> [] \<Longrightarrow> WS_EVENT_ID_REQUEST \<notin> set (wl_commits t)
      \<Longrightarrow> bridge_content (wl_recv (wx_filter g)) \<noteq> [] \<and> WS_EVENT_ID_REQUEST \<notin> set (wl_commits (wx_filter g))"
    using assms(10) unfolding mem by auto
  have "state_ok active (app_call t sn g)" if m: "wx_mode g = WsRunning"
  proof -
    have st: "state_ok active g" using assms(1) m by (simp add: ws_inv_def)
    from app_running [OF assms(1,2) m] consider
      (finish) st r x where "wf_state (wx_filter g) = FinishHandshake st r x"
      | (over) "wf_state (wx_filter g) = WsDone" | (acc) w st where "wf_state (wx_filter g) = WsAccepted w st"
      by blast
    then show ?thesis
    proof cases
      case finish
      with st assms(4-9,10,11) show ?thesis by (simp add: state_ok_def app_call_def) (elim disjE conjE; simp)
    next
      case over
      with st assms(4,7) resp show ?thesis by (auto simp: state_ok_def awake_def app_call_def)
    next
      case acc
      with st have old: "awake (wx_filter g)" "accepted_ok active (wx_filter g) (wf_state (wx_filter g))"
        "\<exists>q. send_phase WsStarted (wx_done g) = Some q \<and> q \<noteq> WsStarted"
        "bridge_content (wl_recv (wx_filter g)) \<noteq> [] \<longrightarrow>
          WS_EVENT_ID_REQUEST \<in> set (wl_commits (wx_filter g)) \<or> unread (wx_filter g) = []"
        by (simp_all add: state_ok_def)
      have "awake t" using old(1) resp assms(7) by (auto simp: awake_def)
      moreover have "bridge_content (wl_recv t) \<noteq> [] \<longrightarrow> WS_EVENT_ID_REQUEST \<in> set (wl_commits t) \<or> unread t = []"
        using old(4) req assms(9) by auto
      ultimately show ?thesis using old(2,3) assms(4,5) acc by (simp add: state_ok_def app_call_def)
    qed
  qed
  moreover have "wl_recv t = Closed \<and> wl_send t = Closed" if "wx_mode g = WsDestroyed"
    using that assms(1,12) by simp
  ultimately show ?thesis
    using p assms(1,3,13,14) by (auto simp: ws_inv_def app_call_def)
qed

lemma recv_call_inv:
  assumes inv: "ws_inv active e g" "wx_job g \<noteq> None" "wx_mode g = WsRunning \<or> wx_mode g = WsDestroyed"
  shows "ws_inv active e (app_call (snd (ws_recv_call (wx_filter g))) (wx_sender g) g)"
proof -
  let ?s = "wx_filter g"
  have g: "order_ok ?s" "protocol_ok g" using inv(1) by (simp_all add: ws_inv_def)
  have wf: "bridge_wf (wl_recv ?s)" "bridge_wf (wl_send ?s)" using g(1) by (simp_all add: order_ok_def)
  show ?thesis
  proof (rule recv_call_cases [OF wf(1)])
    assume c: "wl_recv ?s = Closed"
      and r: "snd (ws_recv_call ?s) = ?s\<lparr>wl_futures := wl_futures ?s + 1,
        wl_tasks := wl_tasks ?s @ [WsRecvDropped (wl_futures ?s)]\<rparr>"
    let ?t = "?s\<lparr>wl_futures := wl_futures ?s + 1, wl_tasks := wl_tasks ?s @ [WsRecvDropped (wl_futures ?s)]\<rparr>"
    have "order_ok ?t"
      by (rule order_future [OF g(1)]) (use g(1) c in \<open>auto simp: recv_order_def send_order_def order_ok_def in_order_def\<close>)
    moreover have "protocol_ok (app_call ?t (wx_sender g) g)"
      using g(2) by (simp add: protocol_ok_def app_call_def sent_in_order_def)
    ultimately show ?thesis
      unfolding r by (intro app_call_inv [OF inv]) (use inv(1) c in \<open>simp_all add: ws_inv_def\<close>)
  next
    fix b
    assume b: "wl_recv ?s \<noteq> Closed" "b \<noteq> Closed" "bridge_wf b"
      "bridge_content b = bridge_content (wl_recv ?s) @ [wl_futures ?s]"
      and r: "snd (ws_recv_call ?s) = ?s\<lparr>wl_futures := wl_futures ?s + 1, wl_recv := b,
         wl_commits := wl_commits ?s @ [WS_EVENT_ID_REQUEST]\<rparr>"
    let ?t = "?s\<lparr>wl_futures := wl_futures ?s + 1, wl_recv := b, wl_commits := wl_commits ?s @ [WS_EVENT_ID_REQUEST]\<rparr>"
    have m: "wx_mode g = WsRunning" using inv(1,3) b(1) by (auto simp: ws_inv_def)
    have "order_ok ?t"
      by (rule order_future [OF g(1)]) (use g(1) b in \<open>auto simp: recv_order_def send_order_def order_ok_def in_order_def\<close>)
    moreover have "protocol_ok (app_call ?t (wx_sender g) g)"
      using g(2) by (simp add: protocol_ok_def app_call_def sent_in_order_def)
    ultimately show ?thesis
      unfolding r by (intro app_call_inv [OF inv]) (use m b in simp_all)
  qed
qed

lemma offer_inv:
  assumes inv: "ws_inv active e g" "wx_job g \<noteq> None" "wx_mode g = WsRunning \<or> wx_mode g = WsDestroyed"
    and o: "offers ev (wx_filter g) s'" "send_allowed ev (wx_sender g) st'"
  shows "ws_inv active e (app_call s' st' g)"
proof (cases ev)
  case None
  with o have s': "s' = wx_filter g" "st' = wx_sender g \<or> st' = WsSendClosed"
    by (auto simp: offers_def send_allowed_def)
  have "protocol_ok g" "order_ok (wx_filter g)" using inv(1) by (simp_all add: ws_inv_def)
  moreover from this(1) have "protocol_ok (app_call s' st' g)"
    using s' by (auto simp: protocol_ok_def app_call_def)
  ultimately show ?thesis
    using s'(1) by (intro app_call_inv [OF inv]) (use inv(1) in \<open>simp_all add: ws_inv_def\<close>)
next
  case (Some ev)
  let ?s = "wx_filter g"
  define t where "t = (case ws_event_future ev of Some f \<Rightarrow> ?s\<lparr>wl_futures := f + 1\<rparr> | None \<Rightarrow> ?s)"
  have g: "order_ok ?s" "protocol_ok g" using inv(1) by (simp_all add: ws_inv_def)
  have f: "ws_event_future ev = None \<or> ws_event_future ev = Some (wl_futures ?s)" "s' = ws_offer ev t"
    using o(1) Some by (auto simp: offers_def t_def Let_def)
  have t: "wl_send t = wl_send ?s" "wl_recv t = wl_recv ?s" "wl_commits t = wl_commits ?s" "wl_tasks t = wl_tasks ?s"
    "wf_state t = wf_state ?s" "wf_close_frame t = wf_close_frame ?s" "en_calls t = en_calls ?s"
    "wf_watermark t = wf_watermark ?s" "wf_sends t = wf_sends ?s" "unread t = unread ?s" "wf_reads t = wf_reads ?s"
    "wl_futures t = wl_futures ?s + length (event_futures [ev])"
    using f(1) by (auto simp: t_def)
  have wf: "bridge_wf (wl_send t)" "bridge_wf (wl_recv t)" using g(1) t(1,2) by (simp_all add: order_ok_def)
  obtain q where q: "send_phase WsStarted (wx_sent g) = Some q"
    "wl_send ?s \<noteq> Closed \<longrightarrow> q = wx_sender g \<or> wx_sender g = WsSendClosed" using g(2) by (auto simp: protocol_ok_def)
  have allowed: "send_phase (wx_sender g) [ev] = Some st'" using o(2) Some by (simp add: send_allowed_def)
  then have next_phase: "q = wx_sender g \<or> wx_sender g = WsSendClosed \<Longrightarrow>
      \<exists>q'. send_phase q [ev] = Some q' \<and> (q' = st' \<or> st' = WsSendClosed)"
    by (cases ev) (auto split: if_splits)
  have order: "order_ok s'" if "recv_order s' = recv_order ?s" "send_order s' = send_order ?s @ event_futures [ev]"
      "wl_futures s' = wl_futures t" "bridge_wf (wl_recv s')" "bridge_wf (wl_send s')" "in_order s'"
      "set (wl_commits s') \<subseteq> {WS_EVENT_ID_REQUEST, WS_EVENT_ID_RESPONSE}"
  proof (cases "ws_event_future ev")
    case None
    with that g(1) t(12) show ?thesis by (simp add: order_ok_def)
  next
    case (Some fut)
    with f(1) have "fut = wl_futures ?s" by simp
    with Some that t(12) show ?thesis by (intro order_future [OF g(1)]) simp_all
  qed
  show ?thesis
  proof (rule offer_cases [OF wf(1), of ev])
    assume c: "wl_send t = Closed" and off: "ws_offer ev t = ws_drop_event ev t"
    have s': "s' = t\<lparr>wl_tasks := wl_tasks t @ map WsSendDropped (event_futures [ev])\<rparr>"
      using f(2) off drop_event_fold [of "[ev]" t] by simp
    have "order_ok s'"
      by (rule order) (use g(1) t c wf s' in \<open>simp_all add: recv_order_def send_order_def order_ok_def in_order_def\<close>)
    moreover have "protocol_ok (app_call s' st' g)"
      using g(2) t c q(1) unfolding s' by (auto simp: protocol_ok_def app_call_def sent_in_order_def)
    ultimately show ?thesis
      by (intro app_call_inv [OF inv])
        (use t c inv(1) in \<open>simp_all add: s' ws_inv_def unread_def\<close>)
  next
    fix b
    assume b: "wl_send t \<noteq> Closed" "b \<noteq> Closed" "bridge_content b = bridge_content (wl_send t) @ [ev]" "bridge_wf b"
      and off: "ws_offer ev t = t\<lparr>wl_send := b, wl_commits := wl_commits t @ [WS_EVENT_ID_RESPONSE]\<rparr>"
    have s': "s' = t\<lparr>wl_send := b, wl_commits := wl_commits t @ [WS_EVENT_ID_RESPONSE]\<rparr>" using f(2) off by simp
    have m: "wx_mode g = WsRunning" using inv(1,3) b(1) t(1) by (auto simp: ws_inv_def)
    obtain q' where q': "send_phase q [ev] = Some q'" "q' = st' \<or> st' = WsSendClosed"
      using next_phase q(2) b(1) t(1) by auto
    have sent: "wx_sent g = wx_done g @ bridge_content (wl_send ?s)" using g(2) b(1) t(1) by (simp add: protocol_ok_def)
    have "order_ok s'"
      by (rule order) (use g(1) t b wf s' in \<open>simp_all add: recv_order_def send_order_def order_ok_def in_order_def\<close>)
    moreover have "send_phase WsStarted (wx_sent g @ [ev]) = Some q'" using q(1) q'(1) by (simp only: send_phase_append option.case)
    then have "protocol_ok (app_call s' st' g)"
      using g(2) t b q'(2) sent unfolding s' by (simp add: protocol_ok_def app_call_def sent_in_order_def)
    ultimately show ?thesis
      by (intro app_call_inv [OF inv]) (use t b m in \<open>simp_all add: s' unread_def\<close>)
  qed
qed

lemma app_done_offer: "\<exists>ev. offers ev s (ws_app_done result s) \<and> send_allowed ev st st"
proof (cases "result = Inl ClientDisconnectedError")
  case True
  then show ?thesis
    by (intro exI [of _ None]) (simp add: ws_app_done_def offers_def send_allowed_def)
next
  case False
  then show ?thesis
    by (cases result)
      (auto simp: ws_app_done_def offers_def send_allowed_def intro: exI [of _ "Some WsException"] exI [of _ "Some WsAbort"])
qed

section \<open>Every run\<close>

lemma destroy_inv:
  assumes "ws_inv active e g" "wx_mode g = WsRunning"
  shows "ws_inv active e (g\<lparr>wx_filter := ws_cleanup (wx_filter g), wx_mode := WsDestroyed\<rparr>)"
proof -
  let ?s = "wx_filter g"
  have g: "order_ok ?s" "protocol_ok g" "passed_on g" using assms by (simp_all add: ws_inv_def)
  have c: "ws_cleanup ?s = ?s\<lparr>wl_recv := Closed, wl_send := Closed, wl_tasks := wl_tasks ?s
      @ map WsRecvDropped (bridge_content (wl_recv ?s)) @ map WsSendDropped (event_futures (bridge_content (wl_send ?s)))\<rparr>"
    by (cases ?s) (simp add: ws_cleanup_def close_recv_eq close_send_eq)
  have "order_ok (ws_cleanup ?s)"
    using g(1) by (simp add: c order_ok_def recv_order_def send_order_def in_order_def bridge_wf_def)
  moreover have "protocol_ok (g\<lparr>wx_filter := ws_cleanup ?s\<rparr>)"
    using g(2) by (auto simp: c protocol_ok_def sent_in_order_def)
  moreover have "passed_on (g\<lparr>wx_filter := ws_cleanup ?s, wx_mode := WsDestroyed\<rparr>)"
    using g(3) by (simp add: c passed_on_def)
  moreover have "wl_recv (ws_cleanup ?s) = Closed" "wl_send (ws_cleanup ?s) = Closed" by (simp_all add: c)
  moreover have "protocol_ok (g\<lparr>wx_filter := s, wx_mode := m\<rparr>) = protocol_ok (g\<lparr>wx_filter := s\<rparr>)" for s m
    by (simp add: protocol_ok_def)
  ultimately show ?thesis by (simp add: ws_inv_def)
qed

lemma watermark_inv:
  assumes "ws_inv active e g" "wx_mode g = WsRunning"
    and "list_ex is_write (en_calls (wx_filter g)) \<or> wf_watermark (wx_filter g) \<noteq> 0"
    and "u = 0 \<longrightarrow> WS_EVENT_ID_RESPONSE \<in> set cs" "set (wl_commits (wx_filter g)) \<subseteq> set cs"
    "set cs \<subseteq> {WS_EVENT_ID_REQUEST, WS_EVENT_ID_RESPONSE}"
  shows "ws_inv active e (g\<lparr>wx_filter := (wx_filter g)\<lparr>wf_watermark := u, wl_commits := cs\<rparr>\<rparr>)"
proof -
  let ?t = "(wx_filter g)\<lparr>wf_watermark := u, wl_commits := cs\<rparr>"
  have g: "order_ok (wx_filter g)" "protocol_ok g" "passed_on g" "state_ok active g"
    using assms by (simp_all add: ws_inv_def)
  have "protocol_ok (g\<lparr>wx_filter := ?t\<rparr>)" by (rule protocol_filter) (use g(2) in auto)
  moreover have "order_ok ?t" using g(1) assms(6) by (simp add: order_ok_def recv_order_def send_order_def in_order_def)
  moreover have "passed_on (g\<lparr>wx_filter := ?t\<rparr>)" using g(3) by (simp add: passed_on_def)
  moreover have "state_ok active (g\<lparr>wx_filter := ?t\<rparr>)"
  proof (cases "wf_state (wx_filter g)")
    case (WsAccepted w st)
    with g(4) assms(4,5) show ?thesis by (auto simp: state_ok_def awake_def)
  next
    case WsDone
    with g(4) assms(4) show ?thesis by (auto simp: state_ok_def awake_def)
  qed (use g(4) assms(3) in \<open>auto simp: state_ok_def untouched_def unexpected_body_def\<close>)
  ultimately show ?thesis using assms(2) by (intro ws_inv_runI) simp_all
qed

lemma ws_exec_inv [pres]:
  fixes g :: "('h, 'x, 'w) ws_sys" and e :: "('h, 'x, 'w) ws_env"
  assumes law: "ws_law weight active e" and inv: "ws_inv active e g"
  shows "ws_inv active e (ws_exec e api op g)"
proof -
  have ids: "set (wl_commits (wx_filter g)) \<subseteq> {WS_EVENT_ID_REQUEST, WS_EVENT_ID_RESPONSE}"
    using inv by (simp add: ws_inv_def order_ok_def)
  show ?thesis
  proof (cases op)
    case (NetRead cs)
    with net_read_inv [OF law inv] inv show ?thesis by (simp add: ws_exec_def Let_def)
  next
    case NetScheduled
    with net_scheduled_inv [OF law inv] inv show ?thesis by (simp add: ws_exec_def Let_def)
  next
    case NetAbove
    have "ws_above_high_watermark s = s\<lparr>wf_watermark := wf_watermark s + 1, wl_commits := wl_commits s\<rparr>"
      for s :: "('h, 'x, 'w) ws_filter" by (cases s) (simp add: ws_above_high_watermark_def)
    with NetAbove watermark_inv [OF inv, of "wf_watermark (wx_filter g) + 1" "wl_commits (wx_filter g)"] inv ids
    show ?thesis by (simp add: ws_exec_def Let_def)
  next
    case NetBelow
    let ?u = "wf_watermark (wx_filter g) - 1"
    let ?cs = "wl_commits (wx_filter g) @ (if ?u = 0 then [WS_EVENT_ID_RESPONSE] else [])"
    have "ws_below_low_watermark (wx_filter g) = (wx_filter g)\<lparr>wf_watermark := ?u, wl_commits := ?cs\<rparr>"
      by (cases "wx_filter g") (simp add: ws_below_low_watermark_def ws_commit_def Let_def)
    then have "ws_inv active e (g\<lparr>wx_filter := ws_below_low_watermark (wx_filter g)\<rparr>)"
      if "wx_mode g = WsRunning" "wf_watermark (wx_filter g) \<noteq> 0"
      using watermark_inv [OF inv that(1), of ?u ?cs] that(2) ids by auto
    with NetBelow inv show ?thesis by (auto simp: ws_exec_def Let_def)
  next
    case NetDestroy
    with destroy_inv [OF inv] inv show ?thesis by (simp add: ws_exec_def Let_def)
  next
    case WsRecv
    with recv_call_inv [OF inv] inv show ?thesis by (auto simp: ws_exec_def Let_def)
  next
    case (WsSend event)
    obtain r st' s' where c: "ws_send api event (wx_sender g) (wx_filter g) = (r, st', s')" by (metis prod.collapse)
    from ws_send_effect [OF c] obtain ev where "offers ev (wx_filter g) s'" "send_allowed ev (wx_sender g) st'" by blast
    with WsSend offer_inv [OF inv] inv show ?thesis by (auto simp: ws_exec_def Let_def c)
  next
    case (WsAppDone result)
    obtain ev where "offers ev (wx_filter g) (ws_app_done result (wx_filter g))" "send_allowed ev (wx_sender g) (wx_sender g)"
      using app_done_offer by blast
    with WsAppDone offer_inv [OF inv] inv show ?thesis by (auto simp: ws_exec_def Let_def)
  qed
qed

interpretation ws_machine: machine_contract "ws_exec e api" "\<lambda>_. ws_law weight active e" "ws_inv active e"
  for e :: "('h, 'x, 'w) ws_env" and api weight active
  by unfold_locales (rule ws_exec_inv)

lemma ws_run_inv:
  fixes e :: "('h, 'x, 'w) ws_env"
  shows "ws_law weight active e \<Longrightarrow> ws_inv active e (ws_run e api n c ops)"
  unfolding ws_run_def by (rule ws_machine.fold_inv [of weight]) (simp_all add: list_all_iff ws_sys_new_inv)

section \<open>Draining the scheduler\<close>

fun in_handshake :: "('h, 'x, 'w) ws_state \<Rightarrow> bool" where
  "in_handshake (FinishHandshake st r x) = True"
| "in_handshake _ = False"

text \<open>Accepting commits one more event, once; every other delivery only takes one off.\<close>

lemma ws_scheduled_commits:
  fixes g :: "('h, 'x, 'w) ws_sys" and e :: "('h, 'x, 'w) ws_env"
  assumes law: "ws_law weight active e" and inv: "ws_inv active e g" "wx_mode g = WsRunning"
    and c: "wl_commits (wx_filter g) = i # rest"
    and r: "ws_on_scheduled e i ((wx_filter g)\<lparr>wl_commits := rest\<rparr>) = Some (Ret s')"
  shows "wl_commits s' = rest \<and> (in_handshake (wf_state s') \<longrightarrow> in_handshake (wf_state (wx_filter g)))
    \<or> wl_commits s' = rest @ [WS_EVENT_ID_REQUEST] \<and> in_handshake (wf_state (wx_filter g))
      \<and> \<not> in_handshake (wf_state s')"
proof -
  define s where "s = (wx_filter g)\<lparr>wl_commits := rest\<rparr>"
  have g: "order_ok (wx_filter g)" "protocol_ok g" "state_ok active g" using inv by (simp_all add: ws_inv_def)
  have l: "net_drain_law (we_drain e)" "read_law weight active e" "send_law active e" using law by (simp_all add: ws_law_def)
  have s: "bridge_wf (wl_recv s)" "bridge_wf (wl_send s)" "in_order s" "wl_commits s = rest"
    using g(1) by (simp_all add: s_def order_ok_def in_order_def)
  note r' = r [folded s_def]
  obtain es b where b: "bridge_process (wl_send s) = (es, b)" by (metis prod.collapse)
  show ?thesis
  proof (cases "wf_state (wx_filter g)")
    case (StartHandshake m st)
    with g(3) c show ?thesis by (simp add: state_ok_def untouched_def)
  next
    case NotWebSocket
    with g(3) c show ?thesis by (simp add: state_ok_def untouched_def)
  next
    case (WsAccepted w st)
    then have a: "accepted_ok active s (wf_state s)" using g(3) by (simp add: state_ok_def s_def)
    show ?thesis
    proof (cases "i = WS_EVENT_ID_REQUEST")
      case True
      with read_web_socket_total [OF l(1,2) a s(1,3)] r' WsAccepted s(4) show ?thesis
        by (auto simp: ws_on_scheduled_def s_def reads_as_def elim: accepted_cases)
    next
      case False
      have na: "list_all (\<lambda>ev. \<not> is_accept ev) es"
        by (rule events_no_accept [OF inv WsAccepted]) (use process_empties [OF b] in \<open>simp add: s_def\<close>)
      from a have "accepted_ok active (s\<lparr>wl_send := b\<rparr>) (wf_state (s\<lparr>wl_send := b\<rparr>))"
        by (cases "wf_state s") simp_all
      from send_fold_ok [OF l(3) this na] obtain t where
        t: "rust_fold (ws_send_step e) es (s\<lparr>wl_send := b\<rparr>) = Ret t" "accepted_ok active t (wf_state t)"
          "sends_as es (s\<lparr>wl_send := b\<rparr>) t" by blast
      have "s' = s \<or> s' = t"
        using r' False WsAccepted b t(1)
        by (auto simp: ws_on_scheduled_def ws_process_send_events_def s_def split: if_splits)
      moreover have "wl_commits t = rest" using t(3) s(4) by (simp add: sends_as_def)
      moreover obtain w' st' where "wf_state t = WsAccepted w' st'" using t(2) by (rule accepted_cases)
      ultimately show ?thesis using s(4) WsAccepted by (auto simp: s_def)
    qed
  next
    case WsDone
    obtain t where t: "rust_fold (ws_send_step e) es (s\<lparr>wl_send := b\<rparr>) = Ret t" "wf_state t = WsDone"
        "sends_as es (s\<lparr>wl_send := b\<rparr>) t"
      using drop_fold_ok [of "s\<lparr>wl_send := b\<rparr>" e es] WsDone by (auto simp: s_def)
    have "s' = s \<or> s' = t"
      using r' WsDone b t(1)
      by (auto simp: ws_on_scheduled_def ws_process_send_events_def s_def split: if_splits)
    then show ?thesis using t s(4) WsDone by (auto simp: sends_as_def s_def)
  next
    case (FinishHandshake st response x)
    show ?thesis
    proof (cases "i = WS_EVENT_ID_REQUEST")
      case True
      with r' FinishHandshake s(4) show ?thesis
        by (auto simp: ws_on_scheduled_def s_def ws_handle_connect_def ws_dispatch_def split: rust.splits option.splits prod.splits)
    next
      case False
      with r' FinishHandshake g(3) obtain ev b' where
        r2: "bridge_get (wl_send s) = Ret (Some ev, b')"
          "ws_first_event e st response x ev (s\<lparr>wf_state := WsDone, wl_send := b'\<rparr>) = Ret s'"
        by (auto simp: ws_on_scheduled_def ws_process_send_events_def s_def state_ok_def
            split: rust.splits option.splits prod.splits)
      then show ?thesis
        using s(4) FinishHandshake
        by (auto simp: ws_first_event_def Let_def net_call_def ws_commit_def ws_handle_send_def ws_dispatch_def
            split: ws_send_event.splits option.splits)
    qed
  qed
qed

definition pending :: "('h, 'x, 'w) ws_sys \<Rightarrow> nat" where
  "pending g = length (wl_commits (wx_filter g)) + (if in_handshake (wf_state (wx_filter g)) then 1 else 0)"

lemma scheduled_pending:
  fixes g :: "('h, 'x, 'w) ws_sys" and e :: "('h, 'x, 'w) ws_env"
  assumes law: "ws_law weight active e" and inv: "ws_inv active e g" "wx_mode g = WsRunning"
    and c: "wl_commits (wx_filter g) \<noteq> []" and m: "wx_mode (net_scheduled e g) = WsRunning"
  shows "pending (net_scheduled e g) < pending g"
proof -
  obtain i rest where i: "wl_commits (wx_filter g) = i # rest" using c by (cases "wl_commits (wx_filter g)") auto
  let ?r = "ws_on_scheduled e i ((wx_filter g)\<lparr>wl_commits := rest\<rparr>)"
  obtain s' where r: "?r = Some (Ret s')"
    using m i by (cases ?r) (auto simp: net_scheduled_def ws_finish_def Let_def split: rust.splits if_splits)
  then have "wx_filter (net_scheduled e g) = s'" by (simp add: net_scheduled_def i ws_finish_def Let_def)
  with ws_scheduled_commits [OF law inv i r] i show ?thesis by (auto simp: pending_def)
qed

lemma scheduled_stop:
  "wx_mode g \<noteq> WsRunning \<or> wl_commits (wx_filter g) = [] \<Longrightarrow> fold (ws_exec e api) (replicate k NetScheduled) g = g"
  by (induction k) (auto simp: ws_exec_def Let_def net_scheduled_def)

lemma scheduled_drains:
  fixes g :: "('h, 'x, 'w) ws_sys" and e :: "('h, 'x, 'w) ws_env"
  assumes law: "ws_law weight active e"
  shows "ws_inv active e g \<Longrightarrow> pending g \<le> n \<Longrightarrow>
     case fold (ws_exec e api) (replicate n NetScheduled) g of
       g' \<Rightarrow> ws_inv active e g' \<and> (wx_mode g' = WsRunning \<longrightarrow> wl_commits (wx_filter g') = [])"
proof (induction n arbitrary: g)
  case 0
  then show ?case by (simp add: pending_def)
next
  case (Suc n)
  let ?g = "ws_exec e api NetScheduled g"
  have inv: "ws_inv active e ?g" by (rule ws_exec_inv [OF law Suc.prems(1)])
  show ?case
  proof (cases "pending ?g \<le> n")
    case True
    from Suc.IH [OF inv True] show ?thesis by simp
  next
    case False
    have "wx_mode ?g \<noteq> WsRunning \<or> wl_commits (wx_filter g) = []"
      using scheduled_pending [OF law Suc.prems(1)] False Suc.prems(2)
      by (cases "wx_mode g = WsRunning") (auto simp: ws_exec_def Let_def)
    with inv scheduled_stop [of ?g e api n] scheduled_stop [of g e api "Suc n"] Suc.prems(1) show ?thesis by auto
  qed
qed

section \<open>A small library\<close>

text \<open>
  Every byte is a message; the byte 'X' is a close. The handshake is the text GET; anything
  else is no WebSocket request. It is used in the witnesses only.
\<close>

definition demo_request :: ws_request where
  "demo_request = \<lparr>hq_version = HTTP_11, hq_method = ''GET'', hq_path_and_query = Some ''/'',
     hq_headers = [(''sec-websocket-protocol'', [''a, b''])]\<rparr>"

definition demo_round :: "unit \<Rightarrow> unit hs_round io" where
  "demo_round m = IoRead 64 (\<lambda>r. IoReturn (case r of
     Inl e \<Rightarrow> HsWouldBlock () | Inr bs \<Rightarrow> if bs = ''GET'' then HsRequest demo_request [] else HsError))"

definition demo_read :: "unit \<Rightarrow> ((ws_err + ws_message) \<times> unit) io" where
  "demo_read w = IoRead 1 (\<lambda>r. IoReturn (case r of
     Inl e \<Rightarrow> Inl (WsIo e)
   | Inr bs \<Rightarrow> if bs = [] then Inl WsConnectionClosed
               else if bs = ''X'' then Inr (CloseMessage None) else Inr (Binary bs), ()))"

definition demo_send :: "ws_message \<Rightarrow> unit \<Rightarrow> ((ws_err + unit) \<times> unit) io" where
  "demo_send m w = IoWrite (case m of Binary b \<Rightarrow> b | Text t \<Rightarrow> t | _ \<Rightarrow> [])
     (\<lambda>r. IoReturn (case r of Inl e \<Rightarrow> Inl (WsIo e) | Inr n \<Rightarrow> Inr (), ()))"

definition demo_close :: "close_frame \<Rightarrow> unit \<Rightarrow> ((ws_err + unit) \<times> unit) io" where
  "demo_close frame w = IoWrite ''X'' (\<lambda>r. IoReturn (Inr (), ()))"

definition demo_peer :: ws_peer where
  "demo_peer = \<lparr>pe_is_ssl = False, pe_remote_address = (''10.0.0.1:99'', 99), pe_local_address = ([], 0),
     pe_ssl_subject = None, pe_lossy = id\<rparr>"

definition demo_negotiate :: "bool \<Rightarrow> header_map \<Rightarrow> ws_response \<Rightarrow> unit option \<times> ws_response" where
  "demo_negotiate compression headers response = (None, response)"

definition demo_ws :: "(unit, unit, unit) ws_env" where
  "demo_ws = \<lparr>lib_start = (), lib_round = demo_round, lib_create_response = (\<lambda>q. Some \<lparr>rs_status = 101, rs_headers = []\<rparr>),
     lib_negotiate = demo_negotiate, lib_no_extensions = (), lib_header_value = Some,
     lib_write_response = (\<lambda>r. Some (decimal (rs_status r))), lib_websocket = (\<lambda>x n. ()), lib_read = demo_read,
     lib_send = demo_send, lib_close = demo_close, we_drain = front_drain, we_peer = demo_peer\<rparr>"

definition demo_ws_api :: ws_api where
  "demo_ws_api = \<lparr>header_name = Inr, header_value = Inr, close_allowed = (\<lambda>c. c = 1000)\<rparr>"

lemma demo_ws_law: "ws_law (\<lambda>w. 0) (\<lambda>w. True) demo_ws"
proof -
  have "round_law demo_ws"
    by (auto simp: round_law_def demo_ws_def demo_round_def stream_read_def split: sum.splits)
  moreover have "read_law (\<lambda>w. 0) (\<lambda>w. True) demo_ws"
    by (auto simp: read_law_def demo_ws_def demo_read_def stream_read_def split: sum.splits if_splits)
  moreover have "send_law (\<lambda>w. True) demo_ws"
    by (auto simp: send_law_def demo_ws_def demo_send_def stream_write_def)
  ultimately show ?thesis
    using front_drain_law by (simp add: ws_law_def demo_ws_def)
qed

text \<open>A client that connects, an application that accepts, echoes one message and closes.\<close>

definition demo_ops :: "ws_op list" where
  "demo_ops =
     [NetRead [''G'', ''ET''], WsRecv, NetScheduled, WsSend [(''type'', PyStr ''websocket.accept'')],
      WsRecv, NetScheduled, NetRead [''h'', ''i''], NetScheduled, NetScheduled,
      WsSend [(''type'', PyStr ''websocket.send''), (''bytes'', PyBytes ''h'')], WsRecv, NetScheduled,
      NetScheduled, NetRead [''X''], WsRecv, NetScheduled]"

lemma tasks_split:
  "mset (map task_future ts) = mset (map task_future (filter (\<lambda>t. \<not> is_send_task t) ts))
     + mset (map task_future (filter is_send_task ts))"
  by (induction ts) auto

lemma order_mset:
  "order_ok s \<Longrightarrow> mset (map task_future (wl_tasks s)) + mset (bridge_content (wl_recv s))
     + mset (event_futures (bridge_content (wl_send s))) = mset [0..<wl_futures s]"
  unfolding tasks_split [of "wl_tasks s"]
  by (simp add: order_ok_def recv_order_def send_order_def ac_simps del: mset_map mset_filter mset_upt)

text \<open>
  Each receive call that is scheduled before the connection is accepted is answered with a
  connect event, also the second one.
\<close>

lemma ws_connect_twice:
  "wl_tasks (wx_filter (ws_run demo_ws demo_ws_api 10 False
     [NetRead [''GET''], WsRecv, WsRecv, NetScheduled, NetScheduled])) = [WsConnected 0, WsConnected 1]"
  by code_simp

text \<open>
  After an exception before the handshake's response, a receive call of another task waits until
  the connection is gone and gets the code 1005, not the 1011 that the filter stored.
\<close>

lemma ws_recv_after_exception:
  "let ops = [NetRead [''GET''], WsAppDone (Inl (AppError 0)), NetScheduled, WsRecv, NetScheduled];
       s = wx_filter (ws_run demo_ws demo_ws_api 10 False ops);
       t = wx_filter (ws_run demo_ws demo_ws_api 10 False (ops @ [NetDestroy]))
   in wf_close_frame s = Some (1011, []) \<and> wl_tasks s = [] \<and> wl_commits s = [] \<and> bridge_content (wl_recv s) = [0]
      \<and> map ws_task_outcome (wl_tasks t) = [(0, Inr (ws_disconnect_event 1005 []))]"
  unfolding Let_def by (intro conjI; code_simp)

text \<open>A close whose reason is no text closes the callable, but sends nothing.\<close>

lemma ws_close_bad_reason:
  "let g = ws_run demo_ws demo_ws_api 10 False
       [NetRead [''GET''], WsSend [(''type'', PyStr ''websocket.accept'')], NetScheduled,
        WsSend [(''type'', PyStr ''websocket.close''), (''reason'', PyInt 1)]]
   in wx_sender g = WsSendClosed \<and> length (wx_sent g) = 1"
  unfolding Let_def by (intro conjI; code_simp)

section \<open>Properties\<close>

text \<open>
  C10. Every callback of a WebSocket connection returns. Whatever the client, the application and
  Envoy do, in any order, no loop of the filter runs forever, and nothing panics: none of the
  unwraps of an empty bridge or of the library's send, none of the arms marked unreachable. The
  one exception is a response that the library cannot write.
\<close>

theorem ws_callbacks_return:
  fixes e :: "('h, 'x, 'w) ws_env"
  assumes "ws_law weight active e"
  shows "case wx_mode (ws_run e api n c ops) of
     WsDiverged \<Rightarrow> False
   | WsPanicked \<Rightarrow> \<exists>r. lib_write_response e r = None
   | _ \<Rightarrow> True"
  using ws_run_inv [OF assms, of api n c ops] by (simp add: ws_inv_def split: ws_mode.splits)

theorem ws_callbacks_return_witness:
  "wx_mode (ws_run demo_ws demo_ws_api 10 False demo_ops) \<notin> {WsDiverged, WsPanicked}"
  using ws_callbacks_return [OF demo_ws_law, of demo_ws_api 10 False demo_ops]
  by (auto simp: demo_ws_def split: ws_mode.splits)

text \<open>
  C6. No future of a WebSocket application is lost, completed twice or overtaken. In every run
  the receive futures are completed in the order of the receive calls, the send futures in the
  order of the send calls; those not yet completed wait in their bridge; and as soon as the
  connection is destroyed each future has been completed exactly once.
\<close>

theorem ws_futures_in_order:
  fixes e :: "('h, 'x, 'w) ws_env"
  assumes "ws_law weight active e"
  shows "case wx_filter (ws_run e api n c ops) of s \<Rightarrow>
     sorted_wrt (<) (map task_future (filter (\<lambda>t. \<not> is_send_task t) (wl_tasks s)) @ bridge_content (wl_recv s))
     \<and> sorted_wrt (<) (map task_future (filter is_send_task (wl_tasks s))
          @ event_futures (bridge_content (wl_send s)))
     \<and> mset (map task_future (wl_tasks s)) + mset (bridge_content (wl_recv s))
          + mset (event_futures (bridge_content (wl_send s))) = mset [0..<wl_futures s]
     \<and> mset (map task_future (wl_tasks (ws_cleanup s))) = mset [0..<wl_futures s]"
proof -
  let ?s = "wx_filter (ws_run e api n c ops)"
  have o: "order_ok ?s" using ws_run_inv [OF assms, of api n c ops] by (simp add: ws_inv_def)
  have all: "mset (map task_future (wl_tasks ?s)) + mset (bridge_content (wl_recv ?s))
      + mset (event_futures (bridge_content (wl_send ?s))) = mset [0..<wl_futures ?s]" by (rule order_mset [OF o])
  moreover have "mset (map task_future (wl_tasks (ws_cleanup ?s))) = mset [0..<wl_futures ?s]"
    using all by (simp add: ws_cleanup_def close_recv_eq close_send_eq del: mset_map mset_upt) (simp add: ac_simps)
  ultimately show ?thesis using o by (simp add: order_ok_def recv_order_def send_order_def)
qed

theorem ws_futures_in_order_witness:
  "case wx_filter (ws_run demo_ws demo_ws_api 10 False demo_ops) of s \<Rightarrow>
     wl_tasks s = [WsConnected 0, WsSent 1, WsReceived 2 (WsBytes ''h''), WsSent 3,
       WsReceived 4 (WsBytes ''i''), WsDisconnected 5 1005 []]
     \<and> mset (map task_future (wl_tasks (ws_cleanup s))) = mset [0..<wl_futures s]"
proof -
  have "wl_tasks (wx_filter (ws_run demo_ws demo_ws_api 10 False demo_ops)) = [WsConnected 0, WsSent 1,
      WsReceived 2 (WsBytes ''h''), WsSent 3, WsReceived 4 (WsBytes ''i''), WsDisconnected 5 1005 []]" by code_simp
  with ws_futures_in_order [OF demo_ws_law, of demo_ws_api 10 False demo_ops] show ?thesis by simp
qed





text \<open>
  C9. Nothing stalls. After any run, once Envoy has delivered the events committed to the
  scheduler (and the one that an accept adds), no send event waits unless the connection is above
  its write watermark, no receive call waits for the connect event, and a receive call waits on
  an accepted connection only if all bytes that arrived have been taken from Envoy.
\<close>

theorem ws_no_stall:
  fixes e :: "('h, 'x, 'w) ws_env" and api :: ws_api and n :: nat and c :: bool and ops :: "ws_op list"
  assumes "ws_law weight active e"
  defines "g \<equiv> ws_run e api n c ops"
  defines "g' \<equiv> fold (ws_exec e api) (replicate (length (wl_commits (wx_filter g)) + 1) NetScheduled) g"
  shows "let s = wx_filter g' in
     if wx_mode g' \<noteq> WsRunning then True
     else wl_commits s = []
       \<and> (if wf_watermark s = 0 then bridge_content (wl_send s) = [] else True)
       \<and> (case wf_state s of
            FinishHandshake st response x \<Rightarrow> bridge_content (wl_recv s) = []
          | WsAccepted w st \<Rightarrow> bridge_content (wl_recv s) = [] \<or> unread s = []
          | _ \<Rightarrow> True)"
proof -
  have "ws_inv active e g" unfolding g_def by (rule ws_run_inv [OF assms(1)])
  moreover have "pending g \<le> length (wl_commits (wx_filter g)) + 1" by (simp add: pending_def)
  ultimately have "ws_inv active e g' \<and> (wx_mode g' = WsRunning \<longrightarrow> wl_commits (wx_filter g') = [])"
    unfolding g'_def using scheduled_drains [OF assms(1)] by blast
  then show ?thesis
    by (auto simp: Let_def ws_inv_def state_ok_def awake_def untouched_def split: ws_state.splits)
qed

theorem ws_no_stall_witness:
  "let g = ws_run demo_ws demo_ws_api 10 False (take 9 demo_ops);
       s = wx_filter (fold (ws_exec demo_ws demo_ws_api) (replicate (length (wl_commits (wx_filter g)) + 1) NetScheduled) g)
   in wl_commits s = [] \<and> wl_tasks s = [WsConnected 0, WsSent 1, WsReceived 2 (WsBytes ''h'')]"
proof -
  define g where "g = ws_run demo_ws demo_ws_api 10 False (take 9 demo_ops)"
  define g' where "g' = fold (ws_exec demo_ws demo_ws_api) (replicate (length (wl_commits (wx_filter g)) + 1) NetScheduled) g"
  have "wl_tasks (wx_filter g') = [WsConnected 0, WsSent 1, WsReceived 2 (WsBytes ''h'')]"
    unfolding g'_def g_def by code_simp
  moreover have "wx_mode g' = WsRunning" unfolding g'_def g_def by code_simp
  ultimately show ?thesis
    using ws_no_stall [OF demo_ws_law, of demo_ws_api 10 False "take 9 demo_ops", folded g_def g'_def]
    unfolding g_def [symmetric] Let_def g'_def [symmetric] by simp
qed

text \<open>
  Backpressure: as long as no receive call waits and no close is under way, reading an
  accepted connection leaves the filter and Envoy's buffer as they are, whatever has arrived.
\<close>

theorem ws_backpressure:
  assumes "wf_state s = WsAccepted w st" "wf_close_frame s = None" "wl_recv s = Empty"
  shows "ws_on_read e s = Some (Ret (StopIteration, None, s))
    \<and> ws_on_scheduled e WS_EVENT_ID_REQUEST s = Some (Ret s)"
proof -
  have "s\<lparr>wf_state := WsAccepted w st\<rparr> = s" using assms(1) by (cases s) simp
  with assms show ?thesis
    by (simp add: ws_on_read_def ws_on_scheduled_def read_web_socket_def ws_finish_closing_def)
qed

theorem ws_backpressure_witness:
  "let s = (ws_filter_new demo_ws 10 False)\<lparr>wf_state := WsAccepted () stream_new, en_chunks := [''abc'']\<rparr>
   in ws_on_read demo_ws s = Some (Ret (StopIteration, None, s)) \<and> unread s = ''abc''"
  using ws_backpressure [of "(ws_filter_new demo_ws 10 False)\<lparr>wf_state := WsAccepted () stream_new, en_chunks := [''abc'']\<rparr>"
      "()" stream_new demo_ws]
  by (simp add: ws_filter_new_def bridge_new_def Let_def unread_def)

end
