(* ===== verification/Ws_Request.thy ===== *)
theory Ws_Request
  imports Ws_Connection
begin

text \<open>
  What a WebSocket handshake offers to the application: the subprotocols and the scope, of
  \<open>src/src/asgi/websocket/mod.rs\<close> (the definitions are in theory \<open>Ws_Filter\<close>).
\<close>

section \<open>Subprotocols\<close>

text \<open>A token of a client's offer, and a header value that offers some.\<close>

definition token_ok :: "bytes \<Rightarrow> bool" where
  "token_ok t \<longleftrightarrow> t \<noteq> [] \<and> list_all (\<lambda>c. in_range 33 126 c \<and> c \<noteq> CHR '','') t"

fun offer_value :: "bytes list \<Rightarrow> bytes" where
  "offer_value [] = []"
| "offer_value [t] = t"
| "offer_value (t # ts) = t @ '', '' @ offer_value ts"

lemma token_char:
  assumes "in_range 33 126 c"
  shows "\<not> is_blank c \<and> in_range 32 126 c"
proof -
  have "33 \<le> byte_val c" "byte_val c \<le> 126" using assms by (simp_all add: in_range_def)
  then have "c \<noteq> CHR 0x20" by auto
  with \<open>33 \<le> byte_val c\<close> \<open>byte_val c \<le> 126\<close> show ?thesis by (simp add: is_blank_def in_range_def)
qed

lemma token_chars: "token_ok t \<Longrightarrow> c \<in> set t \<Longrightarrow> \<not> is_blank c \<and> c \<noteq> CHR '','' \<and> in_range 32 126 c"
  using token_char [of c] by (simp add: token_ok_def list_all_iff)

lemma str_trim_token: "token_ok t \<Longrightarrow> str_trim t = t"
proof -
  assume t: "token_ok t"
  then have ne: "t \<noteq> []" by (simp add: token_ok_def)
  then have "\<not> is_blank (hd t)" "\<not> is_blank (hd (rev t))"
    using token_chars [OF t] by (simp_all add: hd_rev)
  then have "dropWhile is_blank t = t" "dropWhile is_blank (rev t) = rev t"
    by (simp_all add: dropWhile_eq_self_iff)
  then show ?thesis by (simp add: str_trim_def)
qed

lemma str_trim_blank: "str_trim (CHR '' '' # s) = str_trim s"
  by (simp add: str_trim_def is_blank_def)

lemma split_blank:
  "map str_trim (split_on CHR '','' (CHR '' '' # s)) = map str_trim (split_on CHR '','' s)"
  by (cases "split_on CHR '','' s") (simp_all add: str_trim_blank)

lemma split_offer:
  "list_all token_ok ts \<Longrightarrow> filter (\<lambda>p. p \<noteq> []) (map str_trim (split_on CHR '','' (offer_value ts))) = ts"
proof (induction ts rule: offer_value.induct)
  case 1
  then show ?case by (simp add: str_trim_def)
next
  case (2 t)
  then have "CHR '','' \<notin> set t" using token_chars by auto
  with 2 show ?case by (simp add: split_on_no_sep str_trim_token token_ok_def)
next
  case (3 t t' ts)
  then have "CHR '','' \<notin> set t" using token_chars by auto
  then have "split_on CHR '','' (offer_value (t # t' # ts)) = t # split_on CHR '','' (CHR '' '' # offer_value (t' # ts))"
    using split_on_append_sep [of "CHR '',''" t "CHR '' '' # offer_value (t' # ts)"] by simp
  with 3 split_blank [of "offer_value (t' # ts)"] show ?case
    by (simp add: str_trim_token token_ok_def del: split_on.simps)
qed

lemma offer_visible: "list_all token_ok ts \<Longrightarrow> header_to_str (offer_value ts) = Some (offer_value ts)"
proof -
  assume "list_all token_ok ts"
  then have "list_all (in_range 32 126) (offer_value ts)"
    by (induction ts rule: offer_value.induct) (auto simp: list_all_iff in_range_def dest: token_chars)
  then show ?thesis by (auto simp: header_to_str_def list_all_iff)
qed

lemma map_filter_some: "list_all (\<lambda>x. f x = Some x) xs \<Longrightarrow> List.map_filter f xs = xs"
  by (induction xs) (simp_all add: List.map_filter_simps)

text \<open>Whatever the headers, what the application sees as offered is trimmed, not empty, and has no comma.\<close>

lemma parse_subprotocols_clean:
  "p \<in> set (parse_subprotocols headers) \<Longrightarrow> p \<noteq> [] \<and> CHR '','' \<notin> set p \<and> \<not> is_blank (hd p) \<and> \<not> is_blank (last p)"
proof -
  assume "p \<in> set (parse_subprotocols headers)"
  then obtain v q where q: "q \<in> set (split_on CHR '','' v)" "p = str_trim q" "p \<noteq> []"
    by (auto simp: parse_subprotocols_def)
  have sub: "set p \<subseteq> set q"
    unfolding q(2) str_trim_def using set_dropWhileD by (metis set_rev subsetI)
  let ?r = "dropWhile is_blank q"
  have r: "rev p = dropWhile is_blank (rev ?r)" using q(2) by (simp add: str_trim_def)
  then have ne: "dropWhile is_blank (rev ?r) \<noteq> []" using q(3) by (metis rev_is_Nil_conv)
  have "\<not> is_blank (hd (rev p))" unfolding r by (rule hd_dropWhile [OF ne])
  then have l: "\<not> is_blank (last p)" using q(3) by (simp add: hd_rev)
  obtain z where "rev ?r = z @ rev p" using r by (metis takeWhile_dropWhile_id)
  then have "?r = p @ rev z" by (metis rev_append rev_rev_ident)
  then have h: "hd ?r = hd p" and "?r \<noteq> []" using q(3) by auto
  then have "\<not> is_blank (hd ?r)" using hd_dropWhile [of is_blank q] by simp
  with h l sub split_on_parts_no_sep [OF q(1)] q(3) show ?thesis by auto
qed

section \<open>Properties\<close>

text \<open>
  C40. The subprotocols a client offers reach the application as offered: for tokens joined by
  commas in any number of header values, the parsed list is all of them, in offer order.
\<close>

theorem parse_subprotocols_roundtrip:
  assumes "list_all (list_all token_ok) offers"
    and "get_all ''sec-websocket-protocol'' headers = map offer_value offers"
  shows "parse_subprotocols headers = concat offers"
proof -
  have "List.map_filter header_to_str (map offer_value offers) = map offer_value offers"
    using assms(1) by (intro map_filter_some) (auto simp: list_all_iff offer_visible)
  then have "parse_subprotocols headers
      = filter (\<lambda>p. p \<noteq> []) (map str_trim (concat (map (split_on CHR '','') (map offer_value offers))))"
    by (simp only: parse_subprotocols_def assms(2))
  also have "\<dots> = concat offers"
    using assms(1) by (induction offers) (simp_all add: split_offer)
  finally show ?thesis .
qed

theorem parse_subprotocols_roundtrip_witness:
  "parse_subprotocols [(''host'', [''x'']), (''sec-websocket-protocol'', [''chat, v2'', ''soap''])]
     = [''chat'', ''v2'', ''soap'']"
  by (rule parse_subprotocols_roundtrip [of "[[''chat'', ''v2''], [''soap'']]", simplified])
    (simp_all add: token_ok_def in_range_def get_all_def)

text \<open>
  The scope of a WebSocket connection is always built: the headers are those of the request,
  every value with the name it came under, in order; the scheme is that of the transport; the
  addresses are without a port suffix and absent exactly when Envoy has none; the TLS part is
  there exactly on a TLS connection.
\<close>

theorem ws_new_scope_spec:
  "case ws_new_scope peer request of
     Panic \<Rightarrow> False
   | Ret sc \<Rightarrow>
       sc_headers sc = concat (map (\<lambda>(n, vs). map (Pair n) vs) (hq_headers request))
       \<and> sc_method sc = hq_method request
       \<and> sc_scheme sc = (if pe_is_ssl peer then ''wss'' else ''ws'')
       \<and> (sc_client sc = None \<longleftrightarrow> fst (pe_remote_address peer) = [])
       \<and> (sc_server sc = None \<longleftrightarrow> fst (pe_local_address peer) = [])
       \<and> map_option fst (sc_client sc)
           = (if fst (pe_remote_address peer) = [] then None else Some (strip_port (fst (pe_remote_address peer))))
       \<and> (sc_tls_info sc = None \<longleftrightarrow> \<not> pe_is_ssl peer)"
  by (simp add: ws_new_scope_def header_entries_any address_to_scope_def split: prod.split)

end
