(* ===== verification/Filter_Config.thy ===== *)
theory Filter_Config
  imports Event_Loop Asgi_Lifespan Trace_Context
begin

text \<open>
  \<open>src/src/lib.rs\<close>: the configuration of the HTTP and network filters, with what accepting one
  starts: \<open>Config::new\<close> of the three filters, the executors, \<open>load_app\<close>
  (\<open>src/src/asgi/shared/app.rs\<close>) and \<open>EventLoop::new\<close> (\<open>src/src/asgi/shared/eventloop.rs\<close>).
\<close>

section \<open>The configuration document\<close>

text \<open>
  The YAML library: loading a text, looking a key up in a mapping, indexing by a key (which gives
  the bad value where there is nothing), and the typed views of a value.
\<close>

record 'y yaml_lib =
  yl_load :: "bytes \<Rightarrow> 'y list option"
  yl_get :: "bytes \<Rightarrow> 'y \<Rightarrow> 'y option"
  yl_index :: "bytes \<Rightarrow> 'y \<Rightarrow> 'y"
  yl_is_badvalue :: "'y \<Rightarrow> bool"
  yl_as_i64 :: "'y \<Rightarrow> int option"
  yl_as_str :: "'y \<Rightarrow> bytes option"
  yl_as_bool :: "'y \<Rightarrow> bool option"

definition yaml_law :: "'y yaml_lib \<Rightarrow> bool" where
  "yaml_law y \<longleftrightarrow>
     (\<forall>v n. yl_as_i64 y v = Some n \<longrightarrow> - (2 ^ 63) \<le> n \<and> n < 2 ^ 63)
     \<and> (\<forall>k v. case yl_get y k v of Some w \<Rightarrow> yl_index y k v = w
              | None \<Rightarrow> yl_is_badvalue y (yl_index y k v))"

text \<open>\<open>usize::try_from\<close> and \<open>u64::try_from\<close> of an \<open>i64\<close>, for a platform of 64 bits.\<close>

definition u64_try_from :: "int \<Rightarrow> u64 option" where
  "u64_try_from n = (if 0 \<le> n then Some (word_of_int n) else None)"

definition parse_usize_config :: "'y yaml_lib \<Rightarrow> 'y \<Rightarrow> bytes \<Rightarrow> u64 \<Rightarrow> u64 \<Rightarrow> u64 option" where
  "parse_usize_config y filter_config field dflt minimum =
     (case yl_get y field filter_config of
        None \<Rightarrow> Some dflt
      | Some v \<Rightarrow>
          (case Option.bind (yl_as_i64 y v) u64_try_from of
             Some n \<Rightarrow> if minimum \<le> n then Some n else None
           | None \<Rightarrow> None))"

definition parse_loop_config :: "bool \<Rightarrow> 'y yaml_lib \<Rightarrow> 'y \<Rightarrow> loop_kind option" where
  "parse_loop_config windows y filter_config =
     (let v = yl_index y ''loop'' filter_config in
      if yl_is_badvalue y v then Some (platform_default windows)
      else Option.bind (yl_as_str y v) loop_kind_parse)"

definition parse_trace_sampler_config :: "'y yaml_lib \<Rightarrow> 'y \<Rightarrow> trace_sampler option option" where
  "parse_trace_sampler_config y filter_config =
     (let v = yl_index y ''trace_sampler'' filter_config in
      if yl_is_badvalue y v then Some None
      else
        (let pb = (case yl_as_bool y (yl_index y ''parent_based'' v) of Some b \<Rightarrow> b | None \<Rightarrow> False);
             r = yl_index y ''ratio'' v
         in if yl_is_badvalue y r then Some (Some \<lparr>parent_based = pb, ratio = None\<rparr>)
            else
              (case Option.bind (yl_as_i64 y r) u64_try_from of
                 Some n \<Rightarrow>
                   if n \<le> RATIO_DENOMINATOR then Some (Some \<lparr>parent_based = pb, ratio = Some n\<rparr>) else None
               | None \<Rightarrow> None)))"

section \<open>Loading an application\<close>

text \<open>
  What the embedding of Python does: imports and attributes, what is seen of an object, calls, a
  pair of sockets (or the text of the error), the calls that set up a loop (whose index is how
  many were made before it), and what the lifespan of the application does on a loop: the
  exception of calling it, or its first event.
\<close>

type_synonym asgi_callable = "pyval \<Rightarrow> pyval \<Rightarrow> pyval \<Rightarrow> pyerr + pyval"

record 'm py_host =
  ph_windows :: bool
  ph_version_312 :: bool
  ph_import :: "bytes \<Rightarrow> pyerr + 'm"
  ph_getattr :: "'m \<Rightarrow> bytes \<Rightarrow> pyerr + pyval"
  ph_view :: "pyval \<Rightarrow> app_view"
  ph_call :: "pyval \<Rightarrow> pyval list \<Rightarrow> pyerr + pyval"
  ph_socket_pair :: "bytes + unit"
  ph_new_loop :: "pyval \<Rightarrow> nat \<Rightarrow> pyerr + nat"
  ph_loop_attr :: "nat \<Rightarrow> bytes \<Rightarrow> pyerr + unit"
  ph_set_event_loop :: "nat \<Rightarrow> pyerr + unit"
  ph_add_reader :: "nat \<Rightarrow> pyerr + unit"
  ph_lifespan :: "asgi_callable \<Rightarrow> nat \<Rightarrow> pyerr option \<times> lifespan_event option"
  ph_trace :: "pyerr \<Rightarrow> bytes"

datatype waker = SocketWaker | ThreadWaker

definition new_waker :: "'m py_host \<Rightarrow> loop_kind \<Rightarrow> pyerr + waker" where
  "new_waker h loop_kind =
     (if watches_sockets (\<not> ph_windows h) loop_kind then
        (case ph_socket_pair h of
           Inl e \<Rightarrow> Inl (RuntimeError (''Failed to create event loop waker: '' @ e))
         | Inr _ \<Rightarrow> Inr SocketWaker)
      else Inr ThreadWaker)"

text \<open>The loop thread up to sending its handle; an error drops the channel.\<close>

definition loop_thread :: "'m py_host \<Rightarrow> loop_kind \<Rightarrow> pyval \<Rightarrow> waker \<Rightarrow> nat \<Rightarrow> pyerr + nat" where
  "loop_thread h loop_kind new_event_loop waker i =
     pbind (ph_new_loop h new_event_loop i) (\<lambda>l.
     pbind (ph_loop_attr h l (if loop_kind = Trio then ''call_soon_threadsafe'' else ''call_soon'')) (\<lambda>_.
       if loop_kind = Trio then Inr l
       else
         pbind (ph_import h ''asyncio'') (\<lambda>_.
         pbind (ph_set_event_loop h l) (\<lambda>_.
         pbind (case waker of SocketWaker \<Rightarrow> ph_add_reader h l | ThreadWaker \<Rightarrow> Inr ()) (\<lambda>_. Inr l)))))"

record event_loop =
  el_loop :: nat
  el_threads :: nat
  el_lifespan :: bool

definition event_loop_new :: "'m py_host \<Rightarrow> asgi_callable \<Rightarrow> bool option \<Rightarrow> loop_kind \<Rightarrow> nat
    \<Rightarrow> (pyerr + event_loop) rust" where
  "event_loop_new h app enable_lifespan loop_kind i =
     rp_bind (Ret (pbind (ph_import h (loop_module loop_kind)) (\<lambda>m. ph_getattr h m ''new_event_loop''))) (\<lambda>new_loop.
     rp_bind (Ret (new_waker h loop_kind)) (\<lambda>waker.
       case loop_thread h loop_kind new_loop waker i of
         Inl _ \<Rightarrow> Ret (Inl (RuntimeError
           ''Failed to initialize event loop for ASGI executor: receiving on a closed channel''))
       | Inr l \<Rightarrow>
           rp_bind (rust_map fst (start_lifespan enable_lifespan (\<lambda>req.
               execute_lifespan (ph_trace h) req (fst (ph_lifespan h app i)) (snd (ph_lifespan h app i)))))
             (\<lambda>supported. Ret (Inr \<lparr>el_loop = l, el_threads = (if waker = ThreadWaker then 2 else 1),
                el_lifespan = supported\<rparr>))))"

text \<open>\<open>load_app\<close>: the application as ASGI3, the \<open>asgi\<close> value of every scope, and the loops.\<close>

definition asgi_versions :: pyval where
  "asgi_versions = PyDict [(''version'', PyStr ''3.0''), (''spec_version'', PyStr ''2.5'')]"

definition load_app :: "'m py_host \<Rightarrow> bytes \<Rightarrow> bytes \<Rightarrow> u64 \<Rightarrow> bool option \<Rightarrow> loop_kind
    \<Rightarrow> (pyerr + asgi_callable \<times> pyval \<times> event_loops) rust" where
  "load_app h app_module app_attr worker_threads enable_lifespan loop_kind =
     rp_bind (Ret (ph_import h ''threading'')) (\<lambda>_.
     rp_bind (Ret (pbind (ph_import h app_module) (\<lambda>m. ph_getattr h m app_attr))) (\<lambda>app.
     rp_bind (Ret (ensure_asgi3_app (ph_call h) (ph_view h app) app)) (\<lambda>app.
     rp_bind (event_loops_new (unat worker_threads)
         (\<lambda>i. rust_map (map_sum id el_loop) (event_loop_new h app enable_lifespan loop_kind i)))
       (\<lambda>loops. Ret (Inr (app, asgi_versions, loops))))))"

section \<open>The executors\<close>

record asgi_executor =
  ax_app :: asgi_callable
  ax_asgi :: pyval
  ax_extensions :: pyval
  ax_root_path :: bytes
  ax_eager_task :: bool
  ax_loops :: event_loops

definition asgi_executor_new :: "'m py_host \<Rightarrow> bytes \<Rightarrow> bytes \<Rightarrow> bytes \<Rightarrow> u64 \<Rightarrow> bool option \<Rightarrow> loop_kind
    \<Rightarrow> (pyerr + asgi_executor) rust" where
  "asgi_executor_new h app_module app_attr root_path worker_threads enable_lifespan loop_kind =
     rp_bind (load_app h app_module app_attr worker_threads enable_lifespan loop_kind) (\<lambda>(app, asgi, loops).
     rp_bind (Ret (if loop_kind \<noteq> Trio \<and> ph_version_312 h
                   then pbind (ph_import h ''asyncio'') (\<lambda>m. pbind (ph_getattr h m ''Task'') (\<lambda>_. Inr True))
                   else Inr False)) (\<lambda>eager.
       Ret (Inr \<lparr>ax_app = app, ax_asgi = asgi,
                 ax_extensions = PyDict [(''http.response.trailers'', PyDict [])],
                 ax_root_path = root_path, ax_eager_task = eager, ax_loops = loops\<rparr>)))"

record ws_executor =
  wx_app :: asgi_callable
  wx_asgi :: pyval
  wx_extensions :: pyval
  wx_root_path :: bytes
  wx_loops :: event_loops

definition ws_executor_new :: "'m py_host \<Rightarrow> bytes \<Rightarrow> bytes \<Rightarrow> bytes \<Rightarrow> u64 \<Rightarrow> bool option \<Rightarrow> loop_kind
    \<Rightarrow> (pyerr + ws_executor) rust" where
  "ws_executor_new h app_module app_attr root_path worker_threads enable_lifespan loop_kind =
     rp_bind (load_app h app_module app_attr worker_threads enable_lifespan loop_kind) (\<lambda>(app, asgi, loops).
       Ret (Inr \<lparr>wx_app = app, wx_asgi = asgi, wx_extensions = PyDict [], wx_root_path = root_path,
                 wx_loops = loops\<rparr>))"

text \<open>The WSGI executor: the application and its worker threads.\<close>

record wsgi_executor =
  gx_app :: pyval
  gx_root_path :: bytes
  gx_threads :: nat

definition wsgi_executor_new :: "'m py_host \<Rightarrow> bytes \<Rightarrow> bytes \<Rightarrow> bytes \<Rightarrow> u64 \<Rightarrow> pyerr + wsgi_executor" where
  "wsgi_executor_new h app_module app_attr root_path num_threads =
     pbind (pbind (ph_import h app_module) (\<lambda>m. ph_getattr h m app_attr)) (\<lambda>app.
       Inr \<lparr>gx_app = app, gx_root_path = root_path, gx_threads = unat num_threads\<rparr>)"

section \<open>The configurations\<close>

definition split_app :: "bytes \<Rightarrow> bytes \<times> bytes" where
  "split_app app = (case split_once CHR '':'' app of Some p \<Rightarrow> p | None \<Rightarrow> (app, ''app''))"

text \<open>\<open>Config::new\<close>: an exception is logged and becomes \<open>None\<close>.\<close>

fun or_none :: "('e \<Rightarrow> 'c) \<Rightarrow> pyerr + 'e \<Rightarrow> 'c option" where
  "or_none f (Inl _) = None"
| "or_none f (Inr e) = Some (f e)"

record asgi_config =
  ac_executor :: asgi_executor
  ac_enable_http_client :: bool
  ac_trace_sampler :: "trace_sampler option"

definition asgi_config_new :: "'m py_host \<Rightarrow> bytes \<Rightarrow> bytes \<Rightarrow> u64 \<Rightarrow> bool option \<Rightarrow> loop_kind \<Rightarrow> bool
    \<Rightarrow> trace_sampler option \<Rightarrow> asgi_config option rust" where
  "asgi_config_new h app root_path worker_threads enable_lifespan loop_kind enable_http_client sampler =
     (case split_app app of (module, attr) \<Rightarrow>
        rust_map (or_none (\<lambda>x. \<lparr>ac_executor = x, ac_enable_http_client = enable_http_client,
                                ac_trace_sampler = sampler\<rparr>))
          (asgi_executor_new h module attr root_path worker_threads enable_lifespan loop_kind))"

record wsgi_config =
  gc_executor :: wsgi_executor
  gc_enable_http_client :: bool
  gc_trace_sampler :: "trace_sampler option"

definition wsgi_config_new :: "'m py_host \<Rightarrow> bytes \<Rightarrow> bytes \<Rightarrow> u64 \<Rightarrow> bool \<Rightarrow> trace_sampler option
    \<Rightarrow> wsgi_config option" where
  "wsgi_config_new h app root_path worker_threads enable_http_client sampler =
     (case split_app app of (module, attr) \<Rightarrow>
        or_none (\<lambda>x. \<lparr>gc_executor = x, gc_enable_http_client = enable_http_client,
                      gc_trace_sampler = sampler\<rparr>)
          (wsgi_executor_new h module attr root_path worker_threads))"

record ws_config =
  wc_executor :: ws_executor
  wc_max_message_size :: u64
  wc_compression :: bool

definition ws_config_new :: "'m py_host \<Rightarrow> bytes \<Rightarrow> bytes \<Rightarrow> u64 \<Rightarrow> bool option \<Rightarrow> loop_kind \<Rightarrow> u64 \<Rightarrow> bool
    \<Rightarrow> ws_config option rust" where
  "ws_config_new h app root_path worker_threads enable_lifespan loop_kind max_message_size compression =
     (case split_app app of (module, attr) \<Rightarrow>
        rust_map (or_none (\<lambda>x. \<lparr>wc_executor = x, wc_max_message_size = max_message_size,
                                wc_compression = compression\<rparr>))
          (ws_executor_new h module attr root_path worker_threads enable_lifespan loop_kind))"

text \<open>A field with a default.\<close>

definition str_field :: "'y yaml_lib \<Rightarrow> 'y \<Rightarrow> bytes \<Rightarrow> bytes \<Rightarrow> bytes" where
  "str_field y doc field dflt = (case yl_as_str y (yl_index y field doc) of Some s \<Rightarrow> s | None \<Rightarrow> dflt)"

definition bool_field :: "'y yaml_lib \<Rightarrow> 'y \<Rightarrow> bytes \<Rightarrow> bool \<Rightarrow> bool" where
  "bool_field y doc field dflt = (case yl_as_bool y (yl_index y field doc) of Some b \<Rightarrow> b | None \<Rightarrow> dflt)"

text \<open>The bytes of a configuration as its first document; bytes that are not UTF-8 panic.\<close>

definition load_document :: "'y yaml_lib \<Rightarrow> bytes \<Rightarrow> 'y option rust" where
  "load_document y filter_config =
     (case str_from_utf8 filter_config of
        None \<Rightarrow> Panic
      | Some text \<Rightarrow>
          Ret (case yl_load y text of
                 None \<Rightarrow> None
               | Some docs \<Rightarrow> (case docs of [] \<Rightarrow> None | doc # _ \<Rightarrow> Some doc)))"

datatype 'f http_config = FilesConfig 'f | AsgiConfig asgi_config | WsgiConfig wsgi_config

text \<open>The last match on the interface.\<close>

definition http_config_new :: "'m py_host \<Rightarrow> bytes \<Rightarrow> bytes \<Rightarrow> bytes \<Rightarrow> u64 \<Rightarrow> bool option \<Rightarrow> loop_kind \<Rightarrow> bool
    \<Rightarrow> trace_sampler option \<Rightarrow> 'f http_config option rust" where
  "http_config_new h interface app root_path worker_threads enable_lifespan loop_kind enable_http_client sampler =
     (if interface = ''asgi'' then
        rust_map (map_option AsgiConfig)
          (asgi_config_new h app root_path worker_threads enable_lifespan loop_kind enable_http_client sampler)
      else if interface = ''wsgi'' then
        Ret (map_option WsgiConfig (wsgi_config_new h app root_path worker_threads enable_http_client sampler))
      else Ret None)"

text \<open>
  The fields of a document; \<open>enabled\<close> is the static \<open>HTTP_CLIENT_ENABLED\<close> before, and the second
  component of the result is the static after.
\<close>

definition http_config_of :: "'y yaml_lib \<Rightarrow> 'm py_host \<Rightarrow> bool \<Rightarrow> 'y
    \<Rightarrow> ('f http_config option \<times> bool) rust" where
  "http_config_of y h enabled doc =
     (case yl_as_str y (yl_index y ''app'' doc) of
        None \<Rightarrow> Ret (None, enabled)
      | Some app \<Rightarrow>
          (let interface = str_field y doc ''interface'' ''asgi'';
               root_path = str_field y doc ''root_path'' [];
               default_worker_threads = (if interface = ''asgi'' then 1 else 200)
           in case parse_usize_config y doc ''worker_threads'' default_worker_threads 1 of
                None \<Rightarrow> Ret (None, enabled)
              | Some worker_threads \<Rightarrow>
                  (let enable_lifespan = yl_as_bool y (yl_index y ''lifespan'' doc) in
                   case parse_loop_config (ph_windows h) y doc of
                     None \<Rightarrow> Ret (None, enabled)
                   | Some loop_kind \<Rightarrow>
                       (let enable_http_client = bool_field y doc ''enable_http_client'' False;
                            enabled = (enabled \<or> enable_http_client)
                        in case parse_trace_sampler_config y doc of
                             None \<Rightarrow> Ret (None, enabled)
                           | Some sampler \<Rightarrow>
                               rust_map (\<lambda>c. (c, enabled))
                                 (http_config_new h interface app root_path worker_threads
                                    enable_lifespan loop_kind enable_http_client sampler)))))"

text \<open>\<open>files\<close> is the same function of the \<open>envoy_files\<close> crate.\<close>

definition new_http_filter_config_fn :: "'y yaml_lib \<Rightarrow> 'm py_host \<Rightarrow> (bytes \<Rightarrow> bytes \<Rightarrow> 'f option)
    \<Rightarrow> bool \<Rightarrow> bytes \<Rightarrow> bytes \<Rightarrow> ('f http_config option \<times> bool) rust" where
  "new_http_filter_config_fn y h files enabled filter_name filter_config =
     (if filter_name = ''envoy_files'' then
        Ret (map_option FilesConfig (files filter_name filter_config), enabled)
      else
        rust_bind (load_document y filter_config) (\<lambda>doc.
          case doc of None \<Rightarrow> Ret (None, enabled) | Some doc \<Rightarrow> http_config_of y h enabled doc))"

definition ws_config_of :: "'y yaml_lib \<Rightarrow> 'm py_host \<Rightarrow> 'y \<Rightarrow> ws_config option rust" where
  "ws_config_of y h doc =
     (case yl_as_str y (yl_index y ''app'' doc) of
        None \<Rightarrow> Ret None
      | Some app \<Rightarrow>
          if str_field y doc ''interface'' ''asgi'' \<noteq> ''asgi'' then Ret None
          else
            (let root_path = str_field y doc ''root_path'' [] in
             case parse_usize_config y doc ''worker_threads'' 1 1 of
               None \<Rightarrow> Ret None
             | Some worker_threads \<Rightarrow>
                 (let enable_lifespan = yl_as_bool y (yl_index y ''lifespan'' doc) in
                  case parse_loop_config (ph_windows h) y doc of
                    None \<Rightarrow> Ret None
                  | Some loop_kind \<Rightarrow>
                      (case parse_usize_config y doc ''websockets_max_message_size'' (push_bit 20 64) 0 of
                         None \<Rightarrow> Ret None
                       | Some max_message_size \<Rightarrow>
                           (let compression = bool_field y doc ''websockets_compression'' True in
                            ws_config_new h app root_path worker_threads enable_lifespan loop_kind
                              max_message_size compression)))))"

definition new_network_filter_config_fn :: "'y yaml_lib \<Rightarrow> 'm py_host \<Rightarrow> bytes \<Rightarrow> ws_config option rust" where
  "new_network_filter_config_fn y h filter_config =
     rust_bind (load_document y filter_config) (\<lambda>doc.
       case doc of None \<Rightarrow> Ret None | Some doc \<Rightarrow> ws_config_of y h doc)"

section \<open>What an accepted or rejected configuration means\<close>

fun loop_ids :: "event_loops \<Rightarrow> nat list" where
  "loop_ids (SingleLoop l) = [l]"
| "loop_ids (MultipleLoops ls n) = ls"

definition sampler_ok :: "trace_sampler option \<Rightarrow> bool" where
  "sampler_ok s = (case s of None \<Rightarrow> True
     | Some t \<Rightarrow> (case ratio t of None \<Rightarrow> True | Some r \<Rightarrow> r \<le> RATIO_DENOMINATOR))"

text \<open>The startup of the lifespan on a loop went through, or was not asked for.\<close>

definition startup_passed :: "'m py_host \<Rightarrow> asgi_callable \<Rightarrow> bool option \<Rightarrow> nat \<Rightarrow> bool" where
  "startup_passed h app enable_lifespan i \<longleftrightarrow>
     enable_lifespan = Some False
     \<or> (case ph_lifespan h app i of
          (Some e, _) \<Rightarrow> enable_lifespan = None
        | (None, Some StartupComplete) \<Rightarrow> True
        | (None, Some LifespanComplete) \<Rightarrow> True
        | (None, Some (LifespanFailed msg)) \<Rightarrow> enable_lifespan = None
        | _ \<Rightarrow> False)"

lemma u64_try_from_cases:
  assumes "n < 2 ^ 63"
  shows "case u64_try_from n of None \<Rightarrow> n < 0 | Some w \<Rightarrow> n = uint w"
  using assms by (simp add: u64_try_from_def uint_word_of_int)

text \<open>The integer of a field: its default, or a value of the document at least the minimum.\<close>

lemma parse_usize_config_Some:
  assumes "yaml_law y"
  shows "parse_usize_config y doc field dflt minimum = Some w \<longleftrightarrow>
     (case yl_get y field doc of
        None \<Rightarrow> w = dflt
      | Some v \<Rightarrow> \<exists>n. yl_as_i64 y v = Some n \<and> uint minimum \<le> n \<and> n = uint w)"
proof (cases "yl_get y field doc")
  case None
  then show ?thesis by (auto simp: parse_usize_config_def)
next
  case v: (Some v)
  show ?thesis
  proof (cases "yl_as_i64 y v")
    case None
    with v show ?thesis by (simp add: parse_usize_config_def)
  next
    case n: (Some n)
    then have c: "case u64_try_from n of None \<Rightarrow> n < 0 | Some w \<Rightarrow> n = uint w"
      using assms u64_try_from_cases [of n] by (auto simp: yaml_law_def)
    show ?thesis
    proof (cases "u64_try_from n")
      case None
      with c have "n < 0" by simp
      then have "\<not> uint minimum \<le> n" using uint_ge_0 [of minimum] by linarith
      with None v n show ?thesis by (simp add: parse_usize_config_def)
    next
      case (Some w')
      with c v n show ?thesis by (auto simp: parse_usize_config_def word_le_def word_uint_eq_iff)
    qed
  qed
qed

lemma parse_usize_config_minimum:
  "parse_usize_config y doc field dflt minimum = Some w \<Longrightarrow> minimum \<le> dflt \<Longrightarrow> minimum \<le> w"
  by (auto simp: parse_usize_config_def split: option.splits if_splits)

lemma parse_trace_sampler_ok: "parse_trace_sampler_config y doc = Some s \<Longrightarrow> sampler_ok s"
  by (auto simp: parse_trace_sampler_config_def sampler_ok_def Let_def split: option.splits if_splits)

lemma split_app_parts:
  "split_app app = (module, attr) \<Longrightarrow>
     CHR '':'' \<notin> set module \<and> (app = module \<and> attr = ''app'' \<or> app = module @ '':'' @ attr)"
  by (auto simp: split_app_def split_once_None split_once_Some split: option.splits)

lemma lifespan_startup_passed:
  "lifespan_startup req rx = Ret (Inr b, log) \<Longrightarrow>
     rx = Some StartupComplete \<or> rx = Some LifespanComplete \<or> \<not> req \<and> (\<exists>msg. rx = Some (LifespanFailed msg))"
  by (cases "(req, rx)" rule: lifespan_startup.cases) (auto split: if_splits)

lemma start_lifespan_passed:
  assumes "rust_map fst (start_lifespan enable (\<lambda>req. execute_lifespan (ph_trace h) req
      (fst (ph_lifespan h app i)) (snd (ph_lifespan h app i)))) = Ret (Inr b)"
  shows "startup_passed h app enable i"
proof -
  obtain e rx where l: "ph_lifespan h app i = (e, rx)" by fastforce
  consider "enable = Some False" | req where "enable = (if req then Some True else None)"
    by (metis (full_types) not_Some_eq)
  then show ?thesis
  proof cases
    case 2
    then have "rust_map fst (execute_lifespan (ph_trace h) req e rx) = Ret (Inr b)"
      using assms l by (cases req) (simp_all add: start_lifespan_def)
    then obtain log where "execute_lifespan (ph_trace h) req e rx = Ret (Inr b, log)"
      by (cases "execute_lifespan (ph_trace h) req e rx") auto
    with 2 l show ?thesis
      by (cases e) (auto simp: startup_passed_def execute_lifespan_def split: if_splits
          dest!: lifespan_startup_passed)
  qed (simp add: startup_passed_def)
qed

lemma event_loop_new_passed:
  assumes "event_loop_new h app enable kind i = Ret (Inr el)"
  shows "startup_passed h app enable i"
proof -
  obtain l b where "rust_map fst (start_lifespan enable (\<lambda>req. execute_lifespan (ph_trace h) req
      (fst (ph_lifespan h app i)) (snd (ph_lifespan h app i)))) = Ret (Inr b)"
    using assms by (auto simp: event_loop_new_def rp_bind_Inr split: sum.split_asm) (metis old.sum.exhaust)
  then show ?thesis by (rule start_lifespan_passed)
qed

text \<open>The loops of a loaded application: as many as asked for, each with its lifespan started.\<close>

lemma event_loops_new_ids:
  assumes "event_loops_new sz new_loop = Ret (Inr loops)" and "1 \<le> sz"
  shows "length (loop_ids loops) = sz \<and> (\<forall>i < sz. new_loop i = Ret (Inr (loop_ids loops ! i)))"
proof (cases "sz > 1")
  case True
  with assms(1) obtain ls where "new_loops sz new_loop 0 = Ret (Inr ls)" "loops = MultipleLoops ls 0"
    by (auto simp: event_loops_new_def rp_bind_Inr)
  then show ?thesis using new_loops_each [of sz new_loop 0 ls] by (simp add: new_loops_length)
next
  case False
  with assms have "sz = 1" by simp
  with assms(1) show ?thesis by (auto simp: event_loops_new_def rp_bind_Inr)
qed

lemma load_app_loops:
  assumes "load_app h m a w enable kind = Ret (Inr (app, asgi, loops))" and "1 \<le> w"
  shows "length (loop_ids loops) = unat w \<and> (\<forall>i < unat w. startup_passed h app enable i)"
proof -
  let ?new = "\<lambda>i. rust_map (map_sum id el_loop) (event_loop_new h app enable kind i)"
  have "event_loops_new (unat w) ?new = Ret (Inr loops)"
    using assms(1) by (auto simp: load_app_def rp_bind_Inr)
  moreover have "1 \<le> unat w" using assms(2) by (simp add: word_le_nat_alt)
  ultimately have ids: "length (loop_ids loops) = unat w" "\<forall>i < unat w. ?new i = Ret (Inr (loop_ids loops ! i))"
    using event_loops_new_ids [of "unat w" ?new loops] by auto
  have "startup_passed h app enable i" if "i < unat w" for i
  proof -
    have "?new i = Ret (Inr (loop_ids loops ! i))" using ids(2) that by blast
    then obtain r where r: "event_loop_new h app enable kind i = Ret r" "map_sum id el_loop r = Inr (loop_ids loops ! i)"
      by (cases "event_loop_new h app enable kind i") auto
    then obtain el where "r = Inr el" by (cases r) auto
    with r show ?thesis using event_loop_new_passed by simp
  qed
  with ids(1) show ?thesis by simp
qed

lemma asgi_executor_loops:
  assumes "asgi_executor_new h m a root w enable kind = Ret (Inr x)" and "1 \<le> w"
  shows "ax_root_path x = root \<and> length (loop_ids (ax_loops x)) = unat w
     \<and> (\<forall>i < unat w. startup_passed h (ax_app x) enable i)"
  using assms by (auto simp: asgi_executor_new_def rp_bind_Inr dest: load_app_loops)

lemma ws_executor_loops:
  assumes "ws_executor_new h m a root w enable kind = Ret (Inr x)" and "1 \<le> w"
  shows "wx_root_path x = root \<and> length (loop_ids (wx_loops x)) = unat w
     \<and> (\<forall>i < unat w. startup_passed h (wx_app x) enable i)"
  using assms by (auto simp: ws_executor_new_def rp_bind_Inr dest: load_app_loops)

lemma asgi_config_started:
  assumes "asgi_config_new h app root w enable kind client sampler = Ret (Some c)"
  obtains m a x where "split_app app = (m, a)" "asgi_executor_new h m a root w enable kind = Ret (Inr x)"
    "ac_executor c = x" "ac_enable_http_client c = client" "ac_trace_sampler c = sampler"
proof -
  obtain m a where m: "split_app app = (m, a)" by fastforce
  obtain r where r: "asgi_executor_new h m a root w enable kind = Ret r"
    using assms m by (cases "asgi_executor_new h m a root w enable kind") (auto simp: asgi_config_new_def)
  then obtain x where "r = Inr x" using assms m by (cases r) (auto simp: asgi_config_new_def)
  with r m assms show ?thesis by (intro that [of m a x]) (auto simp: asgi_config_new_def)
qed

lemma wsgi_config_started:
  assumes "wsgi_config_new h app root w client sampler = Some c"
  shows "gx_root_path (gc_executor c) = root \<and> gx_threads (gc_executor c) = unat w
     \<and> gc_enable_http_client c = client \<and> gc_trace_sampler c = sampler"
  using assms
  by (auto simp: wsgi_config_new_def wsgi_executor_new_def pbind_Inr_conv split: prod.splits
      elim!: or_none.elims)

text \<open>An accepted document went through every parser.\<close>

lemma http_config_accepted:
  assumes "http_config_of y h enabled doc = Ret (Some (c :: 'f http_config), enabled')"
  obtains app w kind sampler where "yl_as_str y (yl_index y ''app'' doc) = Some app"
    "parse_usize_config y doc ''worker_threads''
       (if str_field y doc ''interface'' ''asgi'' = ''asgi'' then 1 else 200) 1 = Some w"
    "parse_loop_config (ph_windows h) y doc = Some kind"
    "parse_trace_sampler_config y doc = Some sampler"
    "http_config_new h (str_field y doc ''interface'' ''asgi'') app (str_field y doc ''root_path'' []) w
       (yl_as_bool y (yl_index y ''lifespan'' doc)) kind (bool_field y doc ''enable_http_client'' False) sampler
       = Ret (Some c)"
    "enabled' = (enabled \<or> bool_field y doc ''enable_http_client'' False)"
proof -
  obtain app where app: "yl_as_str y (yl_index y ''app'' doc) = Some app"
    using assms by (cases "yl_as_str y (yl_index y ''app'' doc)") (simp_all add: http_config_of_def)
  let ?d = "if str_field y doc ''interface'' ''asgi'' = ''asgi'' then 1 else 200"
  obtain w where w: "parse_usize_config y doc ''worker_threads'' ?d 1 = Some w"
    using assms app by (cases "parse_usize_config y doc ''worker_threads'' ?d 1") (simp_all add: http_config_of_def Let_def)
  obtain kind where kind: "parse_loop_config (ph_windows h) y doc = Some kind"
    using assms app w by (cases "parse_loop_config (ph_windows h) y doc") (simp_all add: http_config_of_def Let_def)
  obtain sampler where sampler: "parse_trace_sampler_config y doc = Some sampler"
    using assms app w kind by (cases "parse_trace_sampler_config y doc") (simp_all add: http_config_of_def Let_def)
  let ?r = "http_config_new h (str_field y doc ''interface'' ''asgi'') app (str_field y doc ''root_path'' []) w
       (yl_as_bool y (yl_index y ''lifespan'' doc)) kind (bool_field y doc ''enable_http_client'' False) sampler :: 'f http_config option rust"
  have r: "rust_map (\<lambda>c. (c, enabled \<or> bool_field y doc ''enable_http_client'' False)) ?r = Ret (Some c, enabled')"
    using assms app w kind sampler by (simp add: http_config_of_def Let_def)
  have "?r = Ret (Some c) \<and> enabled' = (enabled \<or> bool_field y doc ''enable_http_client'' False)"
    using r by (cases ?r) simp_all
  then have "?r = Ret (Some c)" "enabled' = (enabled \<or> bool_field y doc ''enable_http_client'' False)"
    by blast+
  with app w kind sampler show ?thesis by (rule that)
qed

text \<open>The fields as a user would describe them.\<close>

definition int_field_ok :: "'y yaml_lib \<Rightarrow> 'y \<Rightarrow> bytes \<Rightarrow> int \<Rightarrow> bool" where
  "int_field_ok y doc field minimum \<longleftrightarrow>
     (case yl_get y field doc of None \<Rightarrow> True
      | Some v \<Rightarrow> (case yl_as_i64 y v of Some n \<Rightarrow> minimum \<le> n | None \<Rightarrow> False))"

definition loop_field_ok :: "'y yaml_lib \<Rightarrow> 'y \<Rightarrow> bool" where
  "loop_field_ok y doc \<longleftrightarrow>
     (let v = yl_index y ''loop'' doc in
      yl_is_badvalue y v
      \<or> yl_as_str y v \<in> Some ` {''asyncio'', ''uvloop'', ''winloop'', ''zuvloop'', ''trio''})"

definition sampler_field_ok :: "'y yaml_lib \<Rightarrow> 'y \<Rightarrow> bool" where
  "sampler_field_ok y doc \<longleftrightarrow>
     (let v = yl_index y ''trace_sampler'' doc; r = yl_index y ''ratio'' v in
      yl_is_badvalue y v \<or> yl_is_badvalue y r
      \<or> (case yl_as_i64 y r of Some n \<Rightarrow> 0 \<le> n \<and> n \<le> 1000000 | None \<Rightarrow> False))"

lemma int_field_parses:
  assumes "yaml_law y" and "0 \<le> uint minimum"
  shows "parse_usize_config y doc field dflt minimum = None \<longleftrightarrow> \<not> int_field_ok y doc field (uint minimum)"
proof (cases "yl_get y field doc")
  case None
  then show ?thesis by (simp add: parse_usize_config_def int_field_ok_def)
next
  case v: (Some v)
  show ?thesis
  proof (cases "yl_as_i64 y v")
    case None
    with v show ?thesis by (simp add: parse_usize_config_def int_field_ok_def)
  next
    case n: (Some n)
    then have c: "case u64_try_from n of None \<Rightarrow> n < 0 | Some w \<Rightarrow> n = uint w"
      using assms u64_try_from_cases [of n] by (auto simp: yaml_law_def)
    show ?thesis
    proof (cases "u64_try_from n")
      case None
      with c have "n < 0" by simp
      then have "\<not> uint minimum \<le> n" using uint_ge_0 [of minimum] by linarith
      with None v n show ?thesis by (simp add: parse_usize_config_def int_field_ok_def)
    next
      case (Some w')
      with c v n show ?thesis by (simp add: parse_usize_config_def int_field_ok_def word_le_def)
    qed
  qed
qed

lemma loop_field_parses: "parse_loop_config windows y doc = None \<longleftrightarrow> \<not> loop_field_ok y doc"
proof (cases "yl_as_str y (yl_index y ''loop'' doc)")
  case None
  then show ?thesis by (auto simp: parse_loop_config_def loop_field_ok_def Let_def)
next
  case (Some s)
  then show ?thesis
    by (auto simp: parse_loop_config_def loop_field_ok_def Let_def loop_kind_parse_def)
qed

lemma sampler_field_parses:
  assumes "yaml_law y"
  shows "parse_trace_sampler_config y doc = None \<longleftrightarrow> \<not> sampler_field_ok y doc"
proof -
  let ?v = "yl_index y ''trace_sampler'' doc"
  let ?r = "yl_index y ''ratio'' ?v"
  show ?thesis
  proof (cases "yl_is_badvalue y ?v \<or> yl_is_badvalue y ?r \<or> yl_as_i64 y ?r = None")
    case True
    then show ?thesis by (auto simp: parse_trace_sampler_config_def sampler_field_ok_def Let_def)
  next
    case False
    then obtain n where n: "yl_as_i64 y ?r = Some n" by auto
    then have c: "case u64_try_from n of None \<Rightarrow> n < 0 | Some w \<Rightarrow> n = uint w"
      using assms u64_try_from_cases [of n] by (auto simp: yaml_law_def)
    have d: "uint RATIO_DENOMINATOR = 1000000" by (simp add: RATIO_DENOMINATOR_def)
    show ?thesis
      using False n c d
      by (cases "u64_try_from n")
        (simp_all add: parse_trace_sampler_config_def sampler_field_ok_def Let_def word_le_def)
  qed
qed

section \<open>Dropping a configuration\<close>

text \<open>
  \<open>Drop\<close> of the ASGI and WebSocket configurations: \<open>Executor::shutdown\<close> stops the loops and only
  reports an error, then \<open>ExecutorHandles::join\<close> waits for the threads of each loop. What it did,
  in order.
\<close>

datatype drop_action = Stopping stop_action | JoinLoop nat

definition event_loops_join :: "event_loops \<Rightarrow> drop_action list" where
  "event_loops_join loops = map JoinLoop (case loops of SingleLoop l \<Rightarrow> [l] | MultipleLoops ls n \<Rightarrow> ls)"

text \<open>\<open>shutdown\<close> of the executors: the loops are stopped, an error is only reported.\<close>

definition executor_shutdown :: "(nat \<Rightarrow> stop_action list \<times> (pyerr + unit)) \<Rightarrow> event_loops \<Rightarrow> stop_action list" where
  "executor_shutdown stop loops = fst (event_loops_stop stop loops)"

definition config_drop :: "(nat \<Rightarrow> stop_action list \<times> (pyerr + unit)) \<Rightarrow> event_loops \<Rightarrow> drop_action list" where
  "config_drop stop loops = map Stopping (executor_shutdown stop loops) @ event_loops_join loops"

text \<open>If no stop fails every loop is stopped before any is joined.\<close>

lemma stop_loops_all:
  "\<forall>l \<in> set ls. stop l = (acts l, Inr ()) \<Longrightarrow> fst (stop_loops stop ls) = concat (map acts ls)
     \<and> snd (stop_loops stop ls) = Inr ()"
  by (induction ls) (auto split: prod.split)

lemma config_drop_stops:
  assumes "\<forall>l. call_stop l = None"
  shows "\<exists>before. config_drop (stop_loop has_lifespan has_waker call_stop) loops = before @ event_loops_join loops
     \<and> (\<forall>l \<in> set (loop_ids loops). Stopping (CallStop l) \<in> set before)"
proof -
  let ?stop = "stop_loop has_lifespan has_waker call_stop"
  let ?acts = "\<lambda>l. fst (?stop l)"
  have "?stop l = (?acts l, Inr ())" "CallStop l \<in> set (?acts l)" for l
    using assms by (simp_all add: stop_loop_def)
  then have "\<forall>l \<in> set (loop_ids loops). CallStop l \<in> set (fst (event_loops_stop ?stop loops))"
    using stop_loops_all [of _ ?stop ?acts] by (cases loops) auto
  then show ?thesis by (auto simp: config_drop_def executor_shutdown_def)
qed

text \<open>
  If one fails, because its loop has already been closed, the loops after it are joined without
  having been stopped.
\<close>

lemma config_drop_skips:
  "config_drop (stop_loop (\<lambda>_. False) (\<lambda>_. False) ((\<lambda>_. None)(7 := Some (RuntimeError ''Event loop is closed''))))
     (MultipleLoops [7, 8] 0) = [Stopping (CallStop 7), JoinLoop 7, JoinLoop 8]"
  by (simp add: config_drop_def executor_shutdown_def event_loops_join_def stop_loop_def)

section \<open>A concrete document and host\<close>

datatype yaml_value = YInt int | YText bytes | YFlag bool | YMap "(bytes \<times> yaml_value) list" | YBad

fun yaml_get :: "bytes \<Rightarrow> yaml_value \<Rightarrow> yaml_value option" where
  "yaml_get k (YMap kvs) = map_of kvs k"
| "yaml_get k v = None"

definition demo_yaml :: "yaml_value \<Rightarrow> yaml_value yaml_lib" where
  "demo_yaml doc =
     \<lparr>yl_load = (\<lambda>_. Some [doc]), yl_get = yaml_get,
      yl_index = (\<lambda>k v. case yaml_get k v of Some w \<Rightarrow> w | None \<Rightarrow> YBad),
      yl_is_badvalue = (\<lambda>v. v = YBad),
      yl_as_i64 = (\<lambda>v. case v of YInt n \<Rightarrow> if - (2 ^ 63) \<le> n \<and> n < 2 ^ 63 then Some n else None | _ \<Rightarrow> None),
      yl_as_str = (\<lambda>v. case v of YText s \<Rightarrow> Some s | _ \<Rightarrow> None),
      yl_as_bool = (\<lambda>v. case v of YFlag b \<Rightarrow> Some b | _ \<Rightarrow> None)\<rparr>"

lemma demo_yaml_law: "yaml_law (demo_yaml doc)"
  by (auto simp: yaml_law_def demo_yaml_def split: option.splits yaml_value.splits if_splits)

lemma demo_yaml_simps [simp]:
  "yl_load (demo_yaml d) text = Some [d]"
  "yl_get (demo_yaml d) = yaml_get"
  "yl_index (demo_yaml d) k v = (case yaml_get k v of Some w \<Rightarrow> w | None \<Rightarrow> YBad)"
  "yl_is_badvalue (demo_yaml d) v \<longleftrightarrow> v = YBad"
  "yl_as_i64 (demo_yaml d) (YInt n) = (if - (2 ^ 63) \<le> n \<and> n < 2 ^ 63 then Some n else None)"
  "yl_as_str (demo_yaml d) (YText s) = Some s" "yl_as_str (demo_yaml d) YBad = None"
  "yl_as_bool (demo_yaml d) (YFlag b) = Some b" "yl_as_bool (demo_yaml d) YBad = None"
  by (simp_all add: demo_yaml_def)

definition demo_host :: "bytes py_host" where
  "demo_host =
     \<lparr>ph_windows = False, ph_version_312 = True, ph_import = Inr, ph_getattr = (\<lambda>m a. Inr PyNone),
      ph_view = (\<lambda>_. \<lparr>asgi_single_callable = Inr None, asgi_double_callable = Inr None, isclass = Inr False,
        call_iscoroutinefunction = Inr None, iscoroutinefunction = Inr True\<rparr>),
      ph_call = (\<lambda>_ _. Inr PyNone), ph_socket_pair = Inr (), ph_new_loop = (\<lambda>_ i. Inr (i + 7)),
      ph_loop_attr = (\<lambda>_ _. Inr ()), ph_set_event_loop = (\<lambda>_. Inr ()), ph_add_reader = (\<lambda>_. Inr ()),
      ph_lifespan = (\<lambda>_ _. (None, Some StartupComplete)), ph_trace = (\<lambda>_. [])\<rparr>"

definition demo_document :: yaml_value where
  "demo_document = YMap [(''app'', YText ''web:api''), (''worker_threads'', YInt 2), (''loop'', YText ''asyncio''),
     (''trace_sampler'', YMap [(''ratio'', YInt 5)])]"

lemma demo_loop_new: "event_loop_new demo_host app enable kind i = Ret (Inr \<lparr>el_loop = i + 7,
    el_threads = (if kind = Trio then 2 else 1), el_lifespan = (enable \<noteq> Some False)\<rparr>)"
  by (cases kind; cases enable)
    (simp_all add: event_loop_new_def demo_host_def new_waker_def loop_thread_def start_lifespan_def
      execute_lifespan_def split: bool.split)

lemma demo_new_loops:
  "new_loops n (\<lambda>i. Ret (Inr (i + 7))) k = Ret (Inr (map (\<lambda>i. i + 7) [k ..< k + n]))"
  by (induction n arbitrary: k) (simp_all add: upt_rec)

lemma demo_load_app: "\<exists>app loops. load_app demo_host m a w enable kind = Ret (Inr (app, asgi_versions, loops))"
proof -
  have "\<exists>loops. event_loops_new (unat w) (\<lambda>i. Ret (Inr (i + 7))) = Ret (Inr loops)"
    by (simp add: event_loops_new_def demo_new_loops)
  moreover have "ensure_asgi3_app (ph_call demo_host) (ph_view demo_host app) app
      = Inr (\<lambda>scope_dict receive_py send_py. ph_call demo_host app [scope_dict, receive_py, send_py])" for app
    by (simp add: ensure_asgi3_app_def is_asgi2_app_def demo_host_def)
  ultimately show ?thesis
    by (auto simp: load_app_def demo_loop_new) (auto simp: demo_host_def)
qed

lemma demo_starts:
  "\<exists>x. asgi_executor_new demo_host m a root w enable kind = Ret (Inr x)"
  "\<exists>x. wsgi_executor_new demo_host m a root w = Inr x"
proof -
  obtain app loops where "load_app demo_host m a w enable kind = Ret (Inr (app, asgi_versions, loops))"
    using demo_load_app by blast
  then show "\<exists>x. asgi_executor_new demo_host m a root w enable kind = Ret (Inr x)"
    by (simp add: asgi_executor_new_def demo_host_def)
  show "\<exists>x. wsgi_executor_new demo_host m a root w = Inr x"
    by (simp add: wsgi_executor_new_def demo_host_def)
qed

section \<open>Properties\<close>

text \<open>
  C28. An accepted HTTP filter configuration has the shape the filters rely on: a pool of event
  loops, or of worker threads, that is not empty and as large as the document says, every loop
  past the startup of the application, a sampler whose ratio is a fraction, and the HTTP client
  enabled where the filter offers it.
\<close>

theorem accepted_config_typed:
  assumes "new_http_filter_config_fn y h files enabled name bs = Ret (Some c, enabled')"
  shows "case c of
       FilesConfig f \<Rightarrow> name = ''envoy_files'' \<and> enabled' = enabled
     | AsgiConfig a \<Rightarrow>
         sampler_ok (ac_trace_sampler a) \<and> enabled' = (enabled \<or> ac_enable_http_client a)
         \<and> (\<exists>doc w. load_document y bs = Ret (Some doc)
              \<and> parse_usize_config y doc ''worker_threads'' 1 1 = Some w \<and> 1 \<le> w
              \<and> length (loop_ids (ax_loops (ac_executor a))) = unat w
              \<and> (\<forall>i < unat w. startup_passed h (ax_app (ac_executor a)) (yl_as_bool y (yl_index y ''lifespan'' doc)) i))
     | WsgiConfig g \<Rightarrow>
         sampler_ok (gc_trace_sampler g) \<and> enabled' = (enabled \<or> gc_enable_http_client g)
         \<and> (\<exists>doc w. load_document y bs = Ret (Some doc)
              \<and> parse_usize_config y doc ''worker_threads'' 200 1 = Some w \<and> 1 \<le> w
              \<and> gx_threads (gc_executor g) = unat w)"
proof (cases "name = ''envoy_files''")
  case True
  with assms show ?thesis
    by (cases "files name bs") (auto simp: new_http_filter_config_fn_def)
next
  case False
  with assms obtain d where d: "load_document y bs = Ret d"
    by (cases "load_document y bs") (auto simp: new_http_filter_config_fn_def)
  with False assms obtain doc where doc: "d = Some doc"
    by (cases d) (auto simp: new_http_filter_config_fn_def)
  with False d assms have "http_config_of y h enabled doc = Ret (Some c, enabled')"
    by (simp add: new_http_filter_config_fn_def)
  then obtain app w kind sampler where
    w: "parse_usize_config y doc ''worker_threads''
          (if str_field y doc ''interface'' ''asgi'' = ''asgi'' then 1 else 200) 1 = Some w"
    and ok: "parse_trace_sampler_config y doc = Some sampler"
    and new: "http_config_new h (str_field y doc ''interface'' ''asgi'') app (str_field y doc ''root_path'' []) w
       (yl_as_bool y (yl_index y ''lifespan'' doc)) kind (bool_field y doc ''enable_http_client'' False) sampler
       = Ret (Some c)"
    and enabled': "enabled' = (enabled \<or> bool_field y doc ''enable_http_client'' False)"
    by (rule http_config_accepted)
  have "1 \<le> w" by (rule parse_usize_config_minimum [OF w]) simp
  note sampler = parse_trace_sampler_ok [OF ok]
  let ?a = "asgi_config_new h app (str_field y doc ''root_path'' []) w
       (yl_as_bool y (yl_index y ''lifespan'' doc)) kind (bool_field y doc ''enable_http_client'' False) sampler"
  let ?g = "wsgi_config_new h app (str_field y doc ''root_path'' []) w (bool_field y doc ''enable_http_client'' False) sampler"
  consider a where "str_field y doc ''interface'' ''asgi'' = ''asgi''" "c = AsgiConfig a" "?a = Ret (Some a)"
    | g where "str_field y doc ''interface'' ''asgi'' \<noteq> ''asgi''" "c = WsgiConfig g" "?g = Some g"
    using new by (cases ?a) (auto simp: http_config_new_def split: if_splits)
  then show ?thesis
  proof cases
    case 1
    from asgi_config_started [OF 1(3)] obtain m at x where x: "asgi_executor_new h m at (str_field y doc ''root_path'' []) w
        (yl_as_bool y (yl_index y ''lifespan'' doc)) kind = Ret (Inr x)" "ac_executor a = x"
      "ac_enable_http_client a = bool_field y doc ''enable_http_client'' False" "ac_trace_sampler a = sampler"
      by metis
    with asgi_executor_loops [OF x(1) \<open>1 \<le> w\<close>] 1 w d doc sampler enabled' \<open>1 \<le> w\<close> show ?thesis by auto
  next
    case 2
    with wsgi_config_started [OF 2(3)] w d doc sampler enabled' \<open>1 \<le> w\<close> show ?thesis by auto
  qed
qed

theorem accepted_config_typed_witness:
  "\<exists>a. new_http_filter_config_fn (demo_yaml demo_document) demo_host (\<lambda>_ _. None :: unit option) False ''pyvoy'' []
         = Ret (Some (AsgiConfig a), False)
       \<and> sampler_ok (ac_trace_sampler a) \<and> length (loop_ids (ax_loops (ac_executor a))) = 2"
proof -
  let ?y = "demo_yaml demo_document"
  have load: "load_document ?y [] = Ret (Some demo_document)"
    by (simp add: load_document_def str_from_utf8_def)
  have w: "parse_usize_config ?y demo_document ''worker_threads'' 1 1 = Some 2"
    by (simp add: parse_usize_config_def demo_document_def u64_try_from_def word_le_def)
  obtain x where x: "asgi_executor_new demo_host ''web'' ''api'' [] 2 None Asyncio = Ret (Inr x)"
    using demo_starts(1) by blast
  have windows: "ph_windows demo_host = False" by (simp add: demo_host_def)
  have run: "new_http_filter_config_fn ?y demo_host (\<lambda>_ _. None :: unit option) False ''pyvoy'' []
      = Ret (Some (AsgiConfig \<lparr>ac_executor = x, ac_enable_http_client = False,
          ac_trace_sampler = Some \<lparr>parent_based = False, ratio = Some 5\<rparr>\<rparr>), False)"
    using x w load windows
    by (simp add: demo_document_def new_http_filter_config_fn_def http_config_of_def str_field_def bool_field_def
        http_config_new_def asgi_config_new_def split_app_def parse_loop_config_def loop_kind_parse_def
        parse_trace_sampler_config_def u64_try_from_def RATIO_DENOMINATOR_def word_le_def)
  with accepted_config_typed [OF run] load w show ?thesis by auto
qed

text \<open>
  C29. A document is rejected for its fields alone, when the application loads: exactly if the
  application is missing, the interface unknown, the number of workers not a positive integer,
  the loop not a known name, or the ratio of the sampler not an integer up to a million. Nothing
  panics.
\<close>

theorem config_rejected_iff:
  assumes "yaml_law y" and "name \<noteq> ''envoy_files''" and "load_document y bs = Ret (Some doc)"
    and "\<And>m a root w enable kind. \<exists>x. asgi_executor_new h m a root w enable kind = Ret (Inr x)"
    and "\<And>m a root w. \<exists>x. wsgi_executor_new h m a root w = Inr x"
  shows "\<exists>(c :: 'f http_config option) enabled'. new_http_filter_config_fn y h files enabled name bs = Ret (c, enabled')
     \<and> (c = None \<longleftrightarrow>
          \<not> (yl_as_str y (yl_index y ''app'' doc) \<noteq> None
             \<and> str_field y doc ''interface'' ''asgi'' \<in> {''asgi'', ''wsgi''}
             \<and> int_field_ok y doc ''worker_threads'' 1
             \<and> loop_field_ok y doc \<and> sampler_field_ok y doc))"
proof -
  have int: "parse_usize_config y doc ''worker_threads'' n 1 = None \<longleftrightarrow> \<not> int_field_ok y doc ''worker_threads'' 1" for n
    using int_field_parses [OF assms(1), of 1] by simp
  have start: "\<exists>c :: 'f http_config option. http_config_new h interface app root w enable kind client sampler = Ret c
      \<and> (c = None \<longleftrightarrow> interface \<notin> {''asgi'', ''wsgi''})" for interface app root w enable kind client sampler
  proof -
    obtain m a where m: "split_app app = (m, a)" by fastforce
    obtain x g where "asgi_executor_new h m a root w enable kind = Ret (Inr x)" "wsgi_executor_new h m a root w = Inr g"
      using assms(4,5) by blast
    with m show ?thesis by (simp add: http_config_new_def asgi_config_new_def wsgi_config_new_def)
  qed
  have "\<exists>(c :: 'f http_config option) enabled'. http_config_of y h enabled doc = Ret (c, enabled')
     \<and> (c = None \<longleftrightarrow>
          \<not> (yl_as_str y (yl_index y ''app'' doc) \<noteq> None
             \<and> str_field y doc ''interface'' ''asgi'' \<in> {''asgi'', ''wsgi''}
             \<and> parse_usize_config y doc ''worker_threads''
                 (if str_field y doc ''interface'' ''asgi'' = ''asgi'' then 1 else 200) 1 \<noteq> None
             \<and> parse_loop_config (ph_windows h) y doc \<noteq> None \<and> parse_trace_sampler_config y doc \<noteq> None))"
  proof (cases "yl_as_str y (yl_index y ''app'' doc)")
    case None
    then show ?thesis by (simp add: http_config_of_def)
  next
    case app: (Some app)
    let ?d = "if str_field y doc ''interface'' ''asgi'' = ''asgi'' then 1 else 200"
    show ?thesis
    proof (cases "parse_usize_config y doc ''worker_threads'' ?d 1 = None
        \<or> parse_loop_config (ph_windows h) y doc = None \<or> parse_trace_sampler_config y doc = None")
      case True
      with app show ?thesis by (auto simp: http_config_of_def Let_def split: option.split)
    next
      case False
      then obtain w kind sampler where parts: "parse_usize_config y doc ''worker_threads'' ?d 1 = Some w"
        "parse_loop_config (ph_windows h) y doc = Some kind" "parse_trace_sampler_config y doc = Some sampler"
        by auto
      with start [of "str_field y doc ''interface'' ''asgi''" app "str_field y doc ''root_path'' []" w
          "yl_as_bool y (yl_index y ''lifespan'' doc)" kind "bool_field y doc ''enable_http_client'' False" sampler] app
      show ?thesis by (auto simp: http_config_of_def Let_def)
    qed
  qed
  with assms(2,3) show ?thesis
    by (simp add: new_http_filter_config_fn_def int loop_field_parses sampler_field_parses [OF assms(1)])
qed

theorem config_rejected_iff_witness:
  "\<exists>c enabled'. new_http_filter_config_fn (demo_yaml (YMap [(''app'', YText ''web''), (''worker_threads'', YInt 0)]))
       demo_host (\<lambda>_ _. None :: unit option) False ''pyvoy'' [] = Ret (c, enabled') \<and> c = None"
proof -
  let ?doc = "YMap [(''app'', YText ''web''), (''worker_threads'', YInt 0)]"
  have "load_document (demo_yaml ?doc) [] = Ret (Some ?doc)"
    by (simp add: load_document_def str_from_utf8_def)
  moreover have "\<not> int_field_ok (demo_yaml ?doc) ?doc ''worker_threads'' 1"
    by (simp add: int_field_ok_def)
  ultimately show ?thesis
    using config_rejected_iff [where y = "demo_yaml ?doc" and h = demo_host and name = "''pyvoy''" and bs = "[]"
        and doc = ?doc and enabled = False and files = "\<lambda>_ _. None :: unit option",
      OF demo_yaml_law _ _ demo_starts] by auto
qed

end
