(* ===== verification/Python_Startup.thy ===== *)
theory Python_Startup
  imports Request_Scope
begin

text \<open>
  The start of the module: \<open>init\<close> and the atexit hook of \<open>src/src/lib.rs\<close>, the registration of the
  Python modules in the two \<open>transport.rs\<close>, and the table of Python objects of
  \<open>src/src/types.rs\<close> that every other part takes its strings from.
\<close>

section \<open>Calls into Python\<close>

text \<open>
  The calls the start makes, in order; each may raise, and the rest of its sequence is then
  skipped. \<open>raises\<close> says which do.
\<close>

datatype py_call =
    ImportSys | SysPath | CastPath | InsertPath
  | NewModule bytes | AddClass bytes | SetModuleAttr bytes
  | SysModules | CastModules | PutModule bytes
  | ImportDebug | EnablePydev "bytes list"
  | ImportAtexit | RunExitfuncs

fun py_calls :: "(py_call \<Rightarrow> pyerr option) \<Rightarrow> py_call list \<Rightarrow> py_call list \<times> (pyerr + unit)" where
  "py_calls raises [] = ([], Inr ())"
| "py_calls raises (c # cs) =
     (case raises c of
        Some e \<Rightarrow> ([], Inl e)
      | None \<Rightarrow> (case py_calls raises cs of (made, r) \<Rightarrow> (c # made, r)))"

definition asgi_register_calls :: "py_call list" where
  "asgi_register_calls =
     [NewModule ''pyvoy.asgi'', NewModule ''pyvoy.asgi.httpclient'', AddClass ''pyvoy.asgi.httpclient'',
      SetModuleAttr ''pyvoy.asgi'', ImportSys, SysModules, CastModules,
      PutModule ''pyvoy.asgi'', PutModule ''pyvoy.asgi.httpclient'']"

definition wsgi_register_calls :: "py_call list" where
  "wsgi_register_calls =
     [NewModule ''pyvoy.wsgi'', NewModule ''pyvoy.wsgi.httpclient'', AddClass ''pyvoy.wsgi.httpclient'',
      SetModuleAttr ''pyvoy.wsgi'', ImportSys, SysModules, CastModules,
      PutModule ''pyvoy.wsgi'', PutModule ''pyvoy.wsgi.httpclient'']"

definition init_calls :: "py_call list" where
  "init_calls = [ImportSys, SysPath, CastPath, InsertPath] @ asgi_register_calls @ wsgi_register_calls"

text \<open>
  \<open>init\<close>: what it does and what it tells Envoy. \<open>pydevd\<close> are the words of \<open>PYVOY_PYDEVD_ARGS\<close> if it
  is set; a failure to start the debugger is only a warning.
\<close>

datatype init_action = InitializePython | PinModule | RegisterAtexit | Called py_call

definition init :: "bool \<Rightarrow> (py_call \<Rightarrow> pyerr option) \<Rightarrow> bytes list option \<Rightarrow> init_action list \<times> bool" where
  "init windows raises pydevd =
     (let start = [InitializePython] @ (if windows then [PinModule] else []) @ [RegisterAtexit] in
      case py_calls raises init_calls of
        (made, Inl e) \<Rightarrow> (start @ map Called made, False)
      | (made, Inr _) \<Rightarrow>
          (start @ map Called made @
             (case pydevd of
                None \<Rightarrow> []
              | Some args \<Rightarrow> map Called (fst (py_calls raises [ImportDebug, EnablePydev args]))), True))"

text \<open>The C exit handler: Python's own hooks, if there is an interpreter; errors are ignored.\<close>

definition run_python_atexit_hooks :: "bool \<Rightarrow> (py_call \<Rightarrow> pyerr option) \<Rightarrow> py_call list" where
  "run_python_atexit_hooks initialized raises =
     (if \<not> initialized then [] else fst (py_calls raises [ImportAtexit, RunExitfuncs]))"

lemma py_calls_ok: "snd (py_calls raises cs) = Inr () \<longleftrightarrow> (\<forall>c \<in> set cs. raises c = None)"
  by (induction cs) (auto split: option.split prod.split)

lemma py_calls_all: "\<forall>c \<in> set cs. raises c = None \<Longrightarrow> py_calls raises cs = (cs, Inr ())"
  by (induction cs) auto

text \<open>
  Envoy is told that the module is usable exactly if no call into Python failed, and then the
  modules of both HTTP clients can be imported, whatever becomes of the debugger.
\<close>

lemma init_usable:
  "snd (init windows raises pydevd) \<longleftrightarrow> (\<forall>c \<in> set init_calls. raises c = None)"
proof (cases "py_calls raises init_calls")
  case (Pair made r)
  then show ?thesis using py_calls_ok [of raises init_calls] by (cases r) (auto simp: init_def Let_def)
qed

lemma init_registers:
  assumes "snd (init windows raises pydevd)"
  shows "Called ` PutModule ` {''pyvoy.asgi'', ''pyvoy.asgi.httpclient'', ''pyvoy.wsgi'', ''pyvoy.wsgi.httpclient''}
    \<subseteq> set (fst (init windows raises pydevd))"
proof -
  have "py_calls raises init_calls = (init_calls, Inr ())"
    using assms py_calls_all by (simp add: init_usable)
  then show ?thesis
    by (auto simp: init_def Let_def init_calls_def asgi_register_calls_def wsgi_register_calls_def)
qed

section \<open>The table of Python objects\<close>

text \<open>The fields of \<open>Constants\<close> that are strings, in the order of the struct, each with the text
  that its documentation says it has.\<close>

definition request_constant_docs :: "(bytes \<times> bytes) list" where
  "request_constant_docs =
    [(''http'', ''http''), (''https'', ''https''), (''http_version'', ''http_version''),
     (''http_10'', ''1.0''), (''http_11'', ''1.1''), (''http_2'', ''2''), (''http_3'', ''3''),
     (''options'', ''OPTIONS''), (''get'', ''GET''), (''post'', ''POST''), (''put'', ''PUT''),
     (''delete'', ''DELETE''), (''head'', ''HEAD''), (''trace'', ''TRACE''), (''patch'', ''PATCH''),
     (''asgi'', ''asgi''), (''extensions'', ''extensions''), (''typ'', ''type''),
     (''lifespan'', ''lifespan''), (''lifespan_startup'', ''lifespan.startup''),
     (''lifespan_shutdown'', ''lifespan.shutdown''), (''message'', ''message''), (''method'', ''method''),
     (''path'', ''path''), (''raw_path'', ''raw_path''), (''query_string'', ''query_string''),
     (''root_path'', ''root_path''), (''scheme'', ''scheme''), (''headers'', ''headers''),
     (''client'', ''client''), (''server'', ''server''), (''state'', ''state''), (''tls'', ''tls''),
     (''tls_version'', ''tls_version''), (''client_cert_name'', ''client_cert_name''), (''body'', ''body''),
     (''more_body'', ''more_body''), (''http_request'', ''http.request''), (''status'', ''status''),
     (''trailers'', ''trailers''), (''more_trailers'', ''more_trailers''), (''bytes'', ''bytes''),
     (''code'', ''code''), (''reason'', ''reason''), (''text'', ''text''),
     (''subprotocol'', ''subprotocol''), (''subprotocols'', ''subprotocols''),
     (''websocket'', ''websocket''), (''websocket_connect'', ''websocket.connect''),
     (''websocket_disconnect'', ''websocket.disconnect'')]"

definition response_constant_docs :: "(bytes \<times> bytes) list" where
  "response_constant_docs =
    [(''websocket_receive'', ''websocket.receive''), (''asyncio'', ''asyncio''), (''cancel'', ''cancel''),
     (''cancelled'', ''cancelled''), (''done'', ''done''), (''get_task_factory'', ''get_task_factory''),
     (''run_coroutine_threadsafe'', ''run_coroutine_threadsafe''), (''create_task'', ''create_task''),
     (''add_done_callback'', ''add_done_callback''), (''call_soon_threadsafe'', ''call_soon_threadsafe''),
     (''set_result'', ''set_result''), (''set_exception'', ''set_exception''),
     (''create_future'', ''create_future''), (''result'', ''result''), (''stop'', ''stop''),
     (''request_method'', ''REQUEST_METHOD''), (''script_name'', ''SCRIPT_NAME''),
     (''path_info'', ''PATH_INFO''), (''content_type'', ''CONTENT_TYPE''),
     (''content_length'', ''CONTENT_LENGTH''), (''wsgi_query_string'', ''QUERY_STRING''),
     (''server_name'', ''SERVER_NAME''), (''server_port'', ''SERVER_PORT''),
     (''server_protocol'', ''SERVER_PROTOCOL''), (''wsgi_version'', ''wsgi.version''),
     (''wsgi_url_scheme'', ''wsgi.url_scheme''), (''wsgi_input'', ''wsgi.input''),
     (''wsgi_errors'', ''wsgi.errors''), (''wsgi_multithread'', ''wsgi.multithread''),
     (''wsgi_multiprocess'', ''wsgi.multiprocess''), (''wsgi_run_once'', ''wsgi.run_once''),
     (''wsgi_http_10'', ''HTTP/1.0''), (''wsgi_http_11'', ''HTTP/1.1''), (''wsgi_http_2'', ''HTTP/2''),
     (''wsgi_http_3'', ''HTTP/3''), (''wsgi_ext_tls_version'', ''wsgi.ext.tls.tls_version''),
     (''wsgi_ext_tls_client_cert_name'', ''wsgi.ext.tls.client_cert_name''),
     (''wsgi_ext_http_send_trailers'', ''wsgi.ext.http.send_trailers''), (''close'', ''close''),
     (''total_seconds'', ''total_seconds''), (''with_traceback'', ''with_traceback''), (''add'', ''add''),
     (''content'', ''content''), (''items'', ''items''), (''json'', ''_json''),
     (''set_request_iter_task'', ''_set_request_iter_task''), (''url'', ''url'')]"

text \<open>What \<open>Constants::create\<close> makes of them.\<close>

definition constant_texts :: "(bytes \<times> bytes) list" where
  "constant_texts =
    [(''asgi'', ''asgi''), (''extensions'', ''extensions''), (''http'', ''http''), (''https'', ''https''),
     (''lifespan'', ''lifespan''), (''lifespan_startup'', ''lifespan.startup''),
     (''lifespan_shutdown'', ''lifespan.shutdown''), (''message'', ''message''), (''method'', ''method''),
     (''path'', ''path''), (''scheme'', ''scheme''), (''state'', ''state''), (''typ'', ''type''),
     (''tls'', ''tls''), (''tls_version'', ''tls_version''), (''client_cert_name'', ''client_cert_name''),
     (''http_version'', ''http_version''), (''http_10'', ''1.0''), (''http_11'', ''1.1''),
     (''http_2'', ''2''), (''http_3'', ''3''), (''options'', ''OPTIONS''), (''get'', ''GET''),
     (''post'', ''POST''), (''put'', ''PUT''), (''delete'', ''DELETE''), (''head'', ''HEAD''),
     (''trace'', ''TRACE''), (''patch'', ''PATCH''), (''raw_path'', ''raw_path''),
     (''query_string'', ''query_string''), (''root_path'', ''root_path''), (''headers'', ''headers''),
     (''client'', ''client''), (''server'', ''server''), (''body'', ''body''),
     (''more_body'', ''more_body''), (''http_request'', ''http.request''), (''bytes'', ''bytes''),
     (''code'', ''code''), (''reason'', ''reason''), (''text'', ''text''),
     (''subprotocol'', ''subprotocol''), (''subprotocols'', ''subprotocols''),
     (''websocket'', ''websocket''), (''websocket_connect'', ''websocket.connect''),
     (''websocket_disconnect'', ''websocket.disconnect''), (''websocket_receive'', ''websocket.receive''),
     (''asyncio'', ''asyncio''), (''cancel'', ''cancel''), (''cancelled'', ''cancelled''),
     (''done'', ''done''), (''get_task_factory'', ''get_task_factory''),
     (''run_coroutine_threadsafe'', ''run_coroutine_threadsafe''), (''create_task'', ''create_task''),
     (''add_done_callback'', ''add_done_callback''), (''call_soon_threadsafe'', ''call_soon_threadsafe''),
     (''set_result'', ''set_result''), (''set_exception'', ''set_exception''),
     (''create_future'', ''create_future''), (''result'', ''result''), (''stop'', ''stop''),
     (''status'', ''status''), (''trailers'', ''trailers''), (''more_trailers'', ''more_trailers''),
     (''request_method'', ''REQUEST_METHOD''), (''script_name'', ''SCRIPT_NAME''),
     (''path_info'', ''PATH_INFO''), (''content_type'', ''CONTENT_TYPE''),
     (''content_length'', ''CONTENT_LENGTH''), (''wsgi_query_string'', ''QUERY_STRING''),
     (''server_name'', ''SERVER_NAME''), (''server_port'', ''SERVER_PORT''),
     (''server_protocol'', ''SERVER_PROTOCOL''), (''wsgi_version'', ''wsgi.version''),
     (''wsgi_url_scheme'', ''wsgi.url_scheme''), (''wsgi_input'', ''wsgi.input''),
     (''wsgi_errors'', ''wsgi.errors''), (''wsgi_multithread'', ''wsgi.multithread''),
     (''wsgi_multiprocess'', ''wsgi.multiprocess''), (''wsgi_run_once'', ''wsgi.run_once''),
     (''wsgi_http_10'', ''HTTP/1.0''), (''wsgi_http_11'', ''HTTP/1.1''), (''wsgi_http_2'', ''HTTP/2''),
     (''wsgi_http_3'', ''HTTP/3''), (''wsgi_ext_tls_version'', ''wsgi.ext.tls.tls_version''),
     (''wsgi_ext_tls_client_cert_name'', ''wsgi.ext.tls.client_cert_name''),
     (''wsgi_ext_http_send_trailers'', ''wsgi.ext.http.send_trailers''), (''close'', ''close''),
     (''total_seconds'', ''total_seconds''), (''with_traceback'', ''with_traceback''),
     (''empty_string'', []), (''add'', ''add''), (''content'', ''content''), (''items'', ''items''),
     (''json'', ''_json''), (''set_request_iter_task'', ''_set_request_iter_task''), (''url'', ''url'')]"

text \<open>The Python objects that are no strings: the imports, attributes and calls are the host's.\<close>

record 'm const_host =
  kh_disconnected :: "pyerr + pyval"
  kh_import :: "bytes \<Rightarrow> pyerr + 'm"
  kh_getattr :: "'m \<Rightarrow> bytes \<Rightarrow> pyerr + pyval"
  kh_attr :: "pyval \<Rightarrow> bytes \<Rightarrow> pyerr + pyval"
  kh_call :: "pyval \<Rightarrow> pyval list \<Rightarrow> pyerr + pyval"

definition empty_recv_constants :: "(bytes \<times> pyval) list" where
  "empty_recv_constants =
     [(''asgi_empty_recv'', PyDict [(''type'', PyStr ''http.request''), (''body'', PyBytes []), (''more_body'', PyBool False)]),
      (''asgi_empty_recv_disconnect'', PyDict [(''type'', PyStr ''http.disconnect'')])]"

definition class_constants :: "'m const_host \<Rightarrow> 'm \<Rightarrow> pyerr + (bytes \<times> pyval) list" where
  "class_constants h pyqwest =
     pmap (\<lambda>(field, name). pbind (kh_getattr h pyqwest name) (\<lambda>v. Inr (field, v)))
       [(''class_pyqwest_headers'', ''Headers''), (''class_pyqwest_response'', ''Response''),
        (''class_pyqwest_sync_response'', ''SyncResponse''), (''class_pyqwest_read_error'', ''ReadError''),
        (''class_pyqwest_write_error'', ''WriteError'')]"

definition contextvar_constants :: "'m const_host \<Rightarrow> bytes \<Rightarrow> pyval \<Rightarrow> pyerr + (bytes \<times> pyval) list" where
  "contextvar_constants h prefix var =
     pmap (\<lambda>name. pbind (kh_attr h var name) (\<lambda>v. Inr (prefix @ name, v))) [''get'', ''set'', ''reset'']"

definition constants_create :: "'m const_host \<Rightarrow> pyerr + (bytes \<times> pyval) list" where
  "constants_create h =
     pbind (kh_disconnected h) (\<lambda>disconnected.
     pbind (kh_import h ''pyqwest'') (\<lambda>pyqwest.
     pbind (kh_import h ''contextvars'') (\<lambda>contextvars.
     pbind (kh_getattr h contextvars ''ContextVar'') (\<lambda>c.
     pbind (kh_call h c [PyStr ''pyvoy.asgi.transport_bridge'']) (\<lambda>asgi_var.
     pbind (kh_getattr h contextvars ''ContextVar'') (\<lambda>c.
     pbind (kh_call h c [PyStr ''pyvoy.wsgi.transport_bridge'']) (\<lambda>wsgi_var.
     pbind (kh_import h ''pyvoy._glue'') (\<lambda>glue.
     pbind (kh_getattr h glue ''forward_bytes'') (\<lambda>forward.
     pbind (kh_getattr h glue ''close_request_iterator'') (\<lambda>close_iter.
     pbind (kh_import h ''pyqwest._pyqwest'') (\<lambda>pyqwest_rs.
     pbind (kh_getattr h pyqwest_rs ''get_sync_timeout'') (\<lambda>timeout.
     pbind (class_constants h pyqwest) (\<lambda>classes.
     pbind (contextvar_constants h ''transport_bridge_contextvar_'' asgi_var) (\<lambda>asgi_vars.
     pbind (contextvar_constants h ''wsgi_transport_bridge_contextvar_'' wsgi_var) (\<lambda>wsgi_vars.
       Inr (map (\<lambda>(field, text). (field, PyStr text)) constant_texts @ empty_recv_constants
            @ [(''empty_bytes'', PyBytes [])] @ classes
            @ [(''glue_forward_bytes'', forward), (''glue_close_request_iterator'', close_iter),
               (''get_sync_timeout'', timeout)]
            @ asgi_vars @ wsgi_vars @ [(''client_disconnected_err'', disconnected)]))))))))))))))))"

text \<open>\<open>Constants::get\<close> makes the table once; a failure is a panic.\<close>

definition constants_get :: "'m const_host \<Rightarrow> (bytes \<times> pyval) list option \<Rightarrow> (bytes \<times> pyval) list rust" where
  "constants_get h instance =
     (case instance of
        Some cs \<Rightarrow> Ret cs
      | None \<Rightarrow> (case constants_create h of Inr cs \<Rightarrow> Ret cs | Inl _ \<Rightarrow> Panic))"

section \<open>The table is what it says\<close>

abbreviation const_text :: "bytes \<Rightarrow> bytes option" where
  "const_text field \<equiv> map_of constant_texts field"

text \<open>
  Every string holds the text that its documentation gives, and the struct and its initialiser
  name the same strings; the only one that has no documented text is the empty string.
\<close>

lemma constants_documented:
  "insert (''empty_string'', []) (set (request_constant_docs @ response_constant_docs)) = set constant_texts"
  unfolding request_constant_docs_def response_constant_docs_def constant_texts_def
  by (simp only: append.simps list.set insert_commute)

text \<open>The texts that theory \<open>Request_Scope\<close> writes are those of the fields that the code uses.\<close>

definition version_field :: "http_version \<Rightarrow> bytes" where
  "version_field v = (case v of HTTP_10 \<Rightarrow> ''http_10'' | HTTP_11 \<Rightarrow> ''http_11'' | HTTP_2 \<Rightarrow> ''http_2''
     | HTTP_3 \<Rightarrow> ''http_3'' | _ \<Rightarrow> ''http_11'')"

lemma set_http_version_constants:
  "set_http_version v d = dict_set (the (const_text ''http_version'')) (PyStr (the (const_text (version_field v)))) d"
  "set_http_version_wsgi v d =
     dict_set (the (const_text ''server_protocol'')) (PyStr (the (const_text (''wsgi_'' @ version_field v)))) d"
proof -
  have "list_all (\<lambda>v. const_text (version_field v) = Some (case v of HTTP_10 \<Rightarrow> ''1.0'' | HTTP_11 \<Rightarrow> ''1.1''
        | HTTP_2 \<Rightarrow> ''2'' | HTTP_3 \<Rightarrow> ''3'' | _ \<Rightarrow> ''1.1'')
      \<and> const_text (''wsgi_'' @ version_field v) = Some (case v of HTTP_10 \<Rightarrow> ''HTTP/1.0'' | HTTP_11 \<Rightarrow> ''HTTP/1.1''
        | HTTP_2 \<Rightarrow> ''HTTP/2'' | HTTP_3 \<Rightarrow> ''HTTP/3'' | _ \<Rightarrow> ''HTTP/1.1'')) [HTTP_09, HTTP_10, HTTP_11, HTTP_2, HTTP_3]"
    by code_simp
  moreover have "const_text ''http_version'' = Some ''http_version''" "const_text ''server_protocol'' = Some ''SERVER_PROTOCOL''"
    by code_simp+
  ultimately show "set_http_version v d = dict_set (the (const_text ''http_version'')) (PyStr (the (const_text (version_field v)))) d"
    "set_http_version_wsgi v d =
     dict_set (the (const_text ''server_protocol'')) (PyStr (the (const_text (''wsgi_'' @ version_field v)))) d"
    by (cases v; simp add: set_http_version_def set_http_version_wsgi_def)+
qed

text \<open>A table that can be made has every field, whatever Python gives for the others.\<close>

lemma constants_create_fields:
  assumes "constants_create h = Inr cs"
  shows "map fst cs = map fst constant_texts
    @ [''asgi_empty_recv'', ''asgi_empty_recv_disconnect'', ''empty_bytes'', ''class_pyqwest_headers'',
       ''class_pyqwest_response'', ''class_pyqwest_sync_response'', ''class_pyqwest_read_error'',
       ''class_pyqwest_write_error'', ''glue_forward_bytes'', ''glue_close_request_iterator'', ''get_sync_timeout'']
    @ map (append ''transport_bridge_contextvar_'') [''get'', ''set'', ''reset'']
    @ map (append ''wsgi_transport_bridge_contextvar_'') [''get'', ''set'', ''reset'']
    @ [''client_disconnected_err'']"
proof -
  have c: "map fst classes = [''class_pyqwest_headers'', ''class_pyqwest_response'', ''class_pyqwest_sync_response'',
      ''class_pyqwest_read_error'', ''class_pyqwest_write_error'']" if "class_constants h q = Inr classes" for q classes
    using that by (auto simp: class_constants_def pbind_Inr_conv)
  have v: "map fst vars = map (append prefix) [''get'', ''set'', ''reset'']"
    if "contextvar_constants h prefix var = Inr vars" for prefix var vars
    using that by (auto simp: contextvar_constants_def pbind_Inr_conv)
  have "map fst (map (\<lambda>(field, text). (field, PyStr text)) ts) = map fst ts" for ts :: "(bytes \<times> bytes) list"
    by (induction ts) auto
  with assms show ?thesis
    by (auto simp: constants_create_def pbind_Inr_conv empty_recv_constants_def dest!: c v)
qed

end
