(* ===== verification/Spec2Isabelle.thy ===== *)
theory Spec2Isabelle
  imports Event_Bridge Trace_Context Request_Scope Work_Queue Blocking_Pool Wsgi_Read
    Wsgi_Response Wsgi_Transport Transport_Timeout Wsgi_Filter Wsgi_App Wsgi_Shutdown Wsgi_Run
    Event_Loop Loop_Shutdown Envoy_Api Asgi_Shared Asgi_Lifespan Asgi_App Asgi_Transport Asgi_Client Asgi_Filter Asgi_Request
    Ws_Stream Ws_App Ws_Filter Ws_Connection Ws_Runs Ws_Request Filter_Config
    Python_Startup
begin

text \<open>
  A model of pyvoy, the Envoy dynamic module that serves Python WSGI and ASGI applications.

  The program. Envoy's worker threads call the callbacks of an HTTP filter, one filter per
  request, and must never wait for the Python interpreter. Python code runs on other threads:
  WSGI applications on a pool of workers, ASGI applications on event loops. The two sides hand
  events to each other: Python puts events on a bridge (\<open>src/src/eventbridge.rs\<close>) and schedules the
  filter, the filter answers over channels (WSGI) or by completing futures on the application's
  loop (ASGI). The HTTP client that applications may use goes the same way, through streams
  that the filter opens in Envoy.

  Shared theories.
  \<open>Prelude\<close>: bytes, strings, panics as values, the library calls of Rust that the code uses, and the
  contracts (locales) of invariants of step relations and of machines driven by inputs.
  \<open>Py_Values\<close>: Python values, exceptions and dictionaries as the code builds and inspects them.
  \<open>Event_Bridge\<close> (\<open>src/src/eventbridge.rs\<close>): the bridge, with its contract as a locale that is
  interpreted on it; first in first out, exactly once, closed for good.
  \<open>Envoy_Api\<close>: the calls a filter makes on Envoy, Envoy's answers, and the rule that the calls
  writing a response must follow.
  \<open>Request_Scope\<close> (\<open>src/src/envoy.rs\<close>, \<open>src/src/types.rs\<close>, \<open>src/src/asgi/shared/scope.rs\<close>): what is
  read of a request, its body buffers, the scope, and the ASGI scope dictionary.
  \<open>Header_Names\<close> (\<open>src/src/headernames.rs\<close>): the memoised header names, equal to the conversion they
  replace. \<open>Trace_Context\<close> (\<open>src/src/tracecontext.rs\<close>): sampling and the \<open>traceparent\<close> header.

  WSGI.
  \<open>Work_Queue\<close> (\<open>src/src/wsgi/queue.rs\<close>) and \<open>Blocking_Pool\<close> (\<open>src/src/wsgi/pool.rs\<close>): step relations
  whose steps are the critical sections and atomic accesses; order, no lost wake-up, accounting
  of the threads and jobs, and what holds after the shutdown.
  \<open>Wsgi_Shutdown\<close>: the worker threads with the queue and the pool, as one step relation that is
  proved to be a run of each; a shutdown completes what was accepted, and ends.
  \<open>Wsgi_App\<close> (\<open>src/src/wsgi/python.rs\<close>): the environ, the input and error streams, and a worker
  running an application without interruption, which always ends the response.
  \<open>Wsgi_Run\<close> (the same file, \<open>src/src/ondrop.rs\<close>): the worker again, as a machine that waits for
  the token of each chunk and runs its guards, interleaved with the filter. It is proved to make
  the uninterrupted run, to end, to stay one chunk ahead of Envoy, and to clean up also after
  errors.
  \<open>Wsgi_Response\<close> (\<open>src/src/wsgi/response.rs\<close>): the events of a response and their order.
  \<open>Wsgi_Read\<close> and \<open>Wsgi_Filter\<close> (\<open>src/src/wsgi/filter.rs\<close>): the callbacks of the filter; reads are
  answered with exactly the bytes asked for, the response is well formed and complete,
  watermarks do not stall it, and the upstream channels carry one conversation each.
  \<open>Wsgi_Transport\<close>, \<open>Transport_Timeout\<close> (\<open>src/src/wsgi/transport.rs\<close>): the synchronous HTTP client.

  ASGI.
  \<open>Event_Loop\<close> (\<open>src/src/asgi/shared/eventloop.rs\<close>): how tasks reach a loop; none is lost or
  reordered, and the loop's own steps end; what is lost when a call into the loop fails.
  \<open>Loop_Shutdown\<close> (the same file): the calls of a loop's thread from its handle to its end,
  with its waker thread, under any interleaving with tasks that are still dispatched; after
  \<open>stop\<close> both threads end and \<open>join\<close> returns.
  \<open>Asgi_Shared\<close> (\<open>awaitable.rs\<close>, \<open>headers.rs\<close>, \<open>app.rs\<close> of \<open>src/src/asgi/shared/\<close>).
  \<open>Asgi_Lifespan\<close> (\<open>src/src/asgi/shared/lifespan.rs\<close>): the lifespan protocol on both sides.
  \<open>Asgi_App\<close> (\<open>src/src/asgi/python/mod.rs\<close>): the receive and send callables, the end of the
  application, and the tasks that complete its futures.
  \<open>Asgi_Transport\<close> (\<open>src/src/asgi/transport.rs\<close> and the upstream half of \<open>src/src/asgi/filter.rs\<close>):
  the asynchronous HTTP client. \<open>Asgi_Client\<close>: its runs, any interleaving of the application, the
  loop and Envoy; bodies are conserved, reads wake up, response futures are accounted for.
  \<open>Asgi_Filter\<close> (the rest of \<open>src/src/asgi/filter.rs\<close>): the callbacks, also when Envoy completes the
  stream inside a response call, and the machine of filter, application, client and Envoy.
  \<open>Asgi_Request\<close>: what holds of its runs; futures are completed once, nothing stalls, bodies arrive
  unchanged, the response is well formed, and the client inside is the client studied alone.

  WebSockets (\<open>src/src/asgi/websocket/\<close>), a network filter that speaks to its client through the
  library tungstenite over a stream in memory.
  \<open>Ws_Stream\<close> (\<open>stream.rs\<close>): the stream between Envoy's buffers and the library; no byte is lost,
  and a read takes a bounded block so that the rest holds the client back.
  \<open>Ws_App\<close> (\<open>executor.rs\<close>): the receive and send callables, the end of the application, and the
  tasks that complete its futures.
  \<open>Loops\<close>: a Rust \<open>loop\<close> as a partial function, total under a measure.
  \<open>Ws_Filter\<close> (\<open>mod.rs\<close>): the callbacks of the filter and the machine of filter, application, client
  and Envoy. \<open>Ws_Connection\<close>: what is relied on of the library, and what each operation of the
  filter does under it. \<open>Ws_Runs\<close>: what holds of all runs; callbacks return, futures are completed
  once and in order, messages go through in order, nothing stalls, other traffic is passed on.
  \<open>Ws_Request\<close>: the subprotocols and the scope.

  Configuration.
  \<open>Filter_Config\<close> (\<open>src/src/lib.rs\<close>, \<open>Config::new\<close> of the filters, \<open>load_app\<close>, \<open>EventLoop::new\<close>): the
  fields of a configuration document and what accepting one starts.
  \<open>Python_Startup\<close> (\<open>init\<close> in \<open>src/src/lib.rs\<close>, \<open>Constants\<close> in \<open>src/src/types.rs\<close>, the modules
  registered by \<open>src/src/asgi/transport.rs\<close> and \<open>src/src/wsgi/transport.rs\<close>): the start of the
  module as calls that may raise, its exit hook, and the table of Python strings, each equal to
  what its documentation says.

  Conventions. A mutex-guarded section is one function of its content; shared objects of
  Python and Rust are indices into lists; futures are numbers and loop tasks are values. Calls
  on Envoy are logged, and its answers are functions of the log, so that re-entrant callbacks
  are part of the handlers. What is not in the repository (Envoy's draining of buffers, the
  parsers of the \<open>http\<close> and \<open>url\<close> crates, pyqwest, tungstenite, the YAML library, the Python
  application) is an argument; the hypotheses about it (\<open>drain_law\<close>, \<open>net_drain_law\<close>, \<open>client_ok\<close>,
  \<open>fresh_handles\<close>, \<open>http_constants\<close>, \<open>ws_law\<close>, \<open>yaml_law\<close>) each have a witness. The functions of
  tungstenite are programs over the stream (type \<open>io\<close>), so that what they read and write is
  the stream's own. \<open>ws_law\<close> says that a handshake round that wants to go on has read something
  and reading a request writes nothing, that a message takes bytes, that a WebSocket stays active
  until a close or an error, and that sending on an active one succeeds. Envoy is relied on to read
  nothing from a connection it closed, to report a write watermark only after a write, and
  to report each fall below it once. Machine integers that may wrap are words. No function
  needs fuel: loops run over what Envoy or the application delivers, which is a list; the loops
  over tungstenite, and awaiting, are partial functions, and the former are proved to end. Where
  threads interleave, that they end is proved with a measure (\<open>work_size\<close> of a WSGI worker,
  \<open>shut_work\<close> of a loop's threads) that every step of their own lowers.

  Not modelled: every Rust component is a theory above; left out of them are log lines, the
  making of the pair of sockets and the pinning of the library on Windows (their failures are
  arguments), threads that panic, applications that use the HTTP client from threads of their
  own, and \<open>run_forever\<close> of the Python loop, of which only its return after \<open>stop\<close> is relied on.
  The Python files under \<open>src/pyvoy/\<close> (command line, runner, glue), the tests, the examples and
  the benchmarks are not part of the module.
\<close>

end
